(* ===== verification/Prelude.thy ===== *)
theory Prelude
  imports Main "HOL-Library.Word" "HOL-Library.Sublist"
begin

text \<open>
  Shared vocabulary of the development: the machine integers of the Rust code, the
  error-or-value results and their chaining (the \<^verbatim>\<open>?\<close> operator), saturating and
  checked arithmetic, UTF-8 strings as lists of bytes, and decimal and hexadecimal numerals
  as the Rust standard library prints and parses them.

  A Rust \<^verbatim>\<open>String\<close> is a list of \<open>char\<close>, one per UTF-8 byte, so \<open>length\<close> is
  \<^verbatim>\<open>str::len\<close>. \<^verbatim>\<open>str::trim\<close> removes every Unicode White\_Space character; case
  conversion is the ASCII part of \<^verbatim>\<open>str::to_lowercase\<close> (other bytes are unchanged).
\<close>

type_synonym u8 = "8 word"
type_synonym u32 = "32 word"
type_synonym u64 = "64 word"
type_synonym u128 = "128 word"

named_theorems result_iff \<open>when a chain of fallible steps succeeds\<close>
named_theorems string_simps \<open>evaluation of the string routines\<close>

subsection \<open>Results\<close>

definition and_then :: "'e + 'a \<Rightarrow> ('a \<Rightarrow> 'e + 'b) \<Rightarrow> 'e + 'b" where
  "and_then r k = (case r of Inl e \<Rightarrow> Inl e | Inr a \<Rightarrow> k a)"

definition map_err :: "('e \<Rightarrow> 'f) \<Rightarrow> 'e + 'a \<Rightarrow> 'f + 'a" where
  "map_err f r = (case r of Inl e \<Rightarrow> Inl (f e) | Inr a \<Rightarrow> Inr a)"

definition ok_or :: "'e \<Rightarrow> 'a option \<Rightarrow> 'e + 'a" where
  "ok_or e x = (case x of None \<Rightarrow> Inl e | Some a \<Rightarrow> Inr a)"

definition ensure :: "bool \<Rightarrow> 'e \<Rightarrow> 'e + unit" where
  "ensure b e = (if b then Inr () else Inl e)"

lemma and_then_simps [simp]:
  "and_then (Inl e) k = Inl e"
  "and_then (Inr a) k = k a"
  by (simp_all add: and_then_def)

lemma map_err_simps [simp]:
  "map_err f (Inl e) = Inl (f e)"
  "map_err f (Inr a) = Inr a"
  by (simp_all add: map_err_def)

lemma ok_or_simps [simp]:
  "ok_or e None = Inl e"
  "ok_or e (Some a) = Inr a"
  by (simp_all add: ok_or_def)

lemma ensure_simps [simp]:
  "ensure True e = Inr ()"
  "ensure False e = Inl e"
  by (simp_all add: ensure_def)

lemma and_then_eq_Inr [result_iff]:
  "and_then r k = Inr b \<longleftrightarrow> (\<exists>a. r = Inr a \<and> k a = Inr b)"
  by (cases r) auto

lemma and_then_eq_Inl [result_iff]:
  "and_then r k = Inl e \<longleftrightarrow> r = Inl e \<or> (\<exists>a. r = Inr a \<and> k a = Inl e)"
  by (cases r) auto

lemma map_err_eq_Inr [result_iff]: "map_err f r = Inr a \<longleftrightarrow> r = Inr a"
  by (cases r) auto

lemma ok_or_eq_Inr [result_iff]: "ok_or e x = Inr a \<longleftrightarrow> x = Some a"
  by (cases x) auto

lemma ok_or_eq_Inl [result_iff]: "ok_or e x = Inl e' \<longleftrightarrow> x = None \<and> e' = e"
  by (cases x) auto

lemma ensure_eq_Inr [result_iff]: "ensure b e = Inr u \<longleftrightarrow> b"
  by (cases b) auto

lemma ensure_eq_Inl [result_iff]: "ensure b e = Inl e' \<longleftrightarrow> \<not> b \<and> e' = e"
  by (cases b) auto

lemma and_then_cong [fundef_cong]:
  "r = r' \<Longrightarrow> (\<And>a. r' = Inr a \<Longrightarrow> k a = k' a) \<Longrightarrow> and_then r k = and_then r' k'"
  by (cases r') auto

text \<open>\<^verbatim>\<open>iter().map(f).collect::<Result<Vec<_>, _>>()\<close>: the first error wins.\<close>

fun map_result :: "('a \<Rightarrow> 'e + 'b) \<Rightarrow> 'a list \<Rightarrow> 'e + 'b list" where
  "map_result f [] = Inr []"
| "map_result f (x # xs) = and_then (f x) (\<lambda>y. and_then (map_result f xs) (\<lambda>ys. Inr (y # ys)))"

lemma map_result_Inr [result_iff]:
  "map_result f xs = Inr ys \<longleftrightarrow> list_all2 (\<lambda>x y. f x = Inr y) xs ys"
  by (induction xs arbitrary: ys) (auto simp: result_iff list_all2_Cons1)

subsection \<open>Saturating and checked arithmetic\<close>

definition saturating_add :: "'n::len word \<Rightarrow> 'n word \<Rightarrow> 'n word" where
  "saturating_add a b = (if unat a + unat b < 2 ^ LENGTH('n) then a + b else - 1)"

definition saturating_sub :: "'n::len word \<Rightarrow> 'n word \<Rightarrow> 'n word" where
  "saturating_sub a b = (if b \<le> a then a - b else 0)"

definition checked_add :: "'n::len word \<Rightarrow> 'n word \<Rightarrow> 'n word option" where
  "checked_add a b = (if unat a + unat b < 2 ^ LENGTH('n) then Some (a + b) else None)"

lemma unat_add_no_overflow:
  fixes a b :: "'n::len word"
  shows "unat a + unat b < 2 ^ LENGTH('n) \<Longrightarrow> unat (a + b) = unat a + unat b"
  by (simp add: unat_word_ariths)

lemma unat_less_exp: "unat (a :: 'n::len word) < 2 ^ LENGTH('n)"
  by (rule unsigned_less)

lemma unat_saturating_add:
  fixes a b :: "'n::len word"
  shows "unat (saturating_add a b) = min (unat a + unat b) (2 ^ LENGTH('n) - 1)"
proof (cases "unat a + unat b < 2 ^ LENGTH('n)")
  case True
  then show ?thesis by (simp add: saturating_add_def unat_add_no_overflow)
next
  case False
  then show ?thesis by (simp add: saturating_add_def unsigned_minus_1_eq_mask mask_eq_exp_minus_1)
qed

lemma saturating_add_ge:
  fixes a b :: "'n::len word"
  shows "a \<le> saturating_add a b"
proof -
  have "unat a \<le> 2 ^ LENGTH('n) - 1"
    using unat_less_exp [of a] by linarith
  then show ?thesis by (simp add: word_le_nat_alt unat_saturating_add)
qed

lemma checked_add_Some:
  fixes a b :: "'n::len word"
  shows "checked_add a b = Some c \<longleftrightarrow> unat c = unat a + unat b"
proof
  assume "checked_add a b = Some c"
  then show "unat c = unat a + unat b"
    by (auto simp: checked_add_def unat_add_no_overflow split: if_splits)
next
  assume c: "unat c = unat a + unat b"
  then have fits: "unat a + unat b < 2 ^ LENGTH('n)"
    using unat_less_exp [of c] by simp
  then have "unat (a + b) = unat c" using c by (simp add: unat_add_no_overflow)
  then have "a + b = c" by (simp only: word_unat_eq_iff)
  with fits show "checked_add a b = Some c" by (simp add: checked_add_def)
qed

end
