(* ===== verification/Strings.thy ===== *)
theory Strings
  imports Prelude
begin

text \<open>
  The string and numeral routines of the Rust standard library that the program uses:
  \<^verbatim>\<open>trim\<close>, \<^verbatim>\<open>contains\<close>, \<^verbatim>\<open>starts_with\<close>, \<^verbatim>\<open>split\<close>, \<^verbatim>\<open>join\<close>, \<^verbatim>\<open>to_lowercase\<close>,
  \<^verbatim>\<open>eq_ignore_ascii_case\<close>, integer \<^verbatim>\<open>to_string\<close> and \<^verbatim>\<open>{:0w$x}\<close> formatting, and the
  unsigned \<^verbatim>\<open>from_str_radix\<close>. Their round trips are proved here once.
\<close>

subsection \<open>Bytes and case\<close>

definition byte :: "char \<Rightarrow> nat" where
  "byte c = of_char c"

definition is_digit :: "char \<Rightarrow> bool" where
  "is_digit c \<longleftrightarrow> 48 \<le> byte c \<and> byte c \<le> 57"

definition lower_char :: "char \<Rightarrow> char" where
  "lower_char c = (if 65 \<le> byte c \<and> byte c \<le> 90 then char_of (byte c + 32) else c)"

definition to_lower :: "string \<Rightarrow> string" where
  "to_lower s = map lower_char s"

definition eq_ignore_case :: "string \<Rightarrow> string \<Rightarrow> bool" where
  "eq_ignore_case s t \<longleftrightarrow> to_lower s = to_lower t"

lemma byte_bound: "byte c < 256"
  by (simp add: byte_def)

lemma byte_inject [simp]: "byte c = byte d \<longleftrightarrow> c = d"
  by (simp add: byte_def)

lemma byte_char_of: "n < 256 \<Longrightarrow> byte (char_of n) = n"
  by (simp add: byte_def)

lemma lower_char_idem [simp]: "lower_char (lower_char c) = lower_char c"
  by (auto simp: lower_char_def byte_char_of)

lemma to_lower_idem [simp]: "to_lower (to_lower s) = to_lower s"
  by (simp add: to_lower_def)

lemma length_to_lower [simp]: "length (to_lower s) = length s"
  by (simp add: to_lower_def)

lemma to_lower_append: "to_lower (s @ t) = to_lower s @ to_lower t"
  by (simp add: to_lower_def)

lemma to_lower_digits: "\<forall>c \<in> set s. is_digit c \<Longrightarrow> to_lower s = s"
  unfolding to_lower_def by (rule map_idI) (auto simp: is_digit_def lower_char_def)

lemma eq_ignore_case_refl [simp]: "eq_ignore_case s s"
  by (simp add: eq_ignore_case_def)

lemma eq_ignore_case_sym: "eq_ignore_case s t \<Longrightarrow> eq_ignore_case t s"
  by (simp add: eq_ignore_case_def)

lemma eq_ignore_case_trans: "eq_ignore_case s t \<Longrightarrow> eq_ignore_case t u \<Longrightarrow> eq_ignore_case s u"
  by (simp add: eq_ignore_case_def)

subsection \<open>White space\<close>

text \<open>
  The byte sequences of the Unicode White\_Space characters: the six ASCII ones, U+0085, U+00A0,
  U+1680, U+2000 to U+200A, U+2028, U+2029, U+202F, U+205F and U+3000.
\<close>

definition white1 :: "char \<Rightarrow> bool" where
  "white1 c \<longleftrightarrow> byte c = 32 \<or> 9 \<le> byte c \<and> byte c \<le> 13"

definition white2 :: "char \<Rightarrow> char \<Rightarrow> bool" where
  "white2 c d \<longleftrightarrow> byte c = 0xC2 \<and> (byte d = 0x85 \<or> byte d = 0xA0)"

definition white3 :: "char \<Rightarrow> char \<Rightarrow> char \<Rightarrow> bool" where
  "white3 c d e \<longleftrightarrow>
     byte c = 0xE1 \<and> byte d = 0x9A \<and> byte e = 0x80
   \<or> byte c = 0xE2 \<and> byte d = 0x80 \<and>
       (0x80 \<le> byte e \<and> byte e \<le> 0x8A \<or> byte e = 0xA8 \<or> byte e = 0xA9 \<or> byte e = 0xAF)
   \<or> byte c = 0xE2 \<and> byte d = 0x81 \<and> byte e = 0x9F
   \<or> byte c = 0xE3 \<and> byte d = 0x80 \<and> byte e = 0x80"

fun strip_white :: "string \<Rightarrow> string option" where
  "strip_white (c # s) =
     (if white1 c then Some s
      else case s of
        [] \<Rightarrow> None
      | d # s' \<Rightarrow>
          if white2 c d then Some s'
          else case s' of
            [] \<Rightarrow> None
          | e # s'' \<Rightarrow> if white3 c d e then Some s'' else None)"
| "strip_white [] = None"

text \<open>The same from the end, on the reversed bytes.\<close>

fun strip_white_rev :: "string \<Rightarrow> string option" where
  "strip_white_rev (c # s) =
     (if white1 c then Some s
      else case s of
        [] \<Rightarrow> None
      | d # s' \<Rightarrow>
          if white2 d c then Some s'
          else case s' of
            [] \<Rightarrow> None
          | e # s'' \<Rightarrow> if white3 e d c then Some s'' else None)"
| "strip_white_rev [] = None"

lemma strip_white_shorter: "strip_white s = Some r \<Longrightarrow> length r < length s"
  by (cases s) (auto split: if_splits list.splits)

lemma strip_white_rev_shorter: "strip_white_rev s = Some r \<Longrightarrow> length r < length s"
  by (cases s) (auto split: if_splits list.splits)

function trim_start :: "string \<Rightarrow> string" where
  "trim_start s = (case strip_white s of None \<Rightarrow> s | Some r \<Rightarrow> trim_start r)"
  by pat_completeness auto
termination
  by (relation "measure length") (auto simp: strip_white_shorter)

function trim_rev :: "string \<Rightarrow> string" where
  "trim_rev s = (case strip_white_rev s of None \<Rightarrow> s | Some r \<Rightarrow> trim_rev r)"
  by pat_completeness auto
termination
  by (relation "measure length") (auto simp: strip_white_rev_shorter)

declare trim_start.simps [simp del] trim_rev.simps [simp del]

lemma trim_start_step [string_simps]:
  "strip_white s = None \<Longrightarrow> trim_start s = s"
  "strip_white s = Some r \<Longrightarrow> trim_start s = trim_start r"
  by (simp_all add: trim_start.simps [of s])

lemma trim_rev_step [string_simps]:
  "strip_white_rev s = None \<Longrightarrow> trim_rev s = s"
  "strip_white_rev s = Some r \<Longrightarrow> trim_rev s = trim_rev r"
  by (simp_all add: trim_rev.simps [of s])

lemma trim_Nil [simp]: "trim_start [] = []" "trim_rev [] = []"
  by (simp_all add: trim_start.simps trim_rev.simps)

definition trim_end :: "string \<Rightarrow> string" where
  "trim_end s = rev (trim_rev (rev s))"

definition trim :: "string \<Rightarrow> string" where
  "trim s = trim_end (trim_start s)"

definition plain :: "char \<Rightarrow> bool" where
  "plain c \<longleftrightarrow> 33 \<le> byte c \<and> byte c \<le> 126"

lemma plain_not_white:
  "plain c \<Longrightarrow> \<not> white1 c" "plain c \<Longrightarrow> \<not> white2 c d" "plain c \<Longrightarrow> \<not> white3 c d e"
  "plain d \<Longrightarrow> \<not> white2 c d" "plain e \<Longrightarrow> \<not> white3 c d e"
  by (auto simp: plain_def white1_def white2_def white3_def)

lemma trim_start_plain: "plain c \<Longrightarrow> trim_start (c # s) = c # s"
  by (rule trim_start_step) (auto simp: plain_not_white split: list.splits)

lemma trim_rev_plain: "plain c \<Longrightarrow> trim_rev (c # s) = c # s"
  by (rule trim_rev_step) (auto simp: plain_not_white split: list.splits)

lemma trim_plain: "\<forall>c \<in> set s. plain c \<Longrightarrow> trim s = s"
proof (cases s)
  case Nil
  then show ?thesis by (simp add: trim_def trim_end_def)
next
  case (Cons c s')
  assume all: "\<forall>c \<in> set s. plain c"
  then have "trim_start s = s" using Cons by (simp only: trim_start_plain list.set_intros)
  moreover have "trim_rev (rev s) = rev s"
  proof (cases "rev s")
    case (Cons d r)
    then have "d \<in> set s" by (metis list.set_intros(1) set_rev)
    with all Cons show ?thesis by (simp only: trim_rev_plain)
  qed simp
  ultimately show ?thesis by (simp add: trim_def trim_end_def)
qed

lemma length_trim_start: "length (trim_start s) \<le> length s"
proof (induction s rule: trim_start.induct)
  case (1 s)
  then show ?case
    by (cases "strip_white s") (auto simp: trim_start.simps [of s] dest: strip_white_shorter)
qed

lemma length_trim_rev: "length (trim_rev s) \<le> length s"
proof (induction s rule: trim_rev.induct)
  case (1 s)
  then show ?case
    by (cases "strip_white_rev s") (auto simp: trim_rev.simps [of s] dest: strip_white_rev_shorter)
qed

lemma length_trim: "length (trim s) \<le> length s"
  using length_trim_start [of s] length_trim_rev [of "rev (trim_start s)"]
  by (simp add: trim_def trim_end_def)

subsection \<open>Searching, splitting, joining\<close>

definition starts_with :: "string \<Rightarrow> string \<Rightarrow> bool" where
  "starts_with s p \<longleftrightarrow> take (length p) s = p"

fun contains_str :: "string \<Rightarrow> string \<Rightarrow> bool" where
  "contains_str [] p \<longleftrightarrow> p = []"
| "contains_str (c # s) p \<longleftrightarrow> starts_with (c # s) p \<or> contains_str s p"

fun split_on :: "char \<Rightarrow> string \<Rightarrow> string list" where
  "split_on c [] = [[]]"
| "split_on c (d # s) =
     (if d = c then [] # split_on c s
      else case split_on c s of [] \<Rightarrow> [[d]] | w # ws \<Rightarrow> (d # w) # ws)"

fun join :: "string \<Rightarrow> string list \<Rightarrow> string" where
  "join sep [] = []"
| "join sep [w] = w"
| "join sep (w # ws) = w @ sep @ join sep ws"

lemma starts_with_prefix: "starts_with s p \<longleftrightarrow> prefix p s"
  by (auto simp: starts_with_def prefix_def intro: append_take_drop_id [symmetric])
     (metis append_take_drop_id)

lemma contains_str_sublist: "contains_str s p \<longleftrightarrow> sublist p s"
  by (induction s) (auto simp: starts_with_prefix sublist_Cons_right)

lemma split_on_nonempty [simp]: "split_on c s \<noteq> []"
  by (cases s) (auto split: list.splits)

lemma join_Cons: "ws \<noteq> [] \<Longrightarrow> join sep (w # ws) = w @ sep @ join sep ws"
  by (cases ws) auto

lemma join_split_on: "join [c] (split_on c s) = s"
proof (induction s)
  case (Cons d s)
  then show ?case
    by (cases "split_on c s") (auto simp: join_Cons, cases "tl (split_on c s)", auto simp: join_Cons)
qed simp

lemma split_on_no_sep: "w \<in> set (split_on c s) \<Longrightarrow> c \<notin> set w"
  by (induction s arbitrary: w) (auto split: if_splits list.splits)

subsection \<open>Numerals\<close>

text \<open>The digits of a number in a base, most significant first; zero is one digit.\<close>

function digits_of :: "nat \<Rightarrow> nat \<Rightarrow> nat list" where
  "digits_of b n = (if b < 2 \<or> n < b then [n] else digits_of b (n div b) @ [n mod b])"
  by pat_completeness auto
termination
  by (relation "measure snd") (auto simp: div_less_dividend)

declare digits_of.simps [simp del]

lemma digits_of_step [string_simps]:
  "n < b \<Longrightarrow> digits_of b n = [n]"
  "2 \<le> b \<Longrightarrow> b \<le> n \<Longrightarrow> digits_of b n = digits_of b (n div b) @ [n mod b]"
  by (simp_all add: digits_of.simps [of b n])

definition digit_char :: "nat \<Rightarrow> char" where
  "digit_char d = char_of (if d < 10 then 48 + d else 87 + d)"

definition digit_value :: "nat \<Rightarrow> char \<Rightarrow> nat option" where
  "digit_value b c =
     (let v = (if is_digit c then Some (byte c - 48)
               else if 97 \<le> byte c \<and> byte c \<le> 122 then Some (byte c - 87)
               else if 65 \<le> byte c \<and> byte c \<le> 90 then Some (byte c - 55)
               else None)
      in case v of None \<Rightarrow> None | Some d \<Rightarrow> if d < b then Some d else None)"

definition to_radix :: "nat \<Rightarrow> nat \<Rightarrow> string" where
  "to_radix b n = map digit_char (digits_of b n)"

definition decimal :: "nat \<Rightarrow> string" where
  "decimal n = to_radix 10 n"

text \<open>\<^verbatim>\<open>{:0w$x}\<close> and \<^verbatim>\<open>{:0w}\<close>: at least \<open>w\<close> digits, padded with zeros.\<close>

definition zero_pad :: "nat \<Rightarrow> string \<Rightarrow> string" where
  "zero_pad w s = replicate (w - length s) CHR ''0'' @ s"

definition hex_pad :: "nat \<Rightarrow> nat \<Rightarrow> string" where
  "hex_pad w n = zero_pad w (to_radix 16 n)"

fun parse_digits :: "nat \<Rightarrow> nat \<Rightarrow> string \<Rightarrow> nat option" where
  "parse_digits b acc [] = Some acc"
| "parse_digits b acc (c # s) =
     (case digit_value b c of None \<Rightarrow> None | Some d \<Rightarrow> parse_digits b (acc * b + d) s)"

text \<open>
  \<^verbatim>\<open>from_str_radix\<close> on an unsigned type with the given maximum: the empty string and a lone
  sign are errors, one leading \<^verbatim>\<open>+\<close> is accepted, any other byte that is no digit of the
  base and a value above the maximum are errors.
\<close>

definition from_str_radix :: "nat \<Rightarrow> nat \<Rightarrow> string \<Rightarrow> nat option" where
  "from_str_radix b maximum s =
     (case s of
        [] \<Rightarrow> None
      | c # s' \<Rightarrow>
          (let ds = (if c = CHR ''+'' \<and> s' \<noteq> [] then s' else s)
           in case parse_digits b 0 ds of
                None \<Rightarrow> None
              | Some n \<Rightarrow> if n \<le> maximum then Some n else None))"

definition u64_max :: nat where "u64_max = 2 ^ 64 - 1"
definition u128_max :: nat where "u128_max = 2 ^ 128 - 1"

definition parse_u64 :: "string \<Rightarrow> u64 option" where
  "parse_u64 s = map_option of_nat (from_str_radix 10 u64_max s)"

definition parse_u128 :: "string \<Rightarrow> u128 option" where
  "parse_u128 s = map_option of_nat (from_str_radix 10 u128_max s)"

lemma digits_of_nonempty [simp]: "digits_of b n \<noteq> []"
  by (subst digits_of.simps) simp

lemma digits_of_bound: "2 \<le> b \<Longrightarrow> d \<in> set (digits_of b n) \<Longrightarrow> d < b"
proof (induction b n rule: digits_of.induct)
  case (1 b n)
  then show ?case by (auto simp: digits_of.simps [of b n] split: if_splits)
qed

lemma to_radix_nonempty [simp]: "to_radix b n \<noteq> []"
  by (simp add: to_radix_def)

lemma length_to_radix: "length (to_radix b n) = length (digits_of b n)"
  by (simp add: to_radix_def)

lemma digit_char_byte: "d < 36 \<Longrightarrow> byte (digit_char d) = (if d < 10 then 48 + d else 87 + d)"
  by (simp add: digit_char_def byte_char_of)

lemma digit_value_char: "d < b \<Longrightarrow> b \<le> 36 \<Longrightarrow> digit_value b (digit_char d) = Some d"
  by (auto simp: digit_value_def is_digit_def digit_char_byte)

lemma digit_char_plain: "d < 36 \<Longrightarrow> plain (digit_char d)"
  by (simp add: plain_def digit_char_byte)

lemma digit_char_not_upper: "d < 36 \<Longrightarrow> lower_char (digit_char d) = digit_char d"
  by (simp add: lower_char_def digit_char_byte)

lemma digit_char_not_plus: "d < 36 \<Longrightarrow> digit_char d \<noteq> CHR ''+''"
  using digit_char_byte [of d] by (auto simp: byte_def split: if_splits)

lemma parse_digits_append:
  "parse_digits b acc (s @ t) =
     (case parse_digits b acc s of None \<Rightarrow> None | Some m \<Rightarrow> parse_digits b m t)"
  by (induction s arbitrary: acc) (auto split: option.splits)

lemma parse_to_radix:
  assumes "2 \<le> b" "b \<le> 36"
  shows "parse_digits b 0 (to_radix b n) = Some n"
  using assms
proof (induction b n rule: digits_of.induct)
  case (1 b n)
  show ?case
  proof (cases "n < b")
    case True
    with 1 show ?thesis by (simp add: to_radix_def digits_of_step digit_value_char)
  next
    case False
    with 1 have IH: "parse_digits b 0 (map digit_char (digits_of b (n div b))) = Some (n div b)"
      by (simp add: to_radix_def)
    from False 1 show ?thesis
      by (simp add: to_radix_def digits_of_step parse_digits_append IH digit_value_char)
  qed
qed

lemma to_radix_head:
  assumes "2 \<le> b" "b \<le> 36"
  obtains c s where "to_radix b n = c # s" "c \<noteq> CHR ''+''"
proof -
  obtain d ds where ds: "digits_of b n = d # ds" by (cases "digits_of b n") auto
  then have "d < 36" using digits_of_bound [OF assms(1), of d n] assms by simp
  then have "digit_char d \<noteq> CHR ''+''" by (rule digit_char_not_plus)
  with ds show ?thesis by (intro that) (auto simp: to_radix_def)
qed

lemma from_str_radix_to_radix:
  assumes "2 \<le> b" "b \<le> 36"
  shows "from_str_radix b maximum (to_radix b n) = (if n \<le> maximum then Some n else None)"
proof -
  obtain c s where "to_radix b n = c # s" "c \<noteq> CHR ''+''" using to_radix_head [OF assms] .
  then show ?thesis
    using parse_to_radix [OF assms, of n] by (simp add: from_str_radix_def Let_def)
qed

lemma to_radix_plain: "2 \<le> b \<Longrightarrow> b \<le> 36 \<Longrightarrow> \<forall>c \<in> set (to_radix b n). plain c"
  by (auto simp: to_radix_def dest!: digits_of_bound intro!: digit_char_plain)

lemma to_lower_to_radix: "2 \<le> b \<Longrightarrow> b \<le> 36 \<Longrightarrow> to_lower (to_radix b n) = to_radix b n"
  by (auto simp: to_radix_def to_lower_def dest!: digits_of_bound intro!: digit_char_not_upper)

lemma decimal_digits: "\<forall>c \<in> set (decimal n). is_digit c"
proof
  fix c assume "c \<in> set (decimal n)"
  then obtain d where d: "d \<in> set (digits_of 10 n)" "c = digit_char d"
    by (auto simp: decimal_def to_radix_def)
  then have "d < 10" using digits_of_bound [of 10 d n] by simp
  with d show "is_digit c" by (simp add: is_digit_def digit_char_byte)
qed

lemma trim_decimal [simp]: "trim (decimal n) = decimal n"
  unfolding decimal_def by (intro trim_plain to_radix_plain) simp_all

lemma parse_u64_decimal: "parse_u64 (decimal (unat (w :: u64))) = Some w"
proof -
  have "unat w \<le> u64_max" using unat_less_exp [of w] by (simp add: u64_max_def)
  then show ?thesis by (simp add: parse_u64_def decimal_def from_str_radix_to_radix)
qed

lemma parse_u128_decimal: "parse_u128 (decimal (unat (w :: u128))) = Some w"
proof -
  have "unat w \<le> u128_max" using unat_less_exp [of w] by (simp add: u128_max_def)
  then show ?thesis by (simp add: parse_u128_def decimal_def from_str_radix_to_radix)
qed

lemma to_radix_inject: "2 \<le> b \<Longrightarrow> b \<le> 36 \<Longrightarrow> to_radix b m = to_radix b n \<longleftrightarrow> m = n"
  by (metis option.inject parse_to_radix)

lemma parse_zeros: "2 \<le> b \<Longrightarrow> parse_digits b 0 (replicate k CHR ''0'' @ s) = parse_digits b 0 s"
  by (induction k) (auto simp: digit_value_def is_digit_def byte_def)

lemma parse_hex_pad: "from_str_radix 16 maximum (hex_pad w n) = (if n \<le> maximum then Some n else None)"
proof -
  obtain c s where cs: "to_radix 16 n = c # s" "c \<noteq> CHR ''+''" using to_radix_head [of 16] by auto
  have "hex_pad w n \<noteq> []" "hd (hex_pad w n) \<noteq> CHR ''+''"
    using cs by (cases "w - length (to_radix 16 n)"; auto simp: hex_pad_def zero_pad_def)+
  moreover have "parse_digits 16 0 (hex_pad w n) = Some n"
    by (simp add: hex_pad_def zero_pad_def parse_zeros parse_to_radix)
  ultimately show ?thesis
    by (cases "hex_pad w n") (simp_all add: from_str_radix_def Let_def)
qed

lemma length_zero_pad: "length (zero_pad w s) = max w (length s)"
  by (simp add: zero_pad_def)

lemma length_digits_mono: "2 \<le> b \<Longrightarrow> m \<le> n \<Longrightarrow> length (digits_of b m) \<le> length (digits_of b n)"
proof (induction b n arbitrary: m rule: digits_of.induct)
  case (1 b n)
  show ?case
  proof (cases "m < b")
    case True
    then show ?thesis by (simp add: digits_of_step(1) Suc_leI)
  next
    case False
    with 1 have "b \<le> n" "m div b \<le> n div b" by (simp_all add: div_le_mono)
    with 1 False show ?thesis by (simp add: digits_of_step(2))
  qed
qed

lemma length_digits_exp: "2 \<le> b \<Longrightarrow> n < b ^ k \<Longrightarrow> 0 < k \<Longrightarrow> length (digits_of b n) \<le> k"
proof (induction b n arbitrary: k rule: digits_of.induct)
  case (1 b n)
  show ?case
  proof (cases "n < b")
    case True
    with 1 show ?thesis by (simp add: digits_of_step(1) Suc_leI)
  next
    case False
    with 1 obtain j where k: "k = Suc j" "0 < j"
      by (cases k; cases "k - 1") auto
    with 1 have "n div b < b ^ j" by (simp add: less_mult_imp_div_less mult.commute)
    with 1 False k show ?thesis by (simp add: digits_of_step(2))
  qed
qed

end
