(* ===== verification/Errors.thy ===== *)
theory Errors
  imports Strings
begin

text \<open>
  The error values of the library: \<^verbatim>\<open>std::io::Error\<close> as far as the program looks at it,
  \<^verbatim>\<open>VcdError\<close> (src/lib.rs) with its message texts, and the generation-mismatch error of
  src/opened/identity.rs, which is an I/O error that carries a private marker.
\<close>

datatype io_kind =
    NotFound | PermissionDenied | ConnectionRefused | ConnectionReset | BrokenPipe
  | AlreadyExists | AddrInUse | WouldBlock | TimedOut | InvalidInput | InvalidData
  | UnexpectedEof | OtherKind

record io_error =
  io_kind_of :: io_kind
  io_message :: string
  io_is_mismatch :: bool \<comment> \<open>the payload is a \<^verbatim>\<open>GenerationMismatch\<close>\<close>

definition io_new :: "io_kind \<Rightarrow> string \<Rightarrow> io_error" where
  "io_new k m = \<lparr>io_kind_of = k, io_message = m, io_is_mismatch = False\<rparr>"

datatype vcd_error =
    Io io_error
  | MissingEndDefinitions
  | DuplicateSignal string
  | MissingSignals string
  | MissingSignal string
  | InvalidOccurrence
  | Parse string

fun vcd_error_text :: "vcd_error \<Rightarrow> string" where
  "vcd_error_text (Io e) = ''I/O error: '' @ io_message e"
| "vcd_error_text MissingEndDefinitions = ''missing $enddefinitions marker in VCD file''"
| "vcd_error_text (DuplicateSignal s) = ''duplicate signal name detected: '' @ s"
| "vcd_error_text (MissingSignals s) = ''signals not found in VCD: '' @ s"
| "vcd_error_text (MissingSignal s) = ''signal not found in VCD: '' @ s"
| "vcd_error_text InvalidOccurrence = ''occurrence must be >= 1''"
| "vcd_error_text (Parse s) = ''unexpected parse error: '' @ s"

definition generation_mismatch_error :: vcd_error where
  "generation_mismatch_error =
     Io \<lparr>io_kind_of = InvalidData,
         io_message = ''VCD source does not match the opened generation'',
         io_is_mismatch = True\<rparr>"

definition is_generation_mismatch :: "io_error \<Rightarrow> bool" where
  "is_generation_mismatch e = io_is_mismatch e"

text \<open>
  \<^verbatim>\<open>GenerationMismatch\<close> is private to its module and wrapped in exactly one place, so every I/O
  error that carries it is the one \<^verbatim>\<open>generation_mismatch_error\<close> builds.
\<close>

definition wf_vcd_error :: "vcd_error \<Rightarrow> bool" where
  "wf_vcd_error e = (case e of
     Io io \<Rightarrow> is_generation_mismatch io \<longrightarrow> e = generation_mismatch_error | _ \<Rightarrow> True)"

end
