(* ===== verification/Values.thy ===== *)
theory Values
  imports Errors
begin

text \<open>
  The value model of src/lib.rs: time windows, change values and search targets, their
  normal forms and display, the conversion of VCD commands to values, the formatting of
  values by signal width, and the two helpers that filter and load signal names.

  The \<^verbatim>\<open>vcd\<close> crate is external: \<open>vcd_value\<close> and \<open>command\<close> are the shapes the source
  matches on, and how the crate prints a scalar or a vector is part of the parameter
  \<open>displays\<close>, beside the standard library's shortest decimal form of an \<^verbatim>\<open>f64\<close> (which is
  kept as its 64-bit pattern).
\<close>

type_synonym id_code = nat \<comment> \<open>\<^verbatim>\<open>vcd::IdCode\<close>: only compared for equality\<close>
type_synonym f64 = u64

datatype vcd_value = V0 | V1 | VX | VZ

datatype command =
    Timestamp u64
  | ChangeScalar id_code vcd_value
  | ChangeVector id_code "vcd_value list"
  | ChangeReal id_code f64
  | ChangeString id_code string
  | OtherCommand

record displays =
  disp_scalar :: "vcd_value \<Rightarrow> string"
  disp_vector :: "vcd_value list \<Rightarrow> string"
  disp_f64 :: "f64 \<Rightarrow> string"

datatype timescale_unit = Sec | MilliSec | MicroSec | NanoSec | PicoSec | FemtoSec

record timescale =
  ts_magnitude :: u32
  ts_unit :: timescale_unit

text \<open>A concrete choice, for evaluation.\<close>

fun value_char :: "vcd_value \<Rightarrow> string" where
  "value_char V0 = ''0''"
| "value_char V1 = ''1''"
| "value_char VX = ''x''"
| "value_char VZ = ''z''"

definition plain_displays :: displays where
  "plain_displays = \<lparr>disp_scalar = value_char, disp_vector = (\<lambda>vs. concat (map value_char vs)),
     disp_f64 = (\<lambda>f. decimal (unat f))\<rparr>"

subsection \<open>Time windows\<close>

record time_window =
  win_start :: "u64 option"
  win_end :: "u64 option"

definition window_contains :: "time_window \<Rightarrow> u64 \<Rightarrow> bool" where
  "window_contains w t =
     (if (case win_start w of Some s \<Rightarrow> t < s | None \<Rightarrow> False) then False
      else if (case win_end w of Some e \<Rightarrow> t > e | None \<Rightarrow> False) then False
      else True)"

definition past_end :: "time_window \<Rightarrow> u64 \<Rightarrow> bool" where
  "past_end w t = (case win_end w of Some e \<Rightarrow> t > e | None \<Rightarrow> False)"

definition all_time :: time_window where
  "all_time = \<lparr>win_start = None, win_end = None\<rparr>"

lemma window_contains_iff:
  "window_contains w t \<longleftrightarrow>
     (\<forall>s. win_start w = Some s \<longrightarrow> s \<le> t) \<and> (\<forall>e. win_end w = Some e \<longrightarrow> t \<le> e)"
  by (auto simp: window_contains_def split: option.splits)

lemma past_end_not_contained: "past_end w t \<Longrightarrow> \<not> window_contains w t"
  by (auto simp: past_end_def window_contains_def split: option.splits)

lemma all_time_contains [simp]: "window_contains all_time t" "\<not> past_end all_time t"
  by (simp_all add: all_time_def window_contains_def past_end_def)

subsection \<open>Values\<close>

datatype change_value = Integer u128 | Float f64 | Text string

datatype target_value = TargetInteger u128 | TargetText string

fun as_integer :: "change_value \<Rightarrow> u128 option" where
  "as_integer (Integer i) = Some i"
| "as_integer _ = None"

fun value_text :: "displays \<Rightarrow> change_value \<Rightarrow> string" where
  "value_text D (Integer i) = decimal (unat i)"
| "value_text D (Float f) = disp_f64 D f"
| "value_text D (Text t) = t"

fun normalize :: "displays \<Rightarrow> change_value \<Rightarrow> string" where
  "normalize D (Integer i) = decimal (unat i)"
| "normalize D (Float f) = disp_f64 D f"
| "normalize D (Text t) = to_lower t"

fun normalize_target :: "target_value \<Rightarrow> string" where
  "normalize_target (TargetInteger i) = decimal (unat i)"
| "normalize_target (TargetText t) = to_lower t"

definition parse_target_value :: "string \<Rightarrow> target_value" where
  "parse_target_value raw =
     (let text = to_lower (trim raw);
          hex = (if starts_with text ''0x''
                 then from_str_radix 16 u128_max (drop 2 text) else None)
      in case hex of
           Some v \<Rightarrow> TargetInteger (of_nat v)
         | None \<Rightarrow> (case parse_u128 text of
               Some v \<Rightarrow> TargetInteger v
             | None \<Rightarrow> TargetText text))"

definition format_change_value :: "displays \<Rightarrow> change_value \<Rightarrow> string" where
  "format_change_value D v = value_text D v"

text \<open>The digit count is computed in \<^verbatim>\<open>u32\<close> arithmetic.\<close>

definition format_value_for_signal :: "displays \<Rightarrow> change_value \<Rightarrow> u32 \<Rightarrow> string" where
  "format_value_for_signal D v signal_size =
     (case (if signal_size > 1 then as_integer v else None) of
        Some i \<Rightarrow> ''0x'' @ hex_pad (unat ((signal_size + 3) div 4)) (unat i)
      | None \<Rightarrow> value_text D v)"

subsection \<open>From VCD commands to values\<close>

definition is_bit :: "vcd_value \<Rightarrow> bool" where
  "is_bit v \<longleftrightarrow> v = V0 \<or> v = V1"

definition bit_of :: "vcd_value \<Rightarrow> u128" where
  "bit_of v = (case v of V0 \<Rightarrow> 0 | V1 \<Rightarrow> 1 | _ \<Rightarrow> 0)"

fun shift_in :: "u128 \<Rightarrow> vcd_value list \<Rightarrow> u128" where
  "shift_in acc [] = acc"
| "shift_in acc (v # vs) = shift_in (or (push_bit 1 acc) (bit_of v)) vs"

definition vector_to_change_value :: "displays \<Rightarrow> vcd_value list \<Rightarrow> change_value" where
  "vector_to_change_value D vec =
     (if list_all is_bit vec \<and> length vec \<le> 128 then Integer (shift_in 0 vec)
      else Text (disp_vector D vec))"

fun command_to_change_value :: "displays \<Rightarrow> command \<Rightarrow> (id_code \<times> change_value) option" where
  "command_to_change_value D (ChangeScalar i v) = Some (i, Text (disp_scalar D v))"
| "command_to_change_value D (ChangeVector i vec) = Some (i, vector_to_change_value D vec)"
| "command_to_change_value D (ChangeReal i f) = Some (i, Float f)"
| "command_to_change_value D (ChangeString i s) = Some (i, Text s)"
| "command_to_change_value D _ = None"

subsection \<open>Signal name lists\<close>

definition list_names :: "string list \<Rightarrow> string option \<Rightarrow> string list" where
  "list_names names flt =
     (case flt of None \<Rightarrow> names | Some f \<Rightarrow> filter (\<lambda>n. contains_str n f) names)"

fun split_inclusive :: "(char \<Rightarrow> bool) \<Rightarrow> string \<Rightarrow> string list" where
  "split_inclusive P [] = []"
| "split_inclusive P (c # s) =
     (if P c then [c] # split_inclusive P s
      else case split_inclusive P s of [] \<Rightarrow> [[c]] | w # ws \<Rightarrow> (c # w) # ws)"

text \<open>\<^verbatim>\<open>str::lines\<close>: a final carriage return belongs to the terminator only before a line feed.\<close>

definition strip_terminator :: "string \<Rightarrow> string" where
  "strip_terminator l =
     (if l \<noteq> [] \<and> last l = CHR 0x0A
      then (let m = butlast l in if m \<noteq> [] \<and> last m = CHR 0x0D then butlast m else m)
      else l)"

definition str_lines :: "string \<Rightarrow> string list" where
  "str_lines s = map strip_terminator (split_inclusive (\<lambda>c. c = CHR 0x0A) s)"

definition load_signal_list :: "string \<Rightarrow> string list" where
  "load_signal_list content =
     filter (\<lambda>s. s \<noteq> [])
       (map (\<lambda>s. trim (hd (split_on CHR 0x23 s)))
         (filter (\<lambda>l. l \<noteq> [] \<and> \<not> starts_with l [CHR 0x23]) (map trim (str_lines content))))"

subsection \<open>What the conversions compute\<close>

text \<open>The number a list of bits denotes, most significant first.\<close>

fun bits_value :: "nat \<Rightarrow> vcd_value list \<Rightarrow> nat" where
  "bits_value acc [] = acc"
| "bits_value acc (v # vs) = bits_value (2 * acc + (if v = V1 then 1 else 0)) vs"

lemma bits_value_bound: "acc < 2 ^ k \<Longrightarrow> bits_value acc vs < 2 ^ (k + length vs)"
proof (induction vs arbitrary: acc k)
  case (Cons v vs)
  then have "2 * acc + (if v = V1 then 1 else 0) < 2 ^ Suc k" by simp
  from Cons.IH [OF this] show ?case by simp
qed simp

lemma unat_push_bit_or:
  assumes "unat acc < 2 ^ 127" and "is_bit v"
  shows "unat (or (push_bit 1 acc) (bit_of v) :: u128) = 2 * unat acc + (if v = V1 then 1 else 0)"
proof -
  have even: "unat (push_bit 1 acc) = 2 * unat acc"
    using assms(1) by (simp add: push_bit_eq_mult unat_word_ariths)
  have "or (push_bit 1 acc) (bit_of v) = push_bit 1 acc + bit_of v"
    using assms(2)
    by (auto simp: is_bit_def bit_of_def or_one_eq)
  moreover have "unat (push_bit 1 acc + bit_of v) = unat (push_bit 1 acc) + unat (bit_of v)"
    using assms even by (intro unat_add_no_overflow) (auto simp: is_bit_def bit_of_def)
  ultimately show ?thesis using even assms(2) by (auto simp: is_bit_def bit_of_def)
qed

lemma unat_shift_in:
  assumes "unat acc < 2 ^ (128 - length vs)" and "length vs \<le> 128" and "list_all is_bit vs"
  shows "unat (shift_in acc vs) = bits_value (unat acc) vs"
  using assms
proof (induction vs arbitrary: acc)
  case (Cons v vs)
  have "(2::nat) ^ (127 - length vs) \<le> 2 ^ 127"
    by (rule power_increasing) simp_all
  then have "unat acc < 2 ^ 127"
    using Cons.prems(1) by simp
  then have step: "unat (or (push_bit 1 acc) (bit_of v)) = 2 * unat acc + (if v = V1 then 1 else 0)"
    using Cons.prems by (intro unat_push_bit_or) auto
  obtain k where k: "128 - length vs = Suc k" "128 - length (v # vs) = k"
    using Cons.prems(2) by (cases "128 - length vs") auto
  then have "unat (or (push_bit 1 acc) (bit_of v)) < 2 ^ (128 - length vs)"
    using Cons.prems(1) step by simp
  then show ?case using Cons step by simp
qed simp

lemma vector_to_change_value_bits:
  assumes "list_all is_bit vec" and "length vec \<le> 128"
  shows "\<exists>i. vector_to_change_value D vec = Integer i \<and> unat i = bits_value 0 vec"
  using assms unat_shift_in [of 0 vec] by (simp add: vector_to_change_value_def)

lemma parse_target_decimal: "parse_target_value (decimal (unat i)) = TargetInteger i"
proof -
  have "\<not> starts_with (decimal (unat i)) ''0x''"
  proof
    assume "starts_with (decimal (unat i)) ''0x''"
    then have "CHR ''x'' \<in> set (decimal (unat i))"
      by (auto simp: starts_with_prefix prefix_def)
    then have "is_digit CHR ''x''" using decimal_digits by blast
    then show False by (simp add: is_digit_def byte_def)
  qed
  then show ?thesis
    by (simp add: parse_target_value_def to_lower_digits [OF decimal_digits] parse_u128_decimal)
qed

lemma parse_target_hex: "parse_target_value (''0x'' @ hex_pad w (unat i)) = TargetInteger i"
proof -
  let ?s = "''0x'' @ hex_pad w (unat i)"
  have plain: "\<forall>c \<in> set ?s. plain c"
    using to_radix_plain [of 16 "unat i"]
    by (auto simp: hex_pad_def zero_pad_def plain_def byte_def)
  have lower: "to_lower ?s = ?s"
    using to_lower_to_radix [of 16 "unat i"]
    by (simp add: hex_pad_def zero_pad_def to_lower_append)
       (simp add: to_lower_def lower_char_def byte_def)
  have "unat i \<le> u128_max" using unat_less_exp [of i] by (simp add: u128_max_def)
  then have "from_str_radix 16 u128_max (drop 2 ?s) = Some (unat i)" by (simp add: parse_hex_pad)
  then show ?thesis
    using trim_plain [OF plain] lower by (simp add: parse_target_value_def starts_with_def)
qed

lemma set_trim_start: "set (trim_start s) \<subseteq> set s"
proof (induction s rule: trim_start.induct)
  case (1 s)
  have "set r \<subseteq> set s" if "strip_white s = Some r" for r
    using that by (cases s) (auto split: if_splits list.splits)
  with 1 show ?case by (cases "strip_white s") (auto simp: trim_start.simps [of s])
qed

lemma set_trim_rev: "set (trim_rev s) \<subseteq> set s"
proof (induction s rule: trim_rev.induct)
  case (1 s)
  have "set r \<subseteq> set s" if "strip_white_rev s = Some r" for r
    using that by (cases s) (auto split: if_splits list.splits)
  with 1 show ?case by (cases "strip_white_rev s") (auto simp: trim_rev.simps [of s])
qed

lemma set_trim: "set (trim s) \<subseteq> set s"
  using set_trim_start [of s] set_trim_rev [of "rev (trim_start s)"]
  by (auto simp: trim_def trim_end_def)

lemma concat_split_inclusive: "concat (split_inclusive P s) = s"
  by (induction s) (auto split: list.splits)

subsection \<open>Properties\<close>

text \<open>
  A value printed for a signal can be searched for: parsing the text that
  \<^verbatim>\<open>format_value_for_signal\<close> prints for an integer, hexadecimal with zero padding for a vector
  of any width or decimal for a scalar, gives back exactly that integer.
\<close>

lemma format_then_parse_integer:
  "parse_target_value (format_value_for_signal D (Integer i) n) = TargetInteger i"
  using parse_target_hex [of "unat ((n + 3) div 4)" i]
  by (simp add: format_value_for_signal_def parse_target_decimal)

text \<open>
  A vector of at most 128 two-valued bits is converted without loss: the 128-bit shift loop
  computes the number the bits denote, most significant first. Any other vector keeps its text.
\<close>

lemma vector_value_exact:
  "if list_all is_bit vec \<and> length vec \<le> 128
   then (\<exists>i. vector_to_change_value D vec = Integer i \<and> unat i = bits_value 0 vec)
   else vector_to_change_value D vec = Text (disp_vector D vec)"
  using vector_to_change_value_bits [of vec D] by (auto simp: vector_to_change_value_def)

text \<open>
  The names loaded from a signals file are never empty and never hold a comment character,
  whatever the file holds.
\<close>

lemma load_signal_list_clean:
  "list_all (\<lambda>n. n \<noteq> [] \<and> CHR 0x23 \<notin> set n) (load_signal_list content)"
proof -
  have "CHR 0x23 \<notin> set (trim (hd (split_on CHR 0x23 s)))" for s
    using split_on_no_sep [of "hd (split_on CHR 0x23 s)" "CHR 0x23" s] set_trim by auto
  then show ?thesis by (auto simp: load_signal_list_def list_all_iff)
qed

end
