(* ===== verification/Json.thy ===== *)
theory Json
  imports Values "HOL-Library.Char_ord" "HOL-Library.List_Lexorder"
begin

text \<open>
  JSON values as src/server/protocol.rs uses them, UTF-8 validity and truncation, the bounding of
  error details, and the strict visitor that rejects duplicate object keys.

  Strings are byte lists. \<^verbatim>\<open>serde_json::Map\<close> is its sorted map: an association list in the order of
  its keys. The JSON text parser is external: \<open>raw_json\<close> is what its deserializer delivers to the
  visitor, with the syntax error at the place where it stops.
\<close>

subsection \<open>UTF-8\<close>

definition in_range :: "nat \<Rightarrow> nat \<Rightarrow> char \<Rightarrow> bool" where
  "in_range lo hi c \<longleftrightarrow> lo \<le> byte c \<and> byte c \<le> hi"

definition cont :: "char \<Rightarrow> bool" where
  "cont c \<longleftrightarrow> in_range 128 191 c"

definition utf8_two :: "char \<Rightarrow> char \<Rightarrow> bool" where
  "utf8_two c d \<longleftrightarrow> in_range 194 223 c \<and> cont d"

definition utf8_three :: "char \<Rightarrow> char \<Rightarrow> char \<Rightarrow> bool" where
  "utf8_three c d e \<longleftrightarrow> cont d \<and> cont e \<and>
     (byte c = 224 \<and> 160 \<le> byte d \<or> in_range 225 236 c \<or> byte c = 237 \<and> byte d \<le> 159 \<or>
      in_range 238 239 c)"

definition utf8_four :: "char \<Rightarrow> char \<Rightarrow> char \<Rightarrow> char \<Rightarrow> bool" where
  "utf8_four c d e f \<longleftrightarrow> cont d \<and> cont e \<and> cont f \<and>
     (byte c = 240 \<and> 144 \<le> byte d \<or> in_range 241 243 c \<or> byte c = 244 \<and> byte d \<le> 143)"

text \<open>What \<^verbatim>\<open>String::from_utf8\<close> accepts.\<close>

fun utf8_valid :: "string \<Rightarrow> bool" where
  "utf8_valid [] = True"
| "utf8_valid (c # s) =
     (if byte c < 128 then utf8_valid s
      else case s of [] \<Rightarrow> False | d # s1 \<Rightarrow>
        if utf8_two c d then utf8_valid s1
        else case s1 of [] \<Rightarrow> False | e # s2 \<Rightarrow>
          if utf8_three c d e then utf8_valid s2
          else case s2 of [] \<Rightarrow> False | f # s3 \<Rightarrow> utf8_four c d e f \<and> utf8_valid s3)"

definition is_char_boundary :: "string \<Rightarrow> nat \<Rightarrow> bool" where
  "is_char_boundary s i \<longleftrightarrow> i = 0 \<or> i = length s \<or> i < length s \<and> \<not> cont (s ! i)"

text \<open>The loop stops at 0, which is always a boundary.\<close>

primrec boundary_down :: "string \<Rightarrow> nat \<Rightarrow> nat" where
  "boundary_down s 0 = 0"
| "boundary_down s (Suc i) = (if is_char_boundary s (Suc i) then Suc i else boundary_down s i)"

definition ellipsis :: string where
  "ellipsis = [char_of (226 :: nat), char_of (128 :: nat), char_of (166 :: nat)]"

definition truncate_utf8 :: "string \<Rightarrow> nat \<Rightarrow> string" where
  "truncate_utf8 text max_bytes =
     (if length text \<le> max_bytes then text
      else take (boundary_down text (max_bytes - length ellipsis)) text @ ellipsis)"

lemma length_ellipsis [simp]: "length ellipsis = 3"
  by (simp add: ellipsis_def)

lemma utf8_ellipsis: "utf8_valid ellipsis"
  by (simp add: ellipsis_def byte_char_of utf8_two_def utf8_three_def cont_def in_range_def)

lemma boundary_down_le: "boundary_down s i \<le> i"
  by (induction i) (auto simp: is_char_boundary_def)

lemma boundary_down_boundary: "is_char_boundary s (boundary_down s i)"
  by (induction i) (auto simp: is_char_boundary_def)

lemma utf8_valid_append: "utf8_valid s \<Longrightarrow> utf8_valid t \<Longrightarrow> utf8_valid (s @ t)"
proof (induction s rule: utf8_valid.induct)
  case (2 c s)
  show ?case
  proof (cases "byte c < 128")
    case True
    with 2 show ?thesis by simp
  next
    case c: False
    with 2(5) obtain d s1 where s: "s = d # s1" by (cases s) auto
    show ?thesis
    proof (cases "utf8_two c d")
      case True
      with 2(2) [OF c s True] 2(5,6) c s show ?thesis by simp
    next
      case d: False
      with 2(5) c s obtain e s2 where s1: "s1 = e # s2" by (cases s1) auto
      show ?thesis
      proof (cases "utf8_three c d e")
        case True
        with 2(3) [OF c s d s1 True] 2(5,6) c s d s1 show ?thesis by simp
      next
        case e: False
        with 2(5) c s d s1 obtain f s3 where s2: "s2 = f # s3" by (cases s2) auto
        with 2(4) [OF c s d s1 e s2] 2(5,6) c s d s1 e show ?thesis by simp
      qed
    qed
  qed
qed simp

lemma boundary_not_cont:
  "is_char_boundary s i \<Longrightarrow> 0 < i \<Longrightarrow> i < length s \<Longrightarrow> \<not> cont (s ! i)"
  by (auto simp: is_char_boundary_def)

lemma boundary_drop:
  "is_char_boundary (u @ s) i \<Longrightarrow> length u \<le> i \<Longrightarrow> is_char_boundary s (i - length u)"
  by (auto simp: is_char_boundary_def nth_append)

lemma boundary_skip:
  assumes "is_char_boundary (c # u @ s) i" and "list_all cont u" and "0 < i"
  shows "Suc (length u) \<le> i"
proof (rule ccontr)
  assume "\<not> ?thesis"
  then have "i - 1 < length u" and "(c # u @ s) ! i = u ! (i - 1)"
    using assms(3) by (auto simp: nth_Cons nth_append split: nat.splits)
  moreover have "i < length (c # u @ s)" using calculation(1) assms(3) by auto
  ultimately show False using boundary_not_cont [OF assms(1,3)] assms(2) by (simp add: list_all_length)
qed

lemma utf8_chunk:
  assumes "utf8_valid (c # s)"
  obtains u t where "s = u @ t" and "list_all cont u" and "utf8_valid t" and "utf8_valid (c # u)"
proof (cases "byte c < 128")
  case True
  then show ?thesis using that [of "[]" s] assms by simp
next
  case c: False
  with assms obtain d s1 where s: "s = d # s1" by (cases s) auto
  show ?thesis
  proof (cases "utf8_two c d")
    case True
    then show ?thesis using that [of "[d]" s1] assms c s by (simp add: utf8_two_def)
  next
    case d: False
    with assms c s obtain e s2 where s1: "s1 = e # s2" by (cases s1) auto
    show ?thesis
    proof (cases "utf8_three c d e")
      case True
      then show ?thesis using that [of "[d, e]" s2] assms c d s s1 by (simp add: utf8_three_def)
    next
      case e: False
      with assms c d s s1 obtain f s3 where s2: "s2 = f # s3" by (cases s2) auto
      then show ?thesis using that [of "[d, e, f]" s3] assms c d e s s1 by (simp add: utf8_four_def)
    qed
  qed
qed

lemma utf8_take: "utf8_valid s \<Longrightarrow> is_char_boundary s i \<Longrightarrow> utf8_valid (take i s)"
proof (induction "length s" arbitrary: s i rule: less_induct)
  case less
  show ?case
  proof (cases "s = [] \<or> i = 0")
    case False
    then obtain c r where s: "s = c # r" and i: "0 < i" by (cases s) auto
    from less.prems(1) s obtain u t where u: "r = u @ t" "list_all cont u" "utf8_valid t" "utf8_valid (c # u)"
      using utf8_chunk [of c r] by metis
    have skip: "length (c # u) \<le> i" using boundary_skip less.prems(2) s u i by auto
    have "is_char_boundary t (i - length (c # u))"
      using boundary_drop [of "c # u" t i] less.prems(2) s u(1) skip by simp
    then have "utf8_valid (take (i - length (c # u)) t)" using less.hyps [of t] s u by simp
    then have "utf8_valid ((c # u) @ take (i - length (c # u)) t)" by (rule utf8_valid_append [OF u(4)])
    moreover have "take i s = (c # u) @ take (i - length (c # u)) t"
      using skip s u(1) take_append [of i "c # u" t] by simp
    ultimately show ?thesis by (simp only:)
  qed auto
qed

lemma utf8_truncate: "utf8_valid s \<Longrightarrow> utf8_valid (truncate_utf8 s m)"
  by (simp add: truncate_utf8_def utf8_valid_append utf8_take boundary_down_boundary utf8_ellipsis)

lemma length_truncate: "3 \<le> m \<Longrightarrow> length (truncate_utf8 s m) \<le> m"
  using boundary_down_le [of s "m - 3"] by (auto simp: truncate_utf8_def min_def)

subsection \<open>JSON values\<close>

datatype json_number = PosInt u64 | NegInt int | JFloat f64

datatype json =
    JNull
  | JBool bool
  | JNumber json_number
  | JString string
  | JArray "json list"
  | JObject "(string \<times> json) list"

text \<open>\<^verbatim>\<open>Number::as_u64\<close>\<close>

fun as_u64 :: "json_number \<Rightarrow> u64 option" where
  "as_u64 (PosInt n) = Some n"
| "as_u64 _ = None"

type_synonym json_map = "(string \<times> json) list"

fun obj_insert :: "string \<Rightarrow> json \<Rightarrow> json_map \<Rightarrow> json_map" where
  "obj_insert k v [] = [(k, v)]"
| "obj_insert k v ((k', v') # m) =
     (if k = k' then (k, v) # m
      else if k < k' then (k, v) # (k', v') # m
      else (k', v') # obj_insert k v m)"

definition obj_of :: "(string \<times> json) list \<Rightarrow> json_map" where
  "obj_of kvs = foldl (\<lambda>m (k, v). obj_insert k v m) [] kvs"

definition json_obj :: "(string \<times> json) list \<Rightarrow> json" where
  "json_obj kvs = JObject (obj_of kvs)"

definition obj_remove :: "string \<Rightarrow> json_map \<Rightarrow> json option \<times> json_map" where
  "obj_remove k m = (map_of m k, filter (\<lambda>p. fst p \<noteq> k) m)"

lemma map_of_obj_insert [simp]: "map_of (obj_insert k v m) = (map_of m)(k \<mapsto> v)"
  by (induction k v m rule: obj_insert.induct) (auto simp: fun_upd_twist)

lemma map_of_obj_of: "map_of (foldl (\<lambda>m (k, v). obj_insert k v m) m kvs) = map_of m ++ map_of (rev kvs)"
  by (induction kvs arbitrary: m) (auto simp: map_add_def split: option.splits)

lemma set_obj_insert: "set (obj_insert k v m) \<subseteq> insert (k, v) (set m)"
  by (induction k v m rule: obj_insert.induct) auto

lemma set_obj_of: "set (foldl (\<lambda>m (k, v). obj_insert k v m) m kvs) \<subseteq> set m \<union> set kvs"
proof (induction kvs arbitrary: m)
  case (Cons p kvs)
  obtain k v where p: "p = (k, v)" by (cases p)
  then show ?case using Cons.IH [of "obj_insert k v m"] set_obj_insert [of k v m] by auto
qed simp

lemma length_obj_insert: "length (obj_insert k v m) \<le> Suc (length m)"
  by (induction k v m rule: obj_insert.induct) auto

lemma length_obj_of: "length (foldl (\<lambda>m (k, v). obj_insert k v m) m kvs) \<le> length m + length kvs"
proof (induction kvs arbitrary: m)
  case (Cons p kvs)
  obtain k v where p: "p = (k, v)" by (cases p)
  then show ?case using Cons.IH [of "obj_insert k v m"] length_obj_insert [of k v m] by simp
qed simp

subsection \<open>Bounding error details\<close>

definition max_error_detail_string_bytes :: nat where "max_error_detail_string_bytes = 256"
definition max_error_detail_items :: nat where "max_error_detail_items = 8"
definition max_error_detail_fields :: nat where "max_error_detail_fields = 16"

function bound_error_details :: "json \<Rightarrow> nat \<Rightarrow> json" where
  "bound_error_details v depth =
     (if depth \<ge> 4 then JString ellipsis
      else case v of
        JString text \<Rightarrow> JString (truncate_utf8 text max_error_detail_string_bytes)
      | JArray vs \<Rightarrow>
          JArray (map (\<lambda>x. bound_error_details x (depth + 1)) (take max_error_detail_items vs))
      | JObject kvs \<Rightarrow>
          json_obj (map (\<lambda>(k, x). (truncate_utf8 k max_error_detail_string_bytes,
              bound_error_details x (depth + 1))) (take max_error_detail_fields kvs))
      | _ \<Rightarrow> v)"
  by pat_completeness auto
termination by (relation "measure (\<lambda>(v, d). 4 - d)") auto

declare bound_error_details.simps [simp del]

text \<open>Values of limited depth, breadth and text.\<close>

fun within_bounds :: "nat \<Rightarrow> json \<Rightarrow> bool" where
  "within_bounds d (JString s) = (length s \<le> max_error_detail_string_bytes)"
| "within_bounds 0 (JArray vs) = False"
| "within_bounds (Suc d) (JArray vs) =
     (length vs \<le> max_error_detail_items \<and> (\<forall>v \<in> set vs. within_bounds d v))"
| "within_bounds 0 (JObject kvs) = False"
| "within_bounds (Suc d) (JObject kvs) =
     (length kvs \<le> max_error_detail_fields \<and>
      (\<forall>p \<in> set kvs. length (fst p) \<le> max_error_detail_string_bytes \<and> within_bounds d (snd p)))"
| "within_bounds d _ = True"

lemma bound_error_details_within: "d \<le> 4 \<Longrightarrow> within_bounds (4 - d) (bound_error_details v d)"
proof (induction "4 - d" arbitrary: v d)
  case 0
  then show ?case by (subst bound_error_details.simps) (simp add: max_error_detail_string_bytes_def)
next
  case (Suc n)
  have n: "4 - d = Suc n" and next_depth: "4 - Suc d = n" and less: "\<not> 4 \<le> d" using Suc.hyps(2) by auto
  have IH: "within_bounds n (bound_error_details x (Suc d))" for x
    using Suc.hyps(1) [of "Suc d" x] next_depth less by simp
  have trunc: "length (truncate_utf8 k max_error_detail_string_bytes) \<le> max_error_detail_string_bytes" for k
    by (rule length_truncate) (simp add: max_error_detail_string_bytes_def)
  show ?case
  proof (cases v)
    case (JArray vs)
    then show ?thesis unfolding n using less IH
      by (subst bound_error_details.simps) auto
  next
    case (JObject kvs)
    let ?kvs = "map (\<lambda>(k, x). (truncate_utf8 k max_error_detail_string_bytes,
        bound_error_details x (Suc d))) (take max_error_detail_fields kvs)"
    have "length (obj_of ?kvs) \<le> max_error_detail_fields"
      using length_obj_of [of "[]" ?kvs] by (simp add: obj_of_def)
    moreover have "length (fst p) \<le> max_error_detail_string_bytes \<and> within_bounds n (snd p)"
      if "p \<in> set (obj_of ?kvs)" for p
    proof -
      have "p \<in> set ?kvs" using that set_obj_of [of "[]" ?kvs] by (auto simp: obj_of_def)
      then show ?thesis using trunc IH by auto
    qed
    ultimately have "within_bounds (Suc n) (json_obj ?kvs)" by (simp add: json_obj_def)
    moreover have "bound_error_details v d = json_obj ?kvs"
      using less JObject by (subst bound_error_details.simps) simp
    ultimately show ?thesis unfolding n by simp
  qed (use n less trunc in \<open>subst bound_error_details.simps; simp\<close>)+
qed

subsection \<open>The strict visitor\<close>

text \<open>
  \<open>RBad\<close>, and the option at the end of a sequence or map, is the syntax error at which the
  deserializer stops.
\<close>

datatype raw_json =
    RNull
  | RBool bool
  | RI64 int
  | RU64 u64
  | RF64 f64
  | RString string
  | RSeq "raw_json list" "string option"
  | RMap "(string \<times> raw_json) list" "string option"
  | RBad string

datatype json_error = Syntax string | Custom string

definition f64_is_finite :: "f64 \<Rightarrow> bool" where
  "f64_is_finite f \<longleftrightarrow> and (drop_bit 52 f) 2047 \<noteq> 2047"

definition closing :: "string option \<Rightarrow> 'a \<Rightarrow> json_error + 'a" where
  "closing bad x = (case bad of Some e \<Rightarrow> Inl (Syntax e) | None \<Rightarrow> Inr x)"

fun strict_value :: "raw_json \<Rightarrow> json_error + json"
  and strict_seq :: "raw_json list \<Rightarrow> json_error + json list"
  and strict_map :: "string set \<Rightarrow> json_map \<Rightarrow> (string \<times> raw_json) list \<Rightarrow> json_error + json_map"
  where
    "strict_value RNull = Inr JNull"
  | "strict_value (RBool b) = Inr (JBool b)"
  | "strict_value (RI64 i) = Inr (JNumber (if i < 0 then NegInt i else PosInt (of_int i)))"
  | "strict_value (RU64 n) = Inr (JNumber (PosInt n))"
  | "strict_value (RF64 f) =
       (if f64_is_finite f then Inr (JNumber (JFloat f)) else Inl (Custom ''non-finite JSON number''))"
  | "strict_value (RString s) = Inr (JString s)"
  | "strict_value (RSeq vs bad) =
       and_then (strict_seq vs) (\<lambda>xs. and_then (closing bad xs) (\<lambda>xs. Inr (JArray xs)))"
  | "strict_value (RMap kvs bad) =
       and_then (strict_map {} [] kvs) (\<lambda>m. and_then (closing bad m) (\<lambda>m. Inr (JObject m)))"
  | "strict_value (RBad e) = Inl (Syntax e)"
  | "strict_seq [] = Inr []"
  | "strict_seq (v # vs) =
       and_then (strict_value v) (\<lambda>x. and_then (strict_seq vs) (\<lambda>xs. Inr (x # xs)))"
  | "strict_map seen m [] = Inr m"
  | "strict_map seen m ((k, v) # rest) =
       (if k \<in> seen then Inl (Custom (''duplicate object key '' @ k))
        else and_then (strict_value v) (\<lambda>x. strict_map (insert k seen) (obj_insert k x m) rest))"

text \<open>The documents the visitor accepts: complete, with finite numbers and no duplicate key.\<close>

fun strict_ok :: "raw_json \<Rightarrow> bool" where
  "strict_ok (RF64 f) = f64_is_finite f"
| "strict_ok (RSeq vs bad) = (bad = None \<and> (\<forall>v \<in> set vs. strict_ok v))"
| "strict_ok (RMap kvs bad) =
     (bad = None \<and> distinct (map fst kvs) \<and> (\<forall>p \<in> set kvs. strict_ok (snd p)))"
| "strict_ok (RBad e) = False"
| "strict_ok _ = True"

lemma strict_accepts:
  "(\<exists>v. strict_value r = Inr v) \<longleftrightarrow> strict_ok r"
  "(\<exists>xs. strict_seq rs = Inr xs) \<longleftrightarrow> (\<forall>r \<in> set rs. strict_ok r)"
  "(\<exists>m'. strict_map seen m kvs = Inr m') \<longleftrightarrow>
     distinct (map fst kvs) \<and> (\<forall>p \<in> set kvs. fst p \<notin> seen \<and> strict_ok (snd p))"
proof (induction r and rs and seen m kvs rule: strict_value_strict_seq_strict_map.induct)
  case (7 vs bad)
  then show ?case by (auto simp: closing_def and_then_eq_Inr split: option.splits)
next
  case (8 kvs bad)
  then show ?case by (auto simp: closing_def and_then_eq_Inr split: option.splits)
next
  case (11 v vs)
  then show ?case by (cases "strict_value v") (auto simp: and_then_eq_Inr)
next
  case (13 seen m k v rest)
  then show ?case
    by (cases "k \<in> seen"; cases "strict_value v") (auto simp: and_then_eq_Inr)
qed auto

end
