(* ===== verification/Query.thy ===== *)
theory Query
  imports Values
begin

text \<open>
  The query policy of src/query/mod.rs: query errors with their codes and texts, the
  conversions from and to \<^verbatim>\<open>VcdError\<close>, the optional limits, and the cooperative check for
  cancellation and deadline.

  Cancellation, the clock and the source file belong to the environment of a query and may
  change at any moment. An \<open>environment\<close> gives what the \<open>n\<close>-th observation of the query
  finds: the cancellation flag, the clock, and the outcome of validating the source. Every
  poll of the context and every validation of the source is one observation; the state that a
  query threads counts them.
\<close>

datatype query_limit_kind = Signals | Rows | ResultBytes | Commands

datatype query_error =
    Cancelled
  | DeadlineExceeded
  | LimitExceeded query_limit_kind u64 u64 \<comment> \<open>kind, limit, actual\<close>
  | StaleSource vcd_error
  | QueueFull
  | SourceUnavailable io_error
  | SignalNotFound string
  | Vcd vcd_error
  | Fst string
  | UnsupportedWaveform string
  | Internal string

fun limit_kind_code :: "query_limit_kind \<Rightarrow> string" where
  "limit_kind_code Signals = ''signals''"
| "limit_kind_code Rows = ''rows''"
| "limit_kind_code ResultBytes = ''result_bytes''"
| "limit_kind_code Commands = ''commands''"

datatype query_code =
    CCancelled | CDeadlineExceeded | CLimitExceeded | CStaleSource | CQueueFull
  | CSourceUnavailable | CSignalNotFound | CVcd | CFst | CUnsupportedWaveform | CInternal

fun query_code_text :: "query_code \<Rightarrow> string" where
  "query_code_text CCancelled = ''CANCELLED''"
| "query_code_text CDeadlineExceeded = ''DEADLINE_EXCEEDED''"
| "query_code_text CLimitExceeded = ''LIMIT_EXCEEDED''"
| "query_code_text CStaleSource = ''STALE_SOURCE''"
| "query_code_text CQueueFull = ''QUEUE_FULL''"
| "query_code_text CSourceUnavailable = ''SOURCE_UNAVAILABLE''"
| "query_code_text CSignalNotFound = ''SIGNAL_NOT_FOUND''"
| "query_code_text CVcd = ''VCD_ERROR''"
| "query_code_text CFst = ''FST_ERROR''"
| "query_code_text CUnsupportedWaveform = ''UNSUPPORTED_WAVEFORM''"
| "query_code_text CInternal = ''INTERNAL''"

fun query_error_code :: "query_error \<Rightarrow> query_code" where
  "query_error_code Cancelled = CCancelled"
| "query_error_code DeadlineExceeded = CDeadlineExceeded"
| "query_error_code (LimitExceeded _ _ _) = CLimitExceeded"
| "query_error_code (StaleSource _) = CStaleSource"
| "query_error_code QueueFull = CQueueFull"
| "query_error_code (SourceUnavailable _) = CSourceUnavailable"
| "query_error_code (SignalNotFound _) = CSignalNotFound"
| "query_error_code (Vcd _) = CVcd"
| "query_error_code (Fst _) = CFst"
| "query_error_code (UnsupportedWaveform _) = CUnsupportedWaveform"
| "query_error_code (Internal _) = CInternal"

fun error_limit_kind :: "query_error \<Rightarrow> query_limit_kind option" where
  "error_limit_kind (LimitExceeded k _ _) = Some k"
| "error_limit_kind _ = None"

fun error_limit :: "query_error \<Rightarrow> u64 option" where
  "error_limit (LimitExceeded _ l _) = Some l"
| "error_limit _ = None"

fun error_actual :: "query_error \<Rightarrow> u64 option" where
  "error_actual (LimitExceeded _ _ a) = Some a"
| "error_actual _ = None"

fun query_error_text :: "query_error \<Rightarrow> string" where
  "query_error_text Cancelled = ''query cancelled''"
| "query_error_text DeadlineExceeded = ''query deadline exceeded''"
| "query_error_text (LimitExceeded k l a) =
     ''query '' @ limit_kind_code k @ '' limit exceeded: limit '' @ decimal (unat l)
       @ '', actual '' @ decimal (unat a)"
| "query_error_text (StaleSource e) = vcd_error_text e"
| "query_error_text QueueFull = ''query queue is full''"
| "query_error_text (SourceUnavailable e) = ''source unavailable: '' @ io_message e"
| "query_error_text (SignalNotFound s) = ''signal not found: '' @ s"
| "query_error_text (Vcd e) = vcd_error_text e"
| "query_error_text (Fst m) = ''FST query error: '' @ m"
| "query_error_text (UnsupportedWaveform m) = ''unsupported waveform: '' @ m"
| "query_error_text (Internal m) = ''internal query error: '' @ m"

fun query_error_of_vcd :: "vcd_error \<Rightarrow> query_error" where
  "query_error_of_vcd (Io e) =
     (if is_generation_mismatch e then StaleSource (Io e) else SourceUnavailable e)"
| "query_error_of_vcd e = Vcd e"

fun into_vcd_error :: "query_error \<Rightarrow> vcd_error" where
  "into_vcd_error (StaleSource e) = e"
| "into_vcd_error (Vcd e) = e"
| "into_vcd_error (SourceUnavailable e) = Io e"
| "into_vcd_error Cancelled = Parse ''query cancelled''"
| "into_vcd_error DeadlineExceeded = Parse ''query deadline exceeded''"
| "into_vcd_error e = Parse (query_error_text e)"

subsection \<open>Limits\<close>

text \<open>An \<^verbatim>\<open>Instant\<close> is a number of nanoseconds; \<^verbatim>\<open>usize\<close> lengths are naturals.\<close>

record query_limits =
  max_signals :: "nat option"
  max_rows :: "u64 option"
  max_result_bytes :: "u64 option"
  max_commands :: "u64 option"
  deadline :: "nat option"

definition unlimited :: query_limits where
  "unlimited = \<lparr>max_signals = None, max_rows = None, max_result_bytes = None,
     max_commands = None, deadline = None\<rparr>"

definition with_max_signals :: "nat \<Rightarrow> query_limits \<Rightarrow> query_limits" where
  "with_max_signals l q = q\<lparr>max_signals := Some l\<rparr>"

definition with_max_rows :: "u64 \<Rightarrow> query_limits \<Rightarrow> query_limits" where
  "with_max_rows l q = q\<lparr>max_rows := Some l\<rparr>"

definition with_max_result_bytes :: "u64 \<Rightarrow> query_limits \<Rightarrow> query_limits" where
  "with_max_result_bytes l q = q\<lparr>max_result_bytes := Some l\<rparr>"

definition with_max_commands :: "u64 \<Rightarrow> query_limits \<Rightarrow> query_limits" where
  "with_max_commands l q = q\<lparr>max_commands := Some l\<rparr>"

definition with_deadline :: "nat \<Rightarrow> query_limits \<Rightarrow> query_limits" where
  "with_deadline d q = q\<lparr>deadline := Some d\<rparr>"

text \<open>\<open>instant_max\<close> is the largest representable instant of the platform.\<close>

definition checked_instant :: "nat \<Rightarrow> nat \<Rightarrow> nat \<Rightarrow> nat option" where
  "checked_instant instant_max now d = (if now + d \<le> instant_max then Some (now + d) else None)"

definition with_timeout :: "nat \<Rightarrow> nat \<Rightarrow> nat \<Rightarrow> query_limits \<Rightarrow> query_limits" where
  "with_timeout instant_max now timeout q = q\<lparr>deadline := checked_instant instant_max now timeout\<rparr>"

subsection \<open>The environment and the checks\<close>

record environment =
  env_cancelled :: "nat \<Rightarrow> bool"
  env_now :: "nat \<Rightarrow> nat"
  env_source :: "nat \<Rightarrow> vcd_error + unit"

definition check :: "environment \<Rightarrow> query_limits \<Rightarrow> nat \<Rightarrow> query_error + unit" where
  "check env q n =
     (if env_cancelled env n then Inl Cancelled
      else if (case deadline q of Some d \<Rightarrow> env_now env n \<ge> d | None \<Rightarrow> False)
           then Inl DeadlineExceeded
      else Inr ())"

definition u64_of_usize :: "nat \<Rightarrow> u64" where
  "u64_of_usize n = (if n \<le> u64_max then of_nat n else - 1)"

definition check_signal_count ::
    "environment \<Rightarrow> query_limits \<Rightarrow> nat \<Rightarrow> nat \<Rightarrow> query_error + unit" where
  "check_signal_count env q n actual =
     and_then (check env q n) (\<lambda>_.
       case max_signals q of
         Some limit \<Rightarrow>
           if actual > limit
           then Inl (LimitExceeded Signals (u64_of_usize limit) (u64_of_usize actual))
           else Inr ()
       | None \<Rightarrow> Inr ())"

definition check_u64_limit ::
    "environment \<Rightarrow> query_limits \<Rightarrow> nat \<Rightarrow> query_limit_kind \<Rightarrow> u64 option \<Rightarrow> u64 \<Rightarrow> query_error + unit"
  where
  "check_u64_limit env q n kind limit actual =
     and_then (check env q n) (\<lambda>_.
       case limit of
         Some l \<Rightarrow> if actual > l then Inl (LimitExceeded kind l actual) else Inr ()
       | None \<Rightarrow> Inr ())"

definition check_rows :: "environment \<Rightarrow> query_limits \<Rightarrow> nat \<Rightarrow> u64 \<Rightarrow> query_error + unit" where
  "check_rows env q n actual = check_u64_limit env q n Rows (max_rows q) actual"

definition check_result_bytes ::
    "environment \<Rightarrow> query_limits \<Rightarrow> nat \<Rightarrow> u64 \<Rightarrow> query_error + unit" where
  "check_result_bytes env q n actual =
     check_u64_limit env q n ResultBytes (max_result_bytes q) actual"

definition check_commands :: "environment \<Rightarrow> query_limits \<Rightarrow> nat \<Rightarrow> u64 \<Rightarrow> query_error + unit" where
  "check_commands env q n actual = check_u64_limit env q n Commands (max_commands q) actual"

definition within :: "u64 option \<Rightarrow> u64 \<Rightarrow> bool" where
  "within limit actual \<longleftrightarrow> (case limit of Some l \<Rightarrow> actual \<le> l | None \<Rightarrow> True)"

lemma check_iff [result_iff]:
  "check env q n = Inr u \<longleftrightarrow>
     \<not> env_cancelled env n \<and> (\<forall>d. deadline q = Some d \<longrightarrow> env_now env n < d)"
  by (auto simp: check_def split: option.splits)

lemma check_error: "check env q n = Inl e \<Longrightarrow> e = Cancelled \<or> e = DeadlineExceeded"
  by (auto simp: check_def split: if_splits)

text \<open>An environment that never interferes: no cancellation, no deadline, an unchanged source.\<close>

definition quiet :: "environment \<Rightarrow> query_limits \<Rightarrow> bool" where
  "quiet env q \<longleftrightarrow> (\<forall>n. check env q n = Inr () \<and> env_source env n = Inr ())"

text \<open>A concrete quiet environment, for evaluation.\<close>

definition calm :: environment where
  "calm = \<lparr>env_cancelled = (\<lambda>_. False), env_now = (\<lambda>n. n), env_source = (\<lambda>_. Inr ())\<rparr>"

lemma quiet_calm: "deadline q = None \<Longrightarrow> quiet calm q"
  by (simp add: quiet_def calm_def check_def)

lemma quiet_check [simp]: "quiet env q \<Longrightarrow> check env q n = Inr ()"
  by (simp add: quiet_def)

lemma quiet_source [simp]: "quiet env q \<Longrightarrow> env_source env n = Inr ()"
  by (simp add: quiet_def)

subsection \<open>Properties\<close>

text \<open>
  The compatibility wrappers lose no error: converting a library error to a query error and
  back gives the same error, so path-based functions report what they always reported.
\<close>

lemma vcd_error_round_trip: "into_vcd_error (query_error_of_vcd e) = e"
  by (cases e) auto

text \<open>
  A limit check passes exactly when the context is neither cancelled nor past its deadline
  and the actual count is within the limit. Cancellation takes precedence over the deadline and
  both over the limit, and a limit error carries the configured limit and the actual count.
\<close>

lemma check_u64_limit_outcome:
  "check_u64_limit env q n kind limit actual =
     (if env_cancelled env n then Inl Cancelled
      else if \<exists>d. deadline q = Some d \<and> d \<le> env_now env n then Inl DeadlineExceeded
      else if within limit actual then Inr ()
      else Inl (LimitExceeded kind (the limit) actual))"
  by (auto simp: check_u64_limit_def check_def within_def split: option.splits)

end
