(* ===== verification/Catalog.thy ===== *)
theory Catalog
  imports Values
begin

text \<open>
  The compact signal catalog of src/catalog.rs, the legacy \<^verbatim>\<open>SignalIndex\<close> of src/lib.rs and the
  borrowed \<^verbatim>\<open>SignalRef\<close> of src/opened/mod.rs. A catalog interns each full name once and holds
  32-bit keys into the signal table and the scope arena.

  The header tree comes from the external \<^verbatim>\<open>vcd\<close> parser; \<open>scope_item\<close> has the constructors
  the builder matches on. A variable's bit-select index is kept as the text the crate prints for
  it, and its type as an opaque number.

  Reading an arena or table out of range would panic and a cyclic scope chain would never end:
  both are \<open>None\<close> of the functions that follow keys. The catalog invariant \<open>represents\<close> rules
  both out.
\<close>

type_synonym var_type = nat

record var =
  var_code :: id_code
  var_size :: u32
  var_type_of :: var_type
  var_reference :: string
  var_index :: "string option"

datatype scope_item =
    ScopeItem string "scope_item list"
  | VarItem var
  | OtherItem

record scope_node =
  sn_component :: string
  sn_parent :: "u32 option"

record signal_meta =
  sm_id :: id_code
  sm_name :: string
  sm_size :: u32
  sm_type :: var_type
  sm_scope :: "u32 option"

record catalog =
  cat_signals :: "signal_meta list"
  cat_by_name :: "string \<rightharpoonup> u32"
  cat_aliases :: "id_code \<rightharpoonup> u32 list"
  cat_scopes :: "scope_node list"

subsection \<open>Building\<close>

definition catalog_capacity_error :: vcd_error where
  "catalog_capacity_error = Parse ''VCD signal catalog exceeds supported size''"

definition key_from_len :: "nat \<Rightarrow> vcd_error + u32" where
  "key_from_len len = (if len < 2 ^ 32 then Inr (of_nat len) else Inl catalog_capacity_error)"

definition key_index :: "u32 \<Rightarrow> nat" where
  "key_index k = unat k"

definition new_builder :: catalog where
  "new_builder = \<lparr>cat_signals = [], cat_by_name = Map.empty, cat_aliases = Map.empty,
     cat_scopes = []\<rparr>"

definition add_scope :: "string \<Rightarrow> u32 option \<Rightarrow> catalog \<Rightarrow> vcd_error + u32 \<times> catalog" where
  "add_scope component parent b =
     and_then (key_from_len (length (cat_scopes b))) (\<lambda>key.
       Inr (key, b\<lparr>cat_scopes := cat_scopes b @
                     [\<lparr>sn_component = component, sn_parent = parent\<rparr>]\<rparr>))"

definition full_name :: "string \<Rightarrow> var \<Rightarrow> string" where
  "full_name pre v =
     (if pre \<noteq> [] then pre @ ''.'' else []) @ var_reference v
       @ (case var_index v of Some i \<Rightarrow> i | None \<Rightarrow> [])"

definition push_alias :: "(id_code \<rightharpoonup> 'k list) \<Rightarrow> id_code \<Rightarrow> 'k \<Rightarrow> (id_code \<rightharpoonup> 'k list)" where
  "push_alias m i k = m(i \<mapsto> (case m i of None \<Rightarrow> [k] | Some ks \<Rightarrow> ks @ [k]))"

definition entries :: "(id_code \<rightharpoonup> 'k list) \<Rightarrow> id_code \<Rightarrow> 'k list" where
  "entries m i = (case m i of Some ks \<Rightarrow> ks | None \<Rightarrow> [])"

lemma entries_simps [simp]:
  "entries Map.empty i = []"
  "entries (push_alias m i k) j = entries m j @ (if j = i then [k] else [])"
  by (auto simp: entries_def push_alias_def split: option.splits)

definition add_signal :: "u32 option \<Rightarrow> string \<Rightarrow> var \<Rightarrow> catalog \<Rightarrow> vcd_error + catalog" where
  "add_signal sc pre v b =
     and_then (key_from_len (length (cat_signals b))) (\<lambda>key.
       let name = full_name pre v in
       if cat_by_name b name \<noteq> None then Inl (DuplicateSignal name)
       else Inr (b\<lparr>cat_signals := cat_signals b @
                     [\<lparr>sm_id = var_code v, sm_name = name, sm_size = var_size v,
                       sm_type = var_type_of v, sm_scope = sc\<rparr>],
                   cat_by_name := (cat_by_name b)(name \<mapsto> key),
                   cat_aliases := push_alias (cat_aliases b) (var_code v) key\<rparr>))"

definition extend_prefix :: "string \<Rightarrow> string \<Rightarrow> string" where
  "extend_prefix pre component =
     (if pre \<noteq> [] then pre @ ''.'' else pre) @ component"

fun collect_items ::
    "scope_item list \<Rightarrow> u32 option \<Rightarrow> string \<Rightarrow> catalog \<Rightarrow> vcd_error + catalog" where
  "collect_items [] parent pre b = Inr b"
| "collect_items (ScopeItem component children # items) parent pre b =
     and_then (add_scope component parent b) (\<lambda>kb.
     and_then (collect_items children (Some (fst kb)) (extend_prefix pre component) (snd kb))
       (\<lambda>b'. collect_items items parent pre b'))"
| "collect_items (VarItem v # items) parent pre b =
     and_then (add_signal parent pre v b) (\<lambda>b'. collect_items items parent pre b')"
| "collect_items (OtherItem # items) parent pre b = collect_items items parent pre b"

definition from_scope_items :: "scope_item list \<Rightarrow> vcd_error + catalog" where
  "from_scope_items items = collect_items items None [] new_builder"

subsection \<open>Reading\<close>

definition catalog_len :: "catalog \<Rightarrow> nat" where
  "catalog_len c = length (cat_signals c)"

definition catalog_signal :: "catalog \<Rightarrow> u32 \<Rightarrow> signal_meta option" where
  "catalog_signal c k =
     (if key_index k < length (cat_signals c) then Some (cat_signals c ! key_index k) else None)"

definition key_by_name :: "catalog \<Rightarrow> string \<Rightarrow> u32 option" where
  "key_by_name c name = cat_by_name c name"

definition aliases :: "catalog \<Rightarrow> id_code \<Rightarrow> u32 list" where
  "aliases c i = entries (cat_aliases c) i"

definition catalog_names :: "catalog \<Rightarrow> string list" where
  "catalog_names c = map sm_name (cat_signals c)"

definition signal_keys :: "catalog \<Rightarrow> u32 list" where
  "signal_keys c = map of_nat [0..<length (cat_signals c)]"

partial_function (option) scope_chain ::
    "scope_node list \<Rightarrow> u32 option \<Rightarrow> string list \<Rightarrow> string list option" where
  "scope_chain scopes current acc =
     (case current of
        None \<Rightarrow> Some acc
      | Some k \<Rightarrow>
          if key_index k < length scopes
          then scope_chain scopes (sn_parent (scopes ! key_index k))
                 (sn_component (scopes ! key_index k) # acc)
          else None)"

definition scope_components :: "catalog \<Rightarrow> u32 option \<Rightarrow> string list option" where
  "scope_components c sc = scope_chain (cat_scopes c) sc []"

record signal =
  sig_name :: string
  sig_id :: id_code
  sig_size :: u32
  sig_type :: var_type
  sig_scope :: "string list"

definition owned_signal :: "catalog \<Rightarrow> signal_meta \<Rightarrow> signal option" where
  "owned_signal c m =
     map_option (\<lambda>path. \<lparr>sig_name = sm_name m, sig_id = sm_id m, sig_size = sm_size m,
                         sig_type = sm_type m, sig_scope = path\<rparr>)
       (scope_components c (sm_scope m))"

definition to_owned_signals :: "catalog \<Rightarrow> signal list option" where
  "to_owned_signals c = those (map (owned_signal c) (cat_signals c))"

text \<open>\<^verbatim>\<open>SignalRef::to_owned\<close> through a key\<close>

definition ref_to_owned :: "catalog \<Rightarrow> u32 \<Rightarrow> signal option" where
  "ref_to_owned c k = Option.bind (catalog_signal c k) (owned_signal c)"

subsection \<open>The legacy index\<close>

record signal_index =
  by_id :: "id_code \<rightharpoonup> signal list"
  by_name :: "string \<rightharpoonup> signal"

fun build_index_from :: "signal_index \<Rightarrow> signal list \<Rightarrow> vcd_error + signal_index" where
  "build_index_from idx [] = Inr idx"
| "build_index_from idx (s # ss) =
     (let idx1 = idx\<lparr>by_id := push_alias (by_id idx) (sig_id s) s\<rparr> in
      if by_name idx1 (sig_name s) \<noteq> None then Inl (DuplicateSignal (sig_name s))
      else build_index_from (idx1\<lparr>by_name := (by_name idx1)(sig_name s \<mapsto> s)\<rparr>) ss)"

definition build_index :: "signal list \<Rightarrow> vcd_error + signal_index" where
  "build_index ss = build_index_from \<lparr>by_id = Map.empty, by_name = Map.empty\<rparr> ss"

definition to_compatibility_parts :: "catalog \<Rightarrow> (vcd_error + signal list \<times> signal_index) option" where
  "to_compatibility_parts c =
     map_option (\<lambda>ss. and_then (build_index ss) (\<lambda>idx. Inr (ss, idx))) (to_owned_signals c)"

text \<open>
  \<^verbatim>\<open>build_target_map\<close>: the requested names by identifier code, and the names that are missing.
\<close>

fun build_target_map_from ::
    "signal_index \<Rightarrow> (id_code \<rightharpoonup> string list) \<Rightarrow> string list \<Rightarrow> string list
      \<Rightarrow> (id_code \<rightharpoonup> string list) \<times> string list" where
  "build_target_map_from idx m missing [] = (m, missing)"
| "build_target_map_from idx m missing (t # ts) =
     (case by_name idx t of
        Some s \<Rightarrow> build_target_map_from idx (push_alias m (sig_id s) (sig_name s)) missing ts
      | None \<Rightarrow> build_target_map_from idx m (missing @ [t]) ts)"

definition build_target_map ::
    "signal_index \<Rightarrow> string list \<Rightarrow> (id_code \<rightharpoonup> string list) \<times> string list" where
  "build_target_map idx targets = build_target_map_from idx Map.empty [] targets"

definition build_sizes :: "signal list \<Rightarrow> (string \<rightharpoonup> u32)" where
  "build_sizes ss = foldl (\<lambda>m s. m(sig_name s \<mapsto> sig_size s)) Map.empty ss"

subsection \<open>The declarations a header makes\<close>

text \<open>
  The specification of the builder: the variables of the tree in depth-first order, each with
  its full name and the path of the scopes around it.
\<close>

fun declared :: "scope_item list \<Rightarrow> string list \<Rightarrow> string \<Rightarrow> (string \<times> var \<times> string list) list" where
  "declared [] path pre = []"
| "declared (ScopeItem component children # items) path pre =
     declared children (path @ [component]) (extend_prefix pre component)
       @ declared items path pre"
| "declared (VarItem v # items) path pre =
     (full_name pre v, v, path) # declared items path pre"
| "declared (OtherItem # items) path pre = declared items path pre"

fun count_scopes :: "scope_item list \<Rightarrow> nat" where
  "count_scopes [] = 0"
| "count_scopes (ScopeItem _ children # items) = Suc (count_scopes children + count_scopes items)"
| "count_scopes (VarItem _ # items) = count_scopes items"
| "count_scopes (OtherItem # items) = count_scopes items"

definition declarations :: "scope_item list \<Rightarrow> (string \<times> var \<times> string list) list" where
  "declarations items = declared items [] []"

definition signal_of_declaration :: "string \<times> var \<times> string list \<Rightarrow> signal" where
  "signal_of_declaration d = (case d of (name, v, path) \<Rightarrow>
     \<lparr>sig_name = name, sig_id = var_code v, sig_size = var_size v,
      sig_type = var_type_of v, sig_scope = path\<rparr>)"

subsection \<open>The catalog invariant\<close>

text \<open>
  \<open>scopes_ok scopes paths\<close>: every parent key points to an earlier node, and \<open>paths\<close> holds
  the full path of each node.
\<close>

definition path_at :: "string list list \<Rightarrow> u32 option \<Rightarrow> string list" where
  "path_at paths sc = (case sc of None \<Rightarrow> [] | Some k \<Rightarrow> paths ! key_index k)"

definition scope_valid :: "'a list \<Rightarrow> u32 option \<Rightarrow> bool" where
  "scope_valid xs sc \<longleftrightarrow> (case sc of None \<Rightarrow> True | Some k \<Rightarrow> key_index k < length xs)"

definition scopes_ok :: "scope_node list \<Rightarrow> string list list \<Rightarrow> bool" where
  "scopes_ok scopes paths \<longleftrightarrow>
     length paths = length scopes \<and>
     (\<forall>i < length scopes.
        scope_valid (take i scopes) (sn_parent (scopes ! i)) \<and>
        paths ! i = path_at paths (sn_parent (scopes ! i)) @ [sn_component (scopes ! i)])"

definition meta_matches ::
    "string list list \<Rightarrow> signal_meta \<Rightarrow> string \<times> var \<times> string list \<Rightarrow> bool" where
  "meta_matches paths m d \<longleftrightarrow> (case d of (name, v, path) \<Rightarrow>
     sm_name m = name \<and> sm_id m = var_code v \<and> sm_size m = var_size v \<and>
     sm_type m = var_type_of v \<and> scope_valid paths (sm_scope m) \<and>
     path_at paths (sm_scope m) = path)"

definition names_ok :: "catalog \<Rightarrow> bool" where
  "names_ok b \<longleftrightarrow>
     distinct (catalog_names b) \<and> dom (cat_by_name b) = set (catalog_names b) \<and>
     (\<forall>i < length (cat_signals b).
        cat_by_name b (sm_name (cat_signals b ! i)) = Some (of_nat i))"

definition aliases_ok :: "catalog \<Rightarrow> bool" where
  "aliases_ok b \<longleftrightarrow>
     (\<forall>i. aliases b i =
        map of_nat (filter (\<lambda>j. sm_id (cat_signals b ! j) = i) [0..<length (cat_signals b)]))"

definition represents ::
    "catalog \<Rightarrow> (string \<times> var \<times> string list) list \<Rightarrow> string list list \<Rightarrow> bool" where
  "represents b ds paths \<longleftrightarrow>
     list_all2 (meta_matches paths) (cat_signals b) ds \<and>
     scopes_ok (cat_scopes b) paths \<and> names_ok b \<and> aliases_ok b \<and>
     length (cat_signals b) \<le> 2 ^ 32 \<and> length (cat_scopes b) \<le> 2 ^ 32"

lemma key_from_len_Inr [result_iff]: "key_from_len n = Inr k \<longleftrightarrow> n < 2 ^ 32 \<and> k = of_nat n"
  by (auto simp: key_from_len_def)

lemma key_from_len_Inl [result_iff]:
  "key_from_len n = Inl e \<longleftrightarrow> 2 ^ 32 \<le> n \<and> e = catalog_capacity_error"
  by (auto simp: key_from_len_def)

lemma key_index_of_nat [simp]: "n < 2 ^ 32 \<Longrightarrow> key_index (of_nat n) = n"
  by (simp add: key_index_def unsigned_of_nat take_bit_nat_eq_self)

lemma path_at_append: "scope_valid paths sc \<Longrightarrow> path_at (paths @ ps) sc = path_at paths sc"
  by (auto simp: path_at_def scope_valid_def nth_append split: option.splits)

lemma scope_valid_append: "scope_valid paths sc \<Longrightarrow> scope_valid (paths @ ps) sc"
  by (auto simp: scope_valid_def split: option.splits)

lemma meta_matches_append: "meta_matches paths m d \<Longrightarrow> meta_matches (paths @ ps) m d"
  by (auto simp: meta_matches_def path_at_append scope_valid_append)

lemma represents_new_builder: "represents new_builder [] []"
  by (simp add: represents_def new_builder_def scopes_ok_def names_ok_def aliases_ok_def
      aliases_def catalog_names_def)

lemma represents_names: "represents b ds paths \<Longrightarrow> catalog_names b = map fst ds"
  by (auto simp: represents_def catalog_names_def meta_matches_def list_all2_conv_all_nth
      intro!: nth_equalityI)

subsection \<open>The builder keeps the invariant\<close>

lemma add_scope_represents:
  assumes rep: "represents b ds paths" and sc: "scope_valid paths parent"
    and add: "add_scope c parent b = Inr (k, b')"
  shows "represents b' ds (paths @ [path_at paths parent @ [c]]) \<and>
    key_index k = length paths \<and> length (cat_scopes b') = Suc (length (cat_scopes b)) \<and>
    cat_signals b' = cat_signals b"
proof -
  let ?n = "length (cat_scopes b)"
  let ?paths = "paths @ [path_at paths parent @ [c]]"
  have n: "?n < 2 ^ 32" and k: "k = of_nat ?n"
    and b': "b' = b\<lparr>cat_scopes := cat_scopes b @ [\<lparr>sn_component = c, sn_parent = parent\<rparr>]\<rparr>"
    using add by (auto simp: add_scope_def result_iff)
  have len: "length paths = ?n" and ok: "scopes_ok (cat_scopes b) paths"
    using rep by (auto simp: represents_def scopes_ok_def)
  have "scopes_ok (cat_scopes b') ?paths"
    unfolding scopes_ok_def
  proof (intro conjI allI impI)
    show "length ?paths = length (cat_scopes b')" using len b' by simp
  next
    fix i assume i: "i < length (cat_scopes b')"
    show "scope_valid (take i (cat_scopes b')) (sn_parent (cat_scopes b' ! i))"
      using i b' ok sc len
      by (auto simp: scopes_ok_def nth_append scope_valid_def less_Suc_eq split: option.splits)
    have valid: "i < ?n \<Longrightarrow> scope_valid paths (sn_parent (cat_scopes b ! i))"
      using ok len by (auto simp: scopes_ok_def scope_valid_def split: option.splits)
    show "?paths ! i = path_at ?paths (sn_parent (cat_scopes b' ! i)) @ [sn_component (cat_scopes b' ! i)]"
      using i b' ok len sc valid
      by (auto simp: scopes_ok_def nth_append path_at_append less_Suc_eq)
  qed
  moreover have "list_all2 (meta_matches ?paths) (cat_signals b) ds"
    using rep unfolding represents_def
    by (auto elim!: list_all2_mono simp: meta_matches_append)
  ultimately show ?thesis
    using rep b' n k len
    by (auto simp: represents_def names_ok_def aliases_ok_def aliases_def catalog_names_def)
qed

lemma add_signal_represents:
  assumes rep: "represents b ds paths" and sc: "scope_valid paths parent"
    and add: "add_signal parent pre v b = Inr b'"
  shows "represents b' (ds @ [(full_name pre v, v, path_at paths parent)]) paths"
proof -
  let ?m = "\<lparr>sm_id = var_code v, sm_name = full_name pre v, sm_size = var_size v,
             sm_type = var_type_of v, sm_scope = parent\<rparr>"
  let ?n = "length (cat_signals b)"
  have n: "?n < 2 ^ 32" and new: "cat_by_name b (full_name pre v) = None"
    and b': "b' = b\<lparr>cat_signals := cat_signals b @ [?m],
                    cat_by_name := (cat_by_name b)(full_name pre v \<mapsto> of_nat ?n),
                    cat_aliases := push_alias (cat_aliases b) (var_code v) (of_nat ?n)\<rparr>"
    using add by (auto simp: add_signal_def Let_def result_iff split: if_splits)
  have ok: "names_ok b" and al: "aliases_ok b" using rep by (auto simp: represents_def)
  have fresh: "full_name pre v \<notin> set (catalog_names b)"
    using ok new domIff [of "full_name pre v" "cat_by_name b"] by (simp add: names_ok_def)
  have "names_ok b'"
    unfolding names_ok_def
  proof (intro conjI allI impI)
    show "distinct (catalog_names b')" and "dom (cat_by_name b') = set (catalog_names b')"
      using ok fresh b' by (auto simp: names_ok_def catalog_names_def)
    fix i assume "i < length (cat_signals b')"
    moreover have "i < ?n \<Longrightarrow> sm_name (cat_signals b ! i) \<noteq> full_name pre v"
      using fresh nth_mem [of i "cat_signals b"] by (metis catalog_names_def image_eqI set_map)
    ultimately show "cat_by_name b' (sm_name (cat_signals b' ! i)) = Some (of_nat i)"
      using ok b' by (auto simp: names_ok_def nth_append less_Suc_eq)
  qed
  moreover have "aliases_ok b'"
    unfolding aliases_ok_def
  proof
    fix i
    have "aliases b' i = aliases b i @ (if i = var_code v then [of_nat ?n] else [])"
      using b' by (simp add: aliases_def)
    then show "aliases b' i =
        map of_nat (filter (\<lambda>j. sm_id (cat_signals b' ! j) = i) [0..<length (cat_signals b')])"
      using al b' by (auto simp: aliases_ok_def nth_append intro!: filter_cong arg_cong [where f = "map of_nat"])
  qed
  ultimately show ?thesis
    using rep b' n sc by (auto simp: represents_def meta_matches_def list_all2_appendI)
qed

lemma add_signal_result:
  assumes rep: "represents b ds paths" and small: "length ds < 2 ^ 32"
  shows "(\<exists>b'. add_signal parent pre v b = Inr b') \<longleftrightarrow> full_name pre v \<notin> set (map fst ds)"
    and "full_name pre v \<in> set (map fst ds) \<Longrightarrow>
      add_signal parent pre v b = Inl (DuplicateSignal (full_name pre v))"
proof -
  have len: "length (cat_signals b) = length ds"
    using rep by (auto simp: represents_def list_all2_lengthD)
  have "dom (cat_by_name b) = set (map fst ds)"
    using represents_names [OF rep] rep by (simp add: represents_def names_ok_def)
  then have known: "cat_by_name b n = None \<longleftrightarrow> n \<notin> set (map fst ds)" for n
    using domIff [of n "cat_by_name b"] by simp
  show "(\<exists>b'. add_signal parent pre v b = Inr b') \<longleftrightarrow> full_name pre v \<notin> set (map fst ds)"
    and "full_name pre v \<in> set (map fst ds) \<Longrightarrow>
      add_signal parent pre v b = Inl (DuplicateSignal (full_name pre v))"
    using small len by (simp_all add: add_signal_def key_from_len_def Let_def known)
qed

lemma collect_items_represents:
  assumes "collect_items items parent pre b = Inr b'" and "represents b ds paths"
    and "scope_valid paths parent" and "path_at paths parent = path"
  shows "\<exists>ps. represents b' (ds @ declared items path pre) (paths @ ps) \<and>
    length ps = count_scopes items"
  using assms
proof (induction items parent pre b arbitrary: b' ds paths path rule: collect_items.induct)
  case (2 component children items parent pre b)
  obtain k b1 b2 where add: "add_scope component parent b = Inr (k, b1)"
    and ch: "collect_items children (Some k) (extend_prefix pre component) b1 = Inr b2"
    and rest: "collect_items items parent pre b2 = Inr b'"
    using "2.prems"(1) by (auto simp: result_iff)
  let ?p1 = "paths @ [path @ [component]]"
  have r1: "represents b1 ds ?p1" and k: "key_index k = length paths"
    using add_scope_represents [OF "2.prems"(2,3) add] "2.prems"(4) by auto
  have "scope_valid ?p1 (Some k)" "path_at ?p1 (Some k) = path @ [component]"
    using k by (simp_all add: scope_valid_def path_at_def nth_append)
  with "2.IH"(1) [OF add] ch r1 obtain ps where
    r2: "represents b2 (ds @ declared children (path @ [component]) (extend_prefix pre component)) (?p1 @ ps)"
    and l2: "length ps = count_scopes children" by fastforce
  have "scope_valid (?p1 @ ps) parent" "path_at (?p1 @ ps) parent = path"
    using "2.prems"(3,4) by (simp_all add: scope_valid_append path_at_append)
  with "2.IH"(2) [OF add, of b2] ch rest r2 obtain qs where
    "represents b' (ds @ declared (ScopeItem component children # items) path pre) ((?p1 @ ps) @ qs)"
    and "length qs = count_scopes items" by fastforce
  with l2 show ?case
    by (intro exI [of _ "[path @ [component]] @ ps @ qs"]) simp
next
  case (3 v items parent pre b)
  obtain b1 where add: "add_signal parent pre v b = Inr b1"
    and rest: "collect_items items parent pre b1 = Inr b'"
    using "3.prems"(1) by (auto simp: result_iff)
  from add_signal_represents [OF "3.prems"(2,3) add] "3.IH" [OF add rest] "3.prems"(3,4)
  show ?case by fastforce
qed auto

subsection \<open>When the builder succeeds\<close>

text \<open>The first name that repeats an earlier one.\<close>

fun first_repeat :: "'a list \<Rightarrow> 'a list \<Rightarrow> 'a option" where
  "first_repeat seen [] = None"
| "first_repeat seen (x # xs) =
     (if x \<in> set seen then Some x else first_repeat (seen @ [x]) xs)"

lemma first_repeat_append:
  "first_repeat seen (xs @ ys) =
     (case first_repeat seen xs of None \<Rightarrow> first_repeat (seen @ xs) ys | Some x \<Rightarrow> Some x)"
  by (induction xs arbitrary: seen) (auto split: option.splits)

lemma first_repeat_None:
  "first_repeat seen xs = None \<longleftrightarrow> distinct xs \<and> set seen \<inter> set xs = {}"
  by (induction xs arbitrary: seen) auto

lemma collect_items_result:
  assumes "represents b ds paths" and "scope_valid paths parent" and "path_at paths parent = path"
    and "length ds + length (declared items path pre) \<le> 2 ^ 32"
    and "length paths + count_scopes items \<le> 2 ^ 32"
  shows "case first_repeat (map fst ds) (map fst (declared items path pre)) of
      None \<Rightarrow> \<exists>b'. collect_items items parent pre b = Inr b'
    | Some n \<Rightarrow> collect_items items parent pre b = Inl (DuplicateSignal n)"
  using assms
proof (induction items parent pre b arbitrary: ds paths path rule: collect_items.induct)
  case (2 component children items parent pre b)
  let ?p1 = "paths @ [path @ [component]]"
  let ?pre = "extend_prefix pre component"
  let ?dc = "declared children (path @ [component]) ?pre"
  have len: "length (cat_scopes b) = length paths"
    using "2.prems"(1) by (auto simp: represents_def scopes_ok_def)
  obtain k b1 where add: "add_scope component parent b = Inr (k, b1)"
    using "2.prems"(5) len by (auto simp: add_scope_def key_from_len_def)
  have r1: "represents b1 ds ?p1" and k: "key_index k = length paths"
    using add_scope_represents [OF "2.prems"(1,2) add] "2.prems"(3) by auto
  have sv: "scope_valid ?p1 (Some k)" "path_at ?p1 (Some k) = path @ [component]"
    using k by (simp_all add: scope_valid_def path_at_def nth_append)
  have ih1: "case first_repeat (map fst ds) (map fst ?dc) of
      None \<Rightarrow> \<exists>b'. collect_items children (Some k) ?pre b1 = Inr b'
    | Some n \<Rightarrow> collect_items children (Some k) ?pre b1 = Inl (DuplicateSignal n)"
    using "2.IH"(1) [OF add, of ds ?p1 "path @ [component]", unfolded fst_conv snd_conv]
      r1 sv "2.prems"(4,5) by simp
  show ?case
  proof (cases "first_repeat (map fst ds) (map fst ?dc)")
    case (Some n)
    with ih1 add show ?thesis by (simp add: first_repeat_append)
  next
    case None
    with ih1 obtain b2 where ch: "collect_items children (Some k) ?pre b1 = Inr b2" by auto
    from collect_items_represents [OF ch r1 sv] obtain ps where
      r2: "represents b2 (ds @ ?dc) (?p1 @ ps)" and l2: "length ps = count_scopes children"
      by auto
    have "scope_valid (?p1 @ ps) parent" "path_at (?p1 @ ps) parent = path"
      using "2.prems"(2,3) by (simp_all add: scope_valid_append path_at_append)
    with "2.IH"(2) [OF add, of b2 "ds @ ?dc" "?p1 @ ps" path] ch r2 l2 "2.prems"(4,5) add None
    show ?thesis by (simp add: first_repeat_append split: option.splits)
  qed
next
  case (3 v items parent pre b)
  have small: "length ds < 2 ^ 32" using "3.prems"(4) by simp
  note result = add_signal_result [OF "3.prems"(1) small]
  show ?case
  proof (cases "full_name pre v \<in> set (map fst ds)")
    case True
    with result(2) show ?thesis by auto
  next
    case False
    with result(1) [where parent = parent and pre = pre and v = v] obtain b1 where add: "add_signal parent pre v b = Inr b1" by auto
    from "3.IH" [OF add add_signal_represents [OF "3.prems"(1,2) add] "3.prems"(2,3)]
      False add "3.prems"(3,4,5) show ?thesis by (auto split: option.splits)
  qed
next
  case (4 items parent pre b)
  from "4.IH" [OF "4.prems"(1-3)] "4.prems"(4,5) show ?case by (auto split: option.splits)
qed auto

lemma from_scope_items_represents:
  "from_scope_items items = Inr c \<Longrightarrow> \<exists>paths. represents c (declarations items) paths"
  using collect_items_represents [of items None "[]" new_builder c "[]" "[]" "[]"]
    represents_new_builder
  by (auto simp: from_scope_items_def declarations_def scope_valid_def path_at_def)

lemma from_scope_items_result:
  assumes "length (declarations items) \<le> 2 ^ 32" and "count_scopes items \<le> 2 ^ 32"
  shows "case first_repeat [] (map fst (declarations items)) of
      None \<Rightarrow> \<exists>c. from_scope_items items = Inr c
    | Some n \<Rightarrow> from_scope_items items = Inl (DuplicateSignal n)"
  using collect_items_result [of new_builder "[]" "[]" None "[]" items "[]"]
    represents_new_builder assms
  by (simp add: from_scope_items_def [abs_def] declarations_def scope_valid_def path_at_def
      split: option.splits)

subsection \<open>Scope paths and owned signals\<close>

lemma scope_chain_path:
  assumes ok: "scopes_ok scopes paths" and "scope_valid scopes sc"
  shows "scope_chain scopes sc acc = Some (path_at paths sc @ acc)"
  using assms(2)
proof (induction "case sc of None \<Rightarrow> 0 | Some k \<Rightarrow> Suc (key_index k)" arbitrary: sc acc
    rule: less_induct)
  case less
  show ?case
  proof (cases sc)
    case None
    then show ?thesis by (simp add: scope_chain.simps path_at_def)
  next
    case (Some k)
    let ?i = "key_index k" and ?p = "sn_parent (scopes ! key_index k)"
    have i: "?i < length scopes" using less.prems Some by (simp add: scope_valid_def)
    with ok have up: "scope_valid (take ?i scopes) ?p"
      and path: "paths ! ?i = path_at paths ?p @ [sn_component (scopes ! ?i)]"
      by (auto simp: scopes_ok_def)
    have lt: "(case ?p of None \<Rightarrow> 0 | Some k \<Rightarrow> Suc (key_index k)) < Suc ?i"
      and "scope_valid scopes ?p"
      using up by (auto simp: scope_valid_def split: option.splits)
    then have "scope_chain scopes ?p (sn_component (scopes ! ?i) # acc) =
        Some (path_at paths ?p @ sn_component (scopes ! ?i) # acc)"
      using less.hyps [of ?p "sn_component (scopes ! ?i) # acc"] Some by simp
    with i Some path show ?thesis
      by (simp add: scope_chain.simps [of scopes "Some k"] path_at_def [of paths "Some k"])
  qed
qed

lemma owned_signal_declaration:
  assumes rep: "represents c ds paths" and m: "meta_matches paths m d"
  shows "owned_signal c m = Some (signal_of_declaration d)"
proof -
  have ok: "scopes_ok (cat_scopes c) paths" using rep by (simp add: represents_def)
  then have "scope_valid (cat_scopes c) (sm_scope m)"
    using m by (auto simp: scopes_ok_def meta_matches_def scope_valid_def split: option.splits)
  with ok m show ?thesis
    by (auto simp: owned_signal_def scope_components_def scope_chain_path meta_matches_def
        signal_of_declaration_def)
qed

lemma represents_to_owned:
  assumes "represents c ds paths"
  shows "to_owned_signals c = Some (map signal_of_declaration ds)"
proof -
  have "those (map (owned_signal c) ms) = Some (map signal_of_declaration es)"
    if "list_all2 (meta_matches paths) ms es" for ms es
    using that by induction (simp_all add: owned_signal_declaration [OF assms])
  then show ?thesis using assms by (simp add: to_owned_signals_def represents_def)
qed

lemma represents_lengths:
  "represents c ds paths \<Longrightarrow> length (cat_signals c) = length ds \<and> length ds \<le> 2 ^ 32"
  by (auto simp: represents_def list_all2_lengthD)

lemma represents_ref:
  assumes rep: "represents c ds paths" and i: "i < length ds"
  shows "ref_to_owned c (of_nat i) = Some (signal_of_declaration (ds ! i))"
proof -
  have len: "length (cat_signals c) = length ds" "length ds \<le> 2 ^ 32"
    using represents_lengths [OF rep] by auto
  then have "key_index (of_nat i) = i" using i by simp
  moreover have "meta_matches paths (cat_signals c ! i) (ds ! i)"
    using rep i by (auto simp: represents_def list_all2_conv_all_nth)
  ultimately show ?thesis
    using i len rep by (simp add: ref_to_owned_def catalog_signal_def owned_signal_declaration)
qed

subsection \<open>Lookup by name\<close>

text \<open>
  The contract of a signal table with unique names: a lookup returns the position of the name,
  and fails only for a name the table does not hold. Both waveform formats provide it; name
  resolution of the queries is proved against it.
\<close>

locale signal_names =
  fixes names :: "'s \<Rightarrow> string list"
    and lookup :: "'s \<Rightarrow> string \<Rightarrow> 'k option"
    and position :: "'k \<Rightarrow> nat"
    and valid :: "'s \<Rightarrow> bool"
  assumes names_distinct: "valid s \<Longrightarrow> distinct (names s)"
    and lookup_Some: "valid s \<Longrightarrow> lookup s n = Some k \<Longrightarrow>
      position k < length (names s) \<and> names s ! position k = n"
    and lookup_None: "valid s \<Longrightarrow> lookup s n = None \<Longrightarrow> n \<notin> set (names s)"
begin

lemma lookup_known: "valid s \<Longrightarrow> (\<exists>k. lookup s n = Some k) \<longleftrightarrow> n \<in> set (names s)"
  using lookup_Some lookup_None by (metis not_None_eq nth_mem)

lemma lookup_position:
  assumes "valid s" and "i < length (names s)" and "lookup s (names s ! i) = Some k"
  shows "position k = i"
  using assms names_distinct lookup_Some by (metis nth_eq_iff_index_eq)

lemma lookup_inject:
  "valid s \<Longrightarrow> lookup s m = Some k \<Longrightarrow> lookup s n = Some k' \<Longrightarrow> position k = position k' \<Longrightarrow> m = n"
  using lookup_Some by metis

lemma missing_names:
  "valid s \<Longrightarrow> filter (\<lambda>n. lookup s n = None) ts = filter (\<lambda>n. n \<notin> set (names s)) ts"
  by (rule filter_cong) (use lookup_known lookup_None in \<open>metis not_None_eq\<close>)+

end

lemma represents_lookup_nth:
  assumes rep: "represents c ds paths" and i: "i < length ds"
  shows "key_by_name c (fst (ds ! i)) = Some (of_nat i)"
proof -
  have "sm_name (cat_signals c ! i) = catalog_names c ! i"
    using i represents_lengths [OF rep] by (simp add: catalog_names_def)
  also have "\<dots> = fst (ds ! i)" using i by (simp add: represents_names [OF rep])
  finally have "sm_name (cat_signals c ! i) = fst (ds ! i)" .
  moreover have "names_ok c" and "i < length (cat_signals c)"
    using rep i represents_lengths [OF rep] by (simp_all add: represents_def)
  ultimately show ?thesis unfolding names_ok_def key_by_name_def by metis
qed

lemma represents_known:
  assumes rep: "represents c ds paths"
  shows "key_by_name c n = None \<longleftrightarrow> n \<notin> set (map fst ds)"
proof -
  have "dom (cat_by_name c) = set (map fst ds)"
    using represents_names [OF rep] rep by (simp add: represents_def names_ok_def)
  then show ?thesis using domIff [of n "cat_by_name c"] by (simp add: key_by_name_def)
qed

lemma represents_lookup:
  assumes rep: "represents c ds paths"
  shows "key_by_name c n = Some k \<longleftrightarrow> key_index k < length ds \<and> fst (ds ! key_index k) = n"
proof
  assume k: "key_by_name c n = Some k"
  then have "n \<in> set (map fst ds)" using represents_known [OF rep, of n] by simp
  then obtain i where i: "i < length ds" "n = fst (ds ! i)" by (auto simp: in_set_conv_nth)
  then have "k = of_nat i" using k represents_lookup_nth [OF rep, of i] by simp
  then show "key_index k < length ds \<and> fst (ds ! key_index k) = n"
    using i represents_lengths [OF rep] by simp
next
  assume "key_index k < length ds \<and> fst (ds ! key_index k) = n"
  then show "key_by_name c n = Some k"
    using represents_lookup_nth [OF rep, of "key_index k"] by (simp add: key_index_def)
qed

definition built :: "catalog \<Rightarrow> bool" where
  "built c \<longleftrightarrow> (\<exists>ds paths. represents c ds paths)"

interpretation catalog_names: signal_names catalog_names key_by_name key_index built
proof
  fix c n k
  assume "built c"
  then obtain ds paths where rep: "represents c ds paths" by (auto simp: built_def)
  note names = represents_names [OF rep]
  show "distinct (catalog_names c)" using rep by (simp add: represents_def names_ok_def)
  show "key_index k < length (catalog_names c) \<and> catalog_names c ! key_index k = n"
    if "key_by_name c n = Some k"
    using that by (simp add: represents_lookup [OF rep] names)
  show "n \<notin> set (catalog_names c)" if "key_by_name c n = None"
    using that using represents_known [OF rep, of n] names by metis
qed

subsection \<open>The legacy index and the target map\<close>

lemma build_index_from_result:
  assumes "distinct (map sig_name ss)" and "dom (by_name idx) \<inter> set (map sig_name ss) = {}"
  shows "\<exists>idx'. build_index_from idx ss = Inr idx' \<and>
    by_name idx' = by_name idx ++ map_of (map (\<lambda>s. (sig_name s, s)) ss) \<and>
    (\<forall>i. entries (by_id idx') i =
          entries (by_id idx) i @ filter (\<lambda>s. sig_id s = i) ss)"
  using assms
proof (induction ss arbitrary: idx)
  case (Cons s ss)
  let ?idx = "idx\<lparr>by_id := push_alias (by_id idx) (sig_id s) s,
                  by_name := (by_name idx)(sig_name s \<mapsto> s)\<rparr>"
  have new: "by_name idx (sig_name s) = None" using Cons.prems(2) by auto
  have "distinct (map sig_name ss)" and "dom (by_name ?idx) \<inter> set (map sig_name ss) = {}"
    using Cons.prems by auto
  from Cons.IH [OF this] obtain idx' where b: "build_index_from ?idx ss = Inr idx'"
    and n: "by_name idx' = by_name ?idx ++ map_of (map (\<lambda>s. (sig_name s, s)) ss)"
    and a: "\<And>i. entries (by_id idx') i =
      entries (by_id ?idx) i @ filter (\<lambda>s. sig_id s = i) ss" by blast
  have "sig_name s \<notin> dom (map_of (map (\<lambda>s. (sig_name s, s)) ss))"
    using Cons.prems(1) by (auto simp: dom_map_of_conv_image_fst)
  then have "by_name idx' = by_name idx ++ map_of (map (\<lambda>s. (sig_name s, s)) (s # ss))"
    unfolding n by (intro ext) (auto simp: map_add_def dom_def split: option.splits)
  moreover have "entries (by_id idx') i =
      entries (by_id idx) i @ filter (\<lambda>s. sig_id s = i) (s # ss)" for i
    by (simp add: a)
  moreover have "build_index_from idx (s # ss) = Inr idx'" using b new by (simp add: Let_def)
  ultimately show ?case by blast
qed simp

lemma build_target_map_from_result:
  "build_target_map_from idx m missing ts = (m', missing') \<Longrightarrow>
     missing' = missing @ filter (\<lambda>t. by_name idx t = None) ts \<and>
     (\<forall>i. entries m' i =
        entries m i @ map sig_name (filter (\<lambda>s. sig_id s = i) (List.map_filter (by_name idx) ts)))"
  by (induction idx m missing ts rule: build_target_map_from.induct)
    (auto simp: map_filter_simps split: option.splits)

lemma sig_name_declaration [simp]: "sig_name (signal_of_declaration d) = fst d"
  by (simp add: signal_of_declaration_def split: prod.split)

lemma represents_index:
  assumes rep: "represents c ds paths"
  shows "\<exists>idx. to_compatibility_parts c = Some (Inr (map signal_of_declaration ds, idx)) \<and>
    (\<forall>n. by_name idx n = Option.bind (key_by_name c n) (\<lambda>k. ref_to_owned c k)) \<and>
    (\<forall>i. map Some (entries (by_id idx) i) = map (ref_to_owned c) (aliases c i))"
proof -
  let ?ss = "map signal_of_declaration ds"
  note len = represents_lengths [OF rep]
  have names: "map sig_name ?ss = map fst ds" by simp
  have dist: "distinct (map fst ds)"
    using rep represents_names [OF rep] by (simp add: represents_def names_ok_def)
  obtain idx where idx: "build_index ?ss = Inr idx"
    and n: "by_name idx = map_of (map (\<lambda>s. (sig_name s, s)) ?ss)"
    and a: "\<And>i. entries (by_id idx) i = filter (\<lambda>s. sig_id s = i) ?ss"
    using build_index_from_result [of ?ss "\<lparr>by_id = Map.empty, by_name = Map.empty\<rparr>"] dist
    unfolding names build_index_def by auto
  have "by_name idx nm = Option.bind (key_by_name c nm) (ref_to_owned c)" for nm
  proof (cases "key_by_name c nm")
    case None
    then have "nm \<notin> set (map sig_name ?ss)"
      unfolding names using represents_known [OF rep] by blast
    then have "by_name idx nm = None" by (force simp: n map_of_eq_None_iff)
    with None show ?thesis by simp
  next
    case (Some k)
    then have k: "key_index k < length ds" "fst (ds ! key_index k) = nm"
      using represents_lookup [OF rep] by auto
    have "ref_to_owned c k = Some (signal_of_declaration (ds ! key_index k))"
      using represents_ref [OF rep k(1)] by (simp add: key_index_def)
    moreover have "(nm, signal_of_declaration (ds ! key_index k)) \<in>
        set (map (\<lambda>s. (sig_name s, s)) ?ss)"
      using k by (force simp: in_set_conv_nth)
    then have "by_name idx nm = Some (signal_of_declaration (ds ! key_index k))"
      unfolding n by (intro map_of_is_SomeI) (use dist in \<open>simp_all add: comp_def\<close>)
    ultimately show ?thesis using Some by simp
  qed
  moreover have "map Some (entries (by_id idx) i) = map (ref_to_owned c) (aliases c i)" for i
  proof -
    let ?js = "filter (\<lambda>j. sig_id (?ss ! j) = i) [0..<length ds]"
    have sm: "sm_id (cat_signals c ! j) = sig_id (?ss ! j)" if "j < length ds" for j
      using rep that by (auto simp: represents_def list_all2_conv_all_nth meta_matches_def
          case_prod_beta signal_of_declaration_def)
    have "aliases c i = map of_nat ?js"
      using rep len sm by (auto simp: represents_def aliases_ok_def intro!: filter_cong arg_cong [where f = "map of_nat"])
    then have "map (ref_to_owned c) (aliases c i) = map (\<lambda>j. Some (?ss ! j)) ?js"
      using represents_ref [OF rep] by simp
    also have "\<dots> = map Some (filter (\<lambda>s. sig_id s = i) (map (\<lambda>j. ?ss ! j) [0..<length ?ss]))"
      by (simp add: filter_map comp_def del: nth_map)
    also have "map (\<lambda>j. ?ss ! j) [0..<length ?ss] = ?ss" by (rule map_nth)
    finally show ?thesis by (simp add: a)
  qed
  ultimately show ?thesis
    using represents_to_owned [OF rep] idx by (auto simp: to_compatibility_parts_def)
qed

lemma build_target_map_names:
  assumes "build_target_map idx targets = (m, missing)"
    and "\<And>n s. by_name idx n = Some s \<Longrightarrow> sig_name s = n"
  shows "missing = filter (\<lambda>t. by_name idx t = None) targets"
    and "entries m i = filter (\<lambda>t. map_option sig_id (by_name idx t) = Some i) targets"
proof -
  have "map sig_name (filter (\<lambda>s. sig_id s = i) (List.map_filter (by_name idx) ts)) =
      filter (\<lambda>t. map_option sig_id (by_name idx t) = Some i) ts" for ts
    using assms(2) by (induction ts) (auto simp: map_filter_simps split: option.splits)
  then show "missing = filter (\<lambda>t. by_name idx t = None) targets"
    and "entries m i = filter (\<lambda>t. map_option sig_id (by_name idx t) = Some i) targets"
    using build_target_map_from_result [OF assms(1) [unfolded build_target_map_def]] by simp_all
qed

text \<open>A small header, used to apply the properties to a concrete input.\<close>

definition sample_var :: "id_code \<Rightarrow> u32 \<Rightarrow> string \<Rightarrow> var" where
  "sample_var i n nm = \<lparr>var_code = i, var_size = n, var_type_of = 0, var_reference = nm, var_index = None\<rparr>"

definition sample_header :: "scope_item list" where
  "sample_header = [ScopeItem ''top'' [VarItem (sample_var 1 1 ''clk''), OtherItem,
     ScopeItem ''cpu'' [VarItem (sample_var 1 1 ''clk''), VarItem (sample_var 2 32 ''pc'')]]]"

lemma sample_declarations:
  "declarations sample_header =
     [(''top.clk'', sample_var 1 1 ''clk'', [''top'']),
      (''top.cpu.clk'', sample_var 1 1 ''clk'', [''top'', ''cpu'']),
      (''top.cpu.pc'', sample_var 2 32 ''pc'', [''top'', ''cpu''])]"
  by (simp add: declarations_def sample_header_def extend_prefix_def full_name_def sample_var_def)

lemma sample_catalog: "\<exists>c. from_scope_items sample_header = Inr c"
  using from_scope_items_result [of sample_header]
  by (simp add: sample_declarations) (simp add: sample_header_def)

subsection \<open>Properties\<close>

text \<open>
  C1. Building the catalog of a header: when no full name repeats (and the tables fit 32-bit
  keys) it succeeds, and the signals it gives back are exactly the variables of the header in
  depth-first order, each with its dotted name, identifier, size, type and the path of its
  scopes; otherwise it fails with the first name that repeats an earlier one.
\<close>

theorem catalog_of_header:
  assumes "length (declarations items) \<le> 2 ^ 32" and "count_scopes items \<le> 2 ^ 32"
  shows "(case first_repeat [] (map fst (declarations items)) of
      None \<Rightarrow> (\<exists>c. from_scope_items items = Inr c \<and>
        to_owned_signals c = Some (map signal_of_declaration (declarations items)) \<and>
        map (ref_to_owned c) (signal_keys c)
          = map (Some \<circ> signal_of_declaration) (declarations items))
    | Some n \<Rightarrow> from_scope_items items = Inl (DuplicateSignal n))"
proof (cases "first_repeat [] (map fst (declarations items))")
  case None
  with from_scope_items_result [OF assms] obtain c where c: "from_scope_items items = Inr c"
    by auto
  then obtain paths where rep: "represents c (declarations items) paths"
    using from_scope_items_represents by blast
  have "map (ref_to_owned c) (signal_keys c)
      = map (Some \<circ> signal_of_declaration) (declarations items)"
    using represents_lengths [OF rep] represents_ref [OF rep]
    by (auto simp: signal_keys_def intro!: nth_equalityI)
  with None c represents_to_owned [OF rep] show ?thesis by simp
qed (use from_scope_items_result [OF assms] in simp)

lemma catalog_of_header_witness:
  "\<exists>c. from_scope_items sample_header = Inr c \<and>
     to_owned_signals c = Some (map signal_of_declaration (declarations sample_header))"
  using catalog_of_header [of sample_header]
  by (simp add: sample_declarations) (auto simp: sample_header_def)

text \<open>
  C2. Lookup in a built catalog: names are unique, a name resolves to the key of exactly the
  declaration that bears it, and the aliases of an identifier are the keys of exactly the
  declarations with that identifier, in declaration order.
\<close>

theorem catalog_lookup:
  assumes "from_scope_items items = Inr c"
  shows "distinct (map fst (declarations items)) \<and>
    (\<forall>n k. key_by_name c n = Some k \<longleftrightarrow>
      key_index k < length (declarations items) \<and> fst (declarations items ! key_index k) = n) \<and>
    (\<forall>i. map key_index (aliases c i) =
      filter (\<lambda>j. var_code (fst (snd (declarations items ! j))) = i)
        [0..<length (declarations items)])"
proof -
  from assms obtain paths where rep: "represents c (declarations items) paths"
    using from_scope_items_represents by blast
  let ?ds = "declarations items"
  note len = represents_lengths [OF rep]
  have sm: "sm_id (cat_signals c ! j) = var_code (fst (snd (?ds ! j)))" if "j < length ?ds" for j
    using rep that by (auto simp: represents_def list_all2_conv_all_nth meta_matches_def
        case_prod_beta)
  have "map key_index (aliases c i) =
      filter (\<lambda>j. var_code (fst (snd (?ds ! j))) = i) [0..<length ?ds]" for i
  proof -
    have "map key_index (aliases c i) =
        map (key_index \<circ> of_nat) (filter (\<lambda>j. sm_id (cat_signals c ! j) = i) [0..<length ?ds])"
      using rep len by (simp add: represents_def aliases_ok_def)
    also have "\<dots> = filter (\<lambda>j. sm_id (cat_signals c ! j) = i) [0..<length ?ds]"
      using len by (auto intro!: map_idI)
    also have "\<dots> = filter (\<lambda>j. var_code (fst (snd (?ds ! j))) = i) [0..<length ?ds]"
      using sm by (auto intro!: filter_cong)
    finally show ?thesis .
  qed
  moreover have "distinct (map fst ?ds)"
    using rep represents_names [OF rep] by (simp add: represents_def names_ok_def)
  ultimately show ?thesis using represents_lookup [OF rep] by blast
qed

lemma catalog_lookup_witness:
  "\<exists>c. from_scope_items sample_header = Inr c \<and> map key_index (aliases c 1) = [0, 1] \<and>
     key_by_name c ''top.cpu.pc'' = Some 2"
proof -
  obtain c where c: "from_scope_items sample_header = Inr c" using sample_catalog by blast
  have "key_index 2 = 2" by (simp add: key_index_def)
  with catalog_lookup [OF c] c show ?thesis
    by (intro exI [of _ c]) (auto simp: sample_declarations sample_var_def upt_rec)
qed

text \<open>
  The legacy index built from a catalog always exists: by name it holds exactly the declared
  signals, by identifier their lists in declaration order. So both representations of a header
  agree.
\<close>

lemma compatibility_index:
  assumes "from_scope_items items = Inr c"
  shows "\<exists>idx. to_compatibility_parts c =
      Some (Inr (map signal_of_declaration (declarations items), idx)) \<and>
    (\<forall>n. by_name idx n =
      Option.bind (key_by_name c n) (\<lambda>k. ref_to_owned c k)) \<and>
    (\<forall>i. map Some (entries (by_id idx) i) = map (ref_to_owned c) (aliases c i))"
  using represents_index from_scope_items_represents [OF assms] by blast

lemma compatibility_index_witness:
  "\<exists>c idx. from_scope_items sample_header = Inr c \<and>
     to_compatibility_parts c = Some (Inr (map signal_of_declaration (declarations sample_header), idx))"
proof -
  obtain c where c: "from_scope_items sample_header = Inr c" using sample_catalog by blast
  with compatibility_index [OF c] show ?thesis by blast
qed

text \<open>
  Target resolution splits the request: the names that no signal bears are reported missing
  in request order, and each identifier maps to the requested names of its signals, in request
  order and with duplicates kept.
\<close>

lemma target_map_partition:
  assumes "build_target_map idx targets = (m, missing)"
    and "\<And>n s. by_name idx n = Some s \<Longrightarrow> sig_name s = n"
  shows "missing = filter (\<lambda>t. by_name idx t = None) targets \<and>
    (\<forall>i. entries m i =
      filter (\<lambda>t. map_option sig_id (by_name idx t) = Some i) targets)"
  using build_target_map_names [OF assms] by simp

definition sample_index :: signal_index where
  "sample_index = \<lparr>by_id = Map.empty,
     by_name = [''a'' \<mapsto> \<lparr>sig_name = ''a'', sig_id = 1, sig_size = 1, sig_type = 0, sig_scope = []\<rparr>]\<rparr>"

lemma target_map_partition_witness:
  "entries (fst (build_target_map sample_index [''a'', ''b'', ''a''])) 1 = [''a'', ''a''] \<and>
   snd (build_target_map sample_index [''a'', ''b'', ''a'']) = [''b'']"
proof -
  obtain m missing where t: "build_target_map sample_index [''a'', ''b'', ''a''] = (m, missing)"
    by fastforce
  have "sig_name s = n" if "by_name sample_index n = Some s" for n s
    using that by (auto simp: sample_index_def split: if_splits)
  from target_map_partition [OF t this] t show ?thesis by (simp add: sample_index_def)
qed

end
