(* ===== verification/Iteration.thy ===== *)
theory Iteration
  imports Prelude
begin

text \<open>
  Rust iterators over fallible items. An iterator is a state and its \<^verbatim>\<open>next\<close>, which returns
  \<open>None\<close> at the end, \<open>Some (Inl e)\<close> for a failed item and \<open>Some (Inr a)\<close> for an item,
  together with the iterator's next state. \<open>iterate\<close> is the loop
  \<^verbatim>\<open>for item in it { let item = item?; body }\<close>: the body may fail, break or continue.

  A loop over an arbitrary \<^verbatim>\<open>next\<close> need not end, so \<open>iterate\<close> is a partial function. The
  locale \<open>rust_iterator\<close> states the contract that each iterator of the program satisfies
  (an item makes progress in some measure), and proves once that the loop returns and what
  it computes.
\<close>

datatype ('e, 'b) flow = Fail 'e | Break 'b | Continue 'b

type_synonym ('s, 'e, 'a) next_fun = "'s \<Rightarrow> ('e + 'a) option \<times> 's"

partial_function (option) iterate ::
    "('s, 'e, 'a) next_fun \<Rightarrow> ('b \<Rightarrow> 'a \<Rightarrow> ('e, 'b) flow) \<Rightarrow> 's \<Rightarrow> 'b
      \<Rightarrow> (('e, 'b) flow \<times> 's) option" where
  "iterate nxt body s acc =
     (case nxt s of
        (None, s') \<Rightarrow> Some (Continue acc, s')
      | (Some (Inl e), s') \<Rightarrow> Some (Fail e, s')
      | (Some (Inr a), s') \<Rightarrow>
          (case body acc a of
             Continue acc' \<Rightarrow> iterate nxt body s' acc'
           | Break acc' \<Rightarrow> Some (Break acc', s')
           | Fail e \<Rightarrow> Some (Fail e, s')))"

text \<open>\<^verbatim>\<open>it.collect::<Result<Vec<_>, _>>()\<close>\<close>

definition collect_rows :: "('s, 'e, 'a) next_fun \<Rightarrow> 's \<Rightarrow> (('e + 'a list) \<times> 's) option" where
  "collect_rows nxt s =
     map_option (\<lambda>(f, s'). (case f of Fail e \<Rightarrow> Inl e | Continue xs \<Rightarrow> Inr xs | Break xs \<Rightarrow> Inr xs, s'))
       (iterate nxt (\<lambda>acc a. Continue (acc @ [a])) s [])"

text \<open>
  All the items an iterator delivers before it ends or first fails, the error if it failed, and the
  state it is left in: what a consumer sees that stops at an error.
\<close>

partial_function (option) drain ::
    "('s, 'e, 'a) next_fun \<Rightarrow> 's \<Rightarrow> ('a list \<times> 'e option \<times> 's) option" where
  "drain nxt s =
     (case nxt s of
        (None, s') \<Rightarrow> Some ([], None, s')
      | (Some (Inl e), s') \<Rightarrow> Some ([], Some e, s')
      | (Some (Inr a), s') \<Rightarrow>
          Option.bind (drain nxt s') (\<lambda>(xs, r, s''). Some (a # xs, r, s'')))"

text \<open>
  Everything an iterator delivers until it ends, errors included: what a consumer sees that goes on
  after an error.
\<close>

partial_function (option) deliveries ::
    "('s, 'e, 'a) next_fun \<Rightarrow> 's \<Rightarrow> (('e + 'a) list \<times> 's) option" where
  "deliveries nxt s =
     (case nxt s of
        (None, s') \<Rightarrow> Some ([], s')
      | (Some r, s') \<Rightarrow> Option.bind (deliveries nxt s') (\<lambda>(rs, s''). Some (r # rs, s'')))"

fun up_to_error :: "('e + 'a) list \<Rightarrow> ('e + 'a) list" where
  "up_to_error [] = []"
| "up_to_error (Inl e # rs) = [Inl e]"
| "up_to_error (Inr a # rs) = Inr a # up_to_error rs"

fun before_error :: "('e + 'a) list \<Rightarrow> 'a list" where
  "before_error [] = []"
| "before_error (Inl e # rs) = []"
| "before_error (Inr a # rs) = a # before_error rs"

fun first_failure :: "('e + 'a) list \<Rightarrow> 'e option" where
  "first_failure [] = None"
| "first_failure (Inl e # rs) = Some e"
| "first_failure (Inr a # rs) = first_failure rs"

lemma up_to_error_eq:
  "up_to_error rs = map Inr (before_error rs) @ (case first_failure rs of None \<Rightarrow> [] | Some e \<Rightarrow> [Inl e])"
  by (induction rs rule: up_to_error.induct) auto

lemma before_error_append [simp]:
  "before_error (map Inr as @ rs) = as @ before_error rs" "first_failure (map Inr as @ rs) = first_failure rs"
  by (induction as) auto

text \<open>The loop body over a list of items.\<close>

fun fold_flow :: "('b \<Rightarrow> 'a \<Rightarrow> ('e, 'b) flow) \<Rightarrow> 'b \<Rightarrow> 'a list \<Rightarrow> ('e, 'b) flow" where
  "fold_flow body acc [] = Continue acc"
| "fold_flow body acc (a # as) =
     (case body acc a of Continue acc' \<Rightarrow> fold_flow body acc' as | r \<Rightarrow> r)"

lemma fold_flow_append:
  "fold_flow body acc (xs @ ys) =
     (case fold_flow body acc xs of Continue acc' \<Rightarrow> fold_flow body acc' ys | r \<Rightarrow> r)"
  by (induction xs arbitrary: acc) (auto split: flow.splits)

lemma fold_flow_collect: "fold_flow (\<lambda>acc a. Continue (acc @ [a])) acc xs = Continue (acc @ xs)"
  by (induction xs arbitrary: acc) auto

lemma iterate_simps:
  "nxt s = (None, s') \<Longrightarrow> iterate nxt body s acc = Some (Continue acc, s')"
  "nxt s = (Some (Inl e), s') \<Longrightarrow> iterate nxt body s acc = Some (Fail e, s')"
  "nxt s = (Some (Inr a), s') \<Longrightarrow> iterate nxt body s acc =
     (case body acc a of
        Continue acc' \<Rightarrow> iterate nxt body s' acc'
      | Break acc' \<Rightarrow> Some (Break acc', s')
      | Fail e \<Rightarrow> Some (Fail e, s'))"
  by (simp_all add: iterate.simps [of nxt body s])

lemma drain_simps:
  "nxt s = (None, s') \<Longrightarrow> drain nxt s = Some ([], None, s')"
  "nxt s = (Some (Inl e), s') \<Longrightarrow> drain nxt s = Some ([], Some e, s')"
  "nxt s = (Some (Inr a), s') \<Longrightarrow> drain nxt s =
     Option.bind (drain nxt s') (\<lambda>(xs, r, s''). Some (a # xs, r, s''))"
  by (simp_all add: drain.simps [of nxt s])

lemma deliveries_simps:
  "nxt s = (None, s') \<Longrightarrow> deliveries nxt s = Some ([], s')"
  "nxt s = (Some r, s') \<Longrightarrow> deliveries nxt s = Option.bind (deliveries nxt s') (\<lambda>(rs, s''). Some (r # rs, s''))"
  by (simp_all add: deliveries.simps [of nxt s])

text \<open>An iterator that delivers the items of a list one by one.\<close>

lemma deliveries_items:
  assumes "I s" and step: "\<And>s r s'. I s \<Longrightarrow> nxt s = (r, s') \<Longrightarrow>
      I s' \<and> (case r of None \<Rightarrow> items s = [] | Some i \<Rightarrow> items s = i # items s')"
  shows "\<exists>s'. deliveries nxt s = Some (items s, s')"
  using assms(1)
proof (induction "items s" arbitrary: s)
  case Nil
  obtain r s' where n: "nxt s = (r, s')" by (cases "nxt s")
  with step [OF Nil(2) n] Nil(1) have "r = None" by (auto split: option.splits)
  with n Nil(1) show ?case by (simp add: deliveries_simps)
next
  case (Cons i rs)
  obtain r s' where n: "nxt s = (r, s')" by (cases "nxt s")
  with step [OF Cons(3) n] Cons(2) have "r = Some i" "rs = items s'" "I s'" by (auto split: option.splits)
  with Cons(1) [of s'] Cons(2) n show ?case by (auto simp: deliveries_simps)
qed

text \<open>Every item of a drained iterator came from a call of \<^verbatim>\<open>next\<close> on the way.\<close>

inductive reaches :: "('s, 'e, 'a) next_fun \<Rightarrow> 's \<Rightarrow> 'a list \<Rightarrow> 's \<Rightarrow> bool" for nxt where
  reaches_refl: "reaches nxt s [] s"
| reaches_step: "nxt s = (Some (Inr a), s') \<Longrightarrow> reaches nxt s' xs s'' \<Longrightarrow> reaches nxt s (a # xs) s''"

lemma reaches_invariant:
  assumes "reaches nxt s xs s'" and "I s"
    and "\<And>t a t'. I t \<Longrightarrow> nxt t = (Some (Inr a), t') \<Longrightarrow> I t'"
  shows "I s'"
  using assms by (induction rule: reaches.induct) blast+

locale rust_iterator =
  fixes nxt :: "('s, 'e, 'a) next_fun"
    and work :: "'s \<Rightarrow> nat"
    and valid :: "'s \<Rightarrow> bool"
  assumes progress: "valid s \<Longrightarrow> nxt s = (Some (Inr a), s') \<Longrightarrow> work s' < work s"
    and valid_next: "valid s \<Longrightarrow> nxt s = (r, s') \<Longrightarrow> valid s'"
begin

lemma drain_returns: "valid s \<Longrightarrow> \<exists>xs r s'. drain nxt s = Some (xs, r, s')"
proof (induction "work s" arbitrary: s rule: less_induct)
  case less
  obtain r s' where n: "nxt s = (r, s')" by (cases "nxt s")
  then have v: "valid s'" using less.prems valid_next by blast
  show ?case
  proof (cases r)
    case None
    with n show ?thesis by (simp add: drain_simps)
  next
    case (Some x)
    show ?thesis
    proof (cases x)
      case (Inl e)
      with n Some show ?thesis by (simp add: drain_simps)
    next
      case (Inr a)
      with n Some less.prems have "work s' < work s" by (simp add: progress)
      with v obtain xs q s'' where "drain nxt s' = Some (xs, q, s'')" using less.hyps by blast
      with n Some Inr show ?thesis by (simp add: drain_simps(3))
    qed
  qed
qed

lemma drain_induct [consumes 2, case_names finished failed item]:
  assumes "valid s" and "drain nxt s = Some (xs, r, s'')"
    and finished: "\<And>s s'. valid s \<Longrightarrow> nxt s = (None, s') \<Longrightarrow> P s [] None s'"
    and failed: "\<And>s e s'. valid s \<Longrightarrow> nxt s = (Some (Inl e), s') \<Longrightarrow> P s [] (Some e) s'"
    and item: "\<And>s a s' xs r s''. valid s \<Longrightarrow> nxt s = (Some (Inr a), s') \<Longrightarrow> valid s' \<Longrightarrow>
      drain nxt s' = Some (xs, r, s'') \<Longrightarrow> P s' xs r s'' \<Longrightarrow> P s (a # xs) r s''"
  shows "P s xs r s''"
  using assms(1,2)
proof (induction "work s" arbitrary: s xs rule: less_induct)
  case less
  obtain q s' where n: "nxt s = (q, s')" by (cases "nxt s")
  then have v: "valid s'" using less.prems valid_next by blast
  consider (a) "q = None" | (b) e where "q = Some (Inl e)" | (c) a where "q = Some (Inr a)"
    by (cases q) (auto, metis sumE)
  then show ?case
  proof cases
    case a
    with n less.prems show ?thesis by (auto simp: drain_simps intro: finished)
  next
    case b
    with n less.prems show ?thesis by (auto simp: drain_simps intro: failed)
  next
    case c
    with n less.prems obtain ys where d: "drain nxt s' = Some (ys, r, s'')" and xs: "xs = a # ys"
      by (auto simp: drain_simps(3) bind_eq_Some_conv)
    have "work s' < work s" using c n less.prems by (simp add: progress)
    then have "P s' ys r s''" using v d by (rule less.hyps)
    with c n v d xs less.prems show ?thesis by (auto intro: item)
  qed
qed

lemma iterate_drain:
  assumes "valid s" and "drain nxt s = Some (xs, r, s'')"
  shows "\<exists>s'. iterate nxt body s acc =
    Some (case fold_flow body acc xs of
            Continue acc' \<Rightarrow> (case r of None \<Rightarrow> Continue acc' | Some e \<Rightarrow> Fail e)
          | f \<Rightarrow> f, s') \<and>
    ((\<exists>acc'. fold_flow body acc xs = Continue acc') \<longrightarrow> s' = s'')"
  using assms
proof (induction arbitrary: acc rule: drain_induct)
  case (item s a s' xs r s'')
  show ?case
  proof (cases "body acc a")
    case (Continue acc')
    with item show ?thesis by (simp add: iterate_simps(3))
  qed (use item in \<open>auto simp: iterate_simps(3)\<close>)
qed (auto simp: iterate_simps)

lemma iterate_returns: "valid s \<Longrightarrow> \<exists>f s'. iterate nxt body s acc = Some (f, s')"
  by (metis drain_returns iterate_drain)

lemma iterate_invariant:
  assumes "valid s" and "iterate nxt body s acc = Some (f, s')" and "I s"
    and keep: "\<And>t r t'. valid t \<Longrightarrow> I t \<Longrightarrow> nxt t = (r, t') \<Longrightarrow> I t'"
  shows "valid s' \<and> I s'"
  using assms(1-3)
proof (induction "work s" arbitrary: s acc rule: less_induct)
  case less
  obtain r t where n: "nxt s = (r, t)" by (cases "nxt s")
  then have t: "valid t" "I t" using less.prems valid_next keep by blast+
  consider (a) "r = None" | (b) e where "r = Some (Inl e)" | (c) a where "r = Some (Inr a)"
    by (cases r) (auto, metis sumE)
  then show ?case
  proof cases
    case a
    with n less.prems t show ?thesis by (auto simp: iterate_simps)
  next
    case b
    with n less.prems t show ?thesis by (auto simp: iterate_simps)
  next
    case c
    then have w: "work t < work s" using n less.prems by (simp add: progress)
    show ?thesis
    proof (cases "body acc a")
      case (Continue acc')
      then have "iterate nxt body t acc' = Some (f, s')"
        using n c less.prems(2) by (simp add: iterate_simps(3))
      from less.hyps [OF w t(1) this t(2)] show ?thesis .
    qed (use n c less.prems t in \<open>auto simp: iterate_simps(3)\<close>)
  qed
qed

lemma collect_rows_drain:
  assumes "valid s" and "drain nxt s = Some (xs, r, s'')"
  shows "collect_rows nxt s = Some (case r of None \<Rightarrow> Inr xs | Some e \<Rightarrow> Inl e, s'')"
  using iterate_drain [OF assms, of "\<lambda>acc a. Continue (acc @ [a])" "[]"]
  by (auto simp: collect_rows_def fold_flow_collect split: option.splits)

text \<open>One that has ended once it has failed delivers what it drains to, and the error.\<close>

lemma drain_deliveries:
  assumes "valid s" and "drain nxt s = Some (xs, r, s'')" and "fst (nxt s'') = None"
  shows "\<exists>t. deliveries nxt s = Some (map Inr xs @ (case r of None \<Rightarrow> [] | Some e \<Rightarrow> [Inl e]), t)"
  using assms
proof (induction rule: drain_induct)
  case (finished s s')
  then show ?case by (simp add: deliveries_simps)
next
  case (failed s e s')
  then show ?case by (cases "nxt s'") (simp add: deliveries_simps)
next
  case (item s a s' xs r s'')
  then show ?case by (auto simp: deliveries_simps)
qed

lemma drain_reaches:
  assumes "valid s" and "drain nxt s = Some (xs, r, s'')"
  shows "\<exists>t. reaches nxt s xs t \<and> nxt t = (map_option Inl r, s'')"
  using assms
proof (induction rule: drain_induct)
  case (item s a s' xs r s'')
  then show ?case by (blast intro: reaches_step)
qed (auto intro: reaches_refl)

end

end
