(* ===== verification/Stream.thy ===== *)
theory Stream
  imports Query Catalog Iteration
begin

text \<open>
  The selected-change stream of src/query/stream.rs: resolution of the requested names, and the
  iterator that reads body commands and delivers the changes of the selected signals inside the
  time window, with its cancellation points and its command budget.

  The body parser is external: a stream holds the list of results the parser will return, each
  an I/O error or a command. Each command owns three observations of the environment (the
  periodic, the timestamp and the conversion checkpoint), completion owns three more; the
  numbers of checkpoints that are not reached stay unused.

  After the code come the specification (\<open>events\<close>: the selected changes of a command list;
  \<open>scan_error\<close> and \<open>scan_length\<close>: how the scan ends and how much it reads) and the theorems
  that the stream implements it in every environment.
\<close>

record target_binding =
  tb_request_index :: nat
  tb_name :: string
  tb_size :: u32

record target_selection =
  ts_by_id :: "id_code \<rightharpoonup> target_binding list"
  ts_request_count :: nat

definition sel_contains :: "target_selection \<Rightarrow> id_code \<Rightarrow> bool" where
  "sel_contains sel i \<longleftrightarrow> ts_by_id sel i \<noteq> None"

definition bindings :: "target_selection \<Rightarrow> id_code \<Rightarrow> target_binding list" where
  "bindings sel i = entries (ts_by_id sel) i"

record selected_change =
  sc_id :: id_code
  sc_time :: u64
  sc_value :: change_value

record change_stream =
  cs_parser :: "(io_error + command) list"
  cs_selection :: target_selection
  cs_window :: time_window
  cs_limits :: query_limits
  cs_time :: u64
  cs_count :: u64
  cs_finished :: bool
  cs_tick :: nat

definition command_check_interval :: u64 where
  "command_check_interval = 4096"

subsection \<open>Opening a stream\<close>

text \<open>An opened VCD, as far as queries see it: its catalog and what a body parser returns.\<close>

record opened_vcd =
  ov_catalog :: catalog
  ov_body :: "(io_error + command) list"

definition opened_signal :: "opened_vcd \<Rightarrow> string \<Rightarrow> signal_meta option" where
  "opened_signal ov name =
     Option.bind (key_by_name (ov_catalog ov) name) (catalog_signal (ov_catalog ov))"

fun resolve_from ::
    "environment \<Rightarrow> query_limits \<Rightarrow> opened_vcd \<Rightarrow> nat \<Rightarrow> nat
      \<Rightarrow> (id_code \<rightharpoonup> target_binding list) \<Rightarrow> string list \<Rightarrow> string list
      \<Rightarrow> query_error + (id_code \<rightharpoonup> target_binding list) \<times> string list" where
  "resolve_from env q ov n idx m missing [] = Inr (m, missing)"
| "resolve_from env q ov n idx m missing (name # names) =
     and_then (check env q n) (\<lambda>_.
       case opened_signal ov name of
         Some sg \<Rightarrow> resolve_from env q ov (Suc n) (Suc idx)
           (push_alias m (sm_id sg)
              \<lparr>tb_request_index = idx, tb_name = sm_name sg, tb_size = sm_size sg\<rparr>)
           missing names
       | None \<Rightarrow> resolve_from env q ov (Suc n) (Suc idx) m (missing @ [name]) names)"

definition resolve ::
    "environment \<Rightarrow> query_limits \<Rightarrow> opened_vcd \<Rightarrow> nat \<Rightarrow> string list
      \<Rightarrow> query_error + target_selection" where
  "resolve env q ov n targets =
     and_then (check_signal_count env q n (length targets)) (\<lambda>_.
     and_then (resolve_from env q ov (Suc n) 0 Map.empty [] targets) (\<lambda>(m, missing).
       if missing \<noteq> []
       then Inl (query_error_of_vcd (MissingSignals (join '', '' missing)))
       else Inr \<lparr>ts_by_id = m, ts_request_count = length targets\<rparr>))"

text \<open>\<^verbatim>\<open>OpenedVcd::body_parser\<close> validates the source before it returns a reader.\<close>

definition body_parser :: "environment \<Rightarrow> opened_vcd \<Rightarrow> nat \<Rightarrow> vcd_error + (io_error + command) list" where
  "body_parser env ov n = and_then (env_source env n) (\<lambda>_. Inr (ov_body ov))"

definition selected_change_stream ::
    "environment \<Rightarrow> query_limits \<Rightarrow> opened_vcd \<Rightarrow> nat \<Rightarrow> string list \<Rightarrow> time_window
      \<Rightarrow> query_error + change_stream" where
  "selected_change_stream env q ov n targets window =
     (let n1 = Suc n; n2 = n1 + 1 + length targets in
      and_then (check env q n) (\<lambda>_.
      and_then (resolve env q ov n1 targets) (\<lambda>sel.
      and_then (check env q n2) (\<lambda>_.
      and_then (map_err query_error_of_vcd (body_parser env ov (Suc n2))) (\<lambda>parser.
        Inr \<lparr>cs_parser = parser, cs_selection = sel, cs_window = window, cs_limits = q,
             cs_time = 0, cs_count = 0, cs_finished = False, cs_tick = n2 + 2\<rparr>)))))"

subsection \<open>The iterator\<close>

definition increment_command_count :: "change_stream \<Rightarrow> change_stream" where
  "increment_command_count s = s\<lparr>cs_count := saturating_add (cs_count s) 1\<rparr>"

definition check_command_limit :: "change_stream \<Rightarrow> query_error + unit" where
  "check_command_limit s =
     (case max_commands (cs_limits s) of
        Some limit \<Rightarrow>
          if cs_count s > limit then Inl (LimitExceeded Commands limit (cs_count s)) else Inr ()
      | None \<Rightarrow> Inr ())"

definition check_periodic_context :: "environment \<Rightarrow> change_stream \<Rightarrow> query_error + unit" where
  "check_periodic_context env s =
     (if cs_count s mod command_check_interval = 0
      then check env (cs_limits s) (cs_tick s) else Inr ())"

definition check_timestamp_context :: "environment \<Rightarrow> change_stream \<Rightarrow> query_error + unit" where
  "check_timestamp_context env s = check env (cs_limits s) (cs_tick s + 1)"

definition completion :: "environment \<Rightarrow> query_limits \<Rightarrow> nat \<Rightarrow> query_error + unit" where
  "completion env q n =
     and_then (check env q n) (\<lambda>_.
     and_then (map_err query_error_of_vcd (env_source env (n + 1))) (\<lambda>_.
       check env q (n + 2)))"

definition validate_current_generation ::
    "environment \<Rightarrow> change_stream \<Rightarrow> (query_error + unit) \<times> change_stream" where
  "validate_current_generation env s =
     (completion env (cs_limits s) (cs_tick s), s\<lparr>cs_tick := cs_tick s + 3\<rparr>)"

definition finish_success :: "environment \<Rightarrow> change_stream \<Rightarrow> (query_error + unit) \<times> change_stream" where
  "finish_success env s =
     (if cs_finished s then (Inr (), s)
      else case completion env (cs_limits s) (cs_tick s) of
          Inl e \<Rightarrow> (Inl e, s\<lparr>cs_tick := cs_tick s + 3\<rparr>)
        | Inr _ \<Rightarrow> (Inr (), s\<lparr>cs_tick := cs_tick s + 3, cs_finished := True\<rparr>))"

definition fail_stream ::
    "query_error \<Rightarrow> change_stream \<Rightarrow> (query_error + selected_change) option \<times> change_stream" where
  "fail_stream e s = (Some (Inl e), s\<lparr>cs_finished := True\<rparr>)"

definition end_stream ::
    "environment \<Rightarrow> change_stream \<Rightarrow> (query_error + selected_change) option \<times> change_stream" where
  "end_stream env s =
     (case finish_success env s of
        (Inr _, s') \<Rightarrow> (None, s')
      | (Inl e, s') \<Rightarrow> fail_stream e s')"

definition vector_to_change_value_selected :: "displays \<Rightarrow> vcd_value list \<Rightarrow> change_value" where
  "vector_to_change_value_selected D vec =
     (if list_all (\<lambda>v. v = V0 \<or> v = V1) vec \<and> length vec \<le> 128
      then Integer (foldl (\<lambda>i v. or (push_bit 1 i) (case v of V0 \<Rightarrow> 0 | V1 \<Rightarrow> 1 | _ \<Rightarrow> 0)) 0 vec)
      else Text (disp_vector D vec))"

definition convert_selected :: "displays \<Rightarrow> u64 \<Rightarrow> command \<Rightarrow> selected_change option" where
  "convert_selected D t cmd =
     (case cmd of
        ChangeScalar i v \<Rightarrow> Some \<lparr>sc_id = i, sc_time = t, sc_value = Text (disp_scalar D v)\<rparr>
      | ChangeVector i vec \<Rightarrow> Some \<lparr>sc_id = i, sc_time = t, sc_value = vector_to_change_value_selected D vec\<rparr>
      | ChangeReal i f \<Rightarrow> Some \<lparr>sc_id = i, sc_time = t, sc_value = Float f\<rparr>
      | ChangeString i str \<Rightarrow> Some \<lparr>sc_id = i, sc_time = t, sc_value = Text str\<rparr>
      | _ \<Rightarrow> None)"

fun change_id :: "command \<Rightarrow> id_code option" where
  "change_id (ChangeScalar i _) = Some i"
| "change_id (ChangeVector i _) = Some i"
| "change_id (ChangeReal i _) = Some i"
| "change_id (ChangeString i _) = Some i"
| "change_id _ = None"

definition selects :: "target_selection \<Rightarrow> time_window \<Rightarrow> u64 \<Rightarrow> command \<Rightarrow> bool" where
  "selects sel win t cmd \<longleftrightarrow>
     (case change_id cmd of Some i \<Rightarrow> sel_contains sel i \<and> window_contains win t | None \<Rightarrow> False)"

definition is_timestamp :: "io_error + command \<Rightarrow> bool" where
  "is_timestamp r \<longleftrightarrow> (case r of Inr (Timestamp _) \<Rightarrow> True | _ \<Rightarrow> False)"

text \<open>The checks between reading a parser result and looking at the command.\<close>

definition admit :: "environment \<Rightarrow> change_stream \<Rightarrow> io_error + command \<Rightarrow> query_error + command" where
  "admit env s r =
     and_then (check_periodic_context env s) (\<lambda>_.
     and_then (if is_timestamp r then check_timestamp_context env s else Inr ()) (\<lambda>_.
     and_then (check_command_limit s) (\<lambda>_.
       map_err (\<lambda>e. Vcd (Io e)) r)))"

fun stream_loop ::
    "environment \<Rightarrow> displays \<Rightarrow> change_stream \<Rightarrow> (io_error + command) list
      \<Rightarrow> (query_error + selected_change) option \<times> change_stream" where
  "stream_loop env D s [] = end_stream env (s\<lparr>cs_parser := []\<rparr>)"
| "stream_loop env D s (r # rest) =
     (let s1 = increment_command_count (s\<lparr>cs_parser := rest\<rparr>);
          s2 = s1\<lparr>cs_tick := cs_tick s1 + 3\<rparr> in
      case admit env s1 r of
        Inl e \<Rightarrow> fail_stream e s2
      | Inr (Timestamp t) \<Rightarrow>
          (let s3 = s2\<lparr>cs_time := t\<rparr> in
           if past_end (cs_window s3) t then end_stream env s3
           else stream_loop env D s3 rest)
      | Inr cmd \<Rightarrow>
          if selects (cs_selection s1) (cs_window s1) (cs_time s1) cmd
          then (case check env (cs_limits s1) (cs_tick s1 + 2) of
                  Inl e \<Rightarrow> fail_stream e s2
                | Inr _ \<Rightarrow>
                    (case convert_selected D (cs_time s1) cmd of
                       Some change \<Rightarrow> (Some (Inr change), s2)
                     | None \<Rightarrow> stream_loop env D s2 rest))
          else stream_loop env D s2 rest)"

definition stream_next ::
    "environment \<Rightarrow> displays \<Rightarrow> change_stream
      \<Rightarrow> (query_error + selected_change) option \<times> change_stream" where
  "stream_next env D s =
     (if cs_finished s then (None, s) else stream_loop env D s (cs_parser s))"

subsection \<open>What a scan should deliver\<close>

fun events ::
    "displays \<Rightarrow> target_selection \<Rightarrow> time_window \<Rightarrow> u64 \<Rightarrow> (io_error + command) list
      \<Rightarrow> selected_change list" where
  "events D sel win t [] = []"
| "events D sel win t (Inl e # rest) = []"
| "events D sel win t (Inr cmd # rest) =
     (case cmd of
        Timestamp u \<Rightarrow> if past_end win u then [] else events D sel win u rest
      | _ \<Rightarrow>
          (case (if selects sel win t cmd then convert_selected D t cmd else None) of
             Some change \<Rightarrow> change # events D sel win t rest
           | None \<Rightarrow> events D sel win t rest))"

fun scan_error :: "time_window \<Rightarrow> (io_error + command) list \<Rightarrow> io_error option" where
  "scan_error win [] = None"
| "scan_error win (Inl e # rest) = Some e"
| "scan_error win (Inr cmd # rest) =
     (case cmd of
        Timestamp u \<Rightarrow> if past_end win u then None else scan_error win rest
      | _ \<Rightarrow> scan_error win rest)"

fun scan_length :: "time_window \<Rightarrow> (io_error + command) list \<Rightarrow> nat" where
  "scan_length win [] = 0"
| "scan_length win (Inl e # rest) = 1"
| "scan_length win (Inr cmd # rest) =
     (case cmd of
        Timestamp u \<Rightarrow> if past_end win u then 1 else Suc (scan_length win rest)
      | _ \<Rightarrow> Suc (scan_length win rest))"

definition remaining_changes :: "displays \<Rightarrow> change_stream \<Rightarrow> selected_change list" where
  "remaining_changes D s =
     (if cs_finished s then []
      else events D (cs_selection s) (cs_window s) (cs_time s) (cs_parser s))"

definition remaining_error :: "change_stream \<Rightarrow> io_error option" where
  "remaining_error s = (if cs_finished s then None else scan_error (cs_window s) (cs_parser s))"

definition same_query :: "change_stream \<Rightarrow> change_stream \<Rightarrow> bool" where
  "same_query s s' \<longleftrightarrow>
     cs_selection s' = cs_selection s \<and> cs_window s' = cs_window s \<and> cs_limits s' = cs_limits s"

lemma same_query_refl [simp]: "same_query s s"
  by (simp add: same_query_def)

lemma same_query_trans: "same_query s s' \<Longrightarrow> same_query s' s'' \<Longrightarrow> same_query s s''"
  by (simp add: same_query_def)

lemma completion_Inr [result_iff]:
  "completion env q n = Inr u \<longleftrightarrow>
     check env q n = Inr () \<and> env_source env (n + 1) = Inr () \<and> check env q (n + 2) = Inr ()"
  by (auto simp: completion_def and_then_eq_Inr map_err_eq_Inr)

subsection \<open>One step of the iterator\<close>

lemma shift_in_foldl:
  "foldl (\<lambda>i v. or (push_bit 1 i) (case v of V0 \<Rightarrow> 0 | V1 \<Rightarrow> 1 | _ \<Rightarrow> 0)) acc vec = shift_in acc vec"
  by (induction acc vec rule: shift_in.induct) (simp_all add: bit_of_def)

lemma vector_to_change_value_selected [simp]:
  "vector_to_change_value_selected D vec = vector_to_change_value D vec"
  unfolding vector_to_change_value_selected_def vector_to_change_value_def shift_in_foldl
    is_bit_def [abs_def] by (rule refl)

lemma convert_selected_command:
  "convert_selected D t cmd =
     map_option (\<lambda>(i, v). \<lparr>sc_id = i, sc_time = t, sc_value = v\<rparr>) (command_to_change_value D cmd)"
  by (cases cmd) (simp_all add: convert_selected_def)

lemma selects_converts: "selects sel win t cmd \<Longrightarrow> \<exists>ch. convert_selected D t cmd = Some ch"
  by (cases cmd) (simp_all add: selects_def convert_selected_def)

text \<open>Why a stream may fail.\<close>

definition stream_failure ::
    "environment \<Rightarrow> query_limits \<Rightarrow> io_error option \<Rightarrow> query_error \<Rightarrow> bool" where
  "stream_failure env q scan e \<longleftrightarrow>
     (\<exists>n. check env q n = Inl e) \<or>
     (\<exists>n v. env_source env n = Inl v \<and> e = query_error_of_vcd v) \<or>
     (\<exists>l a. max_commands q = Some l \<and> l < a \<and> e = LimitExceeded Commands l a) \<or>
     (\<exists>io. scan = Some io \<and> e = Vcd (Io io))"

text \<open>
  The last three observations before the state \<open>s\<close> were a completion that passed: the source
  was validated after everything the query read.
\<close>

definition sealed :: "environment \<Rightarrow> change_stream \<Rightarrow> bool" where
  "sealed env s \<longleftrightarrow> 3 \<le> cs_tick s \<and> completion env (cs_limits s) (cs_tick s - 3) = Inr ()"

definition step_ok ::
    "environment \<Rightarrow> displays \<Rightarrow> change_stream \<Rightarrow> (io_error + command) list
      \<Rightarrow> (query_error + selected_change) option \<Rightarrow> change_stream \<Rightarrow> bool" where
  "step_ok env D s rs r s' \<longleftrightarrow>
     same_query s s' \<and> cs_tick s \<le> cs_tick s' \<and>
     (let es = events D (cs_selection s) (cs_window s) (cs_time s) rs;
          err = scan_error (cs_window s) rs in
      case r of
        None \<Rightarrow> cs_finished s' \<and> es = [] \<and> err = None \<and> sealed env s'
      | Some (Inl e) \<Rightarrow> cs_finished s' \<and> stream_failure env (cs_limits s) err e
      | Some (Inr ch) \<Rightarrow> \<not> cs_finished s' \<and> length (cs_parser s') < length rs \<and>
          es = ch # remaining_changes D s' \<and> err = remaining_error s')"

lemma failure_check: "check env q n = Inl e \<Longrightarrow> stream_failure env q err e"
  by (auto simp: stream_failure_def)

lemma failure_source: "env_source env n = Inl v \<Longrightarrow> stream_failure env q err (query_error_of_vcd v)"
  by (auto simp: stream_failure_def)

lemma completion_failure: "completion env q n = Inl e \<Longrightarrow> stream_failure env q err e"
  by (cases "env_source env (n + 1)")
    (auto simp: completion_def and_then_eq_Inl dest: failure_check failure_source)

lemma end_stream_step:
  assumes "\<not> cs_finished s" and "events D (cs_selection s) (cs_window s) (cs_time s) rs = []"
    and "scan_error (cs_window s) rs = None" and "end_stream env s = (r, s')"
  shows "step_ok env D s rs r s'"
proof (cases "completion env (cs_limits s) (cs_tick s)")
  case (Inl e)
  then show ?thesis
    using assms completion_failure [OF Inl]
    by (auto simp: step_ok_def end_stream_def finish_success_def fail_stream_def same_query_def)
next
  case (Inr u)
  then show ?thesis
    using assms
    by (auto simp: step_ok_def end_stream_def finish_success_def same_query_def sealed_def)
qed

lemma admit_failure:
  assumes "admit env s r = Inl e"
  shows "(\<exists>io. r = Inl io \<and> e = Vcd (Io io)) \<or> stream_failure env (cs_limits s) err e"
  using assms
  by (auto simp: admit_def check_periodic_context_def check_timestamp_context_def
      check_command_limit_def result_iff map_err_def and_then_eq_Inl stream_failure_def
      split: if_splits option.splits sum.splits)

lemma admit_Inr: "admit env s r = Inr cmd \<Longrightarrow> r = Inr cmd"
  by (auto simp: admit_def result_iff)

lemma step_ok_skip:
  assumes "step_ok env D s2 rest r s'" and "same_query s s2" and "cs_tick s \<le> cs_tick s2"
    and "events D (cs_selection s) (cs_window s) (cs_time s) rs =
      events D (cs_selection s) (cs_window s) (cs_time s2) rest"
    and "scan_error (cs_window s) rs = scan_error (cs_window s) rest" and "length rest \<le> length rs"
  shows "step_ok env D s rs r s'"
  using assms by (auto simp: step_ok_def same_query_def Let_def split: option.splits sum.splits)

text \<open>The state after a result is taken from the parser, and after its checkpoints.\<close>

definition counted :: "change_stream \<Rightarrow> (io_error + command) list \<Rightarrow> change_stream" where
  "counted s rest = increment_command_count (s\<lparr>cs_parser := rest\<rparr>)"

definition passed :: "change_stream \<Rightarrow> (io_error + command) list \<Rightarrow> change_stream" where
  "passed s rest = (counted s rest)\<lparr>cs_tick := cs_tick s + 3\<rparr>"

lemma counted_simps [simp]:
  "cs_parser (counted s rest) = rest" "cs_selection (counted s rest) = cs_selection s"
  "cs_window (counted s rest) = cs_window s" "cs_limits (counted s rest) = cs_limits s"
  "cs_time (counted s rest) = cs_time s" "cs_finished (counted s rest) = cs_finished s"
  "cs_tick (counted s rest) = cs_tick s" "cs_count (counted s rest) = saturating_add (cs_count s) 1"
  by (simp_all add: counted_def increment_command_count_def)

lemma passed_simps [simp]:
  "cs_parser (passed s rest) = rest" "cs_selection (passed s rest) = cs_selection s"
  "cs_window (passed s rest) = cs_window s" "cs_limits (passed s rest) = cs_limits s"
  "cs_time (passed s rest) = cs_time s" "cs_finished (passed s rest) = cs_finished s"
  "cs_tick (passed s rest) = cs_tick s + 3" "cs_count (passed s rest) = saturating_add (cs_count s) 1"
  by (simp_all add: passed_def)

lemma same_query_passed [simp]: "same_query s (passed s rest)" "same_query s (passed s rest\<lparr>cs_time := t\<rparr>)"
  by (simp_all add: same_query_def)

lemma stream_loop_fail:
  "admit env (counted s rest) x = Inl e \<Longrightarrow> stream_loop env D s (x # rest) = fail_stream e (passed s rest)"
  by (simp add: counted_def [symmetric] passed_def Let_def)

lemma stream_loop_time:
  "admit env (counted s rest) x = Inr (Timestamp t) \<Longrightarrow> stream_loop env D s (x # rest) =
     (if past_end (cs_window s) t then end_stream env (passed s rest\<lparr>cs_time := t\<rparr>)
      else stream_loop env D (passed s rest\<lparr>cs_time := t\<rparr>) rest)"
  by (simp add: counted_def [symmetric] passed_def Let_def)

lemma stream_loop_other:
  "admit env (counted s rest) x = Inr cmd \<Longrightarrow> \<forall>t. cmd \<noteq> Timestamp t \<Longrightarrow>
   stream_loop env D s (x # rest) =
     (if selects (cs_selection s) (cs_window s) (cs_time s) cmd
      then (case check env (cs_limits s) (cs_tick s + 2) of
              Inl e \<Rightarrow> fail_stream e (passed s rest)
            | Inr _ \<Rightarrow> (Some (Inr (the (convert_selected D (cs_time s) cmd))), passed s rest))
      else stream_loop env D (passed s rest) rest)"
  using selects_converts [of "cs_selection s" "cs_window s" "cs_time s" cmd D]
  by (cases cmd)
    (auto simp: counted_def [symmetric] passed_def Let_def simp del: vector_to_change_value_selected
      split: sum.splits)

declare stream_loop.simps(2) [simp del]

lemma events_other:
  "\<forall>t. cmd \<noteq> Timestamp t \<Longrightarrow> events D sel win t (Inr cmd # rest) =
     (if selects sel win t cmd then the (convert_selected D t cmd) # events D sel win t rest
      else events D sel win t rest)"
  using selects_converts [of sel win t cmd D] by (cases cmd) auto

lemma scan_other:
  "\<forall>t. cmd \<noteq> Timestamp t \<Longrightarrow> scan_error win (Inr cmd # rest) = scan_error win rest"
  "\<forall>t. cmd \<noteq> Timestamp t \<Longrightarrow> scan_length win (Inr cmd # rest) = Suc (scan_length win rest)"
  by (cases cmd; simp)+

lemma stream_loop_step:
  "\<not> cs_finished s \<Longrightarrow> stream_loop env D s rs = (r, s') \<Longrightarrow> step_ok env D s rs r s'"
proof (induction rs arbitrary: s)
  case Nil
  then have "step_ok env D (s\<lparr>cs_parser := []\<rparr>) [] r s'" by (intro end_stream_step) auto
  then show ?case by (rule step_ok_skip) (auto simp: same_query_def)
next
  case (Cons x rest)
  let ?s2 = "passed s rest"
  have fin: "\<not> cs_finished ?s2" using Cons.prems(1) by simp
  note loop = Cons.prems(2)
  show ?case
  proof (cases "admit env (counted s rest) x")
    case (Inl e)
    then have "stream_failure env (cs_limits s) (scan_error (cs_window s) (x # rest)) e"
      using admit_failure [OF Inl, of "scan_error (cs_window s) (x # rest)"]
      by (auto simp: stream_failure_def)
    moreover have "(r, s') = fail_stream e (passed s rest)"
      using loop stream_loop_fail [OF Inl] by simp
    ultimately show ?thesis by (auto simp: step_ok_def fail_stream_def same_query_def)
  next
    case (Inr cmd)
    then have x: "x = Inr cmd" by (rule admit_Inr)
    show ?thesis
    proof (cases "\<exists>t. cmd = Timestamp t")
      case True
      then obtain t where t: "cmd = Timestamp t" by blast
      let ?s3 = "?s2\<lparr>cs_time := t\<rparr>"
      note loop = loop [unfolded stream_loop_time [OF Inr [unfolded t]]]
      show ?thesis
      proof (cases "past_end (cs_window s) t")
        case True
        then have "step_ok env D ?s3 [] r s'" using fin loop by (intro end_stream_step) auto
        then show ?thesis by (rule step_ok_skip) (use True x t in auto)
      next
        case False
        then have "step_ok env D ?s3 rest r s'" using loop fin by (intro Cons.IH) auto
        then show ?thesis by (rule step_ok_skip) (use False x t in auto)
      qed
    next
      case other: False
      then have nt: "\<forall>t. cmd \<noteq> Timestamp t" by blast
      note loop = loop [unfolded stream_loop_other [OF Inr nt]]
      show ?thesis
      proof (cases "selects (cs_selection s) (cs_window s) (cs_time s) cmd")
        case True
        show ?thesis
        proof (cases "check env (cs_limits s) (cs_tick s + 2)")
          case (Inl e)
          then show ?thesis
            using loop True failure_check [OF Inl]
            by (auto simp: step_ok_def fail_stream_def same_query_def)
        next
          case (Inr u)
          then show ?thesis
            using loop True fin
            by (auto simp: step_ok_def same_query_def remaining_changes_def remaining_error_def
                x events_other [OF nt] scan_other [OF nt] simp del: events.simps scan_error.simps)
        qed
      next
        case False
        then have "step_ok env D ?s2 rest r s'" using loop fin by (intro Cons.IH) auto
        then show ?thesis
          by (rule step_ok_skip)
            (use False in \<open>simp_all add: x events_other [OF nt] scan_other [OF nt]
              del: events.simps scan_error.simps\<close>)
      qed
    qed
  qed
qed

lemma stream_next_step:
  "\<not> cs_finished s \<Longrightarrow> stream_next env D s = (r, s') \<Longrightarrow> step_ok env D s (cs_parser s) r s'"
  by (simp add: stream_next_def stream_loop_step)

lemma stream_next_finished [simp]: "cs_finished s \<Longrightarrow> stream_next env D s = (None, s)"
  by (simp add: stream_next_def)

lemma stream_next_same: "stream_next env D s = (r, s') \<Longrightarrow> same_query s s'"
  using stream_next_step [of s env D r s'] by (cases "cs_finished s") (auto simp: step_ok_def)

lemma stream_next_item:
  "stream_next env D s = (Some (Inr ch), s') \<Longrightarrow>
     \<not> cs_finished s \<and> \<not> cs_finished s' \<and> same_query s s' \<and> cs_tick s \<le> cs_tick s' \<and>
     length (cs_parser s') < length (cs_parser s) \<and>
     remaining_changes D s = ch # remaining_changes D s' \<and> remaining_error s = remaining_error s'"
  using stream_next_step [of s env D "Some (Inr ch)" s']
  by (cases "cs_finished s")
    (auto simp: step_ok_def Let_def remaining_changes_def [of D s] remaining_error_def [of s])

lemma stream_next_error:
  "stream_next env D s = (Some (Inl e), s') \<Longrightarrow>
     \<not> cs_finished s \<and> cs_finished s' \<and> same_query s s' \<and>
     stream_failure env (cs_limits s) (remaining_error s) e"
  using stream_next_step [of s env D "Some (Inl e)" s']
  by (cases "cs_finished s") (auto simp: step_ok_def Let_def remaining_error_def)

lemma stream_next_end:
  "stream_next env D s = (None, s') \<Longrightarrow>
     cs_finished s' \<and> same_query s s' \<and> remaining_changes D s = [] \<and> remaining_error s = None \<and>
     (\<not> cs_finished s \<longrightarrow> sealed env s')"
  using stream_next_step [of s env D None s']
  by (cases "cs_finished s")
    (auto simp: step_ok_def Let_def remaining_changes_def remaining_error_def)

interpretation change_stream: rust_iterator "stream_next env D" "\<lambda>s. length (cs_parser s)" "\<lambda>_. True"
  for env D
proof
  show "length (cs_parser s') < length (cs_parser s)"
    if "stream_next env D s = (Some (Inr a), s')" for s a s'
    using stream_next_item [OF that] by blast
qed simp

lemma drain_stream:
  assumes "drain (stream_next env D) s = Some (xs, r, s')"
  shows "same_query s s' \<and> cs_finished s' \<and>
    (case r of
       None \<Rightarrow> xs = remaining_changes D s \<and> remaining_error s = None \<and>
         (\<not> cs_finished s \<longrightarrow> sealed env s')
     | Some e \<Rightarrow> prefix xs (remaining_changes D s) \<and>
         stream_failure env (cs_limits s) (remaining_error s) e)"
  using TrueI assms
proof (induction rule: change_stream.drain_induct)
  case (finished s s')
  from stream_next_end [OF finished(2)] show ?case by simp
next
  case (failed s e s')
  from stream_next_error [OF failed(2)] show ?case by simp
next
  case (item s a s' xs r s'')
  note step = stream_next_item [OF item(2)]
  then have "cs_limits s' = cs_limits s" by (simp add: same_query_def)
  with step item(5) same_query_trans [of s s' s''] show ?case
    by (cases r) simp_all
qed

subsection \<open>The command budget\<close>

lemma drain_skip:
  assumes "\<not> cs_finished s" and "\<not> cs_finished s2"
    and "stream_loop env D s (cs_parser s) = stream_loop env D s2 (cs_parser s2)"
  shows "drain (stream_next env D) s = drain (stream_next env D) s2"
  using assms by (simp add: drain.simps [of "stream_next env D"] stream_next_def)

text \<open>
  The command limit that a scan of \<open>n\<close> further commands hits. A limit of \<open>2 ^ 64 - 1\<close> is never
  hit: the counter saturates there.
\<close>

definition exceeded_budget :: "query_limits \<Rightarrow> u64 \<Rightarrow> nat \<Rightarrow> u64 option" where
  "exceeded_budget q count n =
     (case max_commands q of
        Some l \<Rightarrow> if l < - 1 \<and> unat l < unat count + n then Some l else None
      | None \<Rightarrow> None)"

definition within_budget :: "query_limits \<Rightarrow> u64 \<Rightarrow> bool" where
  "within_budget q count \<longleftrightarrow> (case max_commands q of Some l \<Rightarrow> count \<le> l | None \<Rightarrow> True)"

lemma less_max_u64: "(l :: u64) < - 1 \<longleftrightarrow> unat l < 2 ^ 64 - 1"
  by (simp add: word_less_nat_alt unsigned_minus_1_eq_mask mask_eq_exp_minus_1)

lemma quiet_admit:
  assumes "quiet env (cs_limits s)" and "within_budget (cs_limits s) (cs_count s)"
  shows "admit env (counted s rest) r =
    (case exceeded_budget (cs_limits s) (cs_count s) 1 of
       Some l \<Rightarrow> Inl (LimitExceeded Commands l (l + 1))
     | None \<Rightarrow> map_err (\<lambda>e. Vcd (Io e)) r)"
proof -
  have "check_command_limit (counted s rest) =
    (case exceeded_budget (cs_limits s) (cs_count s) 1 of
       Some l \<Rightarrow> Inl (LimitExceeded Commands l (l + 1)) | None \<Rightarrow> Inr ())"
  proof (cases "max_commands (cs_limits s)")
    case (Some l)
    then have le: "unat (cs_count s) \<le> unat l"
      using assms(2) by (simp add: within_budget_def word_le_nat_alt)
    have l: "unat l < 2 ^ 64" using unat_less_exp [of l] by simp
    show ?thesis
    proof (cases "l < - 1 \<and> unat l < unat (cs_count s) + 1")
      case True
      then have eq: "cs_count s = l" using le by (auto simp: word_unat_eq_iff)
      have "unat (saturating_add (cs_count s) 1) = unat l + 1"
        using True eq by (simp add: unat_saturating_add less_max_u64)
      moreover have "unat (l + 1) = unat l + 1"
        using True by (subst unat_add_no_overflow) (simp_all add: less_max_u64)
      ultimately have "saturating_add (cs_count s) 1 = l + 1" "l < saturating_add (cs_count s) 1"
        by (simp_all add: word_unat_eq_iff word_less_nat_alt)
      with True Some show ?thesis by (simp add: check_command_limit_def exceeded_budget_def)
    next
      case False
      then have "unat (saturating_add (cs_count s) 1) \<le> unat l"
        using le l by (auto simp: unat_saturating_add less_max_u64)
      then have "\<not> l < saturating_add (cs_count s) 1" by (simp add: word_less_nat_alt)
      with False Some show ?thesis by (simp add: check_command_limit_def exceeded_budget_def)
    qed
  qed (simp add: check_command_limit_def exceeded_budget_def)
  then show ?thesis
    using assms(1)
    by (simp add: admit_def check_periodic_context_def check_timestamp_context_def
        split: option.splits)
qed

lemma budget_step:
  assumes "within_budget q count" and "exceeded_budget q count 1 = None"
  shows "within_budget q (saturating_add count 1)"
    and "exceeded_budget q (saturating_add count 1) n = exceeded_budget q count (Suc n)"
    and "exceeded_budget q count (Suc n) = Some l \<Longrightarrow>
      unat l - unat count = Suc (unat l - unat (saturating_add count 1))"
  using assms unat_less_exp [of count]
  by (auto simp: within_budget_def exceeded_budget_def word_le_nat_alt unat_saturating_add
      less_max_u64 split: option.splits if_splits)

lemma events_take_exceeded:
  "exceeded_budget q count 1 = Some l \<Longrightarrow> within_budget q count \<Longrightarrow> unat l - unat count = 0"
  by (auto simp: exceeded_budget_def within_budget_def word_le_nat_alt split: option.splits if_splits)

lemma exceeded_mono:
  "exceeded_budget q count m = Some l \<Longrightarrow> m \<le> n \<Longrightarrow> exceeded_budget q count n = Some l"
  by (auto simp: exceeded_budget_def split: option.splits if_splits)

lemma scan_length_pos: "1 \<le> scan_length win (r # rest)"
  by (cases r) (auto split: command.splits)

lemma exceeded_zero: "within_budget q count \<Longrightarrow> exceeded_budget q count 0 = None"
  by (auto simp: exceeded_budget_def within_budget_def word_le_nat_alt split: option.splits)

definition budgeted_result ::
    "displays \<Rightarrow> change_stream \<Rightarrow> selected_change list \<times> query_error option" where
  "budgeted_result D s =
     (let rs = cs_parser s; win = cs_window s;
          es = (\<lambda>rs. events D (cs_selection s) win (cs_time s) rs) in
      case exceeded_budget (cs_limits s) (cs_count s) (scan_length win rs) of
        Some l \<Rightarrow> (es (take (unat l - unat (cs_count s)) rs), Some (LimitExceeded Commands l (l + 1)))
      | None \<Rightarrow> (es rs, map_option (\<lambda>e. Vcd (Io e)) (scan_error win rs)))"

lemma quiet_end_stream:
  "quiet env (cs_limits s) \<Longrightarrow> \<not> cs_finished s \<Longrightarrow> \<exists>s'. end_stream env s = (None, s')"
  by (simp add: end_stream_def finish_success_def completion_def)

lemma drain_quiet:
  assumes "quiet env (cs_limits s)" and "\<not> cs_finished s"
    and "within_budget (cs_limits s) (cs_count s)"
  shows "\<exists>s'. drain (stream_next env D) s =
    Some (fst (budgeted_result D s), snd (budgeted_result D s), s')"
  using assms
proof (induction "cs_parser s" arbitrary: s)
  case Nil
  have "\<exists>s'. end_stream env (s\<lparr>cs_parser := []\<rparr>) = (None, s')"
    using Nil.prems by (intro quiet_end_stream) auto
  then obtain s' where "stream_next env D s = (None, s')"
    using Nil by (auto simp: stream_next_def)
  then show ?case
    using Nil exceeded_zero by (simp add: drain_simps budgeted_result_def)
next
  case (Cons x rest)
  let ?q = "cs_limits s" and ?s2 = "passed s rest"
  have parser: "cs_parser s = x # rest" using Cons.hyps(2) by simp
  note admit = quiet_admit [OF Cons.prems(1,3), of rest x]
  have next_eq: "stream_next env D s = stream_loop env D s (x # rest)"
    using Cons.prems(2) parser by (simp add: stream_next_def)
  show ?case
  proof (cases "exceeded_budget ?q (cs_count s) 1")
    case (Some l)
    then have "exceeded_budget ?q (cs_count s) (scan_length (cs_window s) (x # rest)) = Some l"
      by (rule exceeded_mono) (rule scan_length_pos)
    moreover have "stream_next env D s = fail_stream (LimitExceeded Commands l (l + 1)) ?s2"
      using next_eq stream_loop_fail Some admit by simp
    ultimately show ?thesis
      using events_take_exceeded [OF Some Cons.prems(3)]
      by (simp add: budgeted_result_def parser fail_stream_def drain_simps del: scan_length.simps)
  next
    case None
    note bstep = budget_step [OF Cons.prems(3) None]
    show ?thesis
    proof (cases x)
      case (Inl e)
      then have "stream_next env D s = fail_stream (Vcd (Io e)) ?s2"
        using next_eq stream_loop_fail None admit by simp
      then show ?thesis
        using Inl None by (simp add: budgeted_result_def parser fail_stream_def drain_simps)
    next
      case (Inr cmd)
      then have adm: "admit env (counted s rest) x = Inr cmd" using admit None by simp
      have step: "\<exists>s'. drain (stream_next env D) (passed s rest\<lparr>cs_time := t\<rparr>) =
          Some (fst (budgeted_result D (passed s rest\<lparr>cs_time := t\<rparr>)),
                snd (budgeted_result D (passed s rest\<lparr>cs_time := t\<rparr>)), s')" for t
        using Cons.prems bstep(1) by (intro Cons.hyps(1)) auto
      show ?thesis
      proof (cases "\<exists>t. cmd = Timestamp t")
        case True
        then obtain t where t: "cmd = Timestamp t" by blast
        let ?s3 = "?s2\<lparr>cs_time := t\<rparr>"
        note loop = stream_loop_time [OF adm [unfolded t], of D]
        show ?thesis
        proof (cases "past_end (cs_window s) t")
          case True
          have "\<exists>s'. end_stream env ?s3 = (None, s')" using Cons.prems by (intro quiet_end_stream) auto
          with True loop next_eq obtain s' where "stream_next env D s = (None, s')" by auto
          then show ?thesis
            using True t Inr None by (simp add: budgeted_result_def parser drain_simps)
        next
          case False
          then have "drain (stream_next env D) s = drain (stream_next env D) ?s3"
            using Cons.prems parser loop by (intro drain_skip) auto
          moreover have "budgeted_result D s = budgeted_result D ?s3"
            using False t Inr bstep(2,3)
            by (auto simp: budgeted_result_def parser Let_def split: option.splits)
          ultimately show ?thesis using step [of t] by simp
        qed
      next
        case other: False
        then have nt: "\<forall>t. cmd \<noteq> Timestamp t" by blast
        note loop = stream_loop_other [OF adm nt, of D]
        have time: "passed s rest\<lparr>cs_time := cs_time s\<rparr> = passed s rest"
          by (metis change_stream.surjective change_stream.update_convs(5) passed_simps(5))
        obtain s' where rec: "drain (stream_next env D) ?s2 =
            Some (fst (budgeted_result D ?s2), snd (budgeted_result D ?s2), s')"
          using step [of "cs_time s", unfolded time] by blast
        let ?sel = "selects (cs_selection s) (cs_window s) (cs_time s) cmd"
        have res: "budgeted_result D s =
            ((if ?sel then [the (convert_selected D (cs_time s) cmd)] else []) @
              fst (budgeted_result D ?s2), snd (budgeted_result D ?s2))"
          using bstep(2,3) Inr
          by (auto simp: budgeted_result_def parser Let_def events_other [OF nt] scan_other [OF nt]
              simp del: events.simps(3) scan_error.simps(3) scan_length.simps(3) split: option.splits)
        show ?thesis
        proof (cases ?sel)
          case True
          then have "stream_next env D s =
              (Some (Inr (the (convert_selected D (cs_time s) cmd))), ?s2)"
            using next_eq loop Cons.prems(1) by simp
          with rec res True show ?thesis by (simp add: drain_simps(3))
        next
          case False
          then have "drain (stream_next env D) s = drain (stream_next env D) ?s2"
            using Cons.prems parser loop by (intro drain_skip) auto
          with rec res False show ?thesis by simp
        qed
      qed
    qed
  qed
qed

subsection \<open>Target resolution\<close>

text \<open>The bindings of one identifier that a request asks for, in request order.\<close>

fun target_bindings ::
    "opened_vcd \<Rightarrow> nat \<Rightarrow> id_code \<Rightarrow> string list \<Rightarrow> target_binding list" where
  "target_bindings ov idx i [] = []"
| "target_bindings ov idx i (name # names) =
     (case opened_signal ov name of
        Some sg \<Rightarrow>
          (if i = sm_id sg
           then [\<lparr>tb_request_index = idx, tb_name = sm_name sg, tb_size = sm_size sg\<rparr>] else [])
      | None \<Rightarrow> []) @ target_bindings ov (Suc idx) i names"

definition missing_targets :: "opened_vcd \<Rightarrow> string list \<Rightarrow> string list" where
  "missing_targets ov targets = filter (\<lambda>n. opened_signal ov n = None) targets"

definition no_empty_entry :: "(id_code \<rightharpoonup> 'k list) \<Rightarrow> bool" where
  "no_empty_entry m \<longleftrightarrow> (\<forall>i. m i = None \<longleftrightarrow> entries m i = [])"

lemma no_empty_entry_empty [simp]: "no_empty_entry Map.empty"
  by (simp add: no_empty_entry_def)

lemma no_empty_entry_push [simp]: "no_empty_entry m \<Longrightarrow> no_empty_entry (push_alias m i k)"
  unfolding no_empty_entry_def entries_simps by (simp add: push_alias_def)

lemma resolve_from_result:
  "resolve_from env q ov n idx m missing names = Inr (m', missing') \<Longrightarrow>
     missing' = missing @ missing_targets ov names \<and>
     (no_empty_entry m \<longrightarrow> no_empty_entry m') \<and>
     (\<forall>i. entries m' i = entries m i @ target_bindings ov idx i names)"
proof (induction env q ov n idx m missing names rule: resolve_from.induct)
  case (2 env q ov n idx m missing name names)
  have c: "check env q n = Inr ()" using "2.prems" by (auto simp: and_then_eq_Inr)
  show ?case
  proof (cases "opened_signal ov name")
    case None
    then have "resolve_from env q ov (Suc n) (Suc idx) m (missing @ [name]) names = Inr (m', missing')"
      using "2.prems" c by simp
    from "2.IH"(1) [OF c None this] None show ?thesis by (simp add: missing_targets_def)
  next
    case (Some sg)
    let ?m = "push_alias m (sm_id sg)
      \<lparr>tb_request_index = idx, tb_name = sm_name sg, tb_size = sm_size sg\<rparr>"
    have "resolve_from env q ov (Suc n) (Suc idx) ?m missing names = Inr (m', missing')"
      using "2.prems" c Some by simp
    from "2.IH"(2) [OF c Some this] Some show ?thesis by (simp add: missing_targets_def)
  qed
qed (simp add: missing_targets_def)

lemma resolve_from_quiet:
  "quiet env q \<Longrightarrow> \<exists>r. resolve_from env q ov n idx m missing names = Inr r"
  by (induction env q ov n idx m missing names rule: resolve_from.induct)
    (auto split: option.splits)

lemma resolve_Inr:
  assumes "resolve env q ov n targets = Inr sel"
  shows "missing_targets ov targets = [] \<and> ts_request_count sel = length targets \<and>
    (\<forall>i. bindings sel i = target_bindings ov 0 i targets) \<and>
    (\<forall>i. sel_contains sel i \<longleftrightarrow> bindings sel i \<noteq> [])"
proof -
  obtain m where "resolve_from env q ov (Suc n) 0 Map.empty [] targets = Inr (m, [])"
    and sel: "sel = \<lparr>ts_by_id = m, ts_request_count = length targets\<rparr>"
    using assms by (auto simp: resolve_def result_iff split: if_splits)
  from resolve_from_result [OF this(1)] show ?thesis
    by (simp add: sel bindings_def sel_contains_def no_empty_entry_def)
qed

subsection \<open>Properties\<close>

text \<open>
  Target resolution in a quiet environment: a request over the signal budget is refused
  first; otherwise the names that no signal bears are reported, all of them, in request order;
  otherwise each identifier is bound to exactly the requested signals that carry it, in request
  order, duplicates kept.
\<close>

lemma resolve_exact:
  assumes "quiet env q"
  shows "resolve env q ov n targets =
    (if \<exists>l. max_signals q = Some l \<and> l < length targets
     then Inl (LimitExceeded Signals (u64_of_usize (the (max_signals q)))
                (u64_of_usize (length targets)))
     else if missing_targets ov targets \<noteq> []
     then Inl (Vcd (MissingSignals (join '', '' (missing_targets ov targets))))
     else Inr \<lparr>ts_by_id = (\<lambda>i. case target_bindings ov 0 i targets of [] \<Rightarrow> None | bs \<Rightarrow> Some bs),
               ts_request_count = length targets\<rparr>)"
proof -
  obtain m missing where r: "resolve_from env q ov (Suc n) 0 Map.empty [] targets = Inr (m, missing)"
    using resolve_from_quiet [OF assms] by fastforce
  note res = resolve_from_result [OF r]
  have "m i = (case target_bindings ov 0 i targets of [] \<Rightarrow> None | bs \<Rightarrow> Some bs)" for i
  proof -
    have "entries m i = target_bindings ov 0 i targets" and "m i = None \<longleftrightarrow> entries m i = []"
      using res by (simp_all add: no_empty_entry_def)
    then show ?thesis by (cases "m i") (auto simp: entries_def split: list.splits)
  qed
  then show ?thesis
    using r res assms
    by (simp add: resolve_def check_signal_count_def fun_eq_iff split: option.splits)
qed

definition sample_opened :: opened_vcd where
  "sample_opened = \<lparr>ov_catalog = (case from_scope_items sample_header of Inr c \<Rightarrow> c | Inl _ \<Rightarrow> new_builder),
     ov_body = [Inr (Timestamp 0), Inr (ChangeScalar 1 V0), Inr (ChangeVector 2 [V1, V0]),
                Inr (Timestamp 5), Inr (ChangeScalar 1 V1), Inr (Timestamp 9), Inr (ChangeScalar 1 V0)]\<rparr>"

lemma resolve_exact_witness:
  "quiet calm (with_max_signals 1 unlimited) \<and>
   resolve calm (with_max_signals 1 unlimited) sample_opened 0 [''a'', ''b''] =
     Inl (LimitExceeded Signals 1 2)"
proof -
  have q: "quiet calm (with_max_signals 1 unlimited)"
    by (rule quiet_calm) (simp add: with_max_signals_def unlimited_def)
  show ?thesis
    using q resolve_exact [OF q, of sample_opened 0 "[''a'', ''b'']"]
    by (simp add: with_max_signals_def unlimited_def u64_of_usize_def u64_max_def)
qed

text \<open>
  C3. The stream in any environment, whatever is cancelled, times out or changes while it runs:
  it ends; if it ends without an error it delivered every selected change of the body inside the
  window, the parser met no error, and the source was validated after the last command was read;
  if it fails it delivered a prefix of those changes, and the error is the context's, the
  source's, the command limit's or the parser's; and after the end it delivers nothing more.
\<close>

theorem stream_outcome:
  "\<exists>xs r s'. drain (stream_next env D) s = Some (xs, r, s') \<and>
     stream_next env D s' = (None, s') \<and>
     (case r of
        None \<Rightarrow> xs = remaining_changes D s \<and> remaining_error s = None \<and>
          (cs_finished s \<or> sealed env s')
      | Some e \<Rightarrow> prefix xs (remaining_changes D s) \<and>
          stream_failure env (cs_limits s) (remaining_error s) e)"
proof -
  obtain xs r s' where d: "drain (stream_next env D) s = Some (xs, r, s')"
    using change_stream.drain_returns by blast
  from drain_stream [OF d] d show ?thesis
    by (intro exI [of _ xs] exI [of _ r] exI [of _ s']) (auto split: option.splits)
qed

text \<open>
  C4. The command budget is exact: in a quiet environment a scan of at most the allowed number
  of commands delivers every selected change and then the parser's error, if any; one more
  command and it delivers the changes among the allowed commands and fails with the limit and
  the count that exceeded it.
\<close>

theorem stream_budget:
  assumes "quiet env (cs_limits s)" and "\<not> cs_finished s" and "cs_count s = 0"
  shows "\<exists>s'. drain (stream_next env D) s =
    (case max_commands (cs_limits s) of
       Some l \<Rightarrow>
         if l < - 1 \<and> unat l < scan_length (cs_window s) (cs_parser s)
         then Some (events D (cs_selection s) (cs_window s) (cs_time s) (take (unat l) (cs_parser s)),
                    Some (LimitExceeded Commands l (l + 1)), s')
         else Some (remaining_changes D s, map_option (\<lambda>e. Vcd (Io e)) (remaining_error s), s')
     | None \<Rightarrow> Some (remaining_changes D s, map_option (\<lambda>e. Vcd (Io e)) (remaining_error s), s'))"
proof -
  have "within_budget (cs_limits s) (cs_count s)"
    using assms(3) by (simp add: within_budget_def split: option.splits)
  from drain_quiet [OF assms(1,2) this, of D] assms(2,3) show ?thesis
    by (auto simp: budgeted_result_def exceeded_budget_def remaining_changes_def
        remaining_error_def Let_def split: option.splits)
qed

definition sample_stream :: "u64 \<Rightarrow> change_stream" where
  "sample_stream limit = \<lparr>cs_parser = ov_body sample_opened,
     cs_selection = \<lparr>ts_by_id = [1 \<mapsto> [\<lparr>tb_request_index = 0, tb_name = ''top.clk'', tb_size = 1\<rparr>]],
                     ts_request_count = 1\<rparr>,
     cs_window = \<lparr>win_start = None, win_end = Some 7\<rparr>, cs_limits = with_max_commands limit unlimited,
     cs_time = 0, cs_count = 0, cs_finished = False, cs_tick = 0\<rparr>"

lemma stream_budget_witness:
  "(\<exists>s'. drain (stream_next calm plain_displays) (sample_stream 6) =
     Some ([\<lparr>sc_id = 1, sc_time = 0, sc_value = Text (disp_scalar plain_displays V0)\<rparr>,
            \<lparr>sc_id = 1, sc_time = 5, sc_value = Text (disp_scalar plain_displays V1)\<rparr>], None, s')) \<and>
   (\<exists>s'. drain (stream_next calm plain_displays) (sample_stream 3) =
     Some ([\<lparr>sc_id = 1, sc_time = 0, sc_value = Text (disp_scalar plain_displays V0)\<rparr>],
       Some (LimitExceeded Commands 3 4), s'))"
proof -
  have "quiet calm (cs_limits (sample_stream l))" for l
    by (rule quiet_calm) (simp add: sample_stream_def with_max_commands_def unlimited_def)
  from stream_budget [OF this, of 6 plain_displays] stream_budget [OF this, of 3 plain_displays] show ?thesis
    by (simp add: sample_stream_def sample_opened_def with_max_commands_def unlimited_def
        past_end_def window_contains_def selects_def sel_contains_def convert_selected_def
        remaining_changes_def remaining_error_def less_max_u64)
qed

end
