(* ===== verification/Metadata_Cache.thy ===== *)
theory Metadata_Cache
  imports Stream
begin

text \<open>
  The shared metadata cache of src/opened/mod.rs: concurrent callers of \<^verbatim>\<open>metadata\<close>,
  \<^verbatim>\<open>metadata_with_context\<close> and \<^verbatim>\<open>retry_metadata\<close> elect one builder per attempt and wait for its
  outcome.

  A caller is a thread state; what it does between taking and releasing the lock is one function
  on the cache state, and \<open>thread_step\<close> lets any caller take its next critical section.
  A wait on the condition variable releases the lock and may return at any moment, so a waiting
  caller is one that can look again. The outcome of a build and of a context check is arbitrary.

  Debug assertions are not part of the behaviour; the states in which one would fail are the
  subject of \<open>assertion_fails\<close>.
\<close>

record vcd_meta =
  vm_timescale :: "timescale option"
  vm_signal_count :: nat
  vm_start :: u64
  vm_end :: u64

subsection \<open>Cached errors\<close>

datatype cached_error =
    CeGenerationMismatch
  | CeIo io_kind string
  | CeMissingEndDefinitions
  | CeDuplicateSignal string
  | CeMissingSignals string
  | CeMissingSignal string
  | CeInvalidOccurrence
  | CeParse string
  | CeBuilderPanicked

fun capture :: "vcd_error \<Rightarrow> cached_error" where
  "capture (Io e) =
     (if is_generation_mismatch e then CeGenerationMismatch else CeIo (io_kind_of e) (io_message e))"
| "capture MissingEndDefinitions = CeMissingEndDefinitions"
| "capture (DuplicateSignal s) = CeDuplicateSignal s"
| "capture (MissingSignals s) = CeMissingSignals s"
| "capture (MissingSignal s) = CeMissingSignal s"
| "capture InvalidOccurrence = CeInvalidOccurrence"
| "capture (Parse m) = CeParse m"

fun to_error :: "cached_error \<Rightarrow> vcd_error" where
  "to_error CeGenerationMismatch = generation_mismatch_error"
| "to_error (CeIo k m) = Io (io_new k m)"
| "to_error CeMissingEndDefinitions = MissingEndDefinitions"
| "to_error (CeDuplicateSignal s) = DuplicateSignal s"
| "to_error (CeMissingSignals s) = MissingSignals s"
| "to_error (CeMissingSignal s) = MissingSignal s"
| "to_error CeInvalidOccurrence = InvalidOccurrence"
| "to_error (CeParse m) = Parse m"
| "to_error CeBuilderPanicked = Parse ''metadata builder panicked''"

subsection \<open>The cache state\<close>

datatype metadata_phase =
    Absent
  | Building u64 nat \<comment> \<open>attempt, waiters\<close>
  | Ready vcd_meta
  | Failed u64 cached_error nat \<comment> \<open>attempt, error, pending waiters\<close>

record metadata_state =
  ms_next_attempt :: u64
  ms_phase :: metadata_phase

definition new_cache :: metadata_state where
  "new_cache = \<lparr>ms_next_attempt = 1, ms_phase = Absent\<rparr>"

definition is_ready :: "metadata_state \<Rightarrow> bool" where
  "is_ready c \<longleftrightarrow> (case ms_phase c of Ready _ \<Rightarrow> True | _ \<Rightarrow> False)"

text \<open>
  The callers. \<open>PlainPoll\<close> and \<open>CtxPoll\<close> are about to look at the phase, with the attempt
  they are registered for; \<open>CtxDrop\<close> is about to give up its registration and return.
\<close>

datatype caller =
    PlainPoll "u64 option"
  | PlainBuild u64
  | PlainDone "vcd_error + vcd_meta"
  | CtxStart
  | CtxPoll "u64 option"
  | CtxBuild u64
  | CtxDrop u64 "query_error + vcd_meta"
  | CtxDone "query_error + vcd_meta"
  | RetryPoll
  | Panicked

definition elect :: "metadata_state \<Rightarrow> (u64 \<times> metadata_state) option" where
  "elect c =
     (let attempt = ms_next_attempt c in
      map_option (\<lambda>nxt. (attempt, c\<lparr>ms_next_attempt := nxt, ms_phase := Building attempt 0\<rparr>))
        (checked_add attempt 1))"

subsection \<open>\<^verbatim>\<open>get_or_build\<close>\<close>

definition plain_poll :: "metadata_state \<Rightarrow> u64 option \<Rightarrow> metadata_state \<times> caller" where
  "plain_poll c waiting =
     (case ms_phase c of
        Ready m \<Rightarrow> (c, PlainDone (Inr m))
      | Failed a e pending \<Rightarrow>
          (if waiting = Some a then c\<lparr>ms_phase := Failed a e (pending - 1)\<rparr> else c,
           PlainDone (Inl (to_error e)))
      | Building a waiters \<Rightarrow>
          (case waiting of
             Some expected \<Rightarrow> (c, PlainPoll (Some expected))
           | None \<Rightarrow> (c\<lparr>ms_phase := Building a (waiters + 1)\<rparr>, PlainPoll (Some a)))
      | Absent \<Rightarrow>
          (case elect c of
             None \<Rightarrow> (c, PlainDone (Inl (Parse ''metadata attempt identifier space exhausted'')))
           | Some (a, c') \<Rightarrow> (c', PlainBuild a)))"

text \<open>\<open>None\<close> is the panic of a builder that finds another attempt active.\<close>

definition active_waiters :: "metadata_state \<Rightarrow> u64 \<Rightarrow> nat option" where
  "active_waiters c attempt =
     (case ms_phase c of
        Building active waiters \<Rightarrow> if active = attempt then Some waiters else None
      | _ \<Rightarrow> None)"

definition plain_publish ::
    "metadata_state \<Rightarrow> u64 \<Rightarrow> vcd_error + vcd_meta \<Rightarrow> (metadata_state \<times> caller) option" where
  "plain_publish c attempt result =
     map_option (\<lambda>waiters.
       case result of
         Inr m \<Rightarrow> (c\<lparr>ms_phase := Ready m\<rparr>, PlainDone (Inr m))
       | Inl e \<Rightarrow> (c\<lparr>ms_phase := Failed attempt (capture e) waiters\<rparr>, PlainDone (Inl e)))
     (active_waiters c attempt)"

text \<open>The build guard of a builder that panics.\<close>

definition build_guard_drop :: "metadata_state \<Rightarrow> u64 \<Rightarrow> metadata_state" where
  "build_guard_drop c attempt =
     (case active_waiters c attempt of
        Some waiters \<Rightarrow> c\<lparr>ms_phase := Failed attempt CeBuilderPanicked waiters\<rparr>
      | None \<Rightarrow> c)"

subsection \<open>\<^verbatim>\<open>get_or_build_with_context\<close>\<close>

text \<open>\<^verbatim>\<open>MetadataWaiterRegistration::drop\<close>\<close>

definition registration_drop :: "metadata_state \<Rightarrow> u64 \<Rightarrow> metadata_state" where
  "registration_drop c attempt =
     (case ms_phase c of
        Building a waiters \<Rightarrow>
          if a = attempt then c\<lparr>ms_phase := Building a (waiters - 1)\<rparr> else c
      | Failed a e pending \<Rightarrow>
          if a = attempt then c\<lparr>ms_phase := Failed a e (pending - 1)\<rparr> else c
      | _ \<Rightarrow> c)"

text \<open>\<open>chk\<close> is what the context check of this critical section finds.\<close>

definition ctx_poll ::
    "metadata_state \<Rightarrow> u64 option \<Rightarrow> query_error + unit \<Rightarrow> metadata_state \<times> caller" where
  "ctx_poll c registration chk =
     (case ms_phase c of
        Ready m \<Rightarrow> (c, CtxDone (and_then chk (\<lambda>_. Inr m)))
      | Failed a e pending \<Rightarrow>
          (let result = and_then chk (\<lambda>_. Inl (query_error_of_vcd (to_error e))) in
           (c, case registration of Some r \<Rightarrow> CtxDrop r result | None \<Rightarrow> CtxDone result))
      | Building a waiters \<Rightarrow>
          (let c' = (if registration = Some a then c
                     else c\<lparr>ms_phase := Building a (waiters + 1)\<rparr>) in
           (c', case chk of Inl e \<Rightarrow> CtxDrop a (Inl e) | Inr _ \<Rightarrow> CtxPoll (Some a)))
      | Absent \<Rightarrow>
          (case chk of
             Inl e \<Rightarrow> (c, CtxDone (Inl e))
           | Inr _ \<Rightarrow>
               (case elect c of
                  None \<Rightarrow> (c, CtxDone (Inl (Internal ''metadata attempt identifier space exhausted'')))
                | Some (a, c') \<Rightarrow> (c', CtxBuild a))))"

text \<open>Which build errors are kept for the other callers; the rest end only this caller.\<close>

fun cacheable :: "query_error \<Rightarrow> vcd_error option" where
  "cacheable (StaleSource e) = Some e"
| "cacheable (Vcd e) = Some e"
| "cacheable (SourceUnavailable e) = Some (Io e)"
| "cacheable _ = None"

definition ctx_publish ::
    "metadata_state \<Rightarrow> u64 \<Rightarrow> query_error + vcd_meta \<Rightarrow> query_error + unit
      \<Rightarrow> (metadata_state \<times> caller) option" where
  "ctx_publish c attempt result chk =
     map_option (\<lambda>waiters.
       case result of
         Inr m \<Rightarrow> (c\<lparr>ms_phase := Ready m\<rparr>, CtxDone (and_then chk (\<lambda>_. Inr m)))
       | Inl e \<Rightarrow>
           (case cacheable e of
              Some ve \<Rightarrow>
                (c\<lparr>ms_phase := Failed attempt (capture ve) waiters\<rparr>,
                 CtxDone (and_then chk (\<lambda>_. Inl (query_error_of_vcd (to_error (capture ve))))))
            | None \<Rightarrow> (c\<lparr>ms_phase := Absent\<rparr>, CtxDone (Inl e))))
     (active_waiters c attempt)"

subsection \<open>\<^verbatim>\<open>retry_failed\<close>\<close>

definition retry_poll :: "metadata_state \<Rightarrow> metadata_state \<times> caller" where
  "retry_poll c =
     (case ms_phase c of
        Failed a e pending \<Rightarrow>
          if pending = 0 then (c\<lparr>ms_phase := Absent\<rparr>, PlainPoll None) else (c, RetryPoll)
      | _ \<Rightarrow> (c, PlainPoll None))"

subsection \<open>Interleaved callers\<close>

type_synonym cache_system = "metadata_state \<times> caller list"

inductive caller_step :: "metadata_state \<Rightarrow> caller \<Rightarrow> metadata_state \<Rightarrow> caller \<Rightarrow> bool" where
  step_plain_poll: "plain_poll c w = (c', t') \<Longrightarrow> caller_step c (PlainPoll w) c' t'"
| step_plain_publish: "plain_publish c a r = Some (c', t') \<Longrightarrow> caller_step c (PlainBuild a) c' t'"
| step_plain_panic: "caller_step c (PlainBuild a) (build_guard_drop c a) Panicked"
| step_ctx_start: "caller_step c CtxStart c
    (case (chk :: query_error + unit) of Inl e \<Rightarrow> CtxDone (Inl e) | Inr _ \<Rightarrow> CtxPoll None)"
| step_ctx_poll: "ctx_poll c r chk = (c', t') \<Longrightarrow> caller_step c (CtxPoll r) c' t'"
| step_ctx_drop: "caller_step c (CtxDrop a r) (registration_drop c a) (CtxDone r)"
| step_ctx_publish: "ctx_publish c a r chk = Some (c', t') \<Longrightarrow> caller_step c (CtxBuild a) c' t'"
| step_ctx_panic: "caller_step c (CtxBuild a) (build_guard_drop c a) Panicked"
| step_retry: "retry_poll c = (c', t') \<Longrightarrow> caller_step c RetryPoll c' t'"

inductive cache_step :: "cache_system \<Rightarrow> cache_system \<Rightarrow> bool" where
  cache_step: "i < length ts \<Longrightarrow> caller_step c (ts ! i) c' t' \<Longrightarrow> cache_step (c, ts) (c', ts[i := t'])"

definition fresh_caller :: "caller \<Rightarrow> bool" where
  "fresh_caller t \<longleftrightarrow> t = PlainPoll None \<or> t = CtxStart \<or> t = RetryPoll"

inductive cache_reachable :: "cache_system \<Rightarrow> bool" where
  reachable_init: "list_all fresh_caller ts \<Longrightarrow> cache_reachable (new_cache, ts)"
| reachable_step: "cache_reachable s \<Longrightarrow> cache_step s s' \<Longrightarrow> cache_reachable s'"
| reachable_call: "cache_reachable (c, ts) \<Longrightarrow> fresh_caller t \<Longrightarrow> cache_reachable (c, ts @ [t])"

inductive_cases cache_stepE: "cache_step (c, ts) (c', ts')"
inductive_cases caller_stepE: "caller_step c t c' t'"

subsection \<open>The invariant\<close>

fun registered_for :: "caller \<Rightarrow> u64 option" where
  "registered_for (PlainPoll w) = w"
| "registered_for (CtxPoll r) = r"
| "registered_for (CtxDrop a _) = Some a"
| "registered_for _ = None"

fun builds_attempt :: "caller \<Rightarrow> u64 option" where
  "builds_attempt (PlainBuild a) = Some a"
| "builds_attempt (CtxBuild a) = Some a"
| "builds_attempt _ = None"

fun success_of :: "caller \<Rightarrow> vcd_meta option" where
  "success_of (PlainDone (Inr m)) = Some m"
| "success_of (CtxDone (Inr m)) = Some m"
| "success_of (CtxDrop _ (Inr m)) = Some m"
| "success_of _ = None"

definition waiting_callers :: "caller list \<Rightarrow> u64 \<Rightarrow> nat" where
  "waiting_callers ts a = length (filter (\<lambda>t. registered_for t = Some a) ts)"

definition builder_count :: "caller list \<Rightarrow> nat" where
  "builder_count ts = length (filter (\<lambda>t. builds_attempt t \<noteq> None) ts)"

definition phase_attempt :: "metadata_phase \<Rightarrow> u64 option" where
  "phase_attempt p = (case p of Building a _ \<Rightarrow> Some a | Failed a _ _ \<Rightarrow> Some a | _ \<Rightarrow> None)"

definition phase_builder :: "metadata_phase \<Rightarrow> u64 option" where
  "phase_builder p = (case p of Building a _ \<Rightarrow> Some a | _ \<Rightarrow> None)"

definition phase_waiters :: "metadata_phase \<Rightarrow> nat" where
  "phase_waiters p = (case p of Building _ w \<Rightarrow> w | Failed _ _ w \<Rightarrow> w | _ \<Rightarrow> 0)"

definition cache_inv :: "cache_system \<Rightarrow> bool" where
  "cache_inv s \<longleftrightarrow> (case s of (c, ts) \<Rightarrow>
     builder_count ts = (if phase_builder (ms_phase c) = None then 0 else 1) \<and>
     (\<forall>t \<in> set ts. builds_attempt t \<noteq> None \<longrightarrow> builds_attempt t = phase_builder (ms_phase c)) \<and>
     (\<forall>a. phase_attempt (ms_phase c) = Some a \<longrightarrow>
        a < ms_next_attempt c \<and> phase_waiters (ms_phase c) = waiting_callers ts a) \<and>
     (\<forall>t \<in> set ts. \<forall>a. registered_for t = Some a \<longrightarrow> a < ms_next_attempt c) \<and>
     (\<forall>t \<in> set ts. \<forall>m. success_of t = Some m \<longrightarrow> ms_phase c = Ready m))"

lemma filter_update:
  "i < length ts \<Longrightarrow>
     length (filter P (ts[i := t'])) + (if P (ts ! i) then 1 else 0) =
     length (filter P ts) + (if P t' then 1 else 0)"
proof (induction ts arbitrary: i)
  case (Cons x xs)
  then show ?case
  proof (cases i)
    case (Suc j)
    with Cons show ?thesis using Cons.IH [of j] by simp
  qed simp
qed simp

lemma waiting_update:
  "i < length ts \<Longrightarrow>
     waiting_callers (ts[i := t']) a + (if registered_for (ts ! i) = Some a then 1 else 0) =
     waiting_callers ts a + (if registered_for t' = Some a then 1 else 0)"
  unfolding waiting_callers_def by (rule filter_update)

lemma builder_update:
  "i < length ts \<Longrightarrow>
     builder_count (ts[i := t']) + (if builds_attempt (ts ! i) \<noteq> None then 1 else 0) =
     builder_count ts + (if builds_attempt t' \<noteq> None then 1 else 0)"
  unfolding builder_count_def by (rule filter_update)

lemma waiting_pos: "i < length ts \<Longrightarrow> registered_for (ts ! i) = Some a \<Longrightarrow> 0 < waiting_callers ts a"
  unfolding waiting_callers_def by (auto simp: filter_empty_conv)

lemma no_waiting: "(\<And>t. t \<in> set ts \<Longrightarrow> registered_for t \<noteq> Some a) \<Longrightarrow> waiting_callers ts a = 0"
  unfolding waiting_callers_def by (auto simp: filter_empty_conv)

lemma elect_Some:
  "elect c = Some (a, c') \<longleftrightarrow> a = ms_next_attempt c \<and> unat a + 1 < 2 ^ 64 \<and>
     c' = c\<lparr>ms_next_attempt := a + 1, ms_phase := Building a 0\<rparr>"
  by (auto simp: elect_def checked_add_def Let_def)

lemma next_larger: "unat (a :: u64) + 1 < 2 ^ 64 \<Longrightarrow> b \<le> a \<Longrightarrow> b < a + 1"
  using unat_add_no_overflow [of a 1] by (simp add: word_less_nat_alt word_le_nat_alt)

text \<open>
  What a step of one caller must respect for the invariant to hold afterwards: the change of the
  waiter count matches the caller's change of registration, builders stay unique, registrations
  refer to attempts already handed out, and a success is published.
\<close>

definition local_ok :: "metadata_state \<Rightarrow> caller \<Rightarrow> metadata_state \<Rightarrow> caller \<Rightarrow> bool" where
  "local_ok c t c' t' \<longleftrightarrow>
     ms_next_attempt c \<le> ms_next_attempt c' \<and>
     (builds_attempt t \<noteq> None \<longrightarrow> builds_attempt t' = None \<and> phase_builder (ms_phase c') = None) \<and>
     (builds_attempt t = None \<longrightarrow>
        (if builds_attempt t' = None then phase_builder (ms_phase c') = phase_builder (ms_phase c)
         else phase_builder (ms_phase c) = None \<and> phase_builder (ms_phase c') = builds_attempt t')) \<and>
     (\<forall>a. phase_attempt (ms_phase c') = Some a \<longrightarrow>
        a < ms_next_attempt c' \<and>
        (if phase_attempt (ms_phase c) = Some a
         then phase_waiters (ms_phase c') + (if registered_for t = Some a then 1 else 0) =
              phase_waiters (ms_phase c) + (if registered_for t' = Some a then 1 else 0)
         else a = ms_next_attempt c \<and> phase_waiters (ms_phase c') = 0 \<and> registered_for t' \<noteq> Some a)) \<and>
     (\<forall>a. registered_for t' = Some a \<longrightarrow> a < ms_next_attempt c') \<and>
     (\<forall>m. success_of t' = Some m \<longrightarrow> ms_phase c' = Ready m) \<and>
     (\<forall>m. ms_phase c = Ready m \<longrightarrow> ms_phase c' = Ready m)"

lemma local_ok_inv:
  assumes inv: "cache_inv (c, ts)" and i: "i < length ts" and ok: "local_ok c (ts ! i) c' t'"
  shows "cache_inv (c', ts[i := t'])"
proof -
  have mem: "t = t' \<or> t \<in> set ts" if "t \<in> set (ts[i := t'])" for t
    using that set_update_subset_insert [of ts i t'] by auto
  note upd = waiting_update [OF i, of t'] builder_update [OF i, of t']
  have old: "ts ! i \<in> set ts" using i by simp
  have count: "builder_count (ts[i := t']) = (if phase_builder (ms_phase c') = None then 0 else 1)"
    using inv ok upd(2) old by (auto simp: cache_inv_def local_ok_def split: if_splits)
  have same: "builds_attempt t = phase_builder (ms_phase c')"
    if t: "t \<in> set (ts[i := t'])" and b: "builds_attempt t \<noteq> None" for t
  proof -
    have "builder_count (ts[i := t']) \<noteq> 0"
      using t b unfolding builder_count_def by (auto simp: filter_empty_conv)
    then have pb: "phase_builder (ms_phase c') \<noteq> None" using count by (auto split: if_splits)
    show ?thesis
    proof (cases "t = t'")
      case True
      with pb b ok show ?thesis by (auto simp: local_ok_def split: if_splits)
    next
      case False
      then have "t \<in> set ts" using mem t by blast
      then have "builds_attempt t = phase_builder (ms_phase c)"
        using inv b by (auto simp: cache_inv_def)
      with pb b ok show ?thesis by (auto simp: local_ok_def split: if_splits)
    qed
  qed
  have att: "a < ms_next_attempt c' \<and> phase_waiters (ms_phase c') = waiting_callers (ts[i := t']) a"
    if a: "phase_attempt (ms_phase c') = Some a" for a
  proof (cases "phase_attempt (ms_phase c) = Some a")
    case True
    then have "phase_waiters (ms_phase c) = waiting_callers ts a" using inv by (auto simp: cache_inv_def)
    moreover have "a < ms_next_attempt c'" and
      "phase_waiters (ms_phase c') + (if registered_for (ts ! i) = Some a then 1 else 0) =
       phase_waiters (ms_phase c) + (if registered_for t' = Some a then 1 else 0)"
      using ok a True unfolding local_ok_def by auto
    ultimately show ?thesis using upd(1) [of a] by linarith
  next
    case False
    then have new: "a < ms_next_attempt c'" "a = ms_next_attempt c" "phase_waiters (ms_phase c') = 0"
      "registered_for t' \<noteq> Some a"
      using ok a unfolding local_ok_def by auto
    have "registered_for t \<noteq> Some a" if "t \<in> set (ts[i := t'])" for t
      using mem [OF that] new inv by (auto simp: cache_inv_def)
    from no_waiting [OF this] new show ?thesis by simp
  qed
  have reg: "a < ms_next_attempt c'" if "t \<in> set (ts[i := t'])" "registered_for t = Some a" for t a
    using mem [OF that(1)] that(2) inv ok by (auto simp: cache_inv_def local_ok_def)
  have succ: "ms_phase c' = Ready m" if "t \<in> set (ts[i := t'])" "success_of t = Some m" for t m
    using mem [OF that(1)] that(2) inv ok by (auto simp: cache_inv_def local_ok_def)
  show ?thesis using count same att reg succ by (simp add: cache_inv_def)
qed

lemma and_then_Inl [simp]: "and_then chk (\<lambda>_. Inl e) \<noteq> Inr m"
  by (cases chk) auto

lemma success_of_Ctx [simp]:
  "success_of (CtxDone r) = Some m \<longleftrightarrow> r = Inr m" "success_of (CtxDrop a r) = Some m \<longleftrightarrow> r = Inr m"
  "success_of (PlainDone p) = Some m \<longleftrightarrow> p = Inr m"
  by (cases r; simp; fail | cases p; simp)+

lemmas cache_defs = local_ok_def phase_attempt_def phase_builder_def phase_waiters_def

lemma elect_local:
  assumes "elect c = Some (a, c')" and "ms_phase c = Absent"
    and "builds_attempt t = None" and "builds_attempt t' = Some a"
    and "registered_for t' = None" and "success_of t' = None"
  shows "local_ok c t c' t'"
  using assms next_larger [of "ms_next_attempt c"]
  by (auto simp: cache_defs elect_Some less_imp_le)

lemma unchanged_local:
  assumes "builds_attempt t = None" and "builds_attempt t' = None"
    and "registered_for t' = registered_for t"
    and "\<And>a. registered_for t = Some a \<Longrightarrow> a < ms_next_attempt c"
    and "\<And>a. phase_attempt (ms_phase c) = Some a \<Longrightarrow> a < ms_next_attempt c"
    and "\<And>m. success_of t' = Some m \<Longrightarrow> ms_phase c = Ready m"
  shows "local_ok c t c t'"
  using assms by (auto simp: local_ok_def)

lemma caller_step_local:
  assumes step: "caller_step c t c' t'" and inv: "cache_inv (c, ts)"
    and i: "i < length ts" and t: "ts ! i = t"
  shows "local_ok c t c' t'"
proof -
  have mem: "t \<in> set ts" using i t by auto
  have reg: "a < ms_next_attempt c" if "registered_for t = Some a" for a
    using inv mem that by (auto simp: cache_inv_def)
  have att: "a < ms_next_attempt c" if "phase_attempt (ms_phase c) = Some a" for a
    using inv that by (auto simp: cache_inv_def)
  have pos: "0 < phase_waiters (ms_phase c)"
    if "registered_for t = Some a" "phase_attempt (ms_phase c) = Some a" for a
    using inv that waiting_pos [OF i, of a] t by (auto simp: cache_inv_def)
  have building: "phase_builder (ms_phase c) = Some a" if "builds_attempt t = Some a" for a
    using inv mem that by (auto simp: cache_inv_def)
  from step show ?thesis
  proof cases
    case (step_plain_poll w)
    show ?thesis
    proof (cases "ms_phase c")
      case Absent
      show ?thesis
      proof (cases "elect c")
        case None
        with step_plain_poll Absent show ?thesis by (auto simp: plain_poll_def cache_defs)
      next
        case (Some p)
        obtain a d where p: "p = (a, d)" by (cases p)
        with step_plain_poll Absent Some have "c' = d" "t' = PlainBuild a"
          by (auto simp: plain_poll_def)
        with step_plain_poll Absent Some p show ?thesis by (intro elect_local) auto
      qed
    next
      case (Building a k)
      with step_plain_poll reg att show ?thesis
        by (auto simp: plain_poll_def cache_defs split: option.splits)
    next
      case (Failed a e k)
      with step_plain_poll reg att pos [of a] show ?thesis
        by (auto simp: plain_poll_def cache_defs split: if_splits)
    qed (use step_plain_poll in \<open>auto simp: plain_poll_def cache_defs\<close>)
  next
    case (step_plain_publish a r)
    with building att show ?thesis
      by (cases "ms_phase c") (auto simp: plain_publish_def active_waiters_def cache_defs split: sum.splits)
  next
    case (step_plain_panic a)
    with building att show ?thesis
      by (cases "ms_phase c") (auto simp: build_guard_drop_def active_waiters_def cache_defs)
  next
    case (step_ctx_start chk)
    with att show ?thesis by (auto intro!: unchanged_local split: sum.splits)
  next
    case (step_ctx_poll r chk)
    show ?thesis
    proof (cases "ms_phase c")
      case Absent
      show ?thesis
      proof (cases chk)
        case (Inl e)
        with step_ctx_poll Absent show ?thesis by (auto simp: ctx_poll_def cache_defs)
      next
        case (Inr u)
        show ?thesis
        proof (cases "elect c")
          case None
          with step_ctx_poll Absent Inr show ?thesis by (auto simp: ctx_poll_def cache_defs)
        next
          case (Some p)
          obtain a d where p: "p = (a, d)" by (cases p)
          with step_ctx_poll Absent Inr Some have "c' = d" "t' = CtxBuild a"
            by (auto simp: ctx_poll_def)
          with step_ctx_poll Absent Some p show ?thesis by (intro elect_local) auto
        qed
      qed
    next
      case (Building a k)
      with step_ctx_poll reg att show ?thesis
        by (cases "r = Some a") (auto simp: ctx_poll_def cache_defs Let_def split: sum.splits)
    next
      case (Failed a e k)
      with step_ctx_poll reg att show ?thesis
        by (cases r) (auto simp: ctx_poll_def Let_def intro!: unchanged_local)
    qed (use step_ctx_poll in \<open>auto simp: ctx_poll_def cache_defs and_then_eq_Inr\<close>)
  next
    case (step_ctx_drop a r)
    have "success_of t = Some m \<Longrightarrow> ms_phase c = Ready m" for m
      using inv mem by (auto simp: cache_inv_def)
    with step_ctx_drop reg att pos [of a] show ?thesis
      by (cases "ms_phase c") (auto simp: registration_drop_def cache_defs)
  next
    case (step_ctx_publish a r chk)
    with building att show ?thesis
      by (cases "ms_phase c")
        (auto simp: ctx_publish_def active_waiters_def cache_defs and_then_eq_Inr
          split: sum.splits option.splits)
  next
    case (step_ctx_panic a)
    with building att show ?thesis
      by (cases "ms_phase c") (auto simp: build_guard_drop_def active_waiters_def cache_defs)
  next
    case step_retry
    with att show ?thesis
      by (cases "ms_phase c") (auto simp: retry_poll_def cache_defs split: if_splits)
  qed
qed

lemma cache_inv_init: "list_all fresh_caller ts \<Longrightarrow> cache_inv (new_cache, ts)"
  by (auto simp: cache_inv_def new_cache_def phase_attempt_def phase_builder_def builder_count_def
      fresh_caller_def list_all_iff filter_empty_conv)

lemma cache_inv_call: "cache_inv (c, ts) \<Longrightarrow> fresh_caller t \<Longrightarrow> cache_inv (c, ts @ [t])"
  by (auto simp: cache_inv_def fresh_caller_def builder_count_def waiting_callers_def)

lemma reachable_inv: "cache_reachable s \<Longrightarrow> cache_inv s"
proof (induction rule: cache_reachable.induct)
  case (reachable_step s s')
  from reachable_step(2) show ?case
  proof cases
    case (cache_step i ts c c' t')
    with reachable_step(3) show ?thesis
      using local_ok_inv [OF _ cache_step(3) caller_step_local [OF cache_step(4) _ cache_step(3) refl]]
      by simp
  qed
qed (auto intro: cache_inv_init cache_inv_call)


subsection \<open>What the invariant gives\<close>

lemma cache_step_callers: "cache_step (c, ts) (c', ts') \<Longrightarrow> length ts' = length ts"
  by (auto elim: cache_stepE)

lemma ready_step:
  assumes "cache_reachable (c, ts)" and "ms_phase c = Ready m" and "cache_step (c, ts) (c', ts')"
  shows "ms_phase c' = Ready m"
proof -
  from assms(3) obtain i t' where i: "i < length ts" "caller_step c (ts ! i) c' t'"
    by (auto elim: cache_stepE)
  from caller_step_local [OF this(2) reachable_inv [OF assms(1)] this(1) refl] assms(2)
  show ?thesis by (auto simp: local_ok_def)
qed

lemma reachable_steps: "cache_step\<^sup>*\<^sup>* s s' \<Longrightarrow> cache_reachable s \<Longrightarrow> cache_reachable s'"
  by (induction rule: rtranclp_induct) (auto intro: reachable_step)

lemma success_ready:
  "cache_reachable (c, ts) \<Longrightarrow> t \<in> set ts \<Longrightarrow> success_of t = Some m \<Longrightarrow> ms_phase c = Ready m"
  by (drule reachable_inv) (auto simp: cache_inv_def)

lemma ready_steps:
  assumes steps: "cache_step\<^sup>*\<^sup>* s s'" and "cache_reachable s" and "ms_phase (fst s) = Ready m"
  shows "ms_phase (fst s') = Ready m"
  using steps
proof (induction rule: rtranclp_induct)
  case (step y z)
  then show ?case
    using ready_step [of "fst y" "snd y" m "fst z" "snd z"] reachable_steps [OF step(1) assms(2)] by simp
qed (rule assms(3))

lemma failed_step:
  assumes step: "caller_step c t c' t'" and failed: "ms_phase c = Failed a e k" and "0 < k"
    and "builds_attempt t = None"
  shows "\<exists>k'. ms_phase c' = Failed a e k'"
  using step assms(2-)
  by cases (auto simp: plain_poll_def ctx_poll_def registration_drop_def retry_poll_def Let_def
      split: if_splits)

text \<open>A caller still waiting for, or already told of, the failure \<open>e\<close> of attempt \<open>a\<close>.\<close>

definition told :: "u64 \<Rightarrow> cached_error \<Rightarrow> nat \<Rightarrow> cache_system \<Rightarrow> bool" where
  "told a e i s \<longleftrightarrow> i < length (snd s) \<and>
     (snd s ! i = PlainDone (Inl (to_error e)) \<or>
      snd s ! i = PlainPoll (Some a) \<and> (\<exists>k. ms_phase (fst s) = Failed a e k))"

lemma told_step:
  assumes told: "told a e i (c, ts)" and reach: "cache_reachable (c, ts)"
    and step: "cache_step (c, ts) (c', ts')"
  shows "told a e i (c', ts')"
proof -
  from step obtain j t' where j: "j < length ts" "caller_step c (ts ! j) c' t'" "ts' = ts[j := t']"
    by (auto elim: cache_stepE)
  have i: "i < length ts" using told by (simp add: told_def)
  show ?thesis
  proof (cases "ts ! i = PlainDone (Inl (to_error e))")
    case True
    have "i \<noteq> j" using j(2) True by (auto elim: caller_stepE)
    with True i j(3) show ?thesis by (simp add: told_def)
  next
    case False
    with told obtain k where w: "ts ! i = PlainPoll (Some a)" and k: "ms_phase c = Failed a e k"
      by (auto simp: told_def)
    have inv: "cache_inv (c, ts)" using reach by (rule reachable_inv)
    have pos: "0 < k" using inv waiting_pos [OF i, of a] w k
      by (auto simp: cache_inv_def phase_attempt_def phase_waiters_def)
    have idle: "builds_attempt (ts ! j) = None"
      using inv k nth_mem [OF j(1)] by (auto simp: cache_inv_def phase_builder_def)
    show ?thesis
    proof (cases "i = j")
      case True
      with w j(2) k have "t' = PlainDone (Inl (to_error e))"
        by (auto elim!: caller_stepE simp: plain_poll_def)
      with True j(1,3) show ?thesis by (simp add: told_def)
    next
      case False
      with failed_step [OF j(2) k pos idle] i w j(3) show ?thesis by (auto simp: told_def)
    qed
  qed
qed

lemma told_steps:
  assumes steps: "cache_step\<^sup>*\<^sup>* s s'" and "cache_reachable s" and "told a e i s"
  shows "told a e i s'"
  using steps
proof (induction rule: rtranclp_induct)
  case (step y z)
  then show ?case
    using told_step [of a e i "fst y" "snd y" "fst z" "snd z"] reachable_steps [OF step(1) assms(2)]
    by simp
qed (rule assms(3))

subsection \<open>The debug assertions\<close>

text \<open>Whether the next critical section of a caller would fail one of its debug assertions.\<close>

definition assertion_fails :: "metadata_state \<Rightarrow> caller \<Rightarrow> bool" where
  "assertion_fails c t \<longleftrightarrow>
     (case t of
        PlainPoll (Some x) \<Rightarrow>
          (case ms_phase c of
             Ready _ \<Rightarrow> False
           | Failed a _ pending \<Rightarrow> a = x \<and> pending = 0
           | Building a _ \<Rightarrow> x \<noteq> a
           | Absent \<Rightarrow> True)
      | CtxPoll (Some x) \<Rightarrow> (case ms_phase c of Failed a _ _ \<Rightarrow> x \<noteq> a | _ \<Rightarrow> False)
      | CtxDrop x _ \<Rightarrow>
          (case ms_phase c of
             Building a waiters \<Rightarrow> a = x \<and> waiters = 0
           | Failed a _ pending \<Rightarrow> a = x \<and> pending = 0
           | _ \<Rightarrow> False)
      | _ \<Rightarrow> False)"

fun plain_caller :: "caller \<Rightarrow> bool" where
  "plain_caller (PlainPoll _) = True"
| "plain_caller (PlainBuild _) = True"
| "plain_caller (PlainDone _) = True"
| "plain_caller RetryPoll = True"
| "plain_caller Panicked = True"
| "plain_caller _ = False"

text \<open>Without context callers a registered caller always sees its own attempt, or \<open>Ready\<close>.\<close>

definition plain_inv :: "cache_system \<Rightarrow> bool" where
  "plain_inv s \<longleftrightarrow> (case s of (c, ts) \<Rightarrow>
     (\<forall>t \<in> set ts. plain_caller t) \<and>
     (\<forall>t \<in> set ts. \<forall>a. registered_for t = Some a \<longrightarrow>
        phase_attempt (ms_phase c) = Some a \<or> (\<exists>m. ms_phase c = Ready m)))"

lemma plain_local:
  assumes "caller_step c t c' t'" and "plain_caller t"
    and "\<And>a. builds_attempt t = Some a \<Longrightarrow> phase_builder (ms_phase c) = Some a"
    and "\<And>a. registered_for t = Some a \<Longrightarrow> phase_attempt (ms_phase c) = Some a \<or> (\<exists>m. ms_phase c = Ready m)"
  shows "plain_caller t' \<and> (\<forall>a. registered_for t' = Some a \<longrightarrow>
     phase_attempt (ms_phase c') = Some a \<or> (\<exists>m. ms_phase c' = Ready m))"
  using assms
proof cases
  case (step_plain_poll w)
  with assms(4) show ?thesis
    by (cases "ms_phase c"; cases w; cases "elect c") (auto simp: plain_poll_def phase_attempt_def)
next
  case (step_plain_publish a r)
  then show ?thesis by (cases r) (auto simp: plain_publish_def)
qed (auto simp: retry_poll_def split: metadata_phase.splits if_splits)

lemma plain_others:
  assumes step: "caller_step c t c' t'" and "plain_caller t" and inv: "cache_inv (c, ts)"
    and mem: "t \<in> set ts" "u \<in> set ts" and reg: "registered_for u = Some a"
    and now: "phase_attempt (ms_phase c) = Some a \<or> (\<exists>m. ms_phase c = Ready m)"
  shows "phase_attempt (ms_phase c') = Some a \<or> (\<exists>m. ms_phase c' = Ready m)"
proof -
  have pos: "k \<noteq> 0" if "ms_phase c = Failed a e k" for e k
  proof -
    have "0 < waiting_callers ts a" using mem(2) reg
      unfolding waiting_callers_def by (auto simp: filter_empty_conv)
    with inv that show ?thesis by (auto simp: cache_inv_def phase_attempt_def phase_waiters_def)
  qed
  have building: "phase_builder (ms_phase c) = Some b" if "builds_attempt t = Some b" for b
    using inv mem(1) that by (auto simp: cache_inv_def)
  from step \<open>plain_caller t\<close> show ?thesis
  proof cases
    case (step_plain_poll w)
    with now show ?thesis
      by (cases "ms_phase c") (auto simp: plain_poll_def phase_attempt_def split: option.splits)
  next
    case (step_plain_publish b r)
    with now building show ?thesis
      by (cases "ms_phase c"; cases r)
        (auto simp: plain_publish_def active_waiters_def phase_attempt_def phase_builder_def)
  next
    case (step_plain_panic b)
    with now building show ?thesis
      by (cases "ms_phase c") (auto simp: build_guard_drop_def active_waiters_def phase_attempt_def phase_builder_def)
  next
    case step_retry
    with now pos show ?thesis
      by (cases "ms_phase c") (auto simp: retry_poll_def phase_attempt_def split: if_splits)
  qed auto
qed

lemma plain_inv_step:
  assumes plain: "plain_inv (c, ts)" and inv: "cache_inv (c, ts)" and step: "cache_step (c, ts) (c', ts')"
  shows "plain_inv (c', ts')"
proof -
  from step obtain i t' where i: "i < length ts" "caller_step c (ts ! i) c' t'" "ts' = ts[i := t']"
    by (auto elim: cache_stepE)
  have mem: "ts ! i \<in> set ts" using i(1) by simp
  have b: "phase_builder (ms_phase c) = Some a" if "builds_attempt (ts ! i) = Some a" for a
    using inv mem that by (auto simp: cache_inv_def)
  have p: "plain_caller (ts ! i)" using plain mem by (simp add: plain_inv_def)
  have r: "phase_attempt (ms_phase c) = Some a \<or> (\<exists>m. ms_phase c = Ready m)"
    if "u \<in> set ts" "registered_for u = Some a" for u a
    using plain that by (auto simp: plain_inv_def)
  from plain_local [OF i(2) p b r [OF mem]]
  have new: "plain_caller t'" "\<forall>a. registered_for t' = Some a \<longrightarrow>
     phase_attempt (ms_phase c') = Some a \<or> (\<exists>m. ms_phase c' = Ready m)" by auto
  have "u = t' \<or> u \<in> set ts" if "u \<in> set ts'" for u
    using that i(3) set_update_subset_insert [of ts i t'] by auto
  with new plain plain_others [OF i(2) p inv mem] r show ?thesis
    unfolding plain_inv_def by (simp del: split_paired_All) blast
qed

lemma plain_inv_steps:
  assumes "cache_step\<^sup>*\<^sup>* s s'" and "cache_reachable s" and "plain_inv s"
  shows "plain_inv s'"
  using assms
proof (induction rule: rtranclp_induct)
  case (step y z)
  then show ?case
    using plain_inv_step [of "fst y" "snd y" "fst z" "snd z"]
      reachable_inv [OF reachable_steps [OF step(1)]] by simp
qed


subsection \<open>Computing the metadata\<close>

text \<open>The scan: the current time, the first and the last time noted.\<close>

fun note_command :: "u64 \<times> u64 option \<times> u64 option \<Rightarrow> command \<Rightarrow> u64 \<times> u64 option \<times> u64 option" where
  "note_command (cur, st, en) (Timestamp t) = (t, Some (case st of Some s \<Rightarrow> s | None \<Rightarrow> t), Some t)"
| "note_command (cur, st, en) OtherCommand = (cur, st, en)"
| "note_command (cur, st, en) _ = (cur, Some (case st of Some s \<Rightarrow> s | None \<Rightarrow> cur), Some cur)"

definition bounds_of :: "u64 \<times> u64 option \<times> u64 option \<Rightarrow> u64 \<times> u64" where
  "bounds_of s = (case s of (_, st, en) \<Rightarrow>
     let start = (case st of Some x \<Rightarrow> x | None \<Rightarrow> 0) in
     (start, case en of Some x \<Rightarrow> x | None \<Rightarrow> start))"

fun compute_time_bounds ::
    "u64 \<times> u64 option \<times> u64 option \<Rightarrow> (io_error + command) list \<Rightarrow> vcd_error + u64 \<times> u64" where
  "compute_time_bounds s [] = Inr (bounds_of s)"
| "compute_time_bounds s (Inl e # rest) = Inl (Io e)"
| "compute_time_bounds s (Inr cmd # rest) = compute_time_bounds (note_command s cmd) rest"

definition compute_metadata ::
    "environment \<Rightarrow> timescale option \<Rightarrow> opened_vcd \<Rightarrow> nat \<Rightarrow> vcd_error + vcd_meta" where
  "compute_metadata env scale ov n =
     and_then (body_parser env ov n) (\<lambda>parser.
     and_then (compute_time_bounds (0, None, None) parser) (\<lambda>(start, stop).
     and_then (env_source env (n + 1)) (\<lambda>_.
       Inr \<lparr>vm_timescale = scale, vm_signal_count = catalog_len (ov_catalog ov),
            vm_start = start, vm_end = stop\<rparr>)))"

text \<open>
  The scan under a context. Each command owns one observation of the environment; \<open>commands\<close>
  is the saturating count of the commands read.
\<close>

fun metadata_scan ::
    "environment \<Rightarrow> query_limits \<Rightarrow> nat \<Rightarrow> u64 \<Rightarrow> u64 \<times> u64 option \<times> u64 option
      \<Rightarrow> (io_error + command) list \<Rightarrow> query_error + (u64 \<times> u64 option \<times> u64 option) \<times> nat" where
  "metadata_scan env q n commands s [] = Inr (s, n)"
| "metadata_scan env q n commands s (r # rest) =
     (let commands' = saturating_add commands 1 in
      and_then
        (case max_commands q of
           Some limit \<Rightarrow>
             if commands' > limit then Inl (LimitExceeded Commands limit commands') else Inr ()
         | None \<Rightarrow> Inr ()) (\<lambda>_.
      and_then (map_err (\<lambda>e. query_error_of_vcd (Io e)) r) (\<lambda>cmd.
      and_then
        (if commands' mod command_check_interval = 0 \<or> is_timestamp (Inr cmd)
         then check env q n else Inr ()) (\<lambda>_.
        metadata_scan env q (Suc n) commands' (note_command s cmd) rest))))"

definition compute_metadata_with_context ::
    "environment \<Rightarrow> query_limits \<Rightarrow> timescale option \<Rightarrow> opened_vcd \<Rightarrow> nat
      \<Rightarrow> query_error + vcd_meta" where
  "compute_metadata_with_context env q scale ov n =
     and_then (check env q n) (\<lambda>_.
     and_then (map_err query_error_of_vcd (body_parser env ov (n + 1))) (\<lambda>parser.
     and_then (metadata_scan env q (n + 2) 0 (0, None, None) parser) (\<lambda>(s, n').
     and_then (completion env q n') (\<lambda>_.
       case bounds_of s of (start, stop) \<Rightarrow>
         Inr \<lparr>vm_timescale = scale, vm_signal_count = catalog_len (ov_catalog ov),
              vm_start = start, vm_end = stop\<rparr>))))"

text \<open>Specification: the times a body notes, each change at the time it happens.\<close>

fun noted_times :: "u64 \<Rightarrow> command list \<Rightarrow> u64 list" where
  "noted_times cur [] = []"
| "noted_times cur (Timestamp t # cmds) = t # noted_times t cmds"
| "noted_times cur (OtherCommand # cmds) = noted_times cur cmds"
| "noted_times cur (cmd # cmds) = cur # noted_times cur cmds"

definition first_error :: "(io_error + command) list \<Rightarrow> io_error option" where
  "first_error body = (case filter (\<lambda>r. case r of Inl _ \<Rightarrow> True | Inr _ \<Rightarrow> False) body of
     Inl e # _ \<Rightarrow> Some e | _ \<Rightarrow> None)"

definition body_commands :: "(io_error + command) list \<Rightarrow> command list" where
  "body_commands body = concat (map (\<lambda>r. case r of Inl _ \<Rightarrow> [] | Inr c \<Rightarrow> [c]) body)"

lemma first_error_simps [simp]:
  "first_error [] = None" "first_error (Inl e # body) = Some e" "first_error (Inr c # body) = first_error body"
  by (simp_all add: first_error_def)

lemma body_commands_simps [simp]:
  "body_commands [] = []" "body_commands (Inr c # body) = c # body_commands body"
  by (simp_all add: body_commands_def)

definition noted_state :: "u64 list \<Rightarrow> u64 option \<times> u64 option" where
  "noted_state ts = (if ts = [] then (None, None) else (Some (hd ts), Some (last ts)))"

lemma note_command_state:
  "snd s = noted_state ts \<Longrightarrow>
     snd (note_command s cmd) = noted_state (ts @ noted_times (fst s) [cmd])"
  by (cases s; cases cmd) (auto simp: noted_state_def split: if_splits)

lemma noted_times_Cons:
  "noted_times (fst s) (cmd # cmds) = noted_times (fst s) [cmd] @ noted_times (fst (note_command s cmd)) cmds"
  by (cases s; cases cmd) auto

lemma bounds_of_noted: "snd s = noted_state ts \<Longrightarrow>
     bounds_of s = (if ts = [] then (0, 0) else (hd ts, last ts))"
  by (cases s) (auto simp: bounds_of_def noted_state_def Let_def split: if_splits)

lemma compute_time_bounds_correct:
  "snd s = noted_state ts \<Longrightarrow>
     compute_time_bounds s body =
       (case first_error body of
          Some e \<Rightarrow> Inl (Io e)
        | None \<Rightarrow> let all = ts @ noted_times (fst s) (body_commands body) in
            Inr (if all = [] then (0, 0) else (hd all, last all)))"
proof (induction s body arbitrary: ts rule: compute_time_bounds.induct)
  case (1 s)
  then show ?case by (simp add: bounds_of_noted)
next
  case (3 s cmd rest)
  show ?case
    by (simp only: 3(1) [OF note_command_state [OF 3(2)]] compute_time_bounds.simps
        first_error_simps body_commands_simps noted_times_Cons [of s cmd "body_commands rest"] append_assoc)
qed simp

lemma metadata_scan_quiet:
  assumes q: "quiet env q" and l: "\<And>l. max_commands q = Some l \<Longrightarrow> unat commands + length body \<le> unat l"
  shows "and_then (metadata_scan env q n commands s body) (\<lambda>(s', n'). Inr (bounds_of s')) =
     map_err query_error_of_vcd (compute_time_bounds s body)"
  using l
proof (induction body arbitrary: n commands s)
  case (Cons r rest)
  have within: "\<not> saturating_add commands 1 > l" if "max_commands q = Some l" for l
    using Cons.prems [OF that] unat_saturating_add [of commands 1] by (simp add: word_less_nat_alt)
  have rest: "unat (saturating_add commands 1) + length rest \<le> unat l" if "max_commands q = Some l" for l
    using Cons.prems [OF that] unat_saturating_add [of commands 1] by simp
  show ?case
    using q within Cons.IH [OF rest] by (cases r; cases "max_commands q") (simp_all add: Let_def)
qed simp

lemma and_then_bounds:
  "and_then r (\<lambda>(s, n). and_then (g n) (\<lambda>_. case bounds_of s of (a, b) \<Rightarrow> f a b)) =
     and_then (and_then r (\<lambda>(s, n). Inr (bounds_of s))) (\<lambda>(a, b). f a b)"
  if "\<And>n. g n = Inr ()"
  using that by (cases r) auto

lemma quiet_completion: "quiet env q \<Longrightarrow> completion env q n = Inr ()"
  by (simp add: completion_def)

subsection \<open>Properties\<close>

text \<open>
  C11. Every reachable state of the cache, however the callers interleave, is consistent: at most
  one caller builds, and only while the phase is \<open>Building\<close> with its attempt, so publishing never
  panics; the waiter count of a building or failed attempt is exactly the number of callers
  registered for it, so releasing a registration never underflows it.
\<close>

theorem cache_consistent:
  assumes "cache_reachable (c, ts)"
  shows "builder_count ts \<le> 1 \<and>
    (\<forall>t \<in> set ts. \<forall>a. builds_attempt t = Some a \<longrightarrow>
      active_waiters c a = Some (waiting_callers ts a) \<and>
      (\<forall>r r' chk. plain_publish c a r \<noteq> None \<and> ctx_publish c a r' chk \<noteq> None)) \<and>
    (\<forall>a. phase_attempt (ms_phase c) = Some a \<longrightarrow>
      phase_waiters (ms_phase c) = waiting_callers ts a \<and>
      (\<forall>t \<in> set ts. registered_for t = Some a \<longrightarrow> 0 < phase_waiters (ms_phase c)))"
proof (intro conjI ballI allI impI)
  have inv: "cache_inv (c, ts)" using assms by (rule reachable_inv)
  show "builder_count ts \<le> 1" using inv by (auto simp: cache_inv_def)
  show count: "phase_waiters (ms_phase c) = waiting_callers ts a" if "phase_attempt (ms_phase c) = Some a" for a
    using inv that by (auto simp: cache_inv_def)
  show "0 < phase_waiters (ms_phase c)"
    if "phase_attempt (ms_phase c) = Some a" "t \<in> set ts" "registered_for t = Some a" for t a
    using count [OF that(1)] that(2,3) by (auto simp: waiting_callers_def filter_empty_conv)
  fix t a
  assume "t \<in> set ts" "builds_attempt t = Some a"
  then have "phase_builder (ms_phase c) = Some a" using inv by (auto simp: cache_inv_def)
  then obtain w where w: "ms_phase c = Building a w" by (auto simp: phase_builder_def split: metadata_phase.splits)
  then have "w = waiting_callers ts a" using count [of a] by (simp add: phase_attempt_def phase_waiters_def)
  with w show "active_waiters c a = Some (waiting_callers ts a)" and "plain_publish c a r \<noteq> None"
    and "ctx_publish c a r' chk \<noteq> None" for r r' chk
    by (simp_all add: active_waiters_def plain_publish_def ctx_publish_def)
qed

text \<open>One builder and one registered waiter, for the witnesses.\<close>

definition sample_building :: cache_system where
  "sample_building = (\<lparr>ms_next_attempt = 2, ms_phase = Building 1 1\<rparr>, [CtxBuild 1, PlainPoll (Some 1)])"

lemma cache_step_at:
  "caller_step c (ts ! i) c' t' \<Longrightarrow> i < length ts \<Longrightarrow> ts' = ts[i := t'] \<Longrightarrow> cache_step (c, ts) (c', ts')"
  by (simp add: cache_step)

lemma sample_building_steps: "cache_step\<^sup>*\<^sup>* (new_cache, [CtxStart, PlainPoll None]) sample_building"
proof -
  have "cache_step (new_cache, [CtxStart, PlainPoll None]) (new_cache, [CtxPoll None, PlainPoll None])"
    by (rule cache_step_at [where i = 0 and t' = "CtxPoll None"])
      (use step_ctx_start [of new_cache "Inr ()"] in \<open>simp_all\<close>)
  moreover have "cache_step (new_cache, [CtxPoll None, PlainPoll None])
      (\<lparr>ms_next_attempt = 2, ms_phase = Building 1 0\<rparr>, [CtxBuild 1, PlainPoll None])"
    by (rule cache_step_at [where i = 0 and t' = "CtxBuild 1"])
      (use step_ctx_poll [of new_cache None "Inr ()"] in
        \<open>simp_all add: ctx_poll_def new_cache_def elect_def checked_add_def\<close>)
  moreover have "cache_step (\<lparr>ms_next_attempt = 2, ms_phase = Building 1 0\<rparr>, [CtxBuild 1, PlainPoll None])
      sample_building"
    unfolding sample_building_def
    by (rule cache_step_at [where i = 1 and t' = "PlainPoll (Some 1)"])
      (use step_plain_poll [of "\<lparr>ms_next_attempt = 2, ms_phase = Building 1 0\<rparr>" None] in
        \<open>simp_all add: plain_poll_def\<close>)
  ultimately show ?thesis by (meson rtranclp.rtrancl_refl rtranclp.rtrancl_into_rtrancl)
qed

lemma sample_building_reachable: "cache_reachable sample_building"
  by (rule reachable_steps [OF sample_building_steps])
    (auto intro: reachable_init simp: fresh_caller_def)

lemma cache_consistent_witness:
  "active_waiters (fst sample_building) 1 = Some 1 \<and> phase_waiters (ms_phase (fst sample_building)) = 1 \<and>
   0 < phase_waiters (ms_phase (fst sample_building)) \<and> builder_count (snd sample_building) \<le> 1"
proof -
  have reach: "cache_reachable (fst sample_building, snd sample_building)"
    using sample_building_reachable by simp
  from cache_consistent [OF reach] show ?thesis
    by (simp add: sample_building_def phase_attempt_def waiting_callers_def)
qed

text \<open>
  C12. Concurrent callers share one result: once a caller has succeeded with some metadata, the
  cache holds that metadata for ever, and every caller that succeeds, then or later, has the same.
\<close>

theorem metadata_shared:
  assumes "cache_reachable (c, ts)" and "t \<in> set ts" and "success_of t = Some m"
    and "cache_step\<^sup>*\<^sup>* (c, ts) (c', ts')"
  shows "ms_phase c' = Ready m \<and> is_ready c' \<and>
    (\<forall>t' \<in> set ts'. success_of t' = None \<or> success_of t' = Some m)"
proof -
  have "ms_phase c = Ready m" using assms(1-3) by (rule success_ready)
  with ready_steps [OF assms(4,1)] have ready: "ms_phase c' = Ready m" by simp
  have reach: "cache_reachable (c', ts')" using reachable_steps [OF assms(4,1)] .
  have "success_of t' = None \<or> success_of t' = Some m" if "t' \<in> set ts'" for t'
    using success_ready [OF reach that] ready by (cases "success_of t'") auto
  with ready show ?thesis by (simp add: is_ready_def)
qed

definition sample_meta :: vcd_meta where
  "sample_meta = \<lparr>vm_timescale = None, vm_signal_count = 2, vm_start = 0, vm_end = 9\<rparr>"

definition sample_ready :: cache_system where
  "sample_ready = (\<lparr>ms_next_attempt = 2, ms_phase = Ready sample_meta\<rparr>,
     [CtxDone (Inr sample_meta), PlainPoll (Some 1)])"

lemma sample_ready_step: "cache_step sample_building sample_ready"
  unfolding sample_building_def sample_ready_def
  by (rule cache_step_at [where i = 0 and t' = "CtxDone (Inr sample_meta)"])
    (auto intro!: step_ctx_publish [where r = "Inr sample_meta" and chk = "Inr ()"]
      simp: ctx_publish_def active_waiters_def)

lemma sample_ready_reachable: "cache_reachable sample_ready"
  using sample_building_reachable sample_ready_step by (rule reachable_step)

lemma metadata_shared_witness:
  "is_ready (fst sample_ready) \<and>
   list_all (\<lambda>t'. success_of t' = None \<or> success_of t' = Some sample_meta) (snd sample_ready)"
  using metadata_shared [of "fst sample_ready" "snd sample_ready" "CtxDone (Inr sample_meta)" sample_meta
      "fst sample_ready" "snd sample_ready"] sample_ready_reachable
  by (simp add: sample_ready_def)

text \<open>
  A failed attempt is kept for its waiters: while a caller of \<^verbatim>\<open>metadata\<close> is registered for
  a failed attempt, whatever the others do, retries included, the cache keeps that attempt and its
  error; the caller can only stay registered or end with that very error.
\<close>

lemma failed_attempt_kept:
  assumes "cache_reachable (c, ts)" and "ms_phase c = Failed a e k" and "i < length ts"
    and "ts ! i = PlainPoll (Some a)" and "cache_step\<^sup>*\<^sup>* (c, ts) (c', ts')"
  shows "(ts' ! i = PlainPoll (Some a) \<and> (\<exists>k'. ms_phase c' = Failed a e k')) \<or>
    ts' ! i = PlainDone (Inl (to_error e))"
  using told_steps [OF assms(5,1), of a e i] assms(2-4) by (auto simp: told_def)

definition sample_failed :: cache_system where
  "sample_failed = (\<lparr>ms_next_attempt = 2, ms_phase = Failed 1 CeMissingEndDefinitions 1\<rparr>,
     [CtxDone (Inl (Vcd MissingEndDefinitions)), PlainPoll (Some 1)])"

lemma sample_failed_step: "cache_step sample_building sample_failed"
  unfolding sample_building_def sample_failed_def
  by (rule cache_step_at [where i = 0 and t' = "CtxDone (Inl (Vcd MissingEndDefinitions))"])
    (auto intro!: step_ctx_publish [where r = "Inl (Vcd MissingEndDefinitions)" and chk = "Inr ()"]
      simp: ctx_publish_def active_waiters_def)

lemma failed_attempt_kept_witness:
  "snd sample_failed ! 1 = PlainPoll (Some 1) \<and> (\<exists>k'. ms_phase (fst sample_failed) = Failed 1 CeMissingEndDefinitions k')"
proof -
  have reach: "cache_reachable (fst sample_failed, snd sample_failed)"
    using reachable_step [OF sample_building_reachable sample_failed_step] by simp
  from failed_attempt_kept [OF reach, of 1 CeMissingEndDefinitions 1 1 "fst sample_failed" "snd sample_failed"]
  show ?thesis by (simp add: sample_failed_def)
qed

text \<open>
  C13. The attempt-stability invariant, as its debug assertions state it, holds as long as only
  \<^verbatim>\<open>metadata\<close> and \<^verbatim>\<open>retry_metadata\<close> are called, and does not hold beside \<^verbatim>\<open>metadata_with_context\<close>:
  a builder whose context ends resets the phase, and a caller of \<^verbatim>\<open>metadata\<close> registered for that
  attempt then finds no attempt, or another one.
\<close>

theorem attempt_stability:
  "(\<forall>ts c' ts' t. (\<forall>u \<in> set ts. u = PlainPoll None \<or> u = RetryPoll) \<longrightarrow>
      cache_step\<^sup>*\<^sup>* (new_cache, ts) (c', ts') \<longrightarrow> t \<in> set ts' \<longrightarrow> \<not> assertion_fails c' t) \<and>
   (\<exists>c' ts' t. cache_step\<^sup>*\<^sup>* (new_cache, [CtxStart, PlainPoll None]) (c', ts') \<and>
      t \<in> set ts' \<and> assertion_fails c' t)"
proof (intro conjI allI impI)
  fix ts c' ts' t
  assume fresh: "\<forall>u \<in> set ts. u = PlainPoll None \<or> u = RetryPoll"
    and steps: "cache_step\<^sup>*\<^sup>* (new_cache, ts) (c', ts')" and t: "t \<in> set ts'"
  have init: "cache_reachable (new_cache, ts)"
    using fresh by (auto intro!: reachable_init simp: list_all_iff fresh_caller_def)
  have "plain_inv (new_cache, ts)" using fresh by (auto simp: plain_inv_def)
  with plain_inv_steps [OF steps init] have plain: "plain_inv (c', ts')" by simp
  have inv: "cache_inv (c', ts')" by (rule reachable_inv [OF reachable_steps [OF steps init]])
  show "\<not> assertion_fails c' t"
  proof (cases "\<exists>x. t = PlainPoll (Some x)")
    case True
    then obtain x where x: "t = PlainPoll (Some x)" by blast
    then have "0 < waiting_callers ts' x"
      using t unfolding waiting_callers_def by (auto simp: filter_empty_conv intro: bexI [of _ "PlainPoll (Some x)"])
    moreover have "phase_attempt (ms_phase c') = Some x \<or> (\<exists>m. ms_phase c' = Ready m)"
      using plain t x by (auto simp: plain_inv_def)
    ultimately show ?thesis using inv x
      by (auto simp: assertion_fails_def cache_inv_def phase_attempt_def phase_waiters_def
          split: metadata_phase.splits)
  next
    case False
    with plain t show ?thesis
      by (auto simp: assertion_fails_def plain_inv_def split: caller.splits option.splits)
  qed
next
  let ?c = "\<lparr>ms_next_attempt = 2, ms_phase = Absent\<rparr>"
  let ?ts = "[CtxDone (Inl Cancelled), PlainPoll (Some 1)]"
  have "cache_step sample_building (?c, ?ts)"
    unfolding sample_building_def
    by (rule cache_step_at [where i = 0 and t' = "CtxDone (Inl Cancelled)"])
      (auto intro!: step_ctx_publish [where r = "Inl Cancelled"] simp: ctx_publish_def active_waiters_def)
  with sample_building_steps have "cache_step\<^sup>*\<^sup>* (new_cache, [CtxStart, PlainPoll None]) (?c, ?ts)"
    by (rule rtranclp.rtrancl_into_rtrancl)
  moreover have "assertion_fails ?c (PlainPoll (Some 1))" by (simp add: assertion_fails_def)
  ultimately show "\<exists>c' ts' t. cache_step\<^sup>*\<^sup>* (new_cache, [CtxStart, PlainPoll None]) (c', ts') \<and>
      t \<in> set ts' \<and> assertion_fails c' t"
    by (intro exI conjI) auto
qed

lemma attempt_stability_witness:
  "\<not> assertion_fails new_cache (PlainPoll None)"
  using conjunct1 [OF attempt_stability, rule_format, of "[PlainPoll None]" new_cache "[PlainPoll None]"
      "PlainPoll None"] by simp

text \<open>The scan of an undisturbed source.\<close>

lemma compute_metadata_quiet:
  assumes q: "quiet env q"
  shows "compute_metadata env scale ov n' =
      (case first_error (ov_body ov) of
         Some e \<Rightarrow> Inl (Io e)
       | None \<Rightarrow>
           (let ts = noted_times 0 (body_commands (ov_body ov)) in
            Inr \<lparr>vm_timescale = scale, vm_signal_count = catalog_len (ov_catalog ov),
                 vm_start = (if ts = [] then 0 else hd ts), vm_end = (if ts = [] then 0 else last ts)\<rparr>))"
proof -
  have "snd (0 :: u64, None :: u64 option, None :: u64 option) = noted_state []"
    by (simp add: noted_state_def)
  from compute_time_bounds_correct [OF this, of "ov_body ov"] q
  show ?thesis
    by (cases "first_error (ov_body ov)") (auto simp: compute_metadata_def body_parser_def Let_def)
qed

text \<open>
  C14. The metadata scan of an undisturbed query within its command budget, with and without a
  context: the parser's first error if it meets one, otherwise the catalog's size and the times of
  the first and the last timestamp or change of the body (zero for an empty body), a change before
  any timestamp counting as time zero.
\<close>

theorem metadata_scan_correct:
  assumes q: "quiet env q"
    and l: "\<And>l. max_commands q = Some l \<Longrightarrow> length (ov_body ov) \<le> unat l"
  shows "compute_metadata_with_context env q scale ov n =
      map_err query_error_of_vcd (compute_metadata env scale ov n') \<and>
    compute_metadata env scale ov n' =
      (case first_error (ov_body ov) of
         Some e \<Rightarrow> Inl (Io e)
       | None \<Rightarrow>
           (let ts = noted_times 0 (body_commands (ov_body ov)) in
            Inr \<lparr>vm_timescale = scale, vm_signal_count = catalog_len (ov_catalog ov),
                 vm_start = (if ts = [] then 0 else hd ts), vm_end = (if ts = [] then 0 else last ts)\<rparr>))"
proof
  have scan: "and_then (metadata_scan env q (Suc (Suc n)) 0 (0, None, None) (ov_body ov))
      (\<lambda>(s', n'). Inr (bounds_of s')) =
      map_err query_error_of_vcd (compute_time_bounds (0, None, None) (ov_body ov))"
    by (rule metadata_scan_quiet [OF q]) (use l in simp)
  show "compute_metadata_with_context env q scale ov n =
      map_err query_error_of_vcd (compute_metadata env scale ov n')"
    using q
    by (simp add: compute_metadata_with_context_def compute_metadata_def body_parser_def
        and_then_bounds [OF quiet_completion [OF q]] scan)
      (cases "compute_time_bounds (0, None, None) (ov_body ov)"; auto)
  show "compute_metadata env scale ov n' =
      (case first_error (ov_body ov) of
         Some e \<Rightarrow> Inl (Io e)
       | None \<Rightarrow>
           (let ts = noted_times 0 (body_commands (ov_body ov)) in
            Inr \<lparr>vm_timescale = scale, vm_signal_count = catalog_len (ov_catalog ov),
                 vm_start = (if ts = [] then 0 else hd ts), vm_end = (if ts = [] then 0 else last ts)\<rparr>))"
    by (rule compute_metadata_quiet [OF q])
qed

lemma metadata_scan_correct_witness:
  "compute_metadata_with_context calm (with_max_commands 7 unlimited) None sample_opened 0 =
     Inr \<lparr>vm_timescale = None, vm_signal_count = catalog_len (ov_catalog sample_opened),
          vm_start = 0, vm_end = 9\<rparr>"
proof -
  have q: "quiet calm (with_max_commands 7 unlimited)"
    by (rule quiet_calm) (simp add: with_max_commands_def unlimited_def)
  have l: "length (ov_body sample_opened) \<le> unat l"
    if "max_commands (with_max_commands 7 unlimited) = Some l" for l
    using that by (auto simp: with_max_commands_def unlimited_def sample_opened_def)
  show ?thesis
    using metadata_scan_correct [OF q l, where n = 0 and n' = 0 and scale = None]
    by (simp add: sample_opened_def)
qed

end
