(* ===== verification/Protocol.thy ===== *)
theory Protocol
  imports Json Query Metadata_Cache
begin

text \<open>
  The wire protocol of src/server/protocol.rs, first part: its bounds, its errors with their
  bounded messages and details, the mapping of query errors to protocol errors, and the bounded
  accumulator that cuts the byte stream of a connection into lines.
\<close>

definition protocol_version :: nat where "protocol_version = 1"
definition max_request_line_bytes :: nat where "max_request_line_bytes = 1048576"
definition max_request_id_bytes :: nat where "max_request_id_bytes = 128"
definition terminal_frame_reserve_bytes :: u64 where "terminal_frame_reserve_bytes = 4096"
definition chunk_rows :: u64 where "chunk_rows = 1024"
definition chunk_bytes :: u64 where "chunk_bytes = 262144"
definition max_error_message_bytes :: nat where "max_error_message_bytes = 256"

subsection \<open>Protocol errors\<close>

datatype protocol_error_code =
    EBadRequest | EUnsupportedVersion | EUnknownMethod | EDuplicateRequestId | ESignalNotFound
  | EInvalidWindow | EInvalidOccurrence | ELimitExceeded | EQueueFull | ECancelled
  | EDeadlineExceeded | EStaleSource | ESourceUnavailable | EParseError | EFstError | EInternal

fun code_str :: "protocol_error_code \<Rightarrow> string" where
  "code_str EBadRequest = ''BAD_REQUEST''"
| "code_str EUnsupportedVersion = ''UNSUPPORTED_VERSION''"
| "code_str EUnknownMethod = ''UNKNOWN_METHOD''"
| "code_str EDuplicateRequestId = ''DUPLICATE_REQUEST_ID''"
| "code_str ESignalNotFound = ''SIGNAL_NOT_FOUND''"
| "code_str EInvalidWindow = ''INVALID_WINDOW''"
| "code_str EInvalidOccurrence = ''INVALID_OCCURRENCE''"
| "code_str ELimitExceeded = ''LIMIT_EXCEEDED''"
| "code_str EQueueFull = ''QUEUE_FULL''"
| "code_str ECancelled = ''CANCELLED''"
| "code_str EDeadlineExceeded = ''DEADLINE_EXCEEDED''"
| "code_str EStaleSource = ''STALE_SOURCE''"
| "code_str ESourceUnavailable = ''SOURCE_UNAVAILABLE''"
| "code_str EParseError = ''PARSE_ERROR''"
| "code_str EFstError = ''FST_ERROR''"
| "code_str EInternal = ''INTERNAL''"

record protocol_error =
  perr_code :: protocol_error_code
  perr_message :: string
  perr_details :: json
  perr_retryable :: bool

definition protocol_error_new ::
    "protocol_error_code \<Rightarrow> string \<Rightarrow> json \<Rightarrow> bool \<Rightarrow> protocol_error" where
  "protocol_error_new code message details retryable =
     \<lparr>perr_code = code, perr_message = truncate_utf8 message max_error_message_bytes,
      perr_details = bound_error_details details 0, perr_retryable = retryable\<rparr>"

definition bad_request :: "string \<Rightarrow> protocol_error" where
  "bad_request message = protocol_error_new EBadRequest message (json_obj []) False"

definition unsupported_version :: protocol_error where
  "unsupported_version = protocol_error_new EUnsupportedVersion ''unsupported protocol version''
     (json_obj [(''supported_versions'', JArray [JString ''1''])]) False"

definition unknown_method :: "string \<Rightarrow> protocol_error" where
  "unknown_method m =
     protocol_error_new EUnknownMethod ''unknown method'' (json_obj [(''method'', JString m)]) False"

definition duplicate_request_id :: "string \<Rightarrow> protocol_error" where
  "duplicate_request_id i = protocol_error_new EDuplicateRequestId ''request ID is already active''
     (json_obj [(''id'', JString i)]) False"

definition invalid_window :: protocol_error where
  "invalid_window = protocol_error_new EInvalidWindow ''start must be less than or equal to end''
     (json_obj []) False"

definition invalid_occurrence :: protocol_error where
  "invalid_occurrence = protocol_error_new EInvalidOccurrence ''occurrence must be >= 1'' (json_obj []) False"

text \<open>\<^verbatim>\<open>signals.split(", ")\<close>\<close>

fun split_comma :: "string \<Rightarrow> string list" where
  "split_comma [] = [[]]"
| "split_comma (c # s) =
     (if starts_with (c # s) '', '' then [] # split_comma (drop 1 s)
      else case split_comma s of [] \<Rightarrow> [[c]] | w # ws \<Rightarrow> (c # w) # ws)"

fun protocol_error_from_vcd :: "vcd_error \<Rightarrow> protocol_error" where
  "protocol_error_from_vcd (MissingSignal s) =
     protocol_error_new ESignalNotFound ''one or more signals were not found''
       (json_obj [(''signals'', JArray [JString s])]) False"
| "protocol_error_from_vcd (MissingSignals s) =
     protocol_error_new ESignalNotFound ''one or more signals were not found''
       (json_obj [(''signals'', JArray (map JString (split_comma s)))]) False"
| "protocol_error_from_vcd InvalidOccurrence = invalid_occurrence"
| "protocol_error_from_vcd (Io _) =
     protocol_error_new ESourceUnavailable ''source unavailable'' (json_obj []) True"
| "protocol_error_from_vcd _ = protocol_error_new EParseError ''VCD parse error'' (json_obj []) False"

fun protocol_error_from_query :: "query_error \<Rightarrow> protocol_error" where
  "protocol_error_from_query Cancelled =
     protocol_error_new ECancelled ''query cancelled'' (json_obj []) False"
| "protocol_error_from_query DeadlineExceeded =
     protocol_error_new EDeadlineExceeded ''query deadline exceeded'' (json_obj []) True"
| "protocol_error_from_query (LimitExceeded kind limit actual) =
     protocol_error_new ELimitExceeded ''query limit exceeded''
       (json_obj [(''kind'', JString (limit_kind_code kind)), (''limit'', JString (decimal (unat limit))),
                  (''actual'', JString (decimal (unat actual)))]) False"
| "protocol_error_from_query (StaleSource _) =
     protocol_error_new EStaleSource ''source changed during query'' (json_obj []) True"
| "protocol_error_from_query QueueFull =
     protocol_error_new EQueueFull ''query queue is full'' (json_obj []) True"
| "protocol_error_from_query (SourceUnavailable _) =
     protocol_error_new ESourceUnavailable ''source unavailable'' (json_obj []) True"
| "protocol_error_from_query (SignalNotFound s) =
     protocol_error_new ESignalNotFound ''one or more signals were not found''
       (json_obj [(''signals'', JArray [JString s])]) False"
| "protocol_error_from_query (Vcd e) = protocol_error_from_vcd e"
| "protocol_error_from_query (Fst _) =
     protocol_error_new EFstError ''FST parse error'' (json_obj [(''format'', JString ''fst'')]) False"
| "protocol_error_from_query (UnsupportedWaveform _) =
     protocol_error_new EParseError ''unsupported waveform input'' (json_obj []) False"
| "protocol_error_from_query (Internal _) =
     protocol_error_new EInternal ''internal server error'' (json_obj []) False"

definition error_bounded :: "protocol_error \<Rightarrow> bool" where
  "error_bounded e \<longleftrightarrow> length (perr_message e) \<le> max_error_message_bytes \<and> within_bounds 4 (perr_details e)"

lemma protocol_error_new_bounded [simp]: "error_bounded (protocol_error_new c m d r)"
  using bound_error_details_within [of 0 d] length_truncate [of max_error_message_bytes m]
  by (simp add: error_bounded_def protocol_error_new_def max_error_message_bytes_def)

lemma protocol_errors_bounded [simp]:
  "error_bounded (bad_request m)" "error_bounded unsupported_version" "error_bounded (unknown_method m)"
  "error_bounded (duplicate_request_id m)" "error_bounded invalid_window" "error_bounded invalid_occurrence"
  by (simp_all add: bad_request_def unsupported_version_def unknown_method_def
      duplicate_request_id_def invalid_window_def invalid_occurrence_def)

lemma protocol_error_from_vcd_bounded: "error_bounded (protocol_error_from_vcd e)"
  by (cases e) simp_all

subsection \<open>The line accumulator\<close>

record accumulator =
  acc_buffer :: string
  acc_max :: nat
  acc_poisoned :: bool

text \<open>\<open>None\<close> is the assertion of \<^verbatim>\<open>new\<close>.\<close>

definition new_accumulator :: "nat \<Rightarrow> accumulator option" where
  "new_accumulator m =
     (if 0 < m then Some \<lparr>acc_buffer = [], acc_max = m, acc_poisoned = False\<rparr> else None)"

definition newline :: char where "newline = CHR 0x0A"

definition poison :: "accumulator \<Rightarrow> string \<Rightarrow> accumulator \<times> (protocol_error + string list)" where
  "poison acc message =
     (acc\<lparr>acc_buffer := [], acc_poisoned := True\<rparr>,
      Inl (protocol_error_new ELimitExceeded message
        (json_obj [(''kind'', JString ''request_line_bytes''), (''limit'', JString (decimal (acc_max acc))),
                   (''actual'', JString (decimal (acc_max acc + 1)))]) False))"

fun push_loop :: "accumulator \<Rightarrow> string list \<Rightarrow> string \<Rightarrow> accumulator \<times> (protocol_error + string list)" where
  "push_loop acc frames [] = (acc, Inr frames)"
| "push_loop acc frames (b # bs) =
     (if b = newline then
        (if length (acc_buffer acc) + 1 > acc_max acc
         then poison acc ''request line exceeds configured byte limit''
         else (let frame = acc_buffer acc; acc' = acc\<lparr>acc_buffer := []\<rparr> in
               if utf8_valid frame then push_loop acc' (frames @ [frame]) bs
               else (acc'\<lparr>acc_poisoned := True\<rparr>, Inl (bad_request ''request line is not valid UTF-8''))))
      else if length (acc_buffer acc) \<ge> acc_max acc - 1
           then poison acc ''request line exceeds configured byte limit''
           else push_loop (acc\<lparr>acc_buffer := acc_buffer acc @ [b]\<rparr>) frames bs)"

definition push :: "accumulator \<Rightarrow> string \<Rightarrow> accumulator \<times> (protocol_error + string list)" where
  "push acc bytes =
     (if acc_poisoned acc then (acc, Inl (bad_request ''JSON line accumulator is poisoned''))
      else push_loop acc [] bytes)"

text \<open>The lines of a byte sequence, and whether the accumulator takes them all.\<close>

definition lines_fit :: "nat \<Rightarrow> string list \<Rightarrow> bool" where
  "lines_fit m ls \<longleftrightarrow> (\<forall>l \<in> set ls. length l < m) \<and> (\<forall>l \<in> set (butlast ls). utf8_valid l)"

lemma split_on_append_word:
  "c \<notin> set w \<Longrightarrow> split_on c (w @ c # s) = w # split_on c s"
  "c \<notin> set w \<Longrightarrow> split_on c w = [w]"
  by (induction w) auto

lemma split_on_word_prefix:
  "c \<notin> set w \<Longrightarrow> split_on c (w @ s) = (w @ hd (split_on c s)) # tl (split_on c s)"
  by (induction w) (auto simp: split: list.splits)

lemma push_loop_lines:
  assumes "\<not> acc_poisoned acc" and "newline \<notin> set (acc_buffer acc)" and "length (acc_buffer acc) < acc_max acc"
  shows "(lines_fit (acc_max acc) (split_on newline (acc_buffer acc @ bs)) \<longrightarrow>
       push_loop acc frames bs =
         (acc\<lparr>acc_buffer := last (split_on newline (acc_buffer acc @ bs))\<rparr>,
          Inr (frames @ butlast (split_on newline (acc_buffer acc @ bs))))) \<and>
     (\<not> lines_fit (acc_max acc) (split_on newline (acc_buffer acc @ bs)) \<longrightarrow>
       (\<exists>acc' e. push_loop acc frames bs = (acc', Inl e) \<and> acc_poisoned acc' \<and> error_bounded e))"
  using assms
proof (induction acc frames bs rule: push_loop.induct)
  case (1 acc frames)
  then show ?case by (simp add: split_on_append_word lines_fit_def Let_def)
next
  case (2 acc frames b bs)
  show ?case
  proof (cases "b = newline")
    case True
    let ?acc = "acc\<lparr>acc_buffer := []\<rparr>"
    have ls: "split_on newline (acc_buffer acc @ b # bs) = acc_buffer acc # split_on newline bs"
      using 2(4) True by (simp add: split_on_append_word)
    show ?thesis
    proof (cases "utf8_valid (acc_buffer acc)")
      case valid: True
      have IH: "(lines_fit (acc_max acc) (split_on newline bs) \<longrightarrow>
           push_loop ?acc (frames @ [acc_buffer acc]) bs =
             (acc\<lparr>acc_buffer := last (split_on newline bs)\<rparr>,
              Inr (frames @ acc_buffer acc # butlast (split_on newline bs)))) \<and>
         (\<not> lines_fit (acc_max acc) (split_on newline bs) \<longrightarrow>
           (\<exists>acc' e. push_loop ?acc (frames @ [acc_buffer acc]) bs = (acc', Inl e) \<and>
             acc_poisoned acc' \<and> error_bounded e))"
        using 2(1) [OF True _ refl refl valid] 2(3,5) by simp
      have step: "push_loop acc frames (b # bs) = push_loop ?acc (frames @ [acc_buffer acc]) bs"
        using True valid 2(5) by simp
      have fit: "lines_fit (acc_max acc) (acc_buffer acc # split_on newline bs) =
          lines_fit (acc_max acc) (split_on newline bs)"
        using valid 2(5) by (simp add: lines_fit_def)
      show ?thesis unfolding step ls fit using IH by auto
    next
      case False
      then have "\<not> lines_fit (acc_max acc) (acc_buffer acc # split_on newline bs)"
        by (simp add: lines_fit_def)
      then show ?thesis unfolding ls using True False 2(5) by (simp add: Let_def)
    qed
  next
    case False
    show ?thesis
    proof (cases "length (acc_buffer acc) \<ge> acc_max acc - 1")
      case True
      have ls: "split_on newline (acc_buffer acc @ b # bs) =
          (acc_buffer acc @ b # hd (split_on newline bs)) # tl (split_on newline bs)"
        using split_on_word_prefix [of newline "acc_buffer acc @ [b]" bs] 2(4) False by simp
      then have "\<not> lines_fit (acc_max acc) (split_on newline (acc_buffer acc @ b # bs))"
        using True unfolding lines_fit_def ls by auto
      then show ?thesis using False True by (simp add: Let_def poison_def)
    next
      case room: False
      then show ?thesis using 2(2) [OF False room] 2(3-5) False by simp
    qed
  qed
qed

subsection \<open>Properties\<close>

lemma split_on_append:
  "split_on c (s @ t) = butlast (split_on c s) @ split_on c (last (split_on c s) @ t)"
proof (induction s)
  case (Cons d s)
  show ?case
  proof (cases "d = c")
    case False
    obtain w ws where w: "split_on c s = w # ws" by (cases "split_on c s") auto
    obtain v vs where v: "split_on c (w @ t) = v # vs" by (cases "split_on c (w @ t)") auto
    show ?thesis
      using False Cons w v by (cases ws) (auto split: list.splits)
  qed (use Cons in simp)
qed simp

lemma lines_fit_append:
  "lines_fit m (split_on c (s @ t)) \<longleftrightarrow>
     lines_fit m (split_on c s) \<and> lines_fit m (split_on c (last (split_on c s) @ t))"
proof -
  let ?l = "last (split_on c s)" and ?b = "butlast (split_on c s)"
  have ls: "split_on c s = ?b @ [?l]" by simp
  have no: "c \<notin> set ?l" by (rule split_on_no_sep [of _ c s]) simp
  have hd: "split_on c (?l @ t) = (?l @ hd (split_on c t)) # tl (split_on c t)"
    by (rule split_on_word_prefix [OF no])
  have "lines_fit m (?b @ split_on c (?l @ t)) \<longleftrightarrow>
      (\<forall>l \<in> set ?b. length l < m \<and> utf8_valid l) \<and> lines_fit m (split_on c (?l @ t))"
    by (auto simp: lines_fit_def butlast_append)
  moreover have "lines_fit m (split_on c (?l @ t)) \<Longrightarrow> length ?l < m"
    unfolding lines_fit_def hd by auto
  moreover have "lines_fit m (split_on c s) \<longleftrightarrow>
      (\<forall>l \<in> set ?b. length l < m \<and> utf8_valid l) \<and> length ?l < m"
    by (subst ls) (auto simp: lines_fit_def simp del: append_butlast_last_id)
  ultimately show ?thesis unfolding split_on_append [of c s t] by blast
qed

text \<open>The pushes of a connection, until the first error.\<close>

fun push_all :: "accumulator \<Rightarrow> string list \<Rightarrow> accumulator \<times> (protocol_error + string list)" where
  "push_all acc [] = (acc, Inr [])"
| "push_all acc (c # cs) =
     (case push acc c of
        (acc', Inl e) \<Rightarrow> (acc', Inl e)
      | (acc', Inr fs) \<Rightarrow>
          (case push_all acc' cs of
             (acc'', Inl e) \<Rightarrow> (acc'', Inl e)
           | (acc'', Inr gs) \<Rightarrow> (acc'', Inr (fs @ gs))))"

lemma push_all_lines:
  assumes "\<not> acc_poisoned acc" and "newline \<notin> set (acc_buffer acc)" and "length (acc_buffer acc) < acc_max acc"
  shows "(lines_fit (acc_max acc) (split_on newline (acc_buffer acc @ concat chunks)) \<longrightarrow>
       push_all acc chunks =
         (acc\<lparr>acc_buffer := last (split_on newline (acc_buffer acc @ concat chunks))\<rparr>,
          Inr (butlast (split_on newline (acc_buffer acc @ concat chunks))))) \<and>
     (\<not> lines_fit (acc_max acc) (split_on newline (acc_buffer acc @ concat chunks)) \<longrightarrow>
       (\<exists>acc' e. push_all acc chunks = (acc', Inl e) \<and> acc_poisoned acc' \<and> error_bounded e))"
  using assms
proof (induction chunks arbitrary: acc)
  case Nil
  then show ?case by (simp add: split_on_append_word lines_fit_def)
next
  case (Cons c cs)
  let ?s = "acc_buffer acc @ c"
  let ?acc = "acc\<lparr>acc_buffer := last (split_on newline ?s)\<rparr>"
  show ?case
  proof (cases "lines_fit (acc_max acc) (split_on newline ?s)")
    case True
    then have push: "push acc c = (?acc, Inr (butlast (split_on newline ?s)))"
      using push_loop_lines [OF Cons.prems, of c "[]"] Cons.prems(1) by (simp add: push_def)
    have no: "newline \<notin> set (acc_buffer ?acc)"
      using split_on_no_sep [of "last (split_on newline ?s)" newline ?s] by simp
    have short: "length (acc_buffer ?acc) < acc_max ?acc"
      using True last_in_set [of "split_on newline ?s"] by (simp add: lines_fit_def)
    note IH = Cons.IH [of ?acc, OF _ no short]
    show ?thesis
      using IH Cons.prems(1) push True lines_fit_append [of "acc_max acc" newline ?s "concat cs"]
        split_on_append [of newline ?s "concat cs"]
      by (auto simp: butlast_append)
  next
    case False
    then obtain acc' e where push: "push acc c = (acc', Inl e)" "acc_poisoned acc'" "error_bounded e"
      using push_loop_lines [OF Cons.prems, of c "[]"] Cons.prems(1) by (auto simp: push_def)
    moreover have "\<not> lines_fit (acc_max acc) (split_on newline (acc_buffer acc @ concat (c # cs)))"
      using False lines_fit_append [of "acc_max acc" newline ?s "concat cs"] by simp
    ultimately show ?thesis by simp
  qed
qed

text \<open>
  C15. Every protocol error a query or VCD error is mapped to is bounded: its message has at most
  256 bytes, its details at most four levels, eight items or sixteen fields per level and 256 bytes
  per string; and truncation keeps text valid UTF-8.
\<close>

theorem protocol_errors_are_bounded:
  "error_bounded (protocol_error_from_query q) \<and> error_bounded (protocol_error_new code message details retryable) \<and>
   (utf8_valid message \<longrightarrow> utf8_valid (perr_message (protocol_error_new code message details retryable)))"
proof (intro conjI impI)
  show "error_bounded (protocol_error_from_query q)"
    by (cases q) (simp_all only: protocol_error_from_query.simps protocol_error_new_bounded
        protocol_error_from_vcd_bounded)
  show "utf8_valid (perr_message (protocol_error_new code message details retryable))" if "utf8_valid message"
    using that by (simp add: protocol_error_new_def utf8_truncate)
qed simp

lemma protocol_errors_are_bounded_witness:
  "utf8_valid (perr_message (protocol_error_new EInternal (replicate 300 CHR ''x'') JNull False))"
proof -
  have "utf8_valid (replicate n CHR ''x'')" for n
    by (induction n) (simp_all add: byte_def)
  then show ?thesis
    using protocol_errors_are_bounded [of Cancelled EInternal "replicate 300 CHR ''x''" JNull False] by blast
qed

text \<open>
  C16. The line accumulator delivers exactly the lines of the bytes it is given, however they are
  cut into reads, as long as every line with its newline is within the bound and every complete line
  is UTF-8; the incomplete last line stays in the buffer. Otherwise one push fails, with a bounded
  error, and leaves it poisoned, so that every later push fails.
\<close>

theorem accumulator_lines:
  assumes "new_accumulator m = Some acc"
  shows "(lines_fit m (split_on newline (concat chunks)) \<longrightarrow>
      push_all acc chunks = (acc\<lparr>acc_buffer := last (split_on newline (concat chunks))\<rparr>,
        Inr (butlast (split_on newline (concat chunks))))) \<and>
    (\<not> lines_fit m (split_on newline (concat chunks)) \<longrightarrow>
      (\<exists>acc' e. push_all acc chunks = (acc', Inl e) \<and> error_bounded e \<and>
        (\<forall>bytes. \<exists>e'. push acc' bytes = (acc', Inl e'))))"
proof -
  have acc: "acc = \<lparr>acc_buffer = [], acc_max = m, acc_poisoned = False\<rparr>" and m: "0 < m"
    using assms by (auto simp: new_accumulator_def split: if_splits)
  show ?thesis
    using push_all_lines [of acc chunks] acc m by (auto simp: push_def)
qed

lemma accumulator_lines_witness:
  "push_all \<lparr>acc_buffer = [], acc_max = 4, acc_poisoned = False\<rparr> [''ab'', [newline], ''c'' @ [newline], ''d''] =
     (\<lparr>acc_buffer = ''d'', acc_max = 4, acc_poisoned = False\<rparr>, Inr [''ab'', ''c''])"
  using accumulator_lines [of 4 "\<lparr>acc_buffer = [], acc_max = 4, acc_poisoned = False\<rparr>"
      "[''ab'', [newline], ''c'' @ [newline], ''d'']"]
  by (simp add: new_accumulator_def newline_def lines_fit_def byte_def)

end
