(* ===== verification/Requests.thy ===== *)
theory Requests
  imports Protocol
begin

text \<open>
  The requests of src/server/protocol.rs: their parameters, the strict decoding of a JSON document
  into a request, their serialisation, and the theorems that decoding accepts exactly well-formed
  requests and reads back what was serialised.

  The JSON text parser is external: \<open>decode_request\<close> starts from the document the parser delivers.
\<close>

named_theorems read_back

subsection \<open>Requests\<close>

record list_params =
  lp_filter :: "string option"
  lp_max_rows :: "u64 option"
  lp_max_response_bytes :: "u64 option"
  lp_timeout_ms :: "u64 option"

record metadata_params =
  mp_timeout_ms :: "u64 option"
  mp_max_commands :: "u64 option"

record extract_params =
  ep_signals :: "string list"
  ep_start :: "u64 option"
  ep_end :: "u64 option"
  ep_max_rows :: "u64 option"
  ep_max_response_bytes :: "u64 option"
  ep_max_commands :: "u64 option"
  ep_timeout_ms :: "u64 option"

text \<open>The occurrence is a \<^verbatim>\<open>usize\<close> of 64 bits.\<close>

record find_params =
  fp_signal :: string
  fp_value :: string
  fp_occurrence :: u64
  fp_start :: "u64 option"
  fp_end :: "u64 option"
  fp_max_commands :: "u64 option"
  fp_max_response_bytes :: "u64 option"
  fp_timeout_ms :: "u64 option"

record toggles_params =
  tp_signals :: "string list"
  tp_start :: "u64 option"
  tp_end :: "u64 option"
  tp_max_commands :: "u64 option"
  tp_max_response_bytes :: "u64 option"
  tp_timeout_ms :: "u64 option"

datatype request_method =
    MPing
  | MDescribe
  | MList list_params
  | MMetadata metadata_params
  | MExtract extract_params
  | MFind find_params
  | MToggles toggles_params
  | MCancel string

fun method_name :: "request_method \<Rightarrow> string" where
  "method_name MPing = ''ping''"
| "method_name MDescribe = ''describe''"
| "method_name (MList _) = ''list''"
| "method_name (MMetadata _) = ''metadata''"
| "method_name (MExtract _) = ''extract''"
| "method_name (MFind _) = ''find''"
| "method_name (MToggles _) = ''toggles''"
| "method_name (MCancel _) = ''cancel''"

record request =
  req_id :: string
  req_method :: request_method

definition validate_inactive :: "request \<Rightarrow> (string \<Rightarrow> bool) \<Rightarrow> protocol_error + unit" where
  "validate_inactive r is_active =
     (if is_active (req_id r) then Inl (duplicate_request_id (req_id r)) else Inr ())"

subsection \<open>Decoding\<close>

definition validate_decimal :: "string \<Rightarrow> string \<Rightarrow> protocol_error + unit" where
  "validate_decimal v field =
     (if v = [] \<or> \<not> list_all is_digit v \<or> length v > 1 \<and> starts_with v ''0''
      then Inl (bad_request (field @ '' must be a canonical unsigned decimal string''))
      else Inr ())"

definition parse_decimal_u64 :: "string \<Rightarrow> string \<Rightarrow> protocol_error + u64" where
  "parse_decimal_u64 v field =
     and_then (validate_decimal v field) (\<lambda>_.
       ok_or (bad_request (field @ '' overflows u64'')) (parse_u64 v))"

definition parse_decimal_u128 :: "string \<Rightarrow> string \<Rightarrow> protocol_error + u128" where
  "parse_decimal_u128 v field =
     and_then (validate_decimal v field) (\<lambda>_.
       ok_or (bad_request (field @ '' overflows u128'')) (parse_u128 v))"

definition take_required :: "string \<Rightarrow> json_map \<Rightarrow> protocol_error + json \<times> json_map" where
  "take_required field m =
     (case obj_remove field m of
        (Some v, m') \<Rightarrow> Inr (v, m')
      | (None, _) \<Rightarrow> Inl (bad_request (''missing required field '' @ field)))"

definition take_string :: "string \<Rightarrow> json_map \<Rightarrow> protocol_error + string \<times> json_map" where
  "take_string field m =
     and_then (take_required field m) (\<lambda>(v, m').
       case v of JString s \<Rightarrow> Inr (s, m') | _ \<Rightarrow> Inl (bad_request (field @ '' must be a string'')))"

definition take_optional_string :: "string \<Rightarrow> json_map \<Rightarrow> protocol_error + string option \<times> json_map" where
  "take_optional_string field m =
     (case obj_remove field m of
        (None, m') \<Rightarrow> Inr (None, m')
      | (Some v, m') \<Rightarrow>
          (case v of JString s \<Rightarrow> Inr (Some s, m') | _ \<Rightarrow> Inl (bad_request (field @ '' must be a string''))))"

definition take_optional_decimal :: "string \<Rightarrow> json_map \<Rightarrow> protocol_error + u64 option \<times> json_map" where
  "take_optional_decimal field m =
     (case obj_remove field m of
        (None, m') \<Rightarrow> Inr (None, m')
      | (Some v, m') \<Rightarrow>
          (case v of
             JString s \<Rightarrow> and_then (parse_decimal_u64 s field) (\<lambda>n. Inr (Some n, m'))
           | _ \<Rightarrow> Inl (bad_request (field @ '' must be a decimal string''))))"

definition take_required_strings :: "string \<Rightarrow> json_map \<Rightarrow> protocol_error + string list \<times> json_map" where
  "take_required_strings field m =
     and_then (take_required field m) (\<lambda>(v, m').
       case v of
         JArray vs \<Rightarrow>
           and_then (map_result (\<lambda>x. case x of JString s \<Rightarrow> Inr s
               | _ \<Rightarrow> Inl (bad_request (field @ '' entries must be strings''))) vs) (\<lambda>ss. Inr (ss, m'))
       | _ \<Rightarrow> Inl (bad_request (field @ '' must be an array'')))"

definition reject_unknown :: "json_map \<Rightarrow> protocol_error + unit" where
  "reject_unknown m =
     (case m of [] \<Rightarrow> Inr () | (field, _) # _ \<Rightarrow> Inl (bad_request (''unknown method parameter '' @ field)))"

definition expect_object :: "json \<Rightarrow> string \<Rightarrow> protocol_error + json_map" where
  "expect_object v name =
     (case v of JObject m \<Rightarrow> Inr m | _ \<Rightarrow> Inl (bad_request (name @ '' must be an object'')))"

definition validate_request_id :: "string \<Rightarrow> protocol_error + unit" where
  "validate_request_id i =
     (if i = [] then Inl (bad_request ''request ID must not be empty'')
      else if length i > max_request_id_bytes then Inl (bad_request ''request ID exceeds 128 bytes'')
      else Inr ())"

definition validate_signals :: "string list \<Rightarrow> protocol_error + unit" where
  "validate_signals ss =
     (if ss = [] then Inl (bad_request ''signals must not be empty'')
      else if list_ex (\<lambda>s. s = []) ss then Inl (bad_request ''signal names must not be empty'')
      else Inr ())"

definition validate_window :: "u64 option \<Rightarrow> u64 option \<Rightarrow> protocol_error + unit" where
  "validate_window start stop =
     (case (start, stop) of
        (Some s, Some e) \<Rightarrow> if s > e then Inl invalid_window else Inr ()
      | _ \<Rightarrow> Inr ())"

definition validate_response_limit :: "u64 option \<Rightarrow> protocol_error + unit" where
  "validate_response_limit limit =
     (case limit of
        Some l \<Rightarrow> if l < terminal_frame_reserve_bytes
          then Inl (bad_request ''max_response_bytes must reserve at least 4096 terminal bytes'') else Inr ()
      | None \<Rightarrow> Inr ())"

definition parse_list :: "json_map \<Rightarrow> protocol_error + request_method" where
  "parse_list m0 =
     and_then (take_optional_string ''filter'' m0) (\<lambda>(f, m1).
     and_then (take_optional_decimal ''max_rows'' m1) (\<lambda>(rows, m2).
     and_then (take_optional_decimal ''max_response_bytes'' m2) (\<lambda>(bytes, m3).
     and_then (take_optional_decimal ''timeout_ms'' m3) (\<lambda>(timeout, m4).
     and_then (reject_unknown m4) (\<lambda>_.
     and_then (validate_response_limit bytes) (\<lambda>_.
       Inr (MList \<lparr>lp_filter = f, lp_max_rows = rows, lp_max_response_bytes = bytes,
                   lp_timeout_ms = timeout\<rparr>)))))))"

definition parse_metadata :: "json_map \<Rightarrow> protocol_error + request_method" where
  "parse_metadata m0 =
     and_then (take_optional_decimal ''timeout_ms'' m0) (\<lambda>(timeout, m1).
     and_then (take_optional_decimal ''max_commands'' m1) (\<lambda>(commands, m2).
     and_then (reject_unknown m2) (\<lambda>_.
       Inr (MMetadata \<lparr>mp_timeout_ms = timeout, mp_max_commands = commands\<rparr>))))"

definition parse_extract :: "json_map \<Rightarrow> protocol_error + request_method" where
  "parse_extract m0 =
     and_then (take_required_strings ''signals'' m0) (\<lambda>(signals, m1).
     and_then (validate_signals signals) (\<lambda>_.
     and_then (take_optional_decimal ''start'' m1) (\<lambda>(start, m2).
     and_then (take_optional_decimal ''end'' m2) (\<lambda>(stop, m3).
     and_then (take_optional_decimal ''max_rows'' m3) (\<lambda>(rows, m4).
     and_then (take_optional_decimal ''max_response_bytes'' m4) (\<lambda>(bytes, m5).
     and_then (take_optional_decimal ''max_commands'' m5) (\<lambda>(commands, m6).
     and_then (take_optional_decimal ''timeout_ms'' m6) (\<lambda>(timeout, m7).
     and_then (reject_unknown m7) (\<lambda>_.
     and_then (validate_window start stop) (\<lambda>_.
     and_then (validate_response_limit bytes) (\<lambda>_.
       Inr (MExtract \<lparr>ep_signals = signals, ep_start = start, ep_end = stop, ep_max_rows = rows,
                      ep_max_response_bytes = bytes, ep_max_commands = commands,
                      ep_timeout_ms = timeout\<rparr>))))))))))))"

definition parse_find :: "json_map \<Rightarrow> protocol_error + request_method" where
  "parse_find m0 =
     and_then (take_string ''signal'' m0) (\<lambda>(signal, m1).
     and_then (ensure (signal \<noteq> []) (bad_request ''signal must not be empty'')) (\<lambda>_.
     and_then (take_optional_decimal ''occurrence'' m1) (\<lambda>(occ, m2).
     let occurrence = (case occ of Some n \<Rightarrow> n | None \<Rightarrow> 1) in
     and_then (ensure (occurrence \<noteq> 0) invalid_occurrence) (\<lambda>_.
     and_then (take_string ''value'' m2) (\<lambda>(v, m3).
     and_then (take_optional_decimal ''start'' m3) (\<lambda>(start, m4).
     and_then (take_optional_decimal ''end'' m4) (\<lambda>(stop, m5).
     and_then (take_optional_decimal ''max_commands'' m5) (\<lambda>(commands, m6).
     and_then (take_optional_decimal ''max_response_bytes'' m6) (\<lambda>(bytes, m7).
     and_then (take_optional_decimal ''timeout_ms'' m7) (\<lambda>(timeout, m8).
     and_then (reject_unknown m8) (\<lambda>_.
     and_then (validate_window start stop) (\<lambda>_.
     and_then (validate_response_limit bytes) (\<lambda>_.
       Inr (MFind \<lparr>fp_signal = signal, fp_value = v, fp_occurrence = occurrence, fp_start = start,
                   fp_end = stop, fp_max_commands = commands, fp_max_response_bytes = bytes,
                   fp_timeout_ms = timeout\<rparr>))))))))))))))"

definition parse_toggles :: "json_map \<Rightarrow> protocol_error + request_method" where
  "parse_toggles m0 =
     and_then (take_required_strings ''signals'' m0) (\<lambda>(signals, m1).
     and_then (validate_signals signals) (\<lambda>_.
     and_then (take_optional_decimal ''start'' m1) (\<lambda>(start, m2).
     and_then (take_optional_decimal ''end'' m2) (\<lambda>(stop, m3).
     and_then (take_optional_decimal ''max_commands'' m3) (\<lambda>(commands, m4).
     and_then (take_optional_decimal ''max_response_bytes'' m4) (\<lambda>(bytes, m5).
     and_then (take_optional_decimal ''timeout_ms'' m5) (\<lambda>(timeout, m6).
     and_then (reject_unknown m6) (\<lambda>_.
     and_then (validate_window start stop) (\<lambda>_.
     and_then (validate_response_limit bytes) (\<lambda>_.
       Inr (MToggles \<lparr>tp_signals = signals, tp_start = start, tp_end = stop,
                      tp_max_commands = commands, tp_max_response_bytes = bytes,
                      tp_timeout_ms = timeout\<rparr>)))))))))))"

definition parse_cancel :: "json_map \<Rightarrow> protocol_error + request_method" where
  "parse_cancel m0 =
     and_then (take_string ''request_id'' m0) (\<lambda>(request_id, m1).
     and_then (validate_request_id request_id) (\<lambda>_.
     and_then (reject_unknown m1) (\<lambda>_. Inr (MCancel request_id))))"

definition parse_method :: "string \<Rightarrow> json_map \<Rightarrow> protocol_error + request_method" where
  "parse_method name params =
     (if name = ''ping'' then and_then (reject_unknown params) (\<lambda>_. Inr MPing)
      else if name = ''describe'' then and_then (reject_unknown params) (\<lambda>_. Inr MDescribe)
      else if name = ''list'' then parse_list params
      else if name = ''metadata'' then parse_metadata params
      else if name = ''extract'' then parse_extract params
      else if name = ''find'' then parse_find params
      else if name = ''toggles'' then parse_toggles params
      else if name = ''cancel'' then parse_cancel params
      else Inl (unknown_method name))"

text \<open>
  \<open>doc\<close> is what the JSON parser makes of the line and \<open>trailing\<close> the error of what follows the
  document, if any; \<open>disp\<close> prints an error with its position.
\<close>

definition parse_strict_json ::
    "(json_error \<Rightarrow> string) \<Rightarrow> raw_json \<Rightarrow> string option \<Rightarrow> protocol_error + json" where
  "parse_strict_json disp doc trailing =
     map_err (\<lambda>e. bad_request (''invalid JSON: '' @ disp e))
       (and_then (strict_value doc) (\<lambda>v. closing trailing v))"

definition decode_request ::
    "(json_error \<Rightarrow> string) \<Rightarrow> raw_json \<Rightarrow> string option \<Rightarrow> protocol_error + request" where
  "decode_request disp doc trailing =
     and_then (parse_strict_json disp doc trailing) (\<lambda>v.
     and_then (expect_object v ''request envelope'') (\<lambda>m0.
     and_then (take_required ''v'' m0) (\<lambda>(version, m1).
     and_then (case version of
         JNumber n \<Rightarrow> if as_u64 n = Some (of_nat protocol_version) then Inr () else Inl unsupported_version
       | _ \<Rightarrow> Inl (bad_request ''v must be JSON number 1'')) (\<lambda>_.
     and_then (take_string ''id'' m1) (\<lambda>(i, m2).
     and_then (validate_request_id i) (\<lambda>_.
     and_then (take_string ''method'' m2) (\<lambda>(name, m3).
     and_then (take_required ''params'' m3) (\<lambda>(pv, _).
     and_then (expect_object pv ''params'') (\<lambda>params.
     and_then (parse_method name params) (\<lambda>m.
       Inr \<lparr>req_id = i, req_method = m\<rparr>))))))))))"

definition decode_request_with_active ::
    "(json_error \<Rightarrow> string) \<Rightarrow> raw_json \<Rightarrow> string option \<Rightarrow> (string \<Rightarrow> bool) \<Rightarrow> protocol_error + request" where
  "decode_request_with_active disp doc trailing is_active =
     and_then (decode_request disp doc trailing) (\<lambda>r.
     and_then (validate_inactive r is_active) (\<lambda>_. Inr r))"

subsection \<open>Serialising requests\<close>

definition opt_field :: "string \<Rightarrow> json option \<Rightarrow> (string \<times> json) list" where
  "opt_field k v = (case v of Some j \<Rightarrow> [(k, j)] | None \<Rightarrow> [])"

definition decimal_json :: "u64 \<Rightarrow> json" where
  "decimal_json n = JString (decimal (unat n))"

definition opt_decimal :: "string \<Rightarrow> u64 option \<Rightarrow> (string \<times> json) list" where
  "opt_decimal k v = opt_field k (map_option decimal_json v)"

fun params_fields :: "request_method \<Rightarrow> (string \<times> json) list" where
  "params_fields MPing = []"
| "params_fields MDescribe = []"
| "params_fields (MList p) =
     opt_field ''filter'' (map_option JString (lp_filter p)) @ opt_decimal ''max_rows'' (lp_max_rows p) @
     opt_decimal ''max_response_bytes'' (lp_max_response_bytes p) @ opt_decimal ''timeout_ms'' (lp_timeout_ms p)"
| "params_fields (MMetadata p) =
     opt_decimal ''timeout_ms'' (mp_timeout_ms p) @ opt_decimal ''max_commands'' (mp_max_commands p)"
| "params_fields (MExtract p) =
     [(''signals'', JArray (map JString (ep_signals p)))] @ opt_decimal ''start'' (ep_start p) @
     opt_decimal ''end'' (ep_end p) @ opt_decimal ''max_rows'' (ep_max_rows p) @
     opt_decimal ''max_response_bytes'' (ep_max_response_bytes p) @
     opt_decimal ''max_commands'' (ep_max_commands p) @ opt_decimal ''timeout_ms'' (ep_timeout_ms p)"
| "params_fields (MFind p) =
     [(''signal'', JString (fp_signal p)), (''value'', JString (fp_value p)),
      (''occurrence'', decimal_json (fp_occurrence p))] @ opt_decimal ''start'' (fp_start p) @
     opt_decimal ''end'' (fp_end p) @ opt_decimal ''max_commands'' (fp_max_commands p) @
     opt_decimal ''max_response_bytes'' (fp_max_response_bytes p) @ opt_decimal ''timeout_ms'' (fp_timeout_ms p)"
| "params_fields (MToggles p) =
     [(''signals'', JArray (map JString (tp_signals p)))] @ opt_decimal ''start'' (tp_start p) @
     opt_decimal ''end'' (tp_end p) @ opt_decimal ''max_commands'' (tp_max_commands p) @
     opt_decimal ''max_response_bytes'' (tp_max_response_bytes p) @ opt_decimal ''timeout_ms'' (tp_timeout_ms p)"
| "params_fields (MCancel i) = [(''request_id'', JString i)]"

definition params_value :: "request_method \<Rightarrow> json" where
  "params_value m = json_obj (params_fields m)"

text \<open>The document a JSON parser reads back from a printed value.\<close>

fun raw_of :: "json \<Rightarrow> raw_json" where
  "raw_of JNull = RNull"
| "raw_of (JBool b) = RBool b"
| "raw_of (JNumber (PosInt n)) = RU64 n"
| "raw_of (JNumber (NegInt i)) = RI64 i"
| "raw_of (JNumber (JFloat f)) = RF64 f"
| "raw_of (JString s) = RString s"
| "raw_of (JArray vs) = RSeq (map raw_of vs) None"
| "raw_of (JObject kvs) = RMap (map (\<lambda>p. (fst p, raw_of (snd p))) kvs) None"

definition request_doc :: "request \<Rightarrow> raw_json" where
  "request_doc r =
     RMap [(''v'', RU64 (of_nat protocol_version)), (''id'', RString (req_id r)),
           (''method'', RString (method_name (req_method r))),
           (''params'', raw_of (params_value (req_method r)))] None"

text \<open>The requests the decoder is meant to accept.\<close>

definition id_ok :: "string \<Rightarrow> bool" where
  "id_ok i \<longleftrightarrow> i \<noteq> [] \<and> length i \<le> max_request_id_bytes"

definition window_ok :: "u64 option \<Rightarrow> u64 option \<Rightarrow> bool" where
  "window_ok start stop \<longleftrightarrow> (\<forall>s e. start = Some s \<longrightarrow> stop = Some e \<longrightarrow> s \<le> e)"

definition response_ok :: "u64 option \<Rightarrow> bool" where
  "response_ok limit \<longleftrightarrow> (\<forall>l. limit = Some l \<longrightarrow> terminal_frame_reserve_bytes \<le> l)"

definition signals_ok :: "string list \<Rightarrow> bool" where
  "signals_ok ss \<longleftrightarrow> ss \<noteq> [] \<and> [] \<notin> set ss"

fun method_ok :: "request_method \<Rightarrow> bool" where
  "method_ok (MList p) = response_ok (lp_max_response_bytes p)"
| "method_ok (MExtract p) =
     (signals_ok (ep_signals p) \<and> window_ok (ep_start p) (ep_end p) \<and> response_ok (ep_max_response_bytes p))"
| "method_ok (MFind p) =
     (fp_signal p \<noteq> [] \<and> fp_occurrence p \<noteq> 0 \<and> window_ok (fp_start p) (fp_end p) \<and>
      response_ok (fp_max_response_bytes p))"
| "method_ok (MToggles p) =
     (signals_ok (tp_signals p) \<and> window_ok (tp_start p) (tp_end p) \<and> response_ok (tp_max_response_bytes p))"
| "method_ok (MCancel i) = id_ok i"
| "method_ok _ = True"

definition request_ok :: "request \<Rightarrow> bool" where
  "request_ok r \<longleftrightarrow> id_ok (req_id r) \<and> method_ok (req_method r)"

subsection \<open>What the validators decide\<close>

lemma validate_window_iff [result_iff]: "validate_window s e = Inr u \<longleftrightarrow> window_ok s e"
  by (auto simp: validate_window_def window_ok_def split: option.splits)

lemma validate_response_iff [result_iff]: "validate_response_limit l = Inr u \<longleftrightarrow> response_ok l"
  by (auto simp: validate_response_limit_def response_ok_def not_less split: option.splits)

lemma validate_signals_iff [result_iff]: "validate_signals ss = Inr u \<longleftrightarrow> signals_ok ss"
  by (auto simp: validate_signals_def signals_ok_def list_ex_iff)

lemma validate_id_iff [result_iff]: "validate_request_id i = Inr u \<longleftrightarrow> id_ok i"
  by (auto simp: validate_request_id_def id_ok_def)

lemma reject_unknown_iff [result_iff]: "reject_unknown m = Inr u \<longleftrightarrow> m = []"
  by (auto simp: reject_unknown_def split: list.splits)

lemma validators_ok:
  "window_ok s e \<Longrightarrow> validate_window s e = Inr ()" "response_ok l \<Longrightarrow> validate_response_limit l = Inr ()"
  "signals_ok ss \<Longrightarrow> validate_signals ss = Inr ()" "id_ok i \<Longrightarrow> validate_request_id i = Inr ()"
  by (simp_all add: result_iff)

subsection \<open>Reading back what was written\<close>

definition without :: "string \<Rightarrow> json_map \<Rightarrow> json_map" where
  "without k m = filter (\<lambda>p. fst p \<noteq> k) m"

lemma map_of_without [simp]: "map_of (without k m) = (map_of m)(k := None)"
  by (induction m) (auto simp: without_def fun_upd_def)

lemma take_required_Some [read_back]:
  "map_of m f = Some v \<Longrightarrow> take_required f m = Inr (v, without f m)"
  by (simp add: take_required_def obj_remove_def without_def)

lemma take_string_Some [read_back]:
  "map_of m f = Some (JString s) \<Longrightarrow> take_string f m = Inr (s, without f m)"
  by (simp add: take_string_def take_required_Some)

lemma take_optional_string_opt [read_back]:
  "map_of m f = map_option JString x \<Longrightarrow> take_optional_string f m = Inr (x, without f m)"
  by (cases x) (simp_all add: take_optional_string_def obj_remove_def without_def)

lemma hd_digits_of: "2 \<le> b \<Longrightarrow> hd (digits_of b n) = 0 \<longleftrightarrow> n = 0"
proof (induction b n rule: digits_of.induct)
  case (1 b n)
  show ?case
  proof (cases "n < b")
    case True
    then show ?thesis by (simp add: digits_of_step)
  next
    case False
    with 1 have "n div b \<noteq> 0" "hd (digits_of b (n div b)) = 0 \<longleftrightarrow> n div b = 0"
      by (auto simp: div_eq_0_iff)
    with False 1(2) show ?thesis by (simp add: digits_of_step hd_append)
  qed
qed

lemma decimal_canonical: "\<not> (length (decimal n) > 1 \<and> starts_with (decimal n) ''0'')"
proof
  assume long: "length (decimal n) > 1 \<and> starts_with (decimal n) ''0''"
  obtain d ds where ds: "digits_of 10 n = d # ds" by (cases "digits_of 10 n") auto
  then have d: "d < 10" using digits_of_bound [of 10 d n] by simp
  have "digit_char d = CHR ''0''" using long ds by (simp add: decimal_def to_radix_def starts_with_def)
  then have "byte (digit_char d) = byte (CHR ''0'')" by simp
  then have "d = 0" using d by (simp add: digit_char_byte) (simp add: byte_def)
  then have "n = 0" using hd_digits_of [of 10 n] ds by simp
  with long show False by (simp add: decimal_def to_radix_def digits_of_step)
qed

lemma parse_decimal_u64_decimal: "parse_decimal_u64 (decimal (unat (n :: u64))) f = Inr n"
proof -
  have "\<not> (Suc 0 < length (decimal (unat n)) \<and> starts_with (decimal (unat n)) ''0'')"
    using decimal_canonical [of "unat n"] by simp
  moreover have "decimal (unat n) \<noteq> []" by (simp add: decimal_def)
  moreover have "list_all is_digit (decimal (unat n))" using decimal_digits by (simp add: list_all_iff)
  ultimately show ?thesis
    by (auto simp: parse_decimal_u64_def validate_decimal_def parse_u64_decimal)
qed

lemma take_optional_decimal_opt [read_back]:
  "map_of m f = map_option decimal_json x \<Longrightarrow> take_optional_decimal f m = Inr (x, without f m)"
  by (cases x)
    (simp_all add: take_optional_decimal_def obj_remove_def without_def decimal_json_def
      parse_decimal_u64_decimal)

lemma take_optional_decimal_Some [read_back]:
  "map_of m f = Some (decimal_json x) \<Longrightarrow> take_optional_decimal f m = Inr (Some x, without f m)"
  using take_optional_decimal_opt [of m f "Some x"] by simp

lemma strings_back: "map_result (\<lambda>x. case x of JString s \<Rightarrow> Inr s | _ \<Rightarrow> Inl e) (map JString ss) = Inr ss"
  by (induction ss) simp_all

lemma take_required_strings_Some [read_back]:
  "map_of m f = Some (JArray (map JString ss)) \<Longrightarrow> take_required_strings f m = Inr (ss, without f m)"
  by (simp add: take_required_strings_def take_required_Some strings_back)

lemma reject_unknown_empty: "map_of m = Map.empty \<Longrightarrow> reject_unknown m = Inr ()"
  by (simp add: reject_unknown_def)

lemma lookup_fields: "map_of (obj_of kvs) = map_of (rev kvs)"
  using map_of_obj_of [of "[]" kvs] by (simp add: obj_of_def)

lemma lookup_opt [simp]: "map_of (rev (opt_field k v)) k' = (if k' = k then v else None)"
  by (simp add: opt_field_def split: option.splits)

lemma lookup_opt_decimal [simp]:
  "map_of (rev (opt_decimal k v)) k' = (if k' = k then map_option decimal_json v else None)"
  by (simp add: opt_decimal_def)

lemma option_case_id [simp]: "(case x of None \<Rightarrow> None | Some y \<Rightarrow> Some y) = x"
  by (cases x) auto

lemma option_case_map [simp]: "(case x of None \<Rightarrow> None | Some y \<Rightarrow> Some (f y)) = map_option f x"
  by (cases x) auto

lemmas lookups = lookup_fields map_add_def

lemma list_read_back: "method_ok (MList p) \<Longrightarrow> parse_list (obj_of (params_fields (MList p))) = Inr (MList p)"
proof -
  assume ok: "method_ok (MList p)"
  obtain m where m: "m = obj_of (params_fields (MList p))" by blast
  have look: "map_of m k =
      (if k = ''filter'' then map_option JString (lp_filter p)
       else if k = ''max_rows'' then map_option decimal_json (lp_max_rows p)
       else if k = ''max_response_bytes'' then map_option decimal_json (lp_max_response_bytes p)
       else if k = ''timeout_ms'' then map_option decimal_json (lp_timeout_ms p) else None)" for k
    by (simp add: m lookups split: option.split)
  have "reject_unknown (without ''timeout_ms'' (without ''max_response_bytes'' (without ''max_rows''
      (without ''filter'' m)))) = Inr ()"
    by (rule reject_unknown_empty) (auto simp: look)
  with ok show ?thesis unfolding m [symmetric]
    by (simp add: parse_list_def read_back look validators_ok)
qed

lemma metadata_read_back: "parse_metadata (obj_of (params_fields (MMetadata p))) = Inr (MMetadata p)"
proof -
  obtain m where m: "m = obj_of (params_fields (MMetadata p))" by blast
  have look: "map_of m k =
      (if k = ''timeout_ms'' then map_option decimal_json (mp_timeout_ms p)
       else if k = ''max_commands'' then map_option decimal_json (mp_max_commands p) else None)" for k
    by (simp add: m lookups split: option.split)
  have "reject_unknown (without ''max_commands'' (without ''timeout_ms'' m)) = Inr ()"
    by (rule reject_unknown_empty) (auto simp: look)
  then show ?thesis unfolding m [symmetric] by (simp add: parse_metadata_def read_back look)
qed

lemma extract_read_back:
  "method_ok (MExtract p) \<Longrightarrow> parse_extract (obj_of (params_fields (MExtract p))) = Inr (MExtract p)"
proof -
  assume ok: "method_ok (MExtract p)"
  obtain m where m: "m = obj_of (params_fields (MExtract p))" by blast
  have look: "map_of m k =
      (if k = ''signals'' then Some (JArray (map JString (ep_signals p)))
       else if k = ''start'' then map_option decimal_json (ep_start p)
       else if k = ''end'' then map_option decimal_json (ep_end p)
       else if k = ''max_rows'' then map_option decimal_json (ep_max_rows p)
       else if k = ''max_response_bytes'' then map_option decimal_json (ep_max_response_bytes p)
       else if k = ''max_commands'' then map_option decimal_json (ep_max_commands p)
       else if k = ''timeout_ms'' then map_option decimal_json (ep_timeout_ms p) else None)" for k
    by (simp add: m lookups split: option.split)
  have "reject_unknown (without ''timeout_ms'' (without ''max_commands'' (without ''max_response_bytes''
      (without ''max_rows'' (without ''end'' (without ''start'' (without ''signals'' m))))))) = Inr ()"
    by (rule reject_unknown_empty) (auto simp: look)
  with ok show ?thesis unfolding m [symmetric]
    by (simp add: parse_extract_def read_back look validators_ok)
qed

lemma find_read_back: "method_ok (MFind p) \<Longrightarrow> parse_find (obj_of (params_fields (MFind p))) = Inr (MFind p)"
proof -
  assume ok: "method_ok (MFind p)"
  obtain m where m: "m = obj_of (params_fields (MFind p))" by blast
  have look: "map_of m k =
      (if k = ''signal'' then Some (JString (fp_signal p))
       else if k = ''value'' then Some (JString (fp_value p))
       else if k = ''occurrence'' then Some (decimal_json (fp_occurrence p))
       else if k = ''start'' then map_option decimal_json (fp_start p)
       else if k = ''end'' then map_option decimal_json (fp_end p)
       else if k = ''max_commands'' then map_option decimal_json (fp_max_commands p)
       else if k = ''max_response_bytes'' then map_option decimal_json (fp_max_response_bytes p)
       else if k = ''timeout_ms'' then map_option decimal_json (fp_timeout_ms p) else None)" for k
    by (simp add: m lookups split: option.split)
  have "reject_unknown (without ''timeout_ms'' (without ''max_response_bytes'' (without ''max_commands''
      (without ''end'' (without ''start'' (without ''value'' (without ''occurrence''
      (without ''signal'' m)))))))) = Inr ()"
    by (rule reject_unknown_empty) (auto simp: look)
  with ok show ?thesis unfolding m [symmetric]
    by (simp add: parse_find_def read_back look validators_ok)
qed

lemma toggles_read_back:
  "method_ok (MToggles p) \<Longrightarrow> parse_toggles (obj_of (params_fields (MToggles p))) = Inr (MToggles p)"
proof -
  assume ok: "method_ok (MToggles p)"
  obtain m where m: "m = obj_of (params_fields (MToggles p))" by blast
  have look: "map_of m k =
      (if k = ''signals'' then Some (JArray (map JString (tp_signals p)))
       else if k = ''start'' then map_option decimal_json (tp_start p)
       else if k = ''end'' then map_option decimal_json (tp_end p)
       else if k = ''max_commands'' then map_option decimal_json (tp_max_commands p)
       else if k = ''max_response_bytes'' then map_option decimal_json (tp_max_response_bytes p)
       else if k = ''timeout_ms'' then map_option decimal_json (tp_timeout_ms p) else None)" for k
    by (simp add: m lookups split: option.split)
  have "reject_unknown (without ''timeout_ms'' (without ''max_response_bytes'' (without ''max_commands''
      (without ''end'' (without ''start'' (without ''signals'' m)))))) = Inr ()"
    by (rule reject_unknown_empty) (auto simp: look)
  with ok show ?thesis unfolding m [symmetric]
    by (simp add: parse_toggles_def read_back look validators_ok)
qed

lemma obj_of_small: "obj_of [] = []" "obj_of [(k, v)] = [(k, v)]"
  by (simp_all add: obj_of_def)

lemma fields_read_back:
  assumes "method_ok m"
  shows "parse_method (method_name m) (obj_of (params_fields m)) = Inr m"
  using assms
  by (cases m)
    (simp_all add: parse_method_def list_read_back metadata_read_back extract_read_back find_read_back
      toggles_read_back parse_cancel_def obj_of_small reject_unknown_def take_string_def take_required_def
      obj_remove_def validators_ok del: params_fields.simps(3-7) method_ok.simps(1-4))

text \<open>Printed values read back: canonical values are those a \<^verbatim>\<open>Value\<close> can hold.\<close>

fun canonical :: "json \<Rightarrow> bool" where
  "canonical (JNumber (NegInt i)) = (i < 0)"
| "canonical (JNumber (JFloat f)) = f64_is_finite f"
| "canonical (JArray vs) = (\<forall>v \<in> set vs. canonical v)"
| "canonical (JObject kvs) = (sorted_wrt (<) (map fst kvs) \<and> (\<forall>p \<in> set kvs. canonical (snd p)))"
| "canonical _ = True"

lemma keys_obj_insert: "fst ` set (obj_insert k v m) = insert k (fst ` set m)"
  by (induction k v m rule: obj_insert.induct) auto

lemma sorted_obj_insert: "sorted_wrt (<) (map fst m) \<Longrightarrow> sorted_wrt (<) (map fst (obj_insert k v m))"
proof (induction k v m rule: obj_insert.induct)
  case (2 k v k' v' m)
  have keys: "set (map fst (obj_insert k v m)) = insert k (set (map fst m))"
    using keys_obj_insert [of k v m] by simp
  from 2 show ?case
    by (cases "k = k'"; cases "k < k'") (auto simp: keys simp del: set_map)
qed simp

lemma sorted_obj_of: "sorted_wrt (<) (map fst (obj_of kvs))"
proof -
  have "sorted_wrt (<) (map fst m) \<Longrightarrow>
      sorted_wrt (<) (map fst (foldl (\<lambda>m (k, v). obj_insert k v m) m kvs))" for m
  proof (induction kvs arbitrary: m)
    case (Cons p kvs)
    obtain k v where p: "p = (k, v)" by (cases p)
    show ?case using Cons.IH [OF sorted_obj_insert [OF Cons.prems]] by (simp add: p)
  qed simp
  then show ?thesis by (simp add: obj_of_def)
qed

lemma obj_insert_last: "\<forall>p \<in> set m. fst p < k \<Longrightarrow> obj_insert k v m = m @ [(k, v)]"
  by (induction k v m rule: obj_insert.induct) auto

lemma strict_raw_seq:
  "(\<And>v. v \<in> set vs \<Longrightarrow> strict_value (raw_of v) = Inr v) \<Longrightarrow> strict_seq (map raw_of vs) = Inr vs"
  by (induction vs) auto

lemma strict_raw_map:
  "(\<And>p. p \<in> set kvs \<Longrightarrow> strict_value (raw_of (snd p)) = Inr (snd p)) \<Longrightarrow>
   sorted_wrt (<) (map fst (m @ kvs)) \<Longrightarrow> seen = fst ` set m \<Longrightarrow>
     strict_map seen m (map (\<lambda>p. (fst p, raw_of (snd p))) kvs) = Inr (m @ kvs)"
proof (induction kvs arbitrary: seen m)
  case (Cons p kvs)
  obtain k v where p: "p = (k, v)" by (cases p)
  have less: "\<forall>q \<in> set m. fst q < k" using Cons.prems(2) p by (auto simp: sorted_wrt_append)
  then have "k \<notin> seen" using Cons.prems(3) by auto
  moreover have "strict_value (raw_of v) = Inr v" using Cons.prems(1) [of p] p by simp
  moreover have "strict_map (insert k seen) (m @ [(k, v)]) (map (\<lambda>p. (fst p, raw_of (snd p))) kvs) =
      Inr ((m @ [(k, v)]) @ kvs)"
    using Cons.prems p by (intro Cons.IH) auto
  ultimately show ?case using p less by (simp add: obj_insert_last)
qed simp

lemma strict_raw: "canonical v \<Longrightarrow> strict_value (raw_of v) = Inr v"
proof (induction v rule: raw_of.induct)
  case (7 vs)
  then show ?case by (simp add: strict_raw_seq closing_def)
next
  case (8 kvs)
  then have "strict_map {} [] (map (\<lambda>p. (fst p, raw_of (snd p))) kvs) = Inr ([] @ kvs)"
    by (intro strict_raw_map) auto
  then show ?case by (simp add: closing_def)
qed auto

lemma canonical_obj: "(\<And>p. p \<in> set kvs \<Longrightarrow> canonical (snd p)) \<Longrightarrow> canonical (json_obj kvs)"
  using sorted_obj_of [of kvs] set_obj_of [of "[]" kvs] by (auto simp: json_obj_def obj_of_def)

lemma canonical_params: "canonical (params_value m)"
proof -
  have opt: "p \<in> set (opt_decimal k x) \<Longrightarrow> canonical (snd p)" for p k x
    by (cases x) (auto simp: opt_decimal_def opt_field_def decimal_json_def)
  have "p \<in> set (params_fields m) \<Longrightarrow> canonical (snd p)" for p
    by (cases m) (auto simp: opt_field_def decimal_json_def dest!: opt split: option.splits)
  then show ?thesis unfolding params_value_def by (rule canonical_obj)
qed

definition envelope :: "request \<Rightarrow> (string \<times> json) list" where
  "envelope r = [(''v'', JNumber (PosInt (of_nat protocol_version))), (''id'', JString (req_id r)),
     (''method'', JString (method_name (req_method r))), (''params'', params_value (req_method r))]"

lemma strict_request: "strict_value (request_doc r) = Inr (json_obj (envelope r))"
  using strict_raw [OF canonical_params [of "req_method r"]]
  by (simp add: request_doc_def envelope_def json_obj_def obj_of_def closing_def)

lemma read_request:
  assumes "request_ok r"
  shows "decode_request disp (request_doc r) None = Inr r"
proof -
  obtain m where m: "m = obj_of (envelope r)" by blast
  have look: "map_of m ''v'' = Some (JNumber (PosInt (of_nat protocol_version)))"
    "map_of m ''id'' = Some (JString (req_id r))"
    "map_of m ''method'' = Some (JString (method_name (req_method r)))"
    "map_of m ''params'' = Some (params_value (req_method r))"
    by (simp_all add: m lookups envelope_def)
  have "parse_strict_json disp (request_doc r) None = Inr (JObject m)"
    by (simp add: parse_strict_json_def strict_request closing_def json_obj_def m)
  then show ?thesis
    using assms fields_read_back [of "req_method r"]
    by (simp add: decode_request_def expect_object_def read_back look request_ok_def validators_ok
        params_value_def json_obj_def)
qed

lemma parse_method_ok: "parse_method name params = Inr m \<Longrightarrow> method_ok m \<and> method_name m = name"
  unfolding parse_method_def parse_list_def parse_metadata_def parse_extract_def parse_find_def
    parse_toggles_def parse_cancel_def Let_def
  by (auto simp: result_iff split: if_splits)

lemma decoded_ok: "decode_request disp doc trailing = Inr r \<Longrightarrow> request_ok r \<and> strict_ok doc \<and> trailing = None"
  unfolding decode_request_def parse_strict_json_def closing_def
  using strict_accepts(1) [of doc]
  by (auto simp: result_iff request_ok_def dest!: parse_method_ok split: option.splits)

subsection \<open>Properties\<close>

text \<open>
  C17. A well-formed request survives the wire: decoding the document it serialises to gives the
  request back, whatever its method and parameters.
\<close>

theorem request_round_trip:
  assumes "request_ok r"
  shows "decode_request disp (request_doc r) None = Inr r"
  using assms by (rule read_request)

definition sample_request :: request where
  "sample_request = \<lparr>req_id = ''r1'', req_method = MFind \<lparr>fp_signal = ''top.clk'', fp_value = ''1'',
     fp_occurrence = 2, fp_start = Some 5, fp_end = Some 9, fp_max_commands = None,
     fp_max_response_bytes = Some 8192, fp_timeout_ms = None\<rparr>\<rparr>"

lemma request_round_trip_witness:
  "decode_request (\<lambda>_. []) (request_doc sample_request) None = Inr sample_request"
  by (rule request_round_trip)
    (simp add: sample_request_def request_ok_def id_ok_def max_request_id_bytes_def window_ok_def
      response_ok_def terminal_frame_reserve_bytes_def)

text \<open>
  C18. Whatever the decoder accepts is well formed: the document is complete and has no duplicate
  key, the identifier has 1 to 128 bytes, windows are ordered, signal lists and names are not empty,
  occurrences are positive, and a response limit leaves the terminal reserve; and a request that is
  accepted beside the active ones has an inactive identifier.
\<close>

theorem decoded_requests_are_well_formed:
  assumes "decode_request_with_active disp doc trailing is_active = Inr r"
  shows "request_ok r \<and> \<not> is_active (req_id r) \<and> strict_ok doc \<and> trailing = None"
  using assms
  by (auto simp: decode_request_with_active_def validate_inactive_def result_iff dest!: decoded_ok
      split: if_splits)

definition sample_doc :: raw_json where
  "sample_doc = RMap [(''id'', RString ''r1''), (''v'', RU64 1), (''extra'', RNull),
     (''params'', RMap [] None), (''method'', RString ''ping'')] None"

lemma decoded_requests_are_well_formed_witness:
  "decode_request_with_active (\<lambda>_. []) sample_doc None (\<lambda>i. i = ''r2'') = Inr \<lparr>req_id = ''r1'', req_method = MPing\<rparr> \<and>
   strict_ok sample_doc"
proof -
  have "decode_request_with_active (\<lambda>_. []) sample_doc None (\<lambda>i. i = ''r2'') =
      Inr \<lparr>req_id = ''r1'', req_method = MPing\<rparr>"
    by (simp add: decode_request_with_active_def decode_request_def sample_doc_def parse_strict_json_def
        closing_def expect_object_def take_required_def take_string_def obj_remove_def
        protocol_version_def validate_request_id_def max_request_id_bytes_def parse_method_def
        reject_unknown_def validate_inactive_def less_char_def)
  with decoded_requests_are_well_formed [OF this] show ?thesis by blast
qed

end
