(* ===== verification/Frames.thy ===== *)
theory Frames
  imports Requests
begin

text \<open>
  The response frames of src/server/protocol.rs: wire values, the five kinds of frame with their
  constructors, the cumulative byte count of a stream, and the successful end frame, which states
  the size of the whole stream including itself.

  The JSON printer is external: \<open>enc\<close> gives the encoded length of a frame, newline included.
\<close>

subsection \<open>Wire values\<close>

record wire_timescale =
  wt_magnitude :: string
  wt_unit :: string

definition wire_timescale_of :: "(timescale_unit \<Rightarrow> string) \<Rightarrow> timescale \<Rightarrow> wire_timescale" where
  "wire_timescale_of disp_unit t =
     \<lparr>wt_magnitude = decimal (unat (ts_magnitude t)), wt_unit = disp_unit (ts_unit t)\<rparr>"

datatype wire_value =
    WInteger string
  | WFloat string string \<comment> \<open>text, bits\<close>
  | WText string

fun wire_value_of :: "displays \<Rightarrow> change_value \<Rightarrow> wire_value" where
  "wire_value_of D (Integer i) = WInteger (decimal (unat i))"
| "wire_value_of D (Float f) = WFloat (disp_f64 D f) (hex_pad 16 (unat f))"
| "wire_value_of D (Text t) = WText t"

text \<open>What a client recovers from a wire value.\<close>

fun value_of_wire :: "wire_value \<Rightarrow> change_value option" where
  "value_of_wire (WInteger t) = map_option Integer (parse_u128 t)"
| "value_of_wire (WFloat _ bits) = map_option (\<lambda>n. Float (of_nat n)) (from_str_radix 16 u64_max bits)"
| "value_of_wire (WText t) = Some (Text t)"

lemma value_of_wire_value_of: "value_of_wire (wire_value_of D v) = Some v"
proof (cases v)
  case (Float f)
  have "unat f \<le> u64_max" using unat_less_exp [of f] by (simp add: u64_max_def)
  with Float show ?thesis by (simp add: parse_hex_pad)
qed (simp_all add: parse_u128_decimal)

subsection \<open>Frames\<close>

record stream_stats =
  ss_rows :: string
  ss_encoded_bytes :: string
  ss_elapsed_ms :: string
  ss_commands :: string
  ss_backend :: string

record result_frame =
  rf_v :: nat
  rf_id :: string
  rf_seq :: u32
  rf_type :: string
  rf_ok :: bool
  rf_result :: json

record error_frame =
  ef_v :: nat
  ef_id :: "string option"
  ef_seq :: u32
  ef_type :: string
  ef_ok :: bool
  ef_error :: protocol_error

record begin_frame =
  bf_v :: nat
  bf_id :: string
  bf_seq :: u32
  bf_type :: string
  bf_schema :: string
  bf_generation :: string

record chunk_frame =
  cf_v :: nat
  cf_id :: string
  cf_seq :: u32
  cf_type :: string
  cf_rows :: "json list"

record end_frame =
  nf_v :: nat
  nf_id :: string
  nf_seq :: u32
  nf_type :: string
  nf_complete :: bool
  nf_stats :: "stream_stats option"
  nf_error :: "protocol_error option"

datatype response_frame =
    FResult result_frame
  | FError error_frame
  | FBegin begin_frame
  | FChunk chunk_frame
  | FEnd end_frame

text \<open>\<open>value\<close> is the serialised result.\<close>

definition frame_result :: "string \<Rightarrow> json \<Rightarrow> response_frame" where
  "frame_result i value = FResult \<lparr>rf_v = protocol_version, rf_id = i, rf_seq = 0, rf_type = ''result'',
     rf_ok = True, rf_result = value\<rparr>"

definition frame_error :: "string option \<Rightarrow> u32 \<Rightarrow> protocol_error \<Rightarrow> response_frame" where
  "frame_error i sq e = FError \<lparr>ef_v = protocol_version, ef_id = i, ef_seq = sq, ef_type = ''error'',
     ef_ok = False, ef_error = e\<rparr>"

definition frame_begin :: "string \<Rightarrow> string \<Rightarrow> string \<Rightarrow> response_frame" where
  "frame_begin i schema generation = FBegin \<lparr>bf_v = protocol_version, bf_id = i, bf_seq = 0,
     bf_type = ''begin'', bf_schema = schema, bf_generation = generation\<rparr>"

definition frame_chunk :: "string \<Rightarrow> u32 \<Rightarrow> json list \<Rightarrow> response_frame" where
  "frame_chunk i sq rows = FChunk \<lparr>cf_v = protocol_version, cf_id = i, cf_seq = sq, cf_type = ''chunk'',
     cf_rows = rows\<rparr>"

definition end_frame_of :: "string \<Rightarrow> u32 \<Rightarrow> stream_stats \<Rightarrow> response_frame" where
  "end_frame_of i sq stats = FEnd \<lparr>nf_v = protocol_version, nf_id = i, nf_seq = sq, nf_type = ''end'',
     nf_complete = True, nf_stats = Some stats, nf_error = None\<rparr>"

definition frame_end_error :: "string \<Rightarrow> u32 \<Rightarrow> protocol_error \<Rightarrow> response_frame" where
  "frame_end_error i sq e = FEnd \<lparr>nf_v = protocol_version, nf_id = i, nf_seq = sq, nf_type = ''end'',
     nf_complete = False, nf_stats = None, nf_error = Some e\<rparr>"

subsection \<open>Byte counts\<close>

type_synonym encoder = "response_frame \<Rightarrow> string + nat"

definition add_bytes :: "u64 \<Rightarrow> nat \<Rightarrow> string \<Rightarrow> string + u64" where
  "add_bytes tot bytes too_long =
     (if bytes > u64_max then Inl too_long
      else ok_or ''encoded stream byte count overflow'' (checked_add tot (of_nat bytes)))"

fun cumulative_bytes :: "encoder \<Rightarrow> u64 \<Rightarrow> response_frame list \<Rightarrow> string + u64" where
  "cumulative_bytes enc tot [] = Inr tot"
| "cumulative_bytes enc tot (f # fs) =
     and_then (enc f) (\<lambda>bytes.
     and_then (add_bytes tot bytes ''encoded frame length exceeds u64'') (\<lambda>tot'.
       cumulative_bytes enc tot' fs))"

text \<open>The loop of \<^verbatim>\<open>end_success\<close>: at most \<open>n\<close> more candidates are tried.\<close>

fun end_loop ::
    "encoder \<Rightarrow> (u64 \<Rightarrow> response_frame) \<Rightarrow> u64 \<Rightarrow> nat \<Rightarrow> u64 \<Rightarrow> string + response_frame" where
  "end_loop enc frame prior 0 candidate = Inl ''encoded stream byte count did not stabilize''"
| "end_loop enc frame prior (Suc n) candidate =
     and_then (enc (frame candidate)) (\<lambda>bytes.
     and_then (add_bytes prior bytes ''encoded end frame length exceeds u64'') (\<lambda>tot.
       if tot = candidate then Inr (frame candidate) else end_loop enc frame prior n tot))"

definition with_encoded :: "string \<Rightarrow> u32 \<Rightarrow> stream_stats \<Rightarrow> u64 \<Rightarrow> response_frame" where
  "with_encoded i sq stats candidate =
     end_frame_of i sq (stats\<lparr>ss_encoded_bytes := decimal (unat candidate)\<rparr>)"

definition end_success :: "encoder \<Rightarrow> string \<Rightarrow> u32 \<Rightarrow> stream_stats \<Rightarrow> u64 \<Rightarrow> string + response_frame" where
  "end_success enc i sq stats prior = end_loop enc (with_encoded i sq stats) prior 32 0"

subsection \<open>The byte count stabilises\<close>

lemma length_decimal_mono: "m \<le> n \<Longrightarrow> length (decimal m) \<le> length (decimal n)"
  by (simp add: decimal_def length_to_radix length_digits_mono)

lemma length_decimal_u64: "n < 2 ^ 64 \<Longrightarrow> length (decimal n) \<le> 20"
  by (simp add: decimal_def length_to_radix length_digits_exp)

lemma add_bytes_Inr:
  "unat tot + bytes < 2 ^ 64 \<Longrightarrow> add_bytes tot bytes e = Inr (tot + of_nat bytes) \<and>
     unat (tot + of_nat bytes) = unat tot + bytes"
  by (simp add: add_bytes_def u64_max_def checked_add_def unat_add_no_overflow unsigned_of_nat take_bit_nat_eq_self)

text \<open>
  The printer writes the digits of the count as they are, so the length of the end frame is that of
  the rest of it plus the number of digits.
\<close>

definition digits_encoded :: "encoder \<Rightarrow> (u64 \<Rightarrow> response_frame) \<Rightarrow> nat \<Rightarrow> bool" where
  "digits_encoded enc frame k \<longleftrightarrow> (\<forall>c. enc (frame c) = Inr (k + length (decimal (unat c))))"

lemma end_loop_step:
  assumes enc: "digits_encoded enc frame k" and fits: "unat prior + k + 20 < 2 ^ 64"
  obtains tot where
    "end_loop enc frame prior (Suc n) c =
       (if tot = c then Inr (frame c) else end_loop enc frame prior n tot)"
    and "unat tot = unat prior + k + length (decimal (unat c))"
proof -
  have "length (decimal (unat c)) \<le> 20" using unat_less_exp [of c] by (intro length_decimal_u64) simp
  then have "unat prior + (k + length (decimal (unat c))) < 2 ^ 64" using fits by simp
  from add_bytes_Inr [OF this, of "''encoded end frame length exceeds u64''"] enc
  show ?thesis by (intro that [of "prior + of_nat (k + length (decimal (unat c)))"])
    (simp_all add: digits_encoded_def)
qed

lemma end_loop_stabilises:
  assumes enc: "digits_encoded enc frame k" and fits: "unat prior + k + 20 < 2 ^ 64"
  shows "unat c \<le> unat prior + k + length (decimal (unat c)) \<Longrightarrow> 22 \<le> n + length (decimal (unat c)) \<Longrightarrow>
    \<exists>final. end_loop enc frame prior n c = Inr (frame final) \<and>
      unat final = unat prior + k + length (decimal (unat final))"
proof (induction n arbitrary: c)
  case 0
  have "length (decimal (unat c)) \<le> 20" using unat_less_exp [of c] by (intro length_decimal_u64) simp
  with 0 show ?case by simp
next
  case (Suc n)
  obtain tot where step: "end_loop enc frame prior (Suc n) c =
       (if tot = c then Inr (frame c) else end_loop enc frame prior n tot)"
    and tot: "unat tot = unat prior + k + length (decimal (unat c))"
    using end_loop_step [OF enc fits] by blast
  show ?case
  proof (cases "tot = c")
    case True
    with step tot show ?thesis by auto
  next
    case False
    have up: "unat c \<le> unat tot" using Suc.prems(1) tot by simp
    have len: "length (decimal (unat c)) \<le> length (decimal (unat tot))"
      by (rule length_decimal_mono [OF up])
    show ?thesis
    proof (cases "length (decimal (unat tot)) = length (decimal (unat c))")
      case True
      have "length (decimal (unat c)) \<le> 20" using unat_less_exp [of c] by (intro length_decimal_u64) simp
      then obtain m where n: "n = Suc m" using Suc.prems(2) by (cases n) auto
      obtain tot' where step': "end_loop enc frame prior (Suc m) tot =
           (if tot' = tot then Inr (frame tot) else end_loop enc frame prior m tot')"
        and "unat tot' = unat prior + k + length (decimal (unat tot))"
        using end_loop_step [OF enc fits] by blast
      then have "tot' = tot" using True tot by (simp add: word_unat_eq_iff)
      with step step' False n tot True show ?thesis by auto
    next
      case longer: False
      have "\<exists>final. end_loop enc frame prior n tot = Inr (frame final) \<and>
          unat final = unat prior + k + length (decimal (unat final))"
        using Suc.prems(2) len longer tot by (intro Suc.IH) linarith+
      with step False show ?thesis by simp
    qed
  qed
qed

lemma cumulative_append:
  "cumulative_bytes enc t (fs @ gs) = and_then (cumulative_bytes enc t fs) (\<lambda>u. cumulative_bytes enc u gs)"
proof (induction fs arbitrary: t)
  case (Cons f fs)
  show ?case
  proof (cases "enc f")
    case (Inr b)
    with Cons show ?thesis by (cases "add_bytes t b ''encoded frame length exceeds u64''") simp_all
  qed simp
qed simp

subsection \<open>Properties\<close>

text \<open>
  C19. The end frame of a successful stream states the size of the whole stream, itself included:
  when the printer writes the digits of the count as they are and the stream is not as long as the
  64-bit count allows, the loop finds the count within its 32 attempts, and the count is the
  cumulative size of the earlier frames and this one.
\<close>

theorem end_frame_counts_itself:
  assumes "digits_encoded enc (with_encoded i sq stats) k" and "unat prior + k + 20 < 2 ^ 64"
    and "cumulative_bytes enc 0 frames = Inr prior"
  shows "\<exists>n. end_success enc i sq stats prior = Inr (with_encoded i sq stats n) \<and>
    cumulative_bytes enc 0 (frames @ [with_encoded i sq stats n]) = Inr n"
proof -
  have "length (decimal 0) = 1" by (simp add: decimal_def to_radix_def digits_of_step)
  then obtain n where n: "end_success enc i sq stats prior = Inr (with_encoded i sq stats n)"
    and count: "unat n = unat prior + k + length (decimal (unat n))"
    using end_loop_stabilises [OF assms(1,2), of 0 32] by (auto simp: end_success_def)
  have "unat prior + (k + length (decimal (unat n))) < 2 ^ 64"
    using count unat_less_exp [of n] by simp
  from add_bytes_Inr [OF this, of "''encoded frame length exceeds u64''"]
  have add: "add_bytes prior (k + length (decimal (unat n))) ''encoded frame length exceeds u64'' = Inr n"
    using count by (metis add.assoc word_unat_eq_iff)
  have "cumulative_bytes enc 0 (frames @ [with_encoded i sq stats n]) = Inr n"
    using assms(1,3) add by (simp add: cumulative_append digits_encoded_def)
  with n show ?thesis by blast
qed

definition sample_encoder :: encoder where
  "sample_encoder f =
     (case f of
        FEnd e \<Rightarrow> Inr (100 + (case nf_stats e of Some st \<Rightarrow> length (ss_encoded_bytes st) | None \<Rightarrow> 0))
      | _ \<Rightarrow> Inr 890)"

definition sample_stats :: stream_stats where
  "sample_stats = \<lparr>ss_rows = ''0'', ss_encoded_bytes = [], ss_elapsed_ms = ''1'', ss_commands = ''7'',
     ss_backend = ''stream''\<rparr>"

lemma end_frame_counts_itself_witness:
  "\<exists>n. end_success sample_encoder ''r1'' 1 sample_stats 890 = Inr (with_encoded ''r1'' 1 sample_stats n) \<and>
    cumulative_bytes sample_encoder 0 [frame_begin ''r1'' ''list.v1'' ''7'', with_encoded ''r1'' 1 sample_stats n] = Inr n"
proof -
  have digits: "digits_encoded sample_encoder (with_encoded ''r1'' 1 sample_stats) 100"
    by (simp add: digits_encoded_def sample_encoder_def with_encoded_def end_frame_of_def)
  have begin_size: "cumulative_bytes sample_encoder 0 [frame_begin ''r1'' ''list.v1'' ''7''] = Inr 890"
    by (simp add: sample_encoder_def frame_begin_def add_bytes_def checked_add_def u64_max_def)
  from end_frame_counts_itself [OF digits _ begin_size] show ?thesis by simp
qed

end
