(* ===== verification/Output.thy ===== *)
theory Output
  imports Frames
begin

text \<open>
  The output side of src/server/runtime.rs: the size-capped frame encoder, the output sink with its
  lifecycle (one response per request: a single frame, or begin, chunks and end), the loops that
  hand frames to the bounded channel of the connection, and what a worker does for one job.

  What happens around a sink is an \<open>output_env\<close>: for every turn of a sending loop it says whether
  the request is cancelled, what the clock shows, whether the connection is disconnected, what
  \<^verbatim>\<open>try_send\<close> answers and whether the grace period is over; and it gives the pieces the JSON
  printer writes for a frame and whether it succeeds. The ghost field \<open>sk_sent\<close> records the frames
  the channel accepted. Statistics other than forced disconnects are not modelled.
\<close>

subsection \<open>The capped writer\<close>

record capped_writer =
  cw_bytes :: string
  cw_cap :: nat
  cw_exceeded :: bool
  cw_attempted :: nat

definition new_capped_writer :: "nat \<Rightarrow> capped_writer" where
  "new_capped_writer max_bytes =
     \<lparr>cw_bytes = [], cw_cap = max_bytes - 1, cw_exceeded = False, cw_attempted = 0\<rparr>"

text \<open>The flag is whether the write succeeded.\<close>

definition capped_write :: "capped_writer \<Rightarrow> string \<Rightarrow> capped_writer \<times> bool" where
  "capped_write w buffer =
     (let attempted = length (cw_bytes w) + length buffer;
          w' = w\<lparr>cw_attempted := max (cw_attempted w) attempted\<rparr> in
      if attempted > cw_cap w then (w'\<lparr>cw_exceeded := True\<rparr>, False)
      else (w'\<lparr>cw_bytes := cw_bytes w @ buffer\<rparr>, True))"

text \<open>The printer writes its pieces until one is refused.\<close>

fun write_pieces :: "capped_writer \<Rightarrow> string list \<Rightarrow> bool \<Rightarrow> capped_writer \<times> bool" where
  "write_pieces w [] ok = (w, ok)"
| "write_pieces w (p # ps) ok =
     (case capped_write w p of (w', True) \<Rightarrow> write_pieces w' ps ok | (w', False) \<Rightarrow> (w', False))"

subsection \<open>The sink\<close>

datatype send_result = Sent | Full | Gone

record send_poll =
  sp_cancelled :: bool
  sp_now :: nat
  sp_disconnected :: bool
  sp_send :: send_result
  sp_expired :: bool
  sp_held :: bool \<comment> \<open>another request holds the scan permit\<close>

record output_env =
  oe_poll :: "nat \<Rightarrow> send_poll"
  oe_pieces :: "response_frame \<Rightarrow> string list \<times> bool"

datatype lifecycle = NotStarted | Streaming u32 | Terminal

record sink =
  sk_id :: string
  sk_lifecycle :: lifecycle
  sk_max_bytes :: nat
  sk_deadline :: "nat option"
  sk_disconnected :: bool
  sk_forced :: nat
  sk_tick :: nat
  sk_sent :: "response_frame list"

text \<open>\<^verbatim>\<open>RequestContext::check\<close>\<close>

definition request_check :: "nat option \<Rightarrow> send_poll \<Rightarrow> protocol_error + unit" where
  "request_check dl p =
     (if sp_cancelled p then Inl (protocol_error_new ECancelled ''query cancelled'' (json_obj []) False)
      else if (case dl of Some d \<Rightarrow> sp_now p \<ge> d | None \<Rightarrow> False)
      then Inl (protocol_error_new EDeadlineExceeded ''query deadline exceeded'' (json_obj []) True)
      else Inr ())"

definition lifecycle_error :: "string \<Rightarrow> protocol_error" where
  "lifecycle_error m = protocol_error_new EInternal m (json_obj []) False"

definition validate_frame :: "sink \<Rightarrow> response_frame \<Rightarrow> protocol_error + lifecycle" where
  "validate_frame sk f =
     (let violation = Inl (lifecycle_error ''response frame violates request lifecycle or sequence'') in
      case (sk_lifecycle sk, f) of
        (NotStarted, FResult r) \<Rightarrow>
          if rf_id r = sk_id sk \<and> rf_seq r = 0 then Inr Terminal else violation
      | (NotStarted, FError e) \<Rightarrow>
          if ef_id e = Some (sk_id sk) \<and> ef_seq e = 0 then Inr Terminal else violation
      | (NotStarted, FBegin b) \<Rightarrow>
          if bf_id b = sk_id sk \<and> bf_seq b = 0 then Inr (Streaming 1) else violation
      | (Streaming next_seq, FChunk c) \<Rightarrow>
          if cf_id c = sk_id sk \<and> cf_seq c = next_seq
          then and_then (ok_or (lifecycle_error ''response sequence overflow'') (checked_add next_seq 1))
                 (\<lambda>n. Inr (Streaming n))
          else violation
      | (Streaming next_seq, FEnd e) \<Rightarrow>
          if nf_id e = sk_id sk \<and> nf_seq e = next_seq then Inr Terminal else violation
      | (Terminal, _) \<Rightarrow> Inl (lifecycle_error ''response already terminated'')
      | _ \<Rightarrow> violation)"

definition encode_bounded :: "output_env \<Rightarrow> nat \<Rightarrow> response_frame \<Rightarrow> protocol_error + string" where
  "encode_bounded env max_bytes f =
     (case oe_pieces env f of (pieces, ok) \<Rightarrow>
      case write_pieces (new_capped_writer max_bytes) pieces ok of (w, written) \<Rightarrow>
        if cw_exceeded w then
          Inl (protocol_error_new ELimitExceeded ''encoded response frame exceeds configured byte limit''
            (json_obj [(''kind'', JString ''encoded_frame_bytes''), (''limit'', JString (decimal max_bytes)),
                       (''actual'', JString (decimal (cw_attempted w + 1)))]) False)
        else if \<not> written then
          Inl (protocol_error_new EInternal ''response serialization failed'' (json_obj []) False)
        else Inr (cw_bytes w @ [newline]))"

definition disconnected_error :: protocol_error where
  "disconnected_error = protocol_error_new ECancelled ''connection disconnected'' (json_obj []) False"

definition deliver :: "response_frame \<Rightarrow> lifecycle \<Rightarrow> sink \<Rightarrow> sink" where
  "deliver f next_state sk = sk\<lparr>sk_lifecycle := next_state, sk_sent := sk_sent sk @ [f]\<rparr>"

partial_function (option) send_loop ::
    "output_env \<Rightarrow> response_frame \<Rightarrow> lifecycle \<Rightarrow> sink \<Rightarrow> ((protocol_error + unit) \<times> sink) option" where
  "send_loop env f next_state sk =
     (let p = oe_poll env (sk_tick sk); sk' = sk\<lparr>sk_tick := sk_tick sk + 1\<rparr> in
      case request_check (sk_deadline sk) p of
        Inl e \<Rightarrow> Some (Inl e, sk')
      | Inr _ \<Rightarrow>
          if sk_disconnected sk \<or> sp_disconnected p then Some (Inl disconnected_error, sk')
          else (case sp_send p of
              Sent \<Rightarrow> Some (Inr (), deliver f next_state sk')
            | Full \<Rightarrow> send_loop env f next_state sk'
            | Gone \<Rightarrow> Some (Inl disconnected_error, sk'\<lparr>sk_disconnected := True\<rparr>)))"

text \<open>\<open>None\<close>: the loop does not end.\<close>

definition send_frame ::
    "output_env \<Rightarrow> response_frame \<Rightarrow> sink \<Rightarrow> ((protocol_error + unit) \<times> sink) option" where
  "send_frame env f sk =
     (case validate_frame sk f of
        Inl e \<Rightarrow> Some (Inl e, sk)
      | Inr next_state \<Rightarrow>
          (case encode_bounded env (sk_max_bytes sk) f of
             Inl e \<Rightarrow> Some (Inl e, sk)
           | Inr _ \<Rightarrow> send_loop env f next_state sk))"

definition force_disconnect :: "output_env \<Rightarrow> sink \<Rightarrow> sink" where
  "force_disconnect env sk =
     (let is_disconnected = sk_disconnected sk \<or> sp_disconnected (oe_poll env (sk_tick sk)) in
      sk\<lparr>sk_tick := sk_tick sk + 1, sk_disconnected := True,
         sk_forced := (if is_disconnected then sk_forced sk else sk_forced sk + 1)\<rparr>)"

partial_function (option) terminal_loop :: "output_env \<Rightarrow> response_frame \<Rightarrow> sink \<Rightarrow> sink option" where
  "terminal_loop env f sk =
     (let p = oe_poll env (sk_tick sk); sk' = sk\<lparr>sk_tick := sk_tick sk + 1\<rparr> in
      if sk_disconnected sk \<or> sp_disconnected p then Some sk'
      else (case sp_send p of
          Sent \<Rightarrow> Some (deliver f Terminal sk')
        | Full \<Rightarrow> if sp_expired p then Some (force_disconnect env sk') else terminal_loop env f sk'
        | Gone \<Rightarrow> Some (force_disconnect env sk')))"

definition required_terminal :: "output_env \<Rightarrow> protocol_error \<Rightarrow> sink \<Rightarrow> sink option" where
  "required_terminal env e sk =
     (let send = (\<lambda>f. case encode_bounded env (sk_max_bytes sk) f of
          Inl _ \<Rightarrow> Some (force_disconnect env sk)
        | Inr _ \<Rightarrow> terminal_loop env f sk) in
      case sk_lifecycle sk of
        Terminal \<Rightarrow> Some sk
      | NotStarted \<Rightarrow> send (frame_error (Some (sk_id sk)) 0 e)
      | Streaming next_seq \<Rightarrow> send (frame_end_error (sk_id sk) next_seq e))"

definition ensure_terminal :: "output_env \<Rightarrow> sink \<Rightarrow> sink option" where
  "ensure_terminal env sk =
     (if sk_lifecycle sk \<noteq> Terminal
      then required_terminal env
        (protocol_error_new EInternal ''dispatcher returned without a terminal response'' (json_obj []) False) sk
      else Some sk)"

subsection \<open>Actions of a request\<close>

text \<open>
  What the code of a request does is a function on its sink that may fail, and may never return.
\<close>

type_synonym ('e, 'a) action = "sink \<Rightarrow> (('e + 'a) \<times> sink) option"

definition act_return :: "'a \<Rightarrow> ('e, 'a) action" where
  "act_return x = (\<lambda>sk. Some (Inr x, sk))"

definition act_lift :: "'e + 'a \<Rightarrow> ('e, 'a) action" where
  "act_lift r = (\<lambda>sk. Some (r, sk))"

definition act_bind :: "('e, 'a) action \<Rightarrow> ('a \<Rightarrow> ('e, 'b) action) \<Rightarrow> ('e, 'b) action" where
  "act_bind m k = (\<lambda>sk. case m sk of
     None \<Rightarrow> None | Some (Inl e, sk') \<Rightarrow> Some (Inl e, sk') | Some (Inr x, sk') \<Rightarrow> k x sk')"

definition act_map_err :: "('e \<Rightarrow> 'f) \<Rightarrow> ('e, 'a) action \<Rightarrow> ('f, 'a) action" where
  "act_map_err g m = (\<lambda>sk. map_option (\<lambda>(r, sk'). (map_err g r, sk')) (m sk))"

text \<open>\<^verbatim>\<open>runtime.check()\<close>, and \<^verbatim>\<open>check()\<close> of the query context made from it.\<close>

definition runtime_check :: "output_env \<Rightarrow> (protocol_error, unit) action" where
  "runtime_check env = (\<lambda>sk.
     Some (request_check (sk_deadline sk) (oe_poll env (sk_tick sk)), sk\<lparr>sk_tick := sk_tick sk + 1\<rparr>))"

definition query_check :: "output_env \<Rightarrow> (query_error, unit) action" where
  "query_check env = (\<lambda>sk. let p = oe_poll env (sk_tick sk) in
     Some (if sp_cancelled p then Inl Cancelled
           else if (case sk_deadline sk of Some d \<Rightarrow> sp_now p \<ge> d | None \<Rightarrow> False) then Inl DeadlineExceeded
           else Inr (),
           sk\<lparr>sk_tick := sk_tick sk + 1\<rparr>))"

text \<open>\<^verbatim>\<open>ScanGate::acquire\<close>: the permit is free when no other request holds it.\<close>

partial_function (option) gate_acquire :: "output_env \<Rightarrow> sink \<Rightarrow> ((protocol_error + unit) \<times> sink) option" where
  "gate_acquire env sk =
     (let p = oe_poll env (sk_tick sk); sk' = sk\<lparr>sk_tick := sk_tick sk + 1\<rparr> in
      case request_check (sk_deadline sk) p of
        Inl e \<Rightarrow> Some (Inl e, sk')
      | Inr _ \<Rightarrow> if sp_held p then gate_acquire env sk' else Some (Inr (), sk'))"

definition with_expensive_scan ::
    "output_env \<Rightarrow> (protocol_error, 'a) action \<Rightarrow> (protocol_error, 'a) action" where
  "with_expensive_scan env work = act_bind (gate_acquire env) (\<lambda>_. work)"

subsection \<open>A worker's job\<close>

datatype job_result = JobOk | JobErr protocol_error | JobPanic

definition run_job :: "output_env \<Rightarrow> (sink \<Rightarrow> (job_result \<times> sink) option) \<Rightarrow> sink \<Rightarrow> sink option" where
  "run_job env dispatch sk =
     (let sk' = sk\<lparr>sk_tick := sk_tick sk + 1\<rparr> in
      case request_check (sk_deadline sk) (oe_poll env (sk_tick sk)) of
        Inl e \<Rightarrow> required_terminal env e sk'
      | Inr _ \<Rightarrow>
          (case dispatch sk' of
             None \<Rightarrow> None
           | Some (JobOk, s) \<Rightarrow> ensure_terminal env s
           | Some (JobErr e, s) \<Rightarrow> required_terminal env e s
           | Some (JobPanic, s) \<Rightarrow> required_terminal env
               (protocol_error_new EInternal ''internal server error'' (json_obj []) False) s))"

definition new_sink :: "string \<Rightarrow> nat \<Rightarrow> nat option \<Rightarrow> sink" where
  "new_sink i max_bytes dl = \<lparr>sk_id = i, sk_lifecycle = NotStarted, sk_max_bytes = max_bytes,
     sk_deadline = dl, sk_disconnected = False, sk_forced = 0, sk_tick = 0, sk_sent = []\<rparr>"

subsection \<open>What the encoder guarantees\<close>

lemma capped_write_result:
  "capped_write w b = (w', ok) \<Longrightarrow>
     cw_cap w' = cw_cap w \<and>
     (if length (cw_bytes w) + length b \<le> cw_cap w
      then ok \<and> cw_bytes w' = cw_bytes w @ b \<and> cw_exceeded w' = cw_exceeded w
      else \<not> ok \<and> cw_exceeded w')"
  by (auto simp: capped_write_def Let_def split: if_splits)

lemma write_pieces_result:
  "write_pieces w ps ok = (w', written) \<Longrightarrow> \<not> cw_exceeded w \<Longrightarrow> length (cw_bytes w) \<le> cw_cap w \<Longrightarrow>
     (if length (cw_bytes w) + length (concat ps) \<le> cw_cap w
      then written = ok \<and> cw_bytes w' = cw_bytes w @ concat ps \<and> \<not> cw_exceeded w'
      else cw_exceeded w')"
proof (induction w ps ok rule: write_pieces.induct)
  case (2 w p ps ok)
  obtain w1 b where wr: "capped_write w p = (w1, b)" by (cases "capped_write w p")
  show ?case
  proof (cases "length (cw_bytes w) + length p \<le> cw_cap w")
    case True
    with capped_write_result [OF wr] 2(1) [OF wr [symmetric]] 2(2-) wr show ?thesis
      by (cases b) (simp_all add: add.assoc)
  next
    case False
    with capped_write_result [OF wr] 2(2) wr show ?thesis by (cases b) simp_all
  qed
qed simp

lemma encode_bounded_iff:
  "0 < max_bytes \<Longrightarrow> encode_bounded env max_bytes f = Inr bytes \<longleftrightarrow>
     snd (oe_pieces env f) \<and> bytes = concat (fst (oe_pieces env f)) @ [newline] \<and> length bytes \<le> max_bytes"
proof -
  assume max: "0 < max_bytes"
  obtain ps ok where p: "oe_pieces env f = (ps, ok)" by (cases "oe_pieces env f")
  obtain w b where w: "write_pieces (new_capped_writer max_bytes) ps ok = (w, b)"
    by (cases "write_pieces (new_capped_writer max_bytes) ps ok")
  have "encode_bounded env max_bytes f = Inr bytes \<longleftrightarrow> \<not> cw_exceeded w \<and> b \<and> bytes = cw_bytes w @ [newline]"
    by (auto simp: encode_bounded_def p w)
  with write_pieces_result [OF w] max show ?thesis
    by (auto simp: p new_capped_writer_def split: if_splits)
qed

subsection \<open>What the sending loops do\<close>

definition same_sink :: "sink \<Rightarrow> sink \<Rightarrow> bool" where
  "same_sink sk sk' \<longleftrightarrow> sk_id sk' = sk_id sk \<and> sk_max_bytes sk' = sk_max_bytes sk \<and>
     sk_deadline sk' = sk_deadline sk \<and> sk_tick sk \<le> sk_tick sk' \<and>
     (sk_disconnected sk \<longrightarrow> sk_disconnected sk')"

lemma same_sink_refl [simp]: "same_sink sk sk"
  by (simp add: same_sink_def)

lemma same_sink_trans: "same_sink a b \<Longrightarrow> same_sink b c \<Longrightarrow> same_sink a c"
  by (auto simp: same_sink_def)

definition sent_or_failed ::
    "response_frame \<Rightarrow> lifecycle \<Rightarrow> sink \<Rightarrow> (protocol_error + unit) \<times> sink \<Rightarrow> bool" where
  "sent_or_failed f next_state sk out \<longleftrightarrow> (case out of (r, sk') \<Rightarrow> same_sink sk sk' \<and>
     (case r of
        Inr _ \<Rightarrow> sk_sent sk' = sk_sent sk @ [f] \<and> sk_lifecycle sk' = next_state
      | Inl _ \<Rightarrow> sk_sent sk' = sk_sent sk \<and> sk_lifecycle sk' = sk_lifecycle sk))"


lemma send_loop_result:
  assumes "send_loop env f next_state sk = Some out"
  shows "sent_or_failed f next_state sk out"
proof (rule send_loop.raw_induct [of "\<lambda>_ f n sk out. sent_or_failed f n sk out", OF _ assms])
  fix loop env f next_state sk out
  assume IH: "\<And>env f n sk out. loop env f n sk = Some out \<Longrightarrow> sent_or_failed f n sk out"
    and step: "(let p = oe_poll env (sk_tick sk); sk' = sk\<lparr>sk_tick := sk_tick sk + 1\<rparr> in
      case request_check (sk_deadline sk) p of
        Inl e \<Rightarrow> Some (Inl e, sk')
      | Inr _ \<Rightarrow>
          if sk_disconnected sk \<or> sp_disconnected p then Some (Inl disconnected_error, sk')
          else (case sp_send p of
              Sent \<Rightarrow> Some (Inr (), deliver f next_state sk')
            | Full \<Rightarrow> loop env f next_state sk'
            | Gone \<Rightarrow> Some (Inl disconnected_error, sk'\<lparr>sk_disconnected := True\<rparr>))) = Some out"
  let ?p = "oe_poll env (sk_tick sk)" and ?sk = "sk\<lparr>sk_tick := sk_tick sk + 1\<rparr>"
  show "sent_or_failed f next_state sk out"
  proof (cases "request_check (sk_deadline sk) ?p")
    case (Inr u)
    show ?thesis
    proof (cases "sk_disconnected sk \<or> sp_disconnected ?p")
      case False
      with Inr step show ?thesis
      proof (cases "sp_send ?p")
        case Full
        with step Inr False have "loop env f next_state ?sk = Some out" by (simp add: Let_def)
        from IH [OF this] show ?thesis
          by (auto simp: sent_or_failed_def same_sink_def split: prod.splits sum.splits)
      qed (use step Inr False in \<open>auto simp: Let_def sent_or_failed_def same_sink_def deliver_def\<close>)
    qed (use step Inr in \<open>auto simp: Let_def sent_or_failed_def same_sink_def\<close>)
  qed (use step in \<open>auto simp: Let_def sent_or_failed_def same_sink_def\<close>)
qed

lemma send_frame_result:
  assumes "send_frame env f sk = Some (r, sk')"
  shows "same_sink sk sk' \<and>
    (case r of
       Inl _ \<Rightarrow> sk_sent sk' = sk_sent sk \<and> sk_lifecycle sk' = sk_lifecycle sk
     | Inr _ \<Rightarrow> validate_frame sk f = Inr (sk_lifecycle sk') \<and> sk_sent sk' = sk_sent sk @ [f] \<and>
         (\<exists>bytes. encode_bounded env (sk_max_bytes sk) f = Inr bytes))"
proof (cases "validate_frame sk f")
  case (Inr next_state)
  show ?thesis
  proof (cases "encode_bounded env (sk_max_bytes sk) f")
    case enc: (Inr bytes)
    with Inr assms have "send_loop env f next_state sk = Some (r, sk')" by (simp add: send_frame_def)
    from send_loop_result [OF this] Inr enc show ?thesis by (auto simp: sent_or_failed_def split: sum.splits)
  qed (use assms Inr in \<open>auto simp: send_frame_def\<close>)
qed (use assms in \<open>auto simp: send_frame_def\<close>)

definition observed_gone :: "output_env \<Rightarrow> sink \<Rightarrow> bool" where
  "observed_gone env sk \<longleftrightarrow> sk_disconnected sk \<or> (\<exists>n. sp_disconnected (oe_poll env n))"

definition ended_or_gone :: "output_env \<Rightarrow> response_frame \<Rightarrow> sink \<Rightarrow> sink \<Rightarrow> bool" where
  "ended_or_gone env f sk sk' \<longleftrightarrow> same_sink sk sk' \<and>
     (sk_sent sk' = sk_sent sk @ [f] \<and> sk_lifecycle sk' = Terminal \<or>
      sk_sent sk' = sk_sent sk \<and> sk_lifecycle sk' = sk_lifecycle sk \<and> observed_gone env sk')"

lemma force_disconnect_gone: "ended_or_gone env f sk (force_disconnect env sk)"
  by (simp add: ended_or_gone_def force_disconnect_def Let_def same_sink_def observed_gone_def)

lemma terminal_loop_result:
  assumes "terminal_loop env f sk = Some sk'"
  shows "ended_or_gone env f sk sk'"
proof (rule terminal_loop.raw_induct [of ended_or_gone, OF _ assms])
  fix loop env f sk sk2
  assume IH: "\<And>env f sk sk'. loop env f sk = Some sk' \<Longrightarrow> ended_or_gone env f sk sk'"
    and step: "(let p = oe_poll env (sk_tick sk); sk' = sk\<lparr>sk_tick := sk_tick sk + 1\<rparr> in
      if sk_disconnected sk \<or> sp_disconnected p then Some sk'
      else (case sp_send p of
          Sent \<Rightarrow> Some (deliver f Terminal sk')
        | Full \<Rightarrow> if sp_expired p then Some (force_disconnect env sk') else loop env f sk'
        | Gone \<Rightarrow> Some (force_disconnect env sk'))) = Some sk2"
  let ?p = "oe_poll env (sk_tick sk)" and ?sk = "sk\<lparr>sk_tick := sk_tick sk + 1\<rparr>"
  have later: "ended_or_gone env f ?sk sk2 \<Longrightarrow> ended_or_gone env f sk sk2"
    by (auto simp: ended_or_gone_def same_sink_def)
  show "ended_or_gone env f sk sk2"
  proof (cases "sk_disconnected sk \<or> sp_disconnected ?p")
    case True
    with step show ?thesis by (auto simp: Let_def ended_or_gone_def same_sink_def observed_gone_def)
  next
    case False
    show ?thesis
    proof (cases "sp_send ?p")
      case Sent
      with step False show ?thesis by (auto simp: Let_def ended_or_gone_def same_sink_def deliver_def)
    next
      case Full
      with step IH [of env f ?sk sk2] False force_disconnect_gone [of env f ?sk] later show ?thesis
        by (cases "sp_expired ?p") (auto simp: Let_def)
    next
      case Gone
      with step False force_disconnect_gone [of env f ?sk] later show ?thesis by (auto simp: Let_def)
    qed
  qed
qed

subsection \<open>The shape of a response\<close>

text \<open>
  One response per request: a single result or error frame, or a begin frame, chunks numbered from
  1 and an end frame; every frame carries the request's identifier.
\<close>

definition chunks_ok :: "string \<Rightarrow> chunk_frame list \<Rightarrow> bool" where
  "chunks_ok i cs \<longleftrightarrow> length cs + 1 < 2 ^ 32 \<and>
     (\<forall>k < length cs. cf_id (cs ! k) = i \<and> unat (cf_seq (cs ! k)) = k + 1)"

definition streaming_response :: "string \<Rightarrow> response_frame list \<Rightarrow> nat \<Rightarrow> bool" where
  "streaming_response i fs n \<longleftrightarrow> (\<exists>b cs. fs = FBegin b # map FChunk cs \<and> bf_id b = i \<and> bf_seq b = 0 \<and>
     chunks_ok i cs \<and> n = length cs + 1)"

definition complete_response :: "string \<Rightarrow> response_frame list \<Rightarrow> bool" where
  "complete_response i fs \<longleftrightarrow>
     (\<exists>r. fs = [FResult r] \<and> rf_id r = i \<and> rf_seq r = 0) \<or>
     (\<exists>e. fs = [FError e] \<and> ef_id e = Some i \<and> ef_seq e = 0) \<or>
     (\<exists>gs n e. fs = gs @ [FEnd e] \<and> streaming_response i gs n \<and> nf_id e = i \<and> unat (nf_seq e) = n)"

definition partial_response :: "string \<Rightarrow> response_frame list \<Rightarrow> bool" where
  "partial_response i fs \<longleftrightarrow> fs = [] \<or> (\<exists>n. streaming_response i fs n)"

text \<open>The lifecycle summarises the frames sent.\<close>

definition response_state :: "string \<Rightarrow> response_frame list \<Rightarrow> lifecycle \<Rightarrow> bool" where
  "response_state i fs l \<longleftrightarrow>
     (case l of
        NotStarted \<Rightarrow> fs = []
      | Streaming n \<Rightarrow> streaming_response i fs (unat n)
      | Terminal \<Rightarrow> complete_response i fs)"

definition sink_ok :: "sink \<Rightarrow> bool" where
  "sink_ok sk \<longleftrightarrow> response_state (sk_id sk) (sk_sent sk) (sk_lifecycle sk)"

lemma new_sink_ok: "sink_ok (new_sink i m d)"
  by (simp add: sink_ok_def response_state_def new_sink_def)

lemma streaming_begin: "bf_id b = i \<Longrightarrow> bf_seq b = 0 \<Longrightarrow> streaming_response i [FBegin b] (Suc 0)"
  by (auto simp: streaming_response_def chunks_ok_def)

lemma streaming_chunk:
  assumes "streaming_response i fs n" and "cf_id c = i" and "unat (cf_seq c) = n" and "n + 1 < 2 ^ 32"
  shows "streaming_response i (fs @ [FChunk c]) (n + 1)"
proof -
  obtain b cs where fs: "fs = FBegin b # map FChunk cs" "bf_id b = i" "bf_seq b = 0"
    and cs: "chunks_ok i cs" "n = length cs + 1"
    using assms(1) by (auto simp: streaming_response_def)
  have "chunks_ok i (cs @ [c])" using cs assms(2-4) by (auto simp: chunks_ok_def nth_append less_Suc_eq)
  then show ?thesis unfolding streaming_response_def using fs cs(2)
    by (intro exI [of _ b] exI [of _ "cs @ [c]"]) simp
qed

lemma validate_frame_response:
  assumes ok: "sink_ok sk" and valid: "validate_frame sk f = Inr next_state"
  shows "response_state (sk_id sk) (sk_sent sk @ [f]) next_state"
proof (cases "sk_lifecycle sk")
  case NotStarted
  with ok have "sk_sent sk = []" by (simp add: sink_ok_def response_state_def)
  with NotStarted valid show ?thesis
    by (cases f)
      (auto simp: validate_frame_def response_state_def complete_response_def streaming_begin
        split: if_splits)
next
  case (Streaming n)
  with ok have streaming: "streaming_response (sk_id sk) (sk_sent sk) (unat n)"
    by (simp add: sink_ok_def response_state_def)
  show ?thesis
  proof (cases f)
    case (FChunk c)
    with valid Streaming have "cf_id c = sk_id sk" "cf_seq c = n"
      and "\<exists>m. checked_add n 1 = Some m \<and> next_state = Streaming m"
      by (auto simp: validate_frame_def and_then_eq_Inr ok_or_eq_Inr split: if_splits)
    then obtain m where m: "unat m = unat n + 1" "next_state = Streaming m" "cf_id c = sk_id sk" "cf_seq c = n"
      by (auto simp: checked_add_Some)
    have "unat n + 1 < 2 ^ 32" using unat_less_exp [of m] m(1) by simp
    with streaming_chunk [OF streaming, of c] m FChunk show ?thesis by (simp add: response_state_def)
  next
    case (FEnd e)
    with valid Streaming streaming show ?thesis
      by (auto simp: validate_frame_def response_state_def complete_response_def split: if_splits)
  qed (use valid Streaming in \<open>simp_all add: validate_frame_def\<close>)
qed (use valid in \<open>simp add: validate_frame_def\<close>)

lemma send_frame_ok: "sink_ok sk \<Longrightarrow> send_frame env f sk = Some (r, sk') \<Longrightarrow> sink_ok sk'"
  using send_frame_result [of env f sk r sk'] validate_frame_response [of sk f "sk_lifecycle sk'"]
  by (auto simp: sink_ok_def same_sink_def split: sum.splits)

lemma sink_ok_response:
  "sink_ok sk \<Longrightarrow> complete_response (sk_id sk) (sk_sent sk) \<or> partial_response (sk_id sk) (sk_sent sk)"
  by (auto simp: sink_ok_def response_state_def partial_response_def split: lifecycle.splits)

lemma required_terminal_result:
  assumes ok: "sink_ok sk" and run: "required_terminal env e sk = Some sk'"
  shows "same_sink sk sk' \<and> sink_ok sk' \<and> (sk_lifecycle sk' = Terminal \<or> observed_gone env sk')"
proof -
  have ended: "same_sink sk sk' \<and> sink_ok sk' \<and> (sk_lifecycle sk' = Terminal \<or> observed_gone env sk')"
    if "ended_or_gone env f sk sk'" and "validate_frame sk f = Inr Terminal" for f
  proof (cases "sk_sent sk' = sk_sent sk @ [f] \<and> sk_lifecycle sk' = Terminal")
    case True
    with that validate_frame_response [OF ok that(2)] show ?thesis
      by (simp add: ended_or_gone_def same_sink_def sink_ok_def)
  next
    case False
    with that ok show ?thesis by (auto simp: ended_or_gone_def same_sink_def sink_ok_def)
  qed
  have send: "ended_or_gone env f sk sk'"
    if "(case encode_bounded env (sk_max_bytes sk) f of
        Inl _ \<Rightarrow> Some (force_disconnect env sk) | Inr _ \<Rightarrow> terminal_loop env f sk) = Some sk'" for f
    using that force_disconnect_gone [of env f sk] terminal_loop_result [of env f sk sk']
    by (auto split: sum.splits)
  show ?thesis
  proof (cases "sk_lifecycle sk")
    case NotStarted
    with run have "ended_or_gone env (frame_error (Some (sk_id sk)) 0 e) sk sk'"
      by (intro send) (simp add: required_terminal_def Let_def)
    with NotStarted ended show ?thesis by (simp add: validate_frame_def frame_error_def)
  next
    case (Streaming n)
    with run have "ended_or_gone env (frame_end_error (sk_id sk) n e) sk sk'"
      by (intro send) (simp add: required_terminal_def Let_def)
    with Streaming ended show ?thesis by (simp add: validate_frame_def frame_end_error_def)
  next
    case Terminal
    with run ok show ?thesis by (simp add: required_terminal_def Let_def)
  qed
qed

subsection \<open>The contract of a dispatcher\<close>

text \<open>The sinks that a sequence of \<open>send_frame\<close> calls and context checks can reach.\<close>

inductive sends :: "output_env \<Rightarrow> sink \<Rightarrow> sink \<Rightarrow> bool" for env where
  sends_refl: "sends env sk sk"
| sends_step: "sends env sk sk1 \<Longrightarrow> send_frame env f sk1 = Some (r, sk2) \<Longrightarrow> sends env sk sk2"
| sends_tick: "sends env sk sk1 \<Longrightarrow> sends env sk (sk1\<lparr>sk_tick := Suc (sk_tick sk1)\<rparr>)"

lemma sends_trans: "sends env b c \<Longrightarrow> sends env a b \<Longrightarrow> sends env a c"
  by (induction rule: sends.induct) (auto intro: sends_step sends_tick)

lemma sends_one: "send_frame env f sk = Some (r, sk') \<Longrightarrow> sends env sk sk'"
  by (rule sends_step [OF sends_refl])

lemma sends_ok: "sends env sk sk' \<Longrightarrow> sink_ok sk \<Longrightarrow> sink_ok sk' \<and> same_sink sk sk'"
proof (induction rule: sends.induct)
  case (sends_step sk sk1 f r sk2)
  then show ?case
    using send_frame_ok send_frame_result [OF sends_step.hyps(2)] same_sink_trans by blast
next
  case (sends_tick sk sk1)
  then show ?case by (auto simp: sink_ok_def same_sink_def)
qed simp

definition only_sends :: "output_env \<Rightarrow> ('e, 'a) action \<Rightarrow> bool" where
  "only_sends env m \<longleftrightarrow> (\<forall>sk r sk'. m sk = Some (r, sk') \<longrightarrow> sends env sk sk')"

lemma only_sends_basic [intro!]:
  "only_sends env (act_return x)" "only_sends env (act_lift r)" "only_sends env (send_frame env f)"
  "only_sends env (runtime_check env)" "only_sends env (query_check env)"
  by (auto simp: only_sends_def act_return_def act_lift_def runtime_check_def query_check_def Let_def
      intro: sends_refl sends_one sends_tick)

lemma only_sends_bind [intro]:
  "only_sends env m \<Longrightarrow> (\<And>x. only_sends env (k x)) \<Longrightarrow> only_sends env (act_bind m k)"
  unfolding only_sends_def act_bind_def
  by (auto split: option.splits sum.splits prod.splits) (meson sends_trans)

lemma only_sends_map_err [intro]: "only_sends env m \<Longrightarrow> only_sends env (act_map_err g m)"
  by (auto simp: only_sends_def act_map_err_def)

lemma only_sends_gate [intro!]: "only_sends env (gate_acquire env)"
  unfolding only_sends_def
proof (intro allI impI)
  fix sk r sk'
  assume run: "gate_acquire env sk = Some (r, sk')"
  show "sends env sk sk'"
  proof (rule gate_acquire.raw_induct [of "\<lambda>env sk out. sends env sk (snd out)" env sk "(r, sk')", OF _ run, unfolded snd_conv])
    fix loop :: "output_env \<Rightarrow> sink \<Rightarrow> ((protocol_error + unit) \<times> sink) option"
      and env and sk :: sink and out :: "(protocol_error + unit) \<times> sink"
    let ?sk = "sk\<lparr>sk_tick := sk_tick sk + 1\<rparr>"
    assume IH: "\<And>env sk out. loop env sk = Some out \<Longrightarrow> sends env sk (snd out)"
      and step: "(let p = oe_poll env (sk_tick sk); sk' = ?sk in
        case request_check (sk_deadline sk) p of
          Inl e \<Rightarrow> Some (Inl e, sk')
        | Inr _ \<Rightarrow> if sp_held p then loop env sk' else Some (Inr (), sk')) = Some out"
    have tick: "sends env sk ?sk" using sends_tick [OF sends_refl] by simp
    from step show "sends env sk (snd out)"
      using tick sends_trans [OF IH tick, of out]
      by (auto simp: Let_def split: sum.splits if_splits)
  qed
qed

lemma only_sends_scan [intro]: "only_sends env work \<Longrightarrow> only_sends env (with_expensive_scan env work)"
  by (auto simp: with_expensive_scan_def)

text \<open>A dispatcher reaches the connection through the sink it is given and nothing else.\<close>

locale dispatcher =
  fixes env :: output_env and dispatch :: "sink \<Rightarrow> (job_result \<times> sink) option"
  assumes sends_only: "dispatch sk = Some (r, sk') \<Longrightarrow> sends env sk sk'"
begin

lemma job_response:
  assumes "run_job env dispatch sk = Some sk'" and "sink_ok sk"
  shows "sink_ok sk' \<and> same_sink sk sk' \<and> (sk_lifecycle sk' = Terminal \<or> observed_gone env sk')"
proof -
  let ?sk = "sk\<lparr>sk_tick := sk_tick sk + 1\<rparr>"
  have ok: "sink_ok ?sk" and same: "same_sink sk ?sk"
    using assms(2) by (simp_all add: same_sink_def sink_ok_def)
  have finish: "sink_ok sk' \<and> same_sink sk sk' \<and> (sk_lifecycle sk' = Terminal \<or> observed_gone env sk')"
    if "required_terminal env e s = Some sk'" "sends env ?sk s" for e s
    using required_terminal_result [of s env e sk'] that sends_ok [OF that(2) ok] same same_sink_trans by blast
  show ?thesis
  proof (cases "request_check (sk_deadline sk) (oe_poll env (sk_tick sk))")
    case (Inl e)
    with assms(1) show ?thesis by (intro finish [of e ?sk]) (auto simp: run_job_def intro: sends_refl)
  next
    case (Inr u)
    then obtain r s where d: "dispatch ?sk = Some (r, s)"
      using assms(1) by (auto simp: run_job_def Let_def split: option.splits)
    have s: "sends env ?sk s" by (rule sends_only [OF d])
    show ?thesis
    proof (cases r)
      case JobOk
      show ?thesis
      proof (cases "sk_lifecycle s = Terminal")
        case True
        with assms(1) Inr d JobOk have "sk' = s" by (simp add: run_job_def ensure_terminal_def)
        with sends_ok [OF s ok] same same_sink_trans True show ?thesis by blast
      next
        case False
        with assms(1) Inr d JobOk s show ?thesis
          by (intro finish [where s = s]) (auto simp: run_job_def ensure_terminal_def)
      qed
    next
      case (JobErr e)
      with assms(1) Inr d s show ?thesis by (intro finish [where s = s]) (auto simp: run_job_def)
    next
      case JobPanic
      with assms(1) Inr d s show ?thesis by (intro finish [where s = s]) (auto simp: run_job_def)
    qed
  qed
qed

end

subsection \<open>The loops end\<close>

lemma send_loop_returns:
  "sk_deadline sk = Some d \<Longrightarrow> sk_tick sk \<le> n \<Longrightarrow> d \<le> sp_now (oe_poll env n) \<Longrightarrow>
     send_loop env f next_state sk \<noteq> None"
proof (induction "n - sk_tick sk" arbitrary: sk)
  case 0
  then show ?case
    by (subst send_loop.simps) (auto simp: request_check_def Let_def)
next
  case (Suc k)
  have "send_loop env f next_state (sk\<lparr>sk_tick := sk_tick sk + 1\<rparr>) \<noteq> None"
    using Suc by (intro Suc.hyps(1)) auto
  then show ?case
    by (subst send_loop.simps) (auto simp: Let_def split: sum.split send_result.split)
qed

lemma terminal_loop_returns:
  "sk_tick sk \<le> n \<Longrightarrow> sp_expired (oe_poll env n) \<Longrightarrow> terminal_loop env f sk \<noteq> None"
proof (induction "n - sk_tick sk" arbitrary: sk)
  case 0
  then show ?case
    by (subst terminal_loop.simps) (auto simp: Let_def split: send_result.split)
next
  case (Suc k)
  have "terminal_loop env f (sk\<lparr>sk_tick := sk_tick sk + 1\<rparr>) \<noteq> None"
    using Suc by (intro Suc.hyps(1)) auto
  then show ?case
    by (subst terminal_loop.simps) (auto simp: Let_def split: send_result.split)
qed

lemma send_frame_returns:
  "sk_deadline sk = Some d \<Longrightarrow> sk_tick sk \<le> n \<Longrightarrow> d \<le> sp_now (oe_poll env n) \<Longrightarrow>
     send_frame env f sk \<noteq> None"
  using send_loop_returns [of sk d n env f] by (auto simp: send_frame_def split: sum.split)

lemma required_terminal_returns:
  "sk_tick sk \<le> n \<Longrightarrow> sp_expired (oe_poll env n) \<Longrightarrow> required_terminal env e sk \<noteq> None"
  using terminal_loop_returns [of sk n env]
  by (auto simp: required_terminal_def Let_def split: lifecycle.split sum.split)

text \<open>
  Time passes: from any turn on, the clock reaches the deadline, and the grace period of the
  terminal frame ends.
\<close>

definition time_passes :: "output_env \<Rightarrow> nat \<Rightarrow> bool" where
  "time_passes env d \<longleftrightarrow>
     (\<forall>t. (\<exists>n \<ge> t. d \<le> sp_now (oe_poll env n)) \<and> (\<exists>n \<ge> t. sp_expired (oe_poll env n)))"

subsection \<open>Properties\<close>

text \<open>
  C20. A job always ends, however full the connection's channel stays: when time passes, sending a
  frame returns by the request's deadline, the terminal frame is sent or given up, and a worker's job
  returns whenever its dispatcher does.
\<close>

theorem job_ends:
  assumes "time_passes env d" and "sk_deadline sk = Some d"
  shows "send_frame env f sk \<noteq> None \<and> required_terminal env e sk \<noteq> None \<and>
    ((\<forall>s. sk_deadline s = Some d \<longrightarrow> dispatch s \<noteq> None) \<longrightarrow> run_job env dispatch sk \<noteq> None)"
proof (intro conjI impI)
  have terminal: "required_terminal env e' s \<noteq> None" for e' s
    using assms(1) required_terminal_returns unfolding time_passes_def by meson
  show "send_frame env f sk \<noteq> None"
    using assms send_frame_returns unfolding time_passes_def by meson
  show "required_terminal env e sk \<noteq> None" by (rule terminal)
  assume "\<forall>s. sk_deadline s = Some d \<longrightarrow> dispatch s \<noteq> None"
  then have "dispatch (sk\<lparr>sk_tick := sk_tick sk + 1\<rparr>) \<noteq> None" using assms(2) by simp
  then show "run_job env dispatch sk \<noteq> None"
    using terminal
    by (auto simp: run_job_def ensure_terminal_def Let_def split: sum.split job_result.split)
qed

text \<open>A channel that is never read, on a clock that counts turns.\<close>

definition blocked_env :: output_env where
  "blocked_env = \<lparr>oe_poll = (\<lambda>n. \<lparr>sp_cancelled = False, sp_now = n, sp_disconnected = False,
     sp_send = Full, sp_expired = True, sp_held = False\<rparr>), oe_pieces = (\<lambda>_. ([''{}''], True))\<rparr>"

lemma job_ends_witness:
  "run_job blocked_env (\<lambda>s. Some (JobOk, s)) (new_sink ''r1'' 4096 (Some 50)) \<noteq> None"
proof -
  have "time_passes blocked_env 50"
    unfolding time_passes_def
  proof (intro allI conjI)
    fix t :: nat
    show "\<exists>n\<ge>t. 50 \<le> sp_now (oe_poll blocked_env n)"
      by (rule exI [of _ "max t 50"]) (simp add: blocked_env_def)
    show "\<exists>n\<ge>t. sp_expired (oe_poll blocked_env n)"
      by (rule exI [of _ t]) (simp add: blocked_env_def)
  qed
  from job_ends [OF this, of "new_sink ''r1'' 4096 (Some 50)" _ _ "\<lambda>s. Some (JobOk, s)"]
  show ?thesis by (simp add: new_sink_def)
qed

end
