(* ===== verification/Response_Stream.thy ===== *)
theory Response_Stream
  imports Output
begin

text \<open>
  The response side of src/server/service.rs: the byte budget of a response, the capped counter
  that measures frames, \<^verbatim>\<open>StreamOutput\<close> with its begin, split chunk and end frames, and single
  result frames. Everything is sent through the output sink, as an action.
\<close>

subsection \<open>Errors and budgets\<close>

definition limit_error :: "string \<Rightarrow> u64 \<Rightarrow> u64 \<Rightarrow> protocol_error" where
  "limit_error kind limit actual = protocol_error_new ELimitExceeded ''query limit exceeded''
     (json_obj [(''kind'', JString kind), (''limit'', JString (decimal (unat limit))),
                (''actual'', JString (decimal (unat actual)))]) False"

definition internal_serialization :: protocol_error where
  "internal_serialization = protocol_error_new EInternal ''response serialization failed'' (json_obj []) False"

definition lower_limit :: "string \<Rightarrow> u64 option \<Rightarrow> u64 \<Rightarrow> protocol_error + u64" where
  "lower_limit kind requested configured =
     (let v = (case requested of Some r \<Rightarrow> r | None \<Rightarrow> configured) in
      if v > configured then Inl (bad_request (kind @ '' may only lower the configured maximum''))
      else Inr v)"

definition ensure_response_budget :: "u64 \<Rightarrow> u64 \<Rightarrow> u64 \<Rightarrow> protocol_error + unit" where
  "ensure_response_budget current next_bytes limit =
     (let actual = saturating_add (saturating_add current next_bytes) terminal_frame_reserve_bytes in
      if actual > limit then Inl (limit_error ''response_bytes'' limit actual) else Inr ())"

subsection \<open>Measuring a frame\<close>

record capped_counter =
  cc_cap :: nat
  cc_written :: nat
  cc_exceeded :: bool

definition new_counter :: "u64 \<Rightarrow> capped_counter" where
  "new_counter line_cap = \<lparr>cc_cap = unat line_cap - 1, cc_written = 0, cc_exceeded = False\<rparr>"

definition counter_write :: "capped_counter \<Rightarrow> string \<Rightarrow> capped_counter \<times> bool" where
  "counter_write c buffer =
     (let attempted = cc_written c + length buffer in
      if attempted > cc_cap c then (c\<lparr>cc_exceeded := True\<rparr>, False)
      else (c\<lparr>cc_written := attempted\<rparr>, True))"

fun count_pieces :: "capped_counter \<Rightarrow> string list \<Rightarrow> bool \<Rightarrow> capped_counter \<times> bool" where
  "count_pieces c [] ok = (c, ok)"
| "count_pieces c (p # ps) ok =
     (case counter_write c p of (c', True) \<Rightarrow> count_pieces c' ps ok | (c', False) \<Rightarrow> (c', False))"

definition try_frame_bytes :: "output_env \<Rightarrow> response_frame \<Rightarrow> u64 \<Rightarrow> protocol_error + u64 option" where
  "try_frame_bytes env f frame_limit =
     (case oe_pieces env f of (pieces, ok) \<Rightarrow>
      case count_pieces (new_counter frame_limit) pieces ok of (c, written) \<Rightarrow>
        if written then Inr (Some (of_nat (cc_written c) + 1))
        else if cc_exceeded c then Inr None
        else Inl internal_serialization)"

definition frame_bytes :: "output_env \<Rightarrow> response_frame \<Rightarrow> u64 \<Rightarrow> protocol_error + u64" where
  "frame_bytes env f frame_limit =
     and_then (try_frame_bytes env f frame_limit)
       (ok_or (limit_error ''encoded_frame_bytes'' frame_limit (frame_limit + 1)))"

text \<open>The printer as an encoder with its length: newline included.\<close>

definition frame_encoder :: "output_env \<Rightarrow> encoder" where
  "frame_encoder env f =
     (case oe_pieces env f of (pieces, ok) \<Rightarrow>
        if ok then Inr (length (concat pieces) + 1) else Inl ''serialization failed'')"

subsection \<open>Streams\<close>

record stream_output =
  to_id :: string
  to_next_seq :: u32
  to_bytes :: u64
  to_rows :: u64
  to_response_limit :: u64
  to_frame_limit :: u64

definition stream_begin ::
    "output_env \<Rightarrow> string \<Rightarrow> string \<Rightarrow> nat \<Rightarrow> u64 \<Rightarrow> u64 \<Rightarrow> (protocol_error, stream_output) action" where
  "stream_begin env i schema generation response_limit frame_limit =
     (let frame = frame_begin i schema (decimal generation) in
      act_bind (act_lift (frame_bytes env frame frame_limit)) (\<lambda>bytes.
      act_bind (act_lift (ensure_response_budget 0 bytes response_limit)) (\<lambda>_.
      act_bind (send_frame env frame) (\<lambda>_.
        act_return \<lparr>to_id = i, to_next_seq = 1, to_bytes = bytes, to_rows = 0,
          to_response_limit = response_limit, to_frame_limit = frame_limit\<rparr>))))"

lemma halves: "rows \<noteq> [] \<Longrightarrow> length rows \<noteq> 1 \<Longrightarrow> 0 < length rows div 2 \<and> length rows div 2 < length rows"
  by (cases rows; cases "tl rows") auto

text \<open>
  A chunk that does not fit a frame is halved. Splitting no rows would not end; \<open>send_rows\<close>
  rules that out.
\<close>

function send_rows_split ::
    "output_env \<Rightarrow> stream_output \<Rightarrow> json list \<Rightarrow> (protocol_error, stream_output) action" where
  "send_rows_split env st rows =
     (let frame = frame_chunk (to_id st) (to_next_seq st) rows in
      act_bind (act_lift (try_frame_bytes env frame (to_frame_limit st))) (\<lambda>r.
        case r of
          None \<Rightarrow>
            if length rows = 1
            then act_lift (Inl (limit_error ''chunk_bytes'' (to_frame_limit st) (to_frame_limit st + 1)))
            else if rows = [] then (\<lambda>_. None)
            else act_bind (send_rows_split env st (take (length rows div 2) rows)) (\<lambda>st'.
                   send_rows_split env st' (drop (length rows div 2) rows))
        | Some bytes \<Rightarrow>
            act_bind (act_lift (ensure_response_budget (to_bytes st) bytes (to_response_limit st))) (\<lambda>_.
            act_bind (send_frame env frame) (\<lambda>_.
            act_lift (and_then
              (ok_or (protocol_error_new EInternal ''response sequence overflow'' (json_obj []) False)
                (checked_add (to_next_seq st) 1)) (\<lambda>next_seq.
              Inr (st\<lparr>to_bytes := saturating_add (to_bytes st) bytes,
                     to_rows := saturating_add (to_rows st) (of_nat (length rows)),
                     to_next_seq := next_seq\<rparr>)))))))"
  by pat_completeness auto
termination
  by (relation "measure (\<lambda>(env, st, rows). length rows)") (use halves in \<open>auto simp: neq_Nil_conv\<close>)

declare send_rows_split.simps [simp del]

definition send_rows ::
    "output_env \<Rightarrow> stream_output \<Rightarrow> json list \<Rightarrow> (protocol_error, stream_output) action" where
  "send_rows env st rows = (if rows = [] then act_return st else send_rows_split env st rows)"

text \<open>\<open>elapsed\<close> is the time since the stream began, in milliseconds, printed.\<close>

definition stream_finish ::
    "output_env \<Rightarrow> string \<Rightarrow> stream_output \<Rightarrow> u64 \<Rightarrow> (protocol_error, unit) action" where
  "stream_finish env elapsed st commands =
     (let stats = \<lparr>ss_rows = decimal (unat (to_rows st)), ss_encoded_bytes = ''0'', ss_elapsed_ms = elapsed,
            ss_commands = decimal (unat commands), ss_backend = ''stream''\<rparr> in
      act_bind (act_lift (map_err (\<lambda>_. internal_serialization)
        (end_success (frame_encoder env) (to_id st) (to_next_seq st) stats (to_bytes st)))) (\<lambda>frame.
      act_bind (act_lift (frame_bytes env frame (to_frame_limit st))) (\<lambda>bytes.
      if saturating_add (to_bytes st) bytes > to_response_limit st
      then act_lift (Inl (limit_error ''response_bytes'' (to_response_limit st) (saturating_add (to_bytes st) bytes)))
      else send_frame env frame)))"

definition send_unary ::
    "output_env \<Rightarrow> string \<Rightarrow> json \<Rightarrow> u64 \<Rightarrow> u64 \<Rightarrow> (protocol_error, unit) action" where
  "send_unary env i result response_limit frame_limit =
     (let frame = frame_result i result in
      act_bind (act_lift (frame_bytes env frame frame_limit)) (\<lambda>bytes.
      if bytes > response_limit then act_lift (Inl (limit_error ''response_bytes'' response_limit bytes))
      else send_frame env frame))"

subsection \<open>Only frames are sent\<close>

lemma only_sends_split: "only_sends env (send_rows_split env st rows)"
proof (induction env st rows rule: send_rows_split.induct)
  case (1 env st rows)
  show ?case
    unfolding send_rows_split.simps [of env st rows] Let_def
  proof (intro only_sends_bind only_sends_basic)
    fix r
    show "only_sends env (case r of
        None \<Rightarrow> if length rows = 1
          then act_lift (Inl (limit_error ''chunk_bytes'' (to_frame_limit st) (to_frame_limit st + 1)))
          else if rows = [] then (\<lambda>_. None)
          else act_bind (send_rows_split env st (take (length rows div 2) rows)) (\<lambda>st'.
                 send_rows_split env st' (drop (length rows div 2) rows))
      | Some bytes \<Rightarrow>
          act_bind (act_lift (ensure_response_budget (to_bytes st) bytes (to_response_limit st))) (\<lambda>_.
          act_bind (send_frame env (frame_chunk (to_id st) (to_next_seq st) rows)) (\<lambda>_.
          act_lift (and_then
            (ok_or (protocol_error_new EInternal ''response sequence overflow'' (json_obj []) False)
              (checked_add (to_next_seq st) 1)) (\<lambda>next_seq.
            Inr (st\<lparr>to_bytes := saturating_add (to_bytes st) bytes,
                   to_rows := saturating_add (to_rows st) (of_nat (length rows)),
                   to_next_seq := next_seq\<rparr>))))))"
    proof (cases r)
      case None
      have "only_sends env (\<lambda>_. None :: ((protocol_error + stream_output) \<times> sink) option)"
        by (simp add: only_sends_def)
      with None 1 show ?thesis by (auto intro!: only_sends_bind)
    qed auto
  qed
qed

lemma only_sends_stream [intro!]:
  "only_sends env (stream_begin env i schema generation response_limit frame_limit)"
  "only_sends env (send_rows env st rows)"
  "only_sends env (stream_finish env elapsed st commands)"
  "only_sends env (send_unary env i result response_limit frame_limit)"
  by (auto simp: stream_begin_def send_rows_def stream_finish_def send_unary_def Let_def only_sends_split
      intro!: only_sends_bind)

subsection \<open>What a stream delivers\<close>

fun frame_rows :: "response_frame \<Rightarrow> json list" where
  "frame_rows (FChunk c) = cf_rows c"
| "frame_rows _ = []"

definition delivered_rows :: "response_frame list \<Rightarrow> json list" where
  "delivered_rows fs = concat (map frame_rows fs)"

definition frame_len :: "output_env \<Rightarrow> response_frame \<Rightarrow> nat" where
  "frame_len env f = length (concat (fst (oe_pieces env f))) + 1"

definition total_len :: "output_env \<Rightarrow> response_frame list \<Rightarrow> nat" where
  "total_len env fs = sum_list (map (frame_len env) fs)"

lemma act_bind_eq:
  "act_bind m k sk = Some (r, sk') \<longleftrightarrow>
     (\<exists>e. m sk = Some (Inl e, sk') \<and> r = Inl e) \<or> (\<exists>x sk1. m sk = Some (Inr x, sk1) \<and> k x sk1 = Some (r, sk'))"
  by (auto simp: act_bind_def split: option.splits sum.splits prod.splits)

lemma act_lift_eq: "act_lift x sk = Some (r, sk') \<longleftrightarrow> x = r \<and> sk' = sk"
  by (auto simp: act_lift_def)

lemma act_return_eq: "act_return x sk = Some (r, sk') \<longleftrightarrow> r = Inr x \<and> sk' = sk"
  by (auto simp: act_return_def)

lemma act_map_err_eq: "act_map_err g m sk = Some (r, sk') \<longleftrightarrow> (\<exists>x. m sk = Some (x, sk') \<and> r = map_err g x)"
  by (auto simp: act_map_err_def)

lemma act_bind_lift [simp]:
  "act_bind (act_lift (Inr x)) k = k x" "act_bind (act_lift (Inl e)) k = act_lift (Inl e)"
  by (auto simp: act_bind_def act_lift_def)

lemmas act_simps = act_bind_eq act_lift_eq act_return_eq act_map_err_eq

lemma count_pieces_result:
  "count_pieces c ps ok = (c', written) \<Longrightarrow> cc_written c \<le> cc_cap c \<Longrightarrow> \<not> cc_exceeded c \<Longrightarrow>
     (if cc_written c + length (concat ps) \<le> cc_cap c
      then written = ok \<and> cc_written c' = cc_written c + length (concat ps) \<and> \<not> cc_exceeded c'
      else \<not> written \<and> cc_exceeded c')"
proof (induction c ps ok rule: count_pieces.induct)
  case (2 c p ps ok)
  show ?case
  proof (cases "cc_written c + length p \<le> cc_cap c")
    case True
    then have w: "counter_write c p = (c\<lparr>cc_written := cc_written c + length p\<rparr>, True)"
      by (simp add: counter_write_def Let_def)
    from 2(1) [OF w [symmetric] refl] 2(2-) True w show ?thesis by (simp add: add.assoc)
  next
    case False
    with 2(2) show ?thesis by (auto simp: counter_write_def Let_def)
  qed
qed simp

lemma unat_of_nat64: "n < 2 ^ 64 \<Longrightarrow> unat (of_nat n :: u64) = n"
  by (simp add: unsigned_of_nat take_bit_nat_eq_self)

lemma try_frame_bytes_result:
  assumes "try_frame_bytes env f limit = Inr r" and "0 < limit"
  shows "case r of
      Some bytes \<Rightarrow> snd (oe_pieces env f) \<and> unat bytes = frame_len env f \<and> frame_len env f \<le> unat limit
    | None \<Rightarrow> unat limit < frame_len env f"
proof -
  obtain ps ok where p: "oe_pieces env f = (ps, ok)" by (cases "oe_pieces env f")
  obtain c written where c: "count_pieces (new_counter limit) ps ok = (c, written)"
    by (cases "count_pieces (new_counter limit) ps ok")
  have pos: "0 < unat limit" using assms(2) by (simp add: word_less_nat_alt)
  have res: "if length (concat ps) \<le> unat limit - 1
      then written = ok \<and> cc_written c = length (concat ps) \<and> \<not> cc_exceeded c else \<not> written \<and> cc_exceeded c"
    using count_pieces_result [OF c] by (simp add: new_counter_def)
  show ?thesis
  proof (cases "length (concat ps) \<le> unat limit - 1")
    case True
    then have len: "length (concat ps) + 1 \<le> unat limit" using pos by simp
    then have small: "length (concat ps) + 1 < 2 ^ 64" using unat_less_exp [of limit] by simp
    have "unat ((of_nat (length (concat ps)) + 1) :: u64) = length (concat ps) + 1"
      using small unat_of_nat64 [of "length (concat ps) + 1"] by (simp add: add.commute)
    with True res assms(1) len p c show ?thesis
      by (auto simp: try_frame_bytes_def frame_len_def split: if_splits)
  next
    case False
    with res assms(1) pos p c show ?thesis
      by (auto simp: try_frame_bytes_def frame_len_def split: if_splits)
  qed
qed

lemma budget_ok:
  assumes "ensure_response_budget current next_bytes limit = Inr u" and "limit < - 1"
  shows "unat current + unat next_bytes + 4096 \<le> unat limit"
proof -
  have "saturating_add (saturating_add current next_bytes) 4096 \<le> limit"
    using assms(1) by (auto simp: ensure_response_budget_def terminal_frame_reserve_bytes_def Let_def split: if_splits)
  then have "min (min (unat current + unat next_bytes) (2 ^ 64 - 1) + 4096) (2 ^ 64 - 1) \<le> unat limit"
    by (simp add: word_le_nat_alt unat_saturating_add)
  moreover have "unat limit < 2 ^ 64 - 1" using assms(2) by (simp add: less_max_u64)
  ultimately show ?thesis by linarith
qed

text \<open>The stream's own count is the size of what was sent, and leaves room for the end frame.\<close>

definition stream_inv :: "output_env \<Rightarrow> stream_output \<Rightarrow> sink \<Rightarrow> bool" where
  "stream_inv env st sk \<longleftrightarrow>
     to_id st = sk_id sk \<and> sk_lifecycle sk = Streaming (to_next_seq st) \<and>
     unat (to_bytes st) = total_len env (sk_sent sk) \<and>
     total_len env (sk_sent sk) + 4096 \<le> unat (to_response_limit st) \<and>
     to_response_limit st < - 1 \<and> 0 < to_frame_limit st"

text \<open>What sending rows did, whether it failed or not.\<close>

definition sent_rows :: "output_env \<Rightarrow> stream_output \<Rightarrow> sink \<Rightarrow> json list \<Rightarrow> sink \<Rightarrow> bool" where
  "sent_rows env st sk rows sk' \<longleftrightarrow>
     same_sink sk sk' \<and>
     (\<exists>fs. sk_sent sk' = sk_sent sk @ fs \<and> delivered_rows fs = rows \<and>
        (\<forall>f \<in> set fs. length (frame_rows f) \<le> length rows \<and> frame_len env f \<le> unat (to_frame_limit st))) \<and>
     total_len env (sk_sent sk') + 4096 \<le> unat (to_response_limit st) \<and>
     (\<exists>n. sk_lifecycle sk' = Streaming n)"

definition same_limits :: "stream_output \<Rightarrow> stream_output \<Rightarrow> bool" where
  "same_limits st st' \<longleftrightarrow> to_id st' = to_id st \<and> to_response_limit st' = to_response_limit st \<and>
     to_frame_limit st' = to_frame_limit st"

lemma delivered_append [simp]: "delivered_rows (xs @ ys) = delivered_rows xs @ delivered_rows ys"
  by (simp add: delivered_rows_def)

lemma total_append [simp]: "total_len env (xs @ ys) = total_len env xs + total_len env ys"
  by (simp add: total_len_def)

lemma delivered_nil [simp]: "delivered_rows [] = []"
  by (simp add: delivered_rows_def)

lemma sent_nothing: "stream_inv env st sk \<Longrightarrow> sent_rows env st sk [] sk"
  by (simp add: sent_rows_def stream_inv_def)

lemma sent_rows_trans:
  assumes "sent_rows env st sk xs sk1" and "sent_rows env st1 sk1 ys sk2" and "same_limits st st1"
  shows "sent_rows env st sk (xs @ ys) sk2"
proof -
  obtain fs where fs: "sk_sent sk1 = sk_sent sk @ fs" "delivered_rows fs = xs"
      "\<forall>f \<in> set fs. length (frame_rows f) \<le> length xs \<and> frame_len env f \<le> unat (to_frame_limit st)"
    using assms(1) by (auto simp: sent_rows_def)
  obtain gs where gs: "sk_sent sk2 = sk_sent sk1 @ gs" "delivered_rows gs = ys"
      "\<forall>f \<in> set gs. length (frame_rows f) \<le> length ys \<and> frame_len env f \<le> unat (to_frame_limit st)"
    using assms(2,3) by (auto simp: sent_rows_def same_limits_def)
  have "\<forall>f \<in> set (fs @ gs). length (frame_rows f) \<le> length (xs @ ys) \<and> frame_len env f \<le> unat (to_frame_limit st)"
    using fs(3) gs(3) by auto
  moreover have "sk_sent sk2 = sk_sent sk @ (fs @ gs)" "delivered_rows (fs @ gs) = xs @ ys"
    using fs gs by simp_all
  moreover have "same_sink sk sk2"
    using assms(1,2) by (auto simp: sent_rows_def intro: same_sink_trans)
  moreover have "total_len env (sk_sent sk2) + 4096 \<le> unat (to_response_limit st)"
      and "\<exists>n. sk_lifecycle sk2 = Streaming n"
    using assms(2,3) by (simp_all add: sent_rows_def same_limits_def)
  ultimately show ?thesis unfolding sent_rows_def by blast
qed

lemma send_chunk_result:
  assumes inv: "stream_inv env st sk"
    and bytes: "unat bytes = frame_len env (frame_chunk (to_id st) (to_next_seq st) rows)"
      "frame_len env (frame_chunk (to_id st) (to_next_seq st) rows) \<le> unat (to_frame_limit st)"
    and run: "act_bind (act_lift (ensure_response_budget (to_bytes st) bytes (to_response_limit st))) (\<lambda>_.
      act_bind (send_frame env (frame_chunk (to_id st) (to_next_seq st) rows)) (\<lambda>_.
      act_lift (and_then
        (ok_or (protocol_error_new EInternal ''response sequence overflow'' (json_obj []) False)
          (checked_add (to_next_seq st) 1)) (\<lambda>next_seq.
        Inr (st\<lparr>to_bytes := saturating_add (to_bytes st) bytes,
               to_rows := saturating_add (to_rows st) (of_nat (length rows)),
               to_next_seq := next_seq\<rparr>))))) sk = Some (r, sk')"
  shows "\<exists>pre. prefix pre rows \<and> sent_rows env st sk pre sk' \<and>
    (\<forall>st'. r = Inr st' \<longrightarrow> pre = rows \<and> stream_inv env st' sk' \<and> same_limits st st')"
proof -
  let ?f = "frame_chunk (to_id st) (to_next_seq st) rows"
  note inv' = inv [unfolded stream_inv_def]
  consider (budget) e where "ensure_response_budget (to_bytes st) bytes (to_response_limit st) = Inl e" "r = Inl e" "sk' = sk"
    | (failed) e where "ensure_response_budget (to_bytes st) bytes (to_response_limit st) = Inr ()"
        "send_frame env ?f sk = Some (Inl e, sk')" "r = Inl e"
    | (sent) "ensure_response_budget (to_bytes st) bytes (to_response_limit st) = Inr ()"
        "send_frame env ?f sk = Some (Inr (), sk')"
        "and_then
          (ok_or (protocol_error_new EInternal ''response sequence overflow'' (json_obj []) False)
            (checked_add (to_next_seq st) 1)) (\<lambda>next_seq.
          Inr (st\<lparr>to_bytes := saturating_add (to_bytes st) bytes,
                 to_rows := saturating_add (to_rows st) (of_nat (length rows)),
                 to_next_seq := next_seq\<rparr>)) = r"
    using run by (auto simp: act_simps)
  then show ?thesis
  proof cases
    case budget
    with sent_nothing [OF inv] show ?thesis by (intro exI [of _ "[]"]) simp
  next
    case failed
    with send_frame_result [OF failed(2)] inv' show ?thesis
      by (intro exI [of _ "[]"]) (auto simp: sent_rows_def)
  next
    case sent
    note s = send_frame_result [OF sent(2), simplified]
    have fits: "unat (to_bytes st) + unat bytes + 4096 \<le> unat (to_response_limit st)"
      using budget_ok [OF sent(1)] inv' by simp
    have sat: "unat (saturating_add (to_bytes st) bytes) = unat (to_bytes st) + unat bytes"
      using fits unat_less_exp [of "to_response_limit st"] by (simp add: unat_saturating_add)
    have next_state: "sk_lifecycle sk' = Streaming n" if "checked_add (to_next_seq st) 1 = Some n" for n
      using s that inv' by (auto simp: validate_frame_def frame_chunk_def and_then_eq_Inr split: if_splits)
    obtain n where n: "checked_add (to_next_seq st) 1 = Some n"
      using s inv' by (auto simp: validate_frame_def frame_chunk_def and_then_eq_Inr ok_or_eq_Inr split: if_splits)
    have rows: "frame_rows ?f = rows" by (simp add: frame_chunk_def)
    have tot: "total_len env (sk_sent sk') = unat (to_bytes st) + unat bytes"
      using s inv' bytes by (simp add: total_len_def)
    have "sent_rows env st sk rows sk'"
      using s fits tot next_state [OF n] bytes(2) rows
      by (auto simp: sent_rows_def delivered_rows_def)
    moreover have "\<forall>st'. r = Inr st' \<longrightarrow> stream_inv env st' sk' \<and> same_limits st st'"
      using sent(3) n inv' s tot sat fits next_state [OF n]
      by (auto simp: stream_inv_def same_limits_def same_sink_def)
    ultimately show ?thesis by blast
  qed
qed

lemma send_rows_split_result:
  assumes "stream_inv env st sk" and "send_rows_split env st rows sk = Some (r, sk')"
  shows "\<exists>pre. prefix pre rows \<and> sent_rows env st sk pre sk' \<and>
    (\<forall>st'. r = Inr st' \<longrightarrow> pre = rows \<and> stream_inv env st' sk' \<and> same_limits st st')"
  using assms
proof (induction env st rows arbitrary: sk r sk' rule: send_rows_split.induct)
  case (1 env st rows)
  let ?f = "frame_chunk (to_id st) (to_next_seq st) rows" and ?m = "length rows div 2"
  note inv = "1.prems"(1)
  have pos: "0 < to_frame_limit st" using inv by (simp add: stream_inv_def)
  note run = "1.prems"(2) [unfolded send_rows_split.simps [of env st rows] Let_def]
  show ?case
  proof (cases "try_frame_bytes env ?f (to_frame_limit st)")
    case (Inl e)
    with run sent_nothing [OF inv] show ?thesis by (intro exI [of _ "[]"]) (auto simp: act_simps)
  next
    case (Inr b)
    show ?thesis
    proof (cases b)
      case (Some bytes)
      with try_frame_bytes_result [OF Inr pos]
      have len: "unat bytes = frame_len env ?f" "frame_len env ?f \<le> unat (to_frame_limit st)" by simp_all
      have "act_bind (act_lift (ensure_response_budget (to_bytes st) bytes (to_response_limit st))) (\<lambda>_.
          act_bind (send_frame env ?f) (\<lambda>_.
          act_lift (and_then
            (ok_or (protocol_error_new EInternal ''response sequence overflow'' (json_obj []) False)
              (checked_add (to_next_seq st) 1)) (\<lambda>next_seq.
            Inr (st\<lparr>to_bytes := saturating_add (to_bytes st) bytes,
                   to_rows := saturating_add (to_rows st) (of_nat (length rows)),
                   to_next_seq := next_seq\<rparr>))))) sk = Some (r, sk')"
        using run Inr Some by simp
      from send_chunk_result [OF inv len this] show ?thesis .
    next
      case None
      show ?thesis
      proof (cases "length rows = 1 \<or> rows = []")
        case True
        with run Inr None sent_nothing [OF inv] show ?thesis
          by (intro exI [of _ "[]"]) (auto simp: act_simps)
      next
        case False
        then have split: "act_bind (send_rows_split env st (take ?m rows)) (\<lambda>st'.
            send_rows_split env st' (drop ?m rows)) sk = Some (r, sk')"
          using run Inr None by simp
        have many: "length rows \<noteq> 1" "rows \<noteq> []" using False by auto
        note IH1 = "1.IH"(1) [OF refl many inv]
        from split consider (first) e where "send_rows_split env st (take ?m rows) sk = Some (Inl e, sk')" "r = Inl e"
          | (both) st1 sk1 where "send_rows_split env st (take ?m rows) sk = Some (Inr st1, sk1)"
              "send_rows_split env st1 (drop ?m rows) sk1 = Some (r, sk')"
          by (auto simp: act_bind_eq)
        then show ?thesis
        proof cases
          case first
          obtain pre where pre: "prefix pre (take ?m rows)" "sent_rows env st sk pre sk'"
            using IH1 [OF first(1)] by blast
          have "prefix pre rows" using prefix_order.trans [OF pre(1) take_is_prefix] .
          with pre(2) first(2) show ?thesis by blast
        next
          case both
          from IH1 [OF both(1)] have one: "sent_rows env st sk (take ?m rows) sk1" "stream_inv env st1 sk1"
              "same_limits st st1" by auto
          obtain pre where pre: "prefix pre (drop ?m rows)" "sent_rows env st1 sk1 pre sk'"
            "\<forall>st'. r = Inr st' \<longrightarrow> pre = drop ?m rows \<and> stream_inv env st' sk' \<and> same_limits st1 st'"
            using "1.IH"(2) [OF refl many one(2) both(2)] by blast
          have "prefix (take ?m rows @ pre) rows"
            using pre(1) same_prefix_prefix [of "take ?m rows" pre "drop ?m rows"] by simp
          moreover have "\<forall>st'. r = Inr st' \<longrightarrow> take ?m rows @ pre = rows \<and> stream_inv env st' sk' \<and> same_limits st st'"
          proof (intro allI impI)
            fix st'
            assume "r = Inr st'"
            with pre(3) have "pre = drop ?m rows" "stream_inv env st' sk'" "same_limits st1 st'" by blast+
            with one(3) show "take ?m rows @ pre = rows \<and> stream_inv env st' sk' \<and> same_limits st st'"
              by (simp add: same_limits_def)
          qed
          ultimately show ?thesis using sent_rows_trans [OF one(1) pre(2) one(3)] by blast
        qed
      qed
    qed
  qed
qed

lemma send_rows_result:
  assumes "stream_inv env st sk" and "send_rows env st rows sk = Some (r, sk')"
  shows "\<exists>pre. prefix pre rows \<and> sent_rows env st sk pre sk' \<and>
    (\<forall>st'. r = Inr st' \<longrightarrow> pre = rows \<and> stream_inv env st' sk' \<and> same_limits st st')"
  using assms send_rows_split_result [OF assms(1)] sent_nothing [OF assms(1)]
  by (auto simp: send_rows_def act_simps same_limits_def split: if_splits)

text \<open>A fresh sink after the begin frame, and after the end frame.\<close>

lemma stream_begin_result:
  assumes "stream_begin env (sk_id sk) schema generation response_limit frame_limit sk = Some (r, sk')"
    and "sk_lifecycle sk = NotStarted" and "sk_sent sk = []" and "response_limit < - 1" and "0 < frame_limit"
  shows "case r of
      Inr st \<Rightarrow> stream_inv env st sk' \<and> delivered_rows (sk_sent sk') = [] \<and> to_response_limit st = response_limit \<and>
        to_frame_limit st = frame_limit \<and> same_sink sk sk' \<and> (\<exists>b. sk_sent sk' = [FBegin b])
    | Inl e \<Rightarrow> sk_sent sk' = [] \<and> sk_lifecycle sk' = NotStarted \<and> same_sink sk sk'"
proof -
  let ?f = "frame_begin (sk_id sk) schema (decimal generation)"
  consider (measure) e where "frame_bytes env ?f frame_limit = Inl e" "r = Inl e" "sk' = sk"
    | (budget) b e where "frame_bytes env ?f frame_limit = Inr b" "ensure_response_budget 0 b response_limit = Inl e"
        "r = Inl e" "sk' = sk"
    | (failed) b e where "frame_bytes env ?f frame_limit = Inr b" "ensure_response_budget 0 b response_limit = Inr ()"
        "send_frame env ?f sk = Some (Inl e, sk')" "r = Inl e"
    | (sent) b where "frame_bytes env ?f frame_limit = Inr b" "ensure_response_budget 0 b response_limit = Inr ()"
        "send_frame env ?f sk = Some (Inr (), sk')"
        "r = Inr \<lparr>to_id = sk_id sk, to_next_seq = 1, to_bytes = b, to_rows = 0,
          to_response_limit = response_limit, to_frame_limit = frame_limit\<rparr>"
    using assms(1) by (auto simp: stream_begin_def Let_def act_simps)
  then show ?thesis
  proof cases
    case failed
    with send_frame_result [OF failed(3)] assms(2,3) show ?thesis by simp
  next
    case sent
    then obtain b' where "try_frame_bytes env ?f frame_limit = Inr (Some b')" "b' = b"
      by (auto simp: frame_bytes_def and_then_eq_Inr ok_or_eq_Inr)
    with try_frame_bytes_result [of env ?f frame_limit] assms(5) have len: "unat b = frame_len env ?f" by auto
    have fits: "unat b + 4096 \<le> unat response_limit" using budget_ok [OF sent(2) assms(4)] by simp
    from send_frame_result [OF sent(3)] assms(2,3) have sk': "sk_sent sk' = [?f]" "sk_lifecycle sk' = Streaming 1"
        "same_sink sk sk'" "validate_frame sk ?f = Inr (sk_lifecycle sk')"
      by (auto simp: validate_frame_def frame_begin_def split: if_splits)
    with sent(4) len fits assms(4,5) show ?thesis
      by (auto simp: stream_inv_def total_len_def delivered_rows_def frame_begin_def same_sink_def)
  qed (use assms in auto)
qed

lemma stream_finish_result:
  assumes inv: "stream_inv env st sk" and "stream_finish env elapsed st commands sk = Some (r, sk')"
  shows "case r of
      Inr _ \<Rightarrow> (\<exists>e. sk_sent sk' = sk_sent sk @ [FEnd e] \<and> nf_complete e) \<and> sk_lifecycle sk' = Terminal \<and>
        total_len env (sk_sent sk') \<le> unat (to_response_limit st)
    | Inl _ \<Rightarrow> sk_sent sk' = sk_sent sk \<and> sk_lifecycle sk' = sk_lifecycle sk"
proof -
  let ?stats = "\<lparr>ss_rows = decimal (unat (to_rows st)), ss_encoded_bytes = ''0'', ss_elapsed_ms = elapsed,
    ss_commands = decimal (unat commands), ss_backend = ''stream''\<rparr>"
  have loop: "\<exists>c. frame = with_encoded (to_id st) (to_next_seq st) stats c"
    if "end_loop enc (with_encoded (to_id st) (to_next_seq st) stats) prior n c0 = Inr frame" for enc stats prior n c0 frame
    using that by (induction n arbitrary: c0) (auto simp: and_then_eq_Inr split: if_splits)
  show ?thesis
  proof (cases r)
    case (Inl e)
    with assms(2) show ?thesis
      by (auto simp: stream_finish_def Let_def act_simps split: if_splits dest: send_frame_result)
  next
    case (Inr u)
    with assms(2) obtain f b where f: "end_success (frame_encoder env) (to_id st) (to_next_seq st) ?stats (to_bytes st) = Inr f"
        "frame_bytes env f (to_frame_limit st) = Inr b" "\<not> saturating_add (to_bytes st) b > to_response_limit st"
        "send_frame env f sk = Some (Inr (), sk')"
      by (auto simp: stream_finish_def Let_def act_simps map_err_eq_Inr split: if_splits)
    obtain c where c: "f = with_encoded (to_id st) (to_next_seq st) ?stats c"
      using loop [OF f(1) [unfolded end_success_def]] by blast
    have "try_frame_bytes env f (to_frame_limit st) = Inr (Some b)"
      using f(2) by (auto simp: frame_bytes_def and_then_eq_Inr ok_or_eq_Inr)
    with try_frame_bytes_result [of env f "to_frame_limit st"] inv have len: "unat b = frame_len env f"
      by (auto simp: stream_inv_def)
    have "min (unat (to_bytes st) + unat b) (2 ^ 64 - 1) \<le> unat (to_response_limit st)"
      using f(3) by (simp add: not_less word_le_nat_alt unat_saturating_add)
    moreover have "unat (to_response_limit st) < 2 ^ 64 - 1"
      using inv by (simp add: stream_inv_def less_max_u64)
    ultimately have "unat (to_bytes st) + unat b \<le> unat (to_response_limit st)" by linarith
    with send_frame_result [OF f(4)] inv len c Inr show ?thesis
      by (auto simp: stream_inv_def total_len_def validate_frame_def with_encoded_def end_frame_of_def split: if_splits)
  qed
qed

end
