(* ===== verification/Extract.thy ===== *)
theory Extract
  imports Stream
begin

text \<open>
  Extraction of rows: \<^verbatim>\<open>OpenedTimeValueIter\<close> of src/query/extract.rs, which expands each
  selected change to one row per requested name and charges the row and byte limits, and the
  legacy \<^verbatim>\<open>TimeValueIter\<close> of src/lib.rs, which it replaces. Both are iterators in the sense of
  \<open>rust_iterator\<close>; the theorems say what they deliver and that they agree.
\<close>

record time_value =
  tv_signal :: string
  tv_time :: u64
  tv_value :: change_value

record pending_event =
  pe_name :: string
  pe_value :: change_value
  pe_time :: u64

record extract_iter =
  ex_stream :: change_stream
  ex_limits :: query_limits
  ex_pending :: "pending_event list"
  ex_rows :: u64
  ex_bytes :: u64
  ex_terminated :: bool

definition logical_event_bytes :: "string \<Rightarrow> change_value \<Rightarrow> u64" where
  "logical_event_bytes sig v =
     saturating_add (saturating_add (of_nat (length sig)) 8)
       (case v of Integer _ \<Rightarrow> 16 | Float _ \<Rightarrow> 8 | Text t \<Rightarrow> of_nat (length t))"

definition open_extract ::
    "environment \<Rightarrow> query_limits \<Rightarrow> opened_vcd \<Rightarrow> nat \<Rightarrow> string list \<Rightarrow> time_window
      \<Rightarrow> query_error + extract_iter" where
  "open_extract env q ov n targets window =
     and_then (selected_change_stream env q ov n targets window) (\<lambda>stream.
       Inr \<lparr>ex_stream = stream, ex_limits = q, ex_pending = [], ex_rows = 0, ex_bytes = 0,
            ex_terminated = False\<rparr>)"

definition queue_change :: "selected_change \<Rightarrow> extract_iter \<Rightarrow> extract_iter" where
  "queue_change ch x = x\<lparr>ex_pending := ex_pending x @
     map (\<lambda>b. \<lparr>pe_name = tb_name b, pe_value = sc_value ch, pe_time = sc_time ch\<rparr>)
       (bindings (cs_selection (ex_stream x)) (sc_id ch))\<rparr>"

definition extract_tick :: "extract_iter \<Rightarrow> nat" where
  "extract_tick x = cs_tick (ex_stream x)"

definition advance_tick :: "nat \<Rightarrow> extract_iter \<Rightarrow> extract_iter" where
  "advance_tick k x = x\<lparr>ex_stream := (ex_stream x)\<lparr>cs_tick := cs_tick (ex_stream x) + k\<rparr>\<rparr>"

definition terminate_with ::
    "query_error \<Rightarrow> extract_iter \<Rightarrow> (query_error + time_value) option \<times> extract_iter" where
  "terminate_with e x = (Some (Inl e), x\<lparr>ex_terminated := True, ex_pending := []\<rparr>)"

definition over :: "u64 option \<Rightarrow> u64 \<Rightarrow> bool" where
  "over limit actual \<longleftrightarrow> (case limit of Some l \<Rightarrow> actual > l | None \<Rightarrow> False)"

definition emit_pending ::
    "environment \<Rightarrow> extract_iter \<Rightarrow> (query_error + time_value) option \<times> extract_iter" where
  "emit_pending env x =
     (case ex_pending x of
        [] \<Rightarrow> (None, x)
      | event # pending \<Rightarrow>
          (let x1 = advance_tick 1 (x\<lparr>ex_pending := pending\<rparr>);
               next_rows = saturating_add (ex_rows x) 1;
               next_bytes = saturating_add (ex_bytes x)
                 (logical_event_bytes (pe_name event) (pe_value event)) in
           case check env (ex_limits x) (extract_tick x) of
             Inl e \<Rightarrow> terminate_with e x1
           | Inr _ \<Rightarrow>
               if over (max_rows (ex_limits x)) next_rows
               then terminate_with
                 (LimitExceeded Rows (the (max_rows (ex_limits x))) next_rows) x1
               else if over (max_result_bytes (ex_limits x)) next_bytes
               then terminate_with
                 (LimitExceeded ResultBytes (the (max_result_bytes (ex_limits x))) next_bytes) x1
               else (Some (Inr \<lparr>tv_signal = pe_name event, tv_time = pe_time event,
                                tv_value = pe_value event\<rparr>),
                     x1\<lparr>ex_rows := next_rows, ex_bytes := next_bytes\<rparr>)))"

definition extract_next ::
    "environment \<Rightarrow> displays \<Rightarrow> extract_iter \<Rightarrow> (query_error + time_value) option \<times> extract_iter" where
  "extract_next env D x =
     (if ex_terminated x then (None, x)
      else case emit_pending env x of
          (Some ev, x1) \<Rightarrow> (Some ev, x1)
        | (None, x1) \<Rightarrow>
            (case stream_next env D (ex_stream x1) of
               (None, st) \<Rightarrow> (None, x1\<lparr>ex_stream := st\<rparr>)
             | (Some (Inr change), st) \<Rightarrow>
                 emit_pending env (queue_change change (x1\<lparr>ex_stream := st\<rparr>))
             | (Some (Inl e), st) \<Rightarrow>
                 (Some (Inl e), x1\<lparr>ex_stream := st, ex_terminated := True\<rparr>)))"

text \<open>\<^verbatim>\<open>OpenedTimeValueIter::validate_current_generation\<close>, for consumers that stop early.\<close>

definition validate_extraction ::
    "environment \<Rightarrow> extract_iter \<Rightarrow> (query_error + unit) \<times> extract_iter" where
  "validate_extraction env x =
     (let n = extract_tick x; q = ex_limits x in
      (and_then (check env q n) (\<lambda>_.
       and_then (fst (validate_current_generation env ((ex_stream x)\<lparr>cs_tick := n + 1\<rparr>))) (\<lambda>_.
         check env q (n + 4))),
       advance_tick 5 x))"

subsection \<open>What an extraction should deliver\<close>

definition event_row :: "pending_event \<Rightarrow> time_value" where
  "event_row p = \<lparr>tv_signal = pe_name p, tv_time = pe_time p, tv_value = pe_value p\<rparr>"

definition expand_change :: "target_selection \<Rightarrow> selected_change \<Rightarrow> time_value list" where
  "expand_change sel ch =
     map (\<lambda>b. \<lparr>tv_signal = tb_name b, tv_time = sc_time ch, tv_value = sc_value ch\<rparr>)
       (bindings sel (sc_id ch))"

definition expand_changes :: "target_selection \<Rightarrow> selected_change list \<Rightarrow> time_value list" where
  "expand_changes sel chs = concat (map (expand_change sel) chs)"

definition remaining_rows :: "displays \<Rightarrow> extract_iter \<Rightarrow> time_value list" where
  "remaining_rows D x =
     (if ex_terminated x then []
      else map event_row (ex_pending x) @
        expand_changes (cs_selection (ex_stream x)) (remaining_changes D (ex_stream x)))"

definition row_bytes :: "time_value \<Rightarrow> u64" where
  "row_bytes row = logical_event_bytes (tv_signal row) (tv_value row)"

definition selection_ok :: "target_selection \<Rightarrow> bool" where
  "selection_ok sel \<longleftrightarrow> (\<forall>i. sel_contains sel i \<longrightarrow> bindings sel i \<noteq> [])"

definition extract_valid :: "extract_iter \<Rightarrow> bool" where
  "extract_valid x \<longleftrightarrow>
     cs_limits (ex_stream x) = ex_limits x \<and> selection_ok (cs_selection (ex_stream x))"

definition extract_failure ::
    "environment \<Rightarrow> query_limits \<Rightarrow> io_error option \<Rightarrow> query_error \<Rightarrow> bool" where
  "extract_failure env q scan e \<longleftrightarrow>
     stream_failure env q scan e \<or>
     (\<exists>l a. max_rows q = Some l \<and> l < a \<and> e = LimitExceeded Rows l a) \<or>
     (\<exists>l a. max_result_bytes q = Some l \<and> l < a \<and> e = LimitExceeded ResultBytes l a)"

lemma over_within: "over l a \<longleftrightarrow> \<not> within l a"
  by (auto simp: over_def within_def split: option.splits)

lemma map_event_row_queue [simp]:
  "map event_row (map (\<lambda>b. \<lparr>pe_name = tb_name b, pe_value = sc_value ch, pe_time = sc_time ch\<rparr>) bs) =
     map (\<lambda>b. \<lparr>tv_signal = tb_name b, tv_time = sc_time ch, tv_value = sc_value ch\<rparr>) bs"
  by (simp add: event_row_def)

lemma advance_tick_simps [simp]:
  "ex_limits (advance_tick k x) = ex_limits x" "ex_pending (advance_tick k x) = ex_pending x"
  "ex_rows (advance_tick k x) = ex_rows x" "ex_bytes (advance_tick k x) = ex_bytes x"
  "ex_terminated (advance_tick k x) = ex_terminated x"
  "ex_stream (advance_tick k x) = (ex_stream x)\<lparr>cs_tick := cs_tick (ex_stream x) + k\<rparr>"
  by (simp_all add: advance_tick_def)

lemma remaining_tick [simp]:
  "remaining_changes D (s\<lparr>cs_tick := n\<rparr>) = remaining_changes D s"
  "remaining_error (s\<lparr>cs_tick := n\<rparr>) = remaining_error s"
  by (simp_all add: remaining_changes_def remaining_error_def)

subsection \<open>One step of the iterator\<close>

definition row_step :: "displays \<Rightarrow> extract_iter \<Rightarrow> time_value \<Rightarrow> extract_iter \<Rightarrow> bool" where
  "row_step D x row x' \<longleftrightarrow>
     \<not> ex_terminated x' \<and> ex_limits x' = ex_limits x \<and>
     cs_selection (ex_stream x') = cs_selection (ex_stream x) \<and>
     cs_limits (ex_stream x') = cs_limits (ex_stream x) \<and>
     cs_finished (ex_stream x') = cs_finished (ex_stream x) \<and>
     remaining_rows D x = row # remaining_rows D x' \<and>
     ex_rows x' = saturating_add (ex_rows x) 1 \<and>
     ex_bytes x' = saturating_add (ex_bytes x) (row_bytes row) \<and>
     within (max_rows (ex_limits x)) (ex_rows x') \<and>
     within (max_result_bytes (ex_limits x)) (ex_bytes x')"

lemma emit_row:
  assumes "\<not> ex_terminated x" and "emit_pending env x = (Some (Inr row), x')"
  shows "row_step D x row x' \<and> remaining_error (ex_stream x') = remaining_error (ex_stream x)"
  using assms
  by (auto simp: emit_pending_def row_step_def remaining_rows_def event_row_def row_bytes_def
      Let_def over_within terminate_with_def split: list.splits sum.splits if_splits)

lemma emit_error:
  assumes "emit_pending env x = (Some (Inl e), x')"
  shows "ex_terminated x' \<and> ex_pending x \<noteq> [] \<and> extract_failure env (ex_limits x) scan e"
  using assms
  by (auto simp: emit_pending_def terminate_with_def Let_def over_def extract_failure_def
      stream_failure_def split: list.splits sum.splits if_splits option.splits)

lemma emit_none:
  "emit_pending env x = (None, x') \<longleftrightarrow> ex_pending x = [] \<and> x' = x"
  by (auto simp: emit_pending_def terminate_with_def Let_def split: list.splits sum.splits if_splits)

lemma queue_nonempty:
  assumes "selection_ok (cs_selection (ex_stream x))"
    and "sel_contains (cs_selection (ex_stream x)) (sc_id ch)"
  shows "ex_pending (queue_change ch x) \<noteq> []"
  using assms by (simp add: queue_change_def selection_ok_def)

text \<open>The stream delivers only changes of selected identifiers.\<close>

lemma events_selected: "ch \<in> set (events D sel win t rs) \<Longrightarrow> sel_contains sel (sc_id ch)"
proof (induction D sel win t rs rule: events.induct)
  case (3 D sel win t cmd rest)
  then show ?case
    by (cases cmd) (auto simp: selects_def convert_selected_def split: if_splits)
qed auto

lemma stream_item_selected:
  "stream_next env D s = (Some (Inr ch), s') \<Longrightarrow> sel_contains (cs_selection s) (sc_id ch)"
  using stream_next_item [of env D s ch s']
    events_selected [of ch D "cs_selection s" "cs_window s" "cs_time s" "cs_parser s"]
  by (auto simp: remaining_changes_def)

lemma extract_next_row:
  assumes v: "extract_valid x" and n: "extract_next env D x = (Some (Inr row), x')"
  shows "row_step D x row x' \<and> extract_valid x' \<and>
    remaining_error (ex_stream x') = remaining_error (ex_stream x)"
proof -
  have nt: "\<not> ex_terminated x" using n by (auto simp: extract_next_def)
  have valid: "extract_valid x'" if "row_step D x row x'"
    using that v by (simp add: row_step_def extract_valid_def)
  show ?thesis
  proof (cases "ex_pending x")
    case (Cons p ps)
    then obtain r x1 where "emit_pending env x = (Some r, x1)"
      using emit_none [of env x] by (cases "emit_pending env x"; cases "fst (emit_pending env x)") auto
    then have "emit_pending env x = (Some (Inr row), x')" using n nt by (simp add: extract_next_def)
    from emit_row [OF nt this] valid show ?thesis by blast
  next
    case Nil
    then have e: "emit_pending env x = (None, x)" by (simp add: emit_none)
    obtain ch st where s: "stream_next env D (ex_stream x) = (Some (Inr ch), st)"
      and em: "emit_pending env (queue_change ch (x\<lparr>ex_stream := st\<rparr>)) = (Some (Inr row), x')"
      using n nt e by (auto simp: extract_next_def split: prod.splits option.splits sum.splits)
    let ?x1 = "queue_change ch (x\<lparr>ex_stream := st\<rparr>)"
    note item = stream_next_item [OF s]
    then have same: "same_query (ex_stream x) st" by blast
    have "\<not> ex_terminated ?x1" using nt by (simp add: queue_change_def)
    from emit_row [OF this em, of D] have step: "row_step D ?x1 row x'"
      and err: "remaining_error (ex_stream x') = remaining_error st"
      by (auto simp: queue_change_def)
    have "remaining_rows D ?x1 = remaining_rows D x"
      using nt Nil item same
      by (simp add: remaining_rows_def queue_change_def expand_changes_def expand_change_def
          same_query_def event_row_def)
    then have "row_step D x row x'"
      using step same item by (auto simp: row_step_def queue_change_def same_query_def)
    with err item valid show ?thesis by simp
  qed
qed

lemma extract_next_end:
  assumes v: "extract_valid x" and n: "extract_next env D x = (None, x')"
  shows "remaining_rows D x = [] \<and> extract_next env D x' = (None, x') \<and>
    (ex_terminated x \<or> remaining_error (ex_stream x) = None \<and>
       (cs_finished (ex_stream x) \<or> sealed env (ex_stream x')))"
proof (cases "ex_terminated x")
  case True
  with n show ?thesis by (auto simp: extract_next_def remaining_rows_def)
next
  case nt: False
  have pend: "ex_pending x = []"
    using n nt emit_none [of env x] by (auto simp: extract_next_def split: prod.splits option.splits)
  then have e: "emit_pending env x = (None, x)" by (simp add: emit_none)
  have "\<exists>st. stream_next env D (ex_stream x) = (None, st) \<and> x' = x\<lparr>ex_stream := st\<rparr>"
  proof -
    obtain r st where s: "stream_next env D (ex_stream x) = (r, st)" by fastforce
    show ?thesis
    proof (cases r)
      case None
      with s n nt e show ?thesis by (auto simp: extract_next_def)
    next
      case (Some a)
      then obtain ch where a: "a = Inr ch"
        using s n nt e by (cases a) (auto simp: extract_next_def)
      with Some s n nt e have em: "emit_pending env (queue_change ch (x\<lparr>ex_stream := st\<rparr>)) = (None, x')"
        by (simp add: extract_next_def)
      have "ex_pending (queue_change ch (x\<lparr>ex_stream := st\<rparr>)) \<noteq> []"
        using stream_item_selected [of env D "ex_stream x" ch st] stream_next_item [of env D "ex_stream x" ch st]
          s Some a v by (intro queue_nonempty) (auto simp: extract_valid_def same_query_def)
      with em show ?thesis by (simp add: emit_none)
    qed
  qed
  then obtain st where s: "stream_next env D (ex_stream x) = (None, st)"
    and x': "x' = x\<lparr>ex_stream := st\<rparr>" by blast
  note fin = stream_next_end [OF s]
  then have "extract_next env D x' = (None, x')"
    using nt x' pend by (simp add: extract_next_def emit_none [THEN iffD2])
  with fin nt pend x' show ?thesis by (auto simp: remaining_rows_def expand_changes_def)
qed

lemma extract_next_error:
  assumes v: "extract_valid x" and n: "extract_next env D x = (Some (Inl e), x')"
  shows "\<not> ex_terminated x \<and> ex_terminated x' \<and>
    extract_failure env (ex_limits x) (remaining_error (ex_stream x)) e"
proof -
  have nt: "\<not> ex_terminated x" using n by (auto simp: extract_next_def)
  obtain r x1 where em: "emit_pending env x = (r, x1)" by fastforce
  show ?thesis
  proof (cases r)
    case (Some a)
    with n nt em have "emit_pending env x = (Some (Inl e), x')" by (simp add: extract_next_def)
    from emit_error [OF this] nt show ?thesis by blast
  next
    case None
    then have x1: "x1 = x" "ex_pending x = []" using em emit_none by auto
    obtain q st where s: "stream_next env D (ex_stream x) = (q, st)" by fastforce
    consider (err) "q = Some (Inl e)" "ex_terminated x'"
      | (item) ch where "q = Some (Inr ch)"
          "emit_pending env (queue_change ch (x\<lparr>ex_stream := st\<rparr>)) = (Some (Inl e), x')"
      using n nt em None s x1
      by (auto simp: extract_next_def split: option.splits sum.splits)
    then show ?thesis
    proof cases
      case err
      with s stream_next_error [of env D "ex_stream x" e st] v nt show ?thesis
        by (simp add: extract_failure_def extract_valid_def)
    next
      case item
      from emit_error [OF item(2)] nt show ?thesis by (simp add: queue_change_def)
    qed
  qed
qed

lemma emit_valid:
  "emit_pending env y = (r, y') \<Longrightarrow> extract_valid y \<Longrightarrow> extract_valid y' \<and> ex_limits y' = ex_limits y"
  by (cases "ex_pending y")
    (auto simp: emit_pending_def terminate_with_def extract_valid_def Let_def
      split: sum.splits if_splits)

lemma queue_valid:
  "extract_valid y \<Longrightarrow> extract_valid (queue_change ch y) \<and> ex_limits (queue_change ch y) = ex_limits y"
  by (simp add: extract_valid_def queue_change_def)

lemma extract_next_valid:
  assumes v: "extract_valid x" and n: "extract_next env D x = (r, x')"
  shows "extract_valid x' \<and> ex_limits x' = ex_limits x"
proof -
  obtain q st where s: "stream_next env D (ex_stream x) = (q, st)" by fastforce
  have stream: "extract_valid (x\<lparr>ex_stream := st\<rparr>)"
    using stream_next_same [OF s] v by (simp add: extract_valid_def same_query_def)
  then have stopped: "extract_valid (x\<lparr>ex_stream := st, ex_terminated := True\<rparr>)"
    by (simp add: extract_valid_def)
  obtain p x1 where em: "emit_pending env x = (p, x1)" by fastforce
  note emitted = emit_valid [OF em v]
  consider "ex_terminated x" | y where "\<not> ex_terminated x" "p = Some y"
    | "\<not> ex_terminated x" "p = None" "x1 = x"
    using em emit_none [of env x x1] by (cases p) auto
  then show ?thesis
  proof cases
    case 1
    then show ?thesis using n v by (simp add: extract_next_def)
  next
    case 2
    then show ?thesis using n em emitted by (simp add: extract_next_def)
  next
    case 3
    then show ?thesis
      using n em s stream stopped queue_valid [OF stream] emit_valid [of env "queue_change _ _"]
      by (cases q; cases "the q") (auto simp: extract_next_def)
  qed
qed

interpretation extract_iter: rust_iterator "extract_next env D"
  "\<lambda>x. length (remaining_rows D x)" extract_valid for env D
proof
  show "length (remaining_rows D x') < length (remaining_rows D x)"
    if "extract_valid x" "extract_next env D x = (Some (Inr row), x')" for x row x'
    using extract_next_row [OF that] by (simp add: row_step_def)
  show "extract_valid x'" if "extract_valid x" "extract_next env D x = (r, x')" for x r x'
    using extract_next_valid [OF that] by blast
qed

text \<open>The byte counter after a list of rows.\<close>

definition charge_rows :: "u64 \<Rightarrow> time_value list \<Rightarrow> u64" where
  "charge_rows b rows = foldl (\<lambda>b row. saturating_add b (row_bytes row)) b rows"

definition count_rows :: "u64 \<Rightarrow> time_value list \<Rightarrow> u64" where
  "count_rows n rows = foldl (\<lambda>n _. saturating_add n 1) n rows"

lemma drain_extract:
  assumes "extract_valid x" and "drain (extract_next env D) x = Some (rows, r, x')"
  shows "(case r of
      None \<Rightarrow> rows = remaining_rows D x \<and>
        (ex_terminated x \<or> remaining_error (ex_stream x) = None \<and>
          (cs_finished (ex_stream x) \<or> sealed env (ex_stream x')))
    | Some e \<Rightarrow> prefix rows (remaining_rows D x) \<and>
        extract_failure env (ex_limits x) (remaining_error (ex_stream x)) e) \<and>
    extract_next env D x' = (None, x') \<and>
    (rows = [] \<or>
      within (max_rows (ex_limits x)) (count_rows (ex_rows x) rows) \<and>
      within (max_result_bytes (ex_limits x)) (charge_rows (ex_bytes x) rows))"
  using assms
proof (induction rule: extract_iter.drain_induct)
  case (finished x x')
  from extract_next_end [OF finished(1,2)] show ?case by simp
next
  case (failed x e x')
  from extract_next_error [OF failed(1,2)] show ?case by (simp add: extract_next_def)
next
  case (item x row x' rows r x'')
  from extract_next_row [OF item(1,2)]
  have step: "row_step D x row x'" and err: "remaining_error (ex_stream x') = remaining_error (ex_stream x)"
    by auto
  have nt: "\<not> ex_terminated x" "\<not> cs_finished (ex_stream x) \<or> True"
    using item(2) by (auto simp: extract_next_def)
  from step err item(5) nt show ?case
    by (cases r) (auto simp: row_step_def count_rows_def charge_rows_def)
qed

subsection \<open>Exact delivery in a quiet environment\<close>

text \<open>Charging rows to the row and byte limits, and the error of the first row over one.\<close>

fun charge ::
    "query_limits \<Rightarrow> u64 \<Rightarrow> u64 \<Rightarrow> time_value list \<Rightarrow> time_value list \<times> query_error option" where
  "charge q n b [] = ([], None)"
| "charge q n b (row # rows) =
     (let n' = saturating_add n 1; b' = saturating_add b (row_bytes row) in
      if over (max_rows q) n' then ([], Some (LimitExceeded Rows (the (max_rows q)) n'))
      else if over (max_result_bytes q) b'
      then ([], Some (LimitExceeded ResultBytes (the (max_result_bytes q)) b'))
      else (row # fst (charge q n' b' rows), snd (charge q n' b' rows)))"

lemma charge_step:
  "row_step D x row x' \<Longrightarrow>
     charge (ex_limits x) (ex_rows x) (ex_bytes x) (row # rows) =
       (row # fst (charge (ex_limits x) (ex_rows x') (ex_bytes x') rows),
        snd (charge (ex_limits x) (ex_rows x') (ex_bytes x') rows))"
  by (auto simp: row_step_def over_within Let_def)

lemma emit_error_charge:
  assumes "quiet env (ex_limits x)" and "emit_pending env x = (Some (Inl e), x')"
  shows "\<exists>p ps. ex_pending x = p # ps \<and>
    (\<forall>rows. charge (ex_limits x) (ex_rows x) (ex_bytes x) (event_row p # rows) = ([], Some e))"
  using assms
  by (auto simp: emit_pending_def terminate_with_def Let_def row_bytes_def event_row_def
      split: list.splits if_splits)

lemma stream_quiet_error:
  assumes "quiet env (cs_limits s)" and "max_commands (cs_limits s) = None"
    and n: "stream_next env D s = (Some (Inl e), s')"
  shows "remaining_changes D s = [] \<and> (\<exists>io. remaining_error s = Some io \<and> e = Vcd (Io io))"
proof -
  have nf: "\<not> cs_finished s" using n by (auto simp: stream_next_def)
  have "within_budget (cs_limits s) (cs_count s)" using assms(2) by (simp add: within_budget_def)
  from drain_quiet [OF assms(1) nf this, of D] show ?thesis
    using drain_simps(2) [of "stream_next env D" s e s'] n assms(2) nf
    by (cases "scan_error (cs_window s) (cs_parser s)") (auto simp: budgeted_result_def exceeded_budget_def remaining_changes_def
        remaining_error_def Let_def)
qed

definition extraction_result ::
    "displays \<Rightarrow> extract_iter \<Rightarrow> time_value list \<times> query_error option" where
  "extraction_result D x =
     (let (rows, err) = charge (ex_limits x) (ex_rows x) (ex_bytes x) (remaining_rows D x) in
      (rows, case err of
         Some e \<Rightarrow> Some e
       | None \<Rightarrow> map_option (\<lambda>io. Vcd (Io io)) (remaining_error (ex_stream x))))"

lemma extract_quiet_error:
  assumes v: "extract_valid x" and q: "quiet env (ex_limits x)"
    and mc: "max_commands (ex_limits x) = None"
    and n: "extract_next env D x = (Some (Inl e), x')"
  shows "extraction_result D x = ([], Some e)"
proof -
  have nt: "\<not> ex_terminated x" using n by (auto simp: extract_next_def)
  obtain r x1 where em: "emit_pending env x = (r, x1)" by fastforce
  show ?thesis
  proof (cases r)
    case (Some a)
    with n nt em have "emit_pending env x = (Some (Inl e), x')" by (simp add: extract_next_def)
    from emit_error_charge [OF q this] nt show ?thesis
      by (auto simp: extraction_result_def remaining_rows_def simp del: charge.simps)
  next
    case None
    then have x1: "x1 = x" "ex_pending x = []" using em emit_none by auto
    obtain p st where s: "stream_next env D (ex_stream x) = (p, st)" by fastforce
    consider (err) "p = Some (Inl e)"
      | (item) ch where "p = Some (Inr ch)"
          "emit_pending env (queue_change ch (x\<lparr>ex_stream := st\<rparr>)) = (Some (Inl e), x')"
      using n nt em None s x1 by (auto simp: extract_next_def split: option.splits sum.splits)
    then show ?thesis
    proof cases
      case err
      have "cs_limits (ex_stream x) = ex_limits x" using v by (simp add: extract_valid_def)
      with stream_quiet_error [of env "ex_stream x" D e st] err s q mc
      have "remaining_changes D (ex_stream x) = []"
        "\<exists>io. remaining_error (ex_stream x) = Some io \<and> e = Vcd (Io io)" by auto
      then show ?thesis
        using nt x1 by (auto simp: extraction_result_def remaining_rows_def expand_changes_def)
    next
      case (item ch)
      let ?y = "queue_change ch (x\<lparr>ex_stream := st\<rparr>)"
      have y: "ex_limits ?y = ex_limits x" "ex_rows ?y = ex_rows x" "ex_bytes ?y = ex_bytes x"
        by (simp_all add: queue_change_def)
      have "quiet env (ex_limits ?y)" using q y by simp
      from emit_error_charge [OF this item(2)] y obtain ev ps where ev: "ex_pending ?y = ev # ps"
        and c: "\<And>rows. charge (ex_limits x) (ex_rows x) (ex_bytes x) (event_row ev # rows) = ([], Some e)"
        by auto
      note step = stream_next_item [OF s [unfolded item(1)]]
      have "map event_row (ex_pending ?y) = expand_change (cs_selection (ex_stream x)) ch"
        using step x1 by (simp add: queue_change_def expand_change_def event_row_def same_query_def)
      then have "remaining_rows D x = event_row ev # map event_row ps @
          expand_changes (cs_selection (ex_stream x)) (remaining_changes D st)"
        using step nt x1 ev by (simp add: remaining_rows_def expand_changes_def)
      then show ?thesis using c by (simp add: extraction_result_def del: charge.simps)
    qed
  qed
qed

lemma drain_extract_quiet:
  assumes "extract_valid x" and "drain (extract_next env D) x = Some (rows, r, x')"
    and "\<not> ex_terminated x" and "quiet env (ex_limits x)" and "max_commands (ex_limits x) = None"
  shows "(rows, r) = extraction_result D x"
  using assms
proof (induction rule: extract_iter.drain_induct)
  case (finished x x')
  from extract_next_end [OF finished(1,2)] finished(3)
  have "remaining_rows D x = []" "remaining_error (ex_stream x) = None" by auto
  then show ?case by (simp add: extraction_result_def)
next
  case (failed x e x')
  from extract_quiet_error [OF failed(1,4,5,2)] show ?case by simp
next
  case (item x row x' rows r x'')
  from extract_next_row [OF item(1,2)] have step: "row_step D x row x'"
    and err: "remaining_error (ex_stream x') = remaining_error (ex_stream x)" by auto
  then have "(rows, r) = extraction_result D x'"
    using item(6-8) by (intro item(5)) (auto simp: row_step_def)
  moreover have "ex_limits x' = ex_limits x" "remaining_rows D x = row # remaining_rows D x'"
    using step by (auto simp: row_step_def)
  ultimately show ?case
    using charge_step [OF step, of "remaining_rows D x'"] err
    by (auto simp: extraction_result_def simp del: charge.simps split: prod.splits option.splits)
qed

text \<open>What a freshly opened extraction holds.\<close>

lemma resolve_selection_ok: "resolve env q ov n targets = Inr sel \<Longrightarrow> selection_ok sel"
  using resolve_Inr by (auto simp: selection_ok_def)

lemma open_extract_Inr:
  assumes "open_extract env q ov n targets win = Inr x"
  shows "extract_valid x \<and> \<not> ex_terminated x \<and> ex_limits x = q \<and> ex_rows x = 0 \<and> ex_bytes x = 0 \<and>
    ex_pending x = [] \<and> \<not> cs_finished (ex_stream x) \<and>
    cs_parser (ex_stream x) = ov_body ov \<and> cs_window (ex_stream x) = win \<and>
    cs_time (ex_stream x) = 0 \<and> missing_targets ov targets = [] \<and>
    (\<forall>i. bindings (cs_selection (ex_stream x)) i = target_bindings ov 0 i targets) \<and>
    (\<forall>i. sel_contains (cs_selection (ex_stream x)) i \<longleftrightarrow> target_bindings ov 0 i targets \<noteq> [])"
proof -
  obtain sel where "resolve env q ov (Suc n) targets = Inr sel"
    and x: "ex_stream x = \<lparr>cs_parser = ov_body ov, cs_selection = sel, cs_window = win,
      cs_limits = q, cs_time = 0, cs_count = 0, cs_finished = False,
      cs_tick = Suc (Suc (length targets + (Suc n + 1)))\<rparr>"
      "ex_limits x = q" "ex_pending x = []" "ex_rows x = 0" "ex_bytes x = 0" "\<not> ex_terminated x"
    using assms
    by (auto simp: open_extract_def selected_change_stream_def body_parser_def Let_def
        and_then_eq_Inr map_err_eq_Inr ac_simps)
  from resolve_selection_ok [OF this(1)] resolve_Inr [OF this(1)] x show ?thesis
    by (simp add: extract_valid_def)
qed

text \<open>
  The rows a query asks for, written without the stream: for each change command before the scan
  ends, in order, when its time is in the window, one row for each requested name whose signal
  carries the identifier, in request order.
\<close>

fun requested_rows ::
    "displays \<Rightarrow> (id_code \<Rightarrow> string list) \<Rightarrow> time_window \<Rightarrow> u64 \<Rightarrow> (io_error + command) list
      \<Rightarrow> time_value list" where
  "requested_rows D names win t [] = []"
| "requested_rows D names win t (Inl e # rest) = []"
| "requested_rows D names win t (Inr cmd # rest) =
     (case cmd of
        Timestamp u \<Rightarrow> if past_end win u then [] else requested_rows D names win u rest
      | _ \<Rightarrow>
          (case command_to_change_value D cmd of
             Some (i, v) \<Rightarrow>
               (if window_contains win t
                then map (\<lambda>n. \<lparr>tv_signal = n, tv_time = t, tv_value = v\<rparr>) (names i) else [])
           | None \<Rightarrow> []) @ requested_rows D names win t rest)"

lemma expand_events:
  assumes "\<And>i. sel_contains sel i \<longleftrightarrow> bindings sel i \<noteq> []"
  shows "expand_changes sel (events D sel win t rs) =
    requested_rows D (\<lambda>i. map tb_name (bindings sel i)) win t rs"
proof (induction rs arbitrary: t)
  case (Cons r rest)
  show ?case
  proof (cases r)
    case (Inr cmd)
    with Cons.IH assms show ?thesis
      by (cases cmd) (auto simp: expand_changes_def expand_change_def selects_def
          convert_selected_def comp_def)
  qed (simp add: expand_changes_def)
qed (simp add: expand_changes_def)

lemma expand_changes_opened:
  assumes "open_extract env q ov n targets win = Inr x"
  shows "remaining_rows D x =
      requested_rows D (\<lambda>i. map tb_name (target_bindings ov 0 i targets)) win 0 (ov_body ov)"
    and "remaining_error (ex_stream x) = scan_error win (ov_body ov)"
  using open_extract_Inr [OF assms] expand_events [of "cs_selection (ex_stream x)" D win 0 "ov_body ov"]
  by (simp_all add: remaining_rows_def remaining_changes_def remaining_error_def)

subsection \<open>The legacy iterator\<close>

record legacy_iter =
  lg_parser :: "(io_error + command) list"
  lg_targets :: "id_code \<rightharpoonup> string list"
  lg_window :: time_window
  lg_time :: u64
  lg_finished :: bool
  lg_pending :: "time_value list"

definition legacy_new ::
    "(io_error + command) list \<Rightarrow> (id_code \<rightharpoonup> string list) \<Rightarrow> time_window \<Rightarrow> legacy_iter" where
  "legacy_new parser targets window =
     \<lparr>lg_parser = parser, lg_targets = targets, lg_window = window, lg_time = 0,
      lg_finished = False, lg_pending = []\<rparr>"

fun legacy_loop ::
    "displays \<Rightarrow> legacy_iter \<Rightarrow> (io_error + command) list
      \<Rightarrow> (vcd_error + time_value) option \<times> legacy_iter" where
  "legacy_loop D s [] = (None, s\<lparr>lg_parser := [], lg_finished := True\<rparr>)"
| "legacy_loop D s (r # rest) =
     (let s1 = s\<lparr>lg_parser := rest\<rparr> in
      case r of
        Inl e \<Rightarrow> (Some (Inl (Io e)), s1)
      | Inr (Timestamp t) \<Rightarrow>
          (let s2 = s1\<lparr>lg_time := t\<rparr> in
           if past_end (lg_window s2) t then (None, s2\<lparr>lg_finished := True\<rparr>)
           else legacy_loop D s2 rest)
      | Inr cmd \<Rightarrow>
          (case command_to_change_value D cmd of
             None \<Rightarrow> legacy_loop D s1 rest
           | Some (i, value) \<Rightarrow>
               (case lg_targets s1 i of
                  None \<Rightarrow> legacy_loop D s1 rest
                | Some names \<Rightarrow>
                    if \<not> window_contains (lg_window s1) (lg_time s1)
                    then (if past_end (lg_window s1) (lg_time s1)
                          then (None, s1\<lparr>lg_finished := True\<rparr>)
                          else legacy_loop D s1 rest)
                    else
                      (case lg_pending s1 @ map (\<lambda>n. \<lparr>tv_signal = n, tv_time = lg_time s1,
                              tv_value = value\<rparr>) names of
                         [] \<Rightarrow> legacy_loop D (s1\<lparr>lg_pending := []\<rparr>) rest
                       | tv # pending \<Rightarrow> (Some (Inr tv), s1\<lparr>lg_pending := pending\<rparr>)))))"

definition legacy_next ::
    "displays \<Rightarrow> legacy_iter \<Rightarrow> (vcd_error + time_value) option \<times> legacy_iter" where
  "legacy_next D s =
     (case lg_pending s of
        tv # pending \<Rightarrow> (Some (Inr tv), s\<lparr>lg_pending := pending\<rparr>)
      | [] \<Rightarrow> if lg_finished s then (None, s) else legacy_loop D s (lg_parser s))"

text \<open>
  What it has yet to deliver. After an error of the parser it goes on with the commands that follow,
  if the parser has any.
\<close>

fun body_items ::
    "displays \<Rightarrow> (id_code \<Rightarrow> string list) \<Rightarrow> time_window \<Rightarrow> u64 \<Rightarrow> (io_error + command) list
      \<Rightarrow> (vcd_error + time_value) list" where
  "body_items D names win t [] = []"
| "body_items D names win t (Inl e # rest) = Inl (Io e) # body_items D names win t rest"
| "body_items D names win t (Inr cmd # rest) =
     (case cmd of
        Timestamp u \<Rightarrow> if past_end win u then [] else body_items D names win u rest
      | _ \<Rightarrow>
          (case command_to_change_value D cmd of
             Some (i, v) \<Rightarrow>
               (if window_contains win t
                then map (\<lambda>n. Inr \<lparr>tv_signal = n, tv_time = t, tv_value = v\<rparr>) (names i) else [])
           | None \<Rightarrow> []) @ body_items D names win t rest)"

lemma body_items_before_error:
  "before_error (body_items D names win t rs) = requested_rows D names win t rs"
  "first_failure (body_items D names win t rs) = map_option Io (scan_error win rs)"
proof (induction D names win t rs rule: body_items.induct)
  case (3 D names win t cmd rest)
  have rows: "map (\<lambda>n. Inr \<lparr>tv_signal = n, tv_time = t, tv_value = v\<rparr>) ns =
      map Inr (map (\<lambda>n. \<lparr>tv_signal = n, tv_time = t, tv_value = v\<rparr>) ns)" for v ns
    by simp
  {
    case 1
    from 3 show ?case by (cases cmd) (auto simp: rows simp del: map_map)
  next
    case 2
    from 3 show ?case by (cases cmd) (auto simp: rows simp del: map_map)
  }
qed simp_all

definition legacy_items :: "displays \<Rightarrow> legacy_iter \<Rightarrow> (vcd_error + time_value) list" where
  "legacy_items D s = map Inr (lg_pending s) @
     (if lg_finished s then []
      else body_items D (entries (lg_targets s)) (lg_window s) (lg_time s) (lg_parser s))"

definition legacy_remaining :: "displays \<Rightarrow> legacy_iter \<Rightarrow> time_value list" where
  "legacy_remaining D s = lg_pending s @
     (if lg_finished s then []
      else requested_rows D (entries (lg_targets s)) (lg_window s) (lg_time s) (lg_parser s))"

definition legacy_error :: "legacy_iter \<Rightarrow> io_error option" where
  "legacy_error s = (if lg_finished s then None else scan_error (lg_window s) (lg_parser s))"

lemma legacy_items_before_error:
  "before_error (legacy_items D s) = legacy_remaining D s"
  "first_failure (legacy_items D s) = map_option Io (legacy_error s)"
  by (simp_all add: legacy_items_def legacy_remaining_def legacy_error_def body_items_before_error
      before_error_append [of _ "[]", simplified])

definition legacy_valid :: "legacy_iter \<Rightarrow> bool" where
  "legacy_valid s \<longleftrightarrow> lg_finished s \<or> \<not> past_end (lg_window s) (lg_time s)"

definition legacy_step ::
    "displays \<Rightarrow> legacy_iter \<Rightarrow> (vcd_error + time_value) option \<Rightarrow> legacy_iter \<Rightarrow> bool" where
  "legacy_step D s r s' \<longleftrightarrow> legacy_valid s' \<and>
     (case r of None \<Rightarrow> legacy_items D s = [] | Some i \<Rightarrow> legacy_items D s = i # legacy_items D s')"

lemma legacy_step_skip:
  "legacy_step D s2 r s' \<Longrightarrow> legacy_items D s = legacy_items D s2 \<Longrightarrow> legacy_step D s r s'"
  by (simp add: legacy_step_def split: option.splits sum.splits)

lemma legacy_loop_step:
  "\<not> lg_finished s \<Longrightarrow> lg_pending s = [] \<Longrightarrow> legacy_valid s \<Longrightarrow> lg_parser s = rs \<Longrightarrow>
     legacy_loop D s rs = (r, s') \<Longrightarrow> legacy_step D s r s'"
proof (induction rs arbitrary: s)
  case Nil
  then show ?case
    by (auto simp: legacy_step_def legacy_valid_def legacy_items_def)
next
  case (Cons x rest)
  let ?s1 = "s\<lparr>lg_parser := rest\<rparr>"
  have ih: "legacy_step D s2 r s'"
    if "legacy_loop D s2 rest = (r, s')" "lg_parser s2 = rest" "\<not> lg_finished s2"
      "lg_pending s2 = []" "\<not> past_end (lg_window s2) (lg_time s2)" for s2
    using that by (intro Cons.IH) (auto simp: legacy_valid_def)
  have inside: "\<not> past_end (lg_window s) (lg_time s)"
    using Cons.prems(1,3) by (simp add: legacy_valid_def)
  show ?case
  proof (cases x)
    case (Inl e)
    with Cons.prems inside show ?thesis
      by (auto simp: legacy_step_def legacy_valid_def legacy_items_def)
  next
    case (Inr cmd)
    show ?thesis
    proof (cases "command_to_change_value D cmd")
      case None
      then consider t where "cmd = Timestamp t" | "cmd = OtherCommand" by (cases cmd) auto
      then show ?thesis
      proof cases
        case 1
        let ?s2 = "?s1\<lparr>lg_time := t\<rparr>"
        show ?thesis
        proof (cases "past_end (lg_window s) t")
          case True
          with 1 Inr Cons.prems show ?thesis
            by (auto simp: legacy_step_def legacy_valid_def legacy_items_def)
        next
          case False
          with 1 Inr Cons.prems have "legacy_step D ?s2 r s'" by (intro ih) auto
          then show ?thesis
            by (rule legacy_step_skip)
              (use 1 Inr Cons.prems False in \<open>simp_all add: legacy_items_def\<close>)
        qed
      next
        case 2
        with Inr Cons.prems inside have "legacy_step D ?s1 r s'" by (intro ih) auto
        then show ?thesis
          by (rule legacy_step_skip)
            (use 2 Inr Cons.prems in \<open>simp_all add: legacy_items_def\<close>)
      qed
    next
      case (Some iv)
      obtain i v where iv: "iv = (i, v)" by fastforce
      have nt: "\<forall>t. cmd \<noteq> Timestamp t" using Some by (cases cmd) auto
      let ?new = "if window_contains (lg_window s) (lg_time s)
        then map (\<lambda>n. \<lparr>tv_signal = n, tv_time = lg_time s, tv_value = v\<rparr>) (entries (lg_targets s) i)
        else []"
      have rem: "legacy_items D s = map Inr ?new @ legacy_items D ?s1"
        using Some iv Inr nt Cons.prems
        by (cases cmd; auto simp: legacy_items_def)+
      have same: "s\<lparr>lg_parser := rest, lg_pending := []\<rparr> = ?s1"
        using Cons.prems(2) by (cases s) simp
      have loop: "legacy_loop D s (x # rest) =
          (case ?new of [] \<Rightarrow> legacy_loop D ?s1 rest
           | tv # pending \<Rightarrow> (Some (Inr tv), ?s1\<lparr>lg_pending := pending\<rparr>))"
        using Some iv Inr nt Cons.prems(1,2) inside
        by (cases cmd; cases "lg_targets s i") (auto simp: entries_def same Let_def split: list.splits)
      show ?thesis
      proof (cases ?new)
        case Nil
        with loop Cons.prems inside have "legacy_step D ?s1 r s'" by (intro ih) auto
        then show ?thesis by (rule legacy_step_skip) (use rem Nil in simp_all)
      next
        case (Cons tv pending)
        then have "r = Some (Inr tv)" "s' = ?s1\<lparr>lg_pending := pending\<rparr>"
          using loop Cons.prems by auto
        then show ?thesis
          using rem Cons Cons.prems inside
          by (simp add: legacy_step_def legacy_valid_def legacy_items_def)
      qed
    qed
  qed
qed

lemma legacy_next_step:
  assumes "legacy_valid s" and "legacy_next D s = (r, s')"
  shows "legacy_step D s r s'"
proof (cases "lg_pending s")
  case Nil
  show ?thesis
  proof (cases "lg_finished s")
    case True
    with Nil assms show ?thesis
      by (auto simp: legacy_next_def legacy_step_def legacy_items_def)
  next
    case False
    with Nil assms show ?thesis by (intro legacy_loop_step) (auto simp: legacy_next_def)
  qed
next
  case (Cons tv pending)
  with assms show ?thesis
    by (auto simp: legacy_next_def legacy_step_def legacy_items_def legacy_valid_def)
qed

interpretation legacy_iter: rust_iterator "legacy_next D"
  "\<lambda>s. length (legacy_items D s)" legacy_valid for D
proof
  show "length (legacy_items D s') < length (legacy_items D s)"
    if "legacy_valid s" "legacy_next D s = (Some (Inr row), s')" for s row s'
    using legacy_next_step [OF that] by (simp add: legacy_step_def)
  show "legacy_valid s'" if "legacy_valid s" "legacy_next D s = (r, s')" for s r s'
    using legacy_next_step [OF that] by (simp add: legacy_step_def)
qed

lemma drain_legacy:
  assumes "legacy_valid s" and "drain (legacy_next D) s = Some (rows, r, s')"
  shows "rows = legacy_remaining D s \<and> r = map_option Io (legacy_error s)"
proof -
  have "rows = before_error (legacy_items D s) \<and> r = first_failure (legacy_items D s)"
    using assms
  proof (induction rule: legacy_iter.drain_induct)
    case (finished s s')
    from legacy_next_step [OF finished] show ?case by (simp add: legacy_step_def)
  next
    case (failed s e s')
    from legacy_next_step [OF failed] show ?case by (auto simp: legacy_step_def)
  next
    case (item s row s' rows r s'')
    from legacy_next_step [OF item(1,2)] item(5) show ?case by (simp add: legacy_step_def)
  qed
  then show ?thesis by (simp add: legacy_items_before_error)
qed

lemma deliveries_legacy: "legacy_valid s \<Longrightarrow> \<exists>s'. deliveries (legacy_next D) s = Some (legacy_items D s, s')"
  by (rule deliveries_items [where I = legacy_valid]) (simp_all add: legacy_next_step [unfolded legacy_step_def])

subsection \<open>Names that resolve\<close>

definition named :: "opened_vcd \<Rightarrow> id_code \<Rightarrow> string \<Rightarrow> bool" where
  "named ov i name \<longleftrightarrow> map_option sm_id (opened_signal ov name) = Some i"

lemma represents_opened:
  assumes rep: "represents (ov_catalog ov) ds paths" and s: "opened_signal ov name = Some sg"
  shows "sm_name sg = name \<and>
    (\<exists>s. Option.bind (key_by_name (ov_catalog ov) name) (ref_to_owned (ov_catalog ov)) = Some s \<and>
      sig_name s = name \<and> sig_id s = sm_id sg)"
proof -
  obtain k where k: "key_by_name (ov_catalog ov) name = Some k"
    and sg: "catalog_signal (ov_catalog ov) k = Some sg"
    using s by (auto simp: opened_signal_def bind_eq_Some_conv)
  have kl: "key_index k < length ds" "fst (ds ! key_index k) = name"
    using k represents_lookup [OF rep] by auto
  have "meta_matches paths (cat_signals (ov_catalog ov) ! key_index k) (ds ! key_index k)"
    using rep kl(1) by (auto simp: represents_def list_all2_conv_all_nth)
  then have m: "meta_matches paths sg (ds ! key_index k)"
    using sg by (auto simp: catalog_signal_def split: if_splits)
  from owned_signal_declaration [OF rep this]
  have "ref_to_owned (ov_catalog ov) k = Some (signal_of_declaration (ds ! key_index k))"
    using sg by (simp add: ref_to_owned_def)
  with k m kl(2) show ?thesis
    by (auto simp: meta_matches_def signal_of_declaration_def split: prod.splits)
qed

lemma represents_opened_None:
  assumes rep: "represents (ov_catalog ov) ds paths" and s: "opened_signal ov name = None"
  shows "key_by_name (ov_catalog ov) name = None"
proof (rule ccontr)
  assume "key_by_name (ov_catalog ov) name \<noteq> None"
  then obtain k where k: "key_by_name (ov_catalog ov) name = Some k" by blast
  then have "key_index k < length (cat_signals (ov_catalog ov))"
    using represents_lookup [OF rep] represents_lengths [OF rep] by simp
  with k s show False by (simp add: opened_signal_def catalog_signal_def)
qed

lemma target_binding_names:
  assumes rep: "represents (ov_catalog ov) ds paths"
  shows "map tb_name (target_bindings ov idx i targets) = filter (named ov i) targets"
proof (induction targets arbitrary: idx)
  case (Cons t ts)
  show ?case
  proof (cases "opened_signal ov t")
    case None
    with Cons show ?thesis by (simp add: named_def)
  next
    case (Some sg)
    then have "sm_name sg = t" using represents_opened [OF rep Some] by simp
    with Cons Some show ?thesis by (simp add: named_def)
  qed
qed simp

lemma built_represents:
  "from_scope_items items = Inr c \<Longrightarrow> \<exists>ds paths. represents c ds paths"
  using from_scope_items_represents by blast

lemma compatibility_names:
  assumes items: "from_scope_items items = Inr (ov_catalog ov)"
    and parts: "to_compatibility_parts (ov_catalog ov) = Some (Inr (ss, idx))"
    and map: "build_target_map idx targets = (m, missing)"
  shows "entries m i = filter (named ov i) targets \<and> missing = missing_targets ov targets"
proof -
  obtain paths where rep: "represents (ov_catalog ov) (declarations items) paths"
    using from_scope_items_represents [OF items] by blast
  have idx: "by_name idx n = Option.bind (key_by_name (ov_catalog ov) n) (ref_to_owned (ov_catalog ov))" for n
    using represents_index [OF rep] parts by auto
  have same: "map_option sig_id (by_name idx n) = map_option sm_id (opened_signal ov n)"
    and nm: "by_name idx n = Some s \<Longrightarrow> sig_name s = n" for n s
    using represents_opened [OF rep, of n] represents_opened_None [OF rep, of n]
    by (cases "opened_signal ov n"; auto simp: idx)+
  have none: "by_name idx n = None \<longleftrightarrow> opened_signal ov n = None" for n
    using same [of n] by (metis map_option_is_None)
  from build_target_map_names [OF map nm] show ?thesis
    by (simp add: same named_def [abs_def] missing_targets_def none)
qed

lemma open_extract_quiet:
  assumes "quiet env q" and "max_signals q = None" and "missing_targets ov targets = []"
  shows "\<exists>x. open_extract env q ov n targets win = Inr x"
proof -
  obtain m missing where r: "resolve_from env q ov (Suc (Suc n)) 0 Map.empty [] targets = Inr (m, missing)"
    using resolve_from_quiet [OF assms(1)] by fastforce
  with resolve_from_result [OF r] assms show ?thesis
    by (simp add: open_extract_def selected_change_stream_def resolve_def body_parser_def
        check_signal_count_def Let_def)
qed

subsection \<open>Counting rows and bytes\<close>

lemma unat_count_rows:
  "unat (count_rows n rows) = min (unat n + length rows) (2 ^ 64 - 1)"
proof (induction rows arbitrary: n)
  case Nil
  then show ?case using unat_less_exp [of n] by (simp add: count_rows_def)
next
  case (Cons row rows)
  then have "unat (count_rows n (row # rows)) =
      min (unat (saturating_add n 1) + length rows) (2 ^ 64 - 1)"
    by (simp add: count_rows_def)
  then show ?case by (simp add: unat_saturating_add)
qed

lemma unat_charge_rows:
  "unat (charge_rows b rows) =
     min (unat b + sum_list (map (\<lambda>row. unat (row_bytes row)) rows)) (2 ^ 64 - 1)"
proof (induction rows arbitrary: b)
  case Nil
  then show ?case using unat_less_exp [of b] by (simp add: charge_rows_def)
next
  case (Cons row rows)
  then have "unat (charge_rows b (row # rows)) =
      min (unat (saturating_add b (row_bytes row)) +
        sum_list (map (\<lambda>row. unat (row_bytes row)) rows)) (2 ^ 64 - 1)"
    by (simp add: charge_rows_def)
  then show ?case by (simp add: unat_saturating_add)
qed

lemma within_nat:
  "within (Some l) a \<Longrightarrow> unat a = min n (2 ^ 64 - 1) \<Longrightarrow> (l :: u64) < - 1 \<Longrightarrow> n \<le> unat l"
  by (auto simp: within_def word_le_nat_alt less_max_u64)

subsection \<open>Properties\<close>

text \<open>
  C5. Extraction in any environment, however it is cancelled or the file changes: it ends; the
  rows it delivers are an initial part of the rows the query asks for, and all of them when it
  ends without an error, in which case the source was validated after everything was read; they
  never exceed the row limit, nor their logical bytes the byte limit; and after the end or an
  error it delivers nothing more.
\<close>

theorem extraction_outcome:
  assumes "open_extract env q ov n targets win = Inr x"
  shows "\<exists>rows r x'. drain (extract_next env D) x = Some (rows, r, x') \<and>
    extract_next env D x' = (None, x') \<and>
    prefix rows (requested_rows D (\<lambda>i. map tb_name (target_bindings ov 0 i targets)) win 0 (ov_body ov)) \<and>
    (case r of
       None \<Rightarrow>
         rows = requested_rows D (\<lambda>i. map tb_name (target_bindings ov 0 i targets)) win 0 (ov_body ov) \<and>
         scan_error win (ov_body ov) = None \<and> sealed env (ex_stream x')
     | Some e \<Rightarrow> extract_failure env q (scan_error win (ov_body ov)) e) \<and>
    (\<forall>l. max_rows q = Some l \<and> l < - 1 \<longrightarrow> length rows \<le> unat l) \<and>
    (\<forall>l. max_result_bytes q = Some l \<and> l < - 1 \<longrightarrow>
       sum_list (map (\<lambda>row. unat (row_bytes row)) rows) \<le> unat l)"
proof -
  note x = open_extract_Inr [OF assms] and rem = expand_changes_opened [OF assms]
  have v: "extract_valid x" using x by blast
  obtain rows r x' where d: "drain (extract_next env D) x = Some (rows, r, x')"
    using extract_iter.drain_returns [OF v] by blast
  note out = drain_extract [OF v d]
  have "length rows \<le> unat l" if "max_rows q = Some l" "l < - 1" for l
    using out x that within_nat [OF _ unat_count_rows, of l 0 rows] by (cases rows) auto
  moreover have "sum_list (map (\<lambda>row. unat (row_bytes row)) rows) \<le> unat l"
    if "max_result_bytes q = Some l" "l < - 1" for l
    using out x that within_nat [OF _ unat_charge_rows, of l 0 rows] by (cases rows) auto
  ultimately show ?thesis
    using d out x rem
    by (intro exI [of _ rows] exI [of _ r] exI [of _ x']) (auto split: option.splits)
qed

lemma sample_opened_catalog: "from_scope_items sample_header = Inr (ov_catalog sample_opened)"
  using sample_catalog by (auto simp: sample_opened_def)

lemma sample_signal: "\<exists>sg. opened_signal sample_opened ''top.cpu.clk'' = Some sg \<and> sm_id sg = 1"
proof -
  obtain paths where rep: "represents (ov_catalog sample_opened) (declarations sample_header) paths"
    using from_scope_items_represents [OF sample_opened_catalog] by blast
  have k: "key_by_name (ov_catalog sample_opened) ''top.cpu.clk'' = Some 1"
    by (simp add: represents_lookup [OF rep] sample_declarations key_index_def)
  then obtain sg where "opened_signal sample_opened ''top.cpu.clk'' = Some sg"
    using represents_opened_None [OF rep, of "''top.cpu.clk''"] by fastforce
  moreover from represents_opened [OF rep this] k have "sm_id sg = 1"
    using represents_ref [OF rep, of 1]
    by (auto simp: sample_declarations signal_of_declaration_def sample_var_def)
  ultimately show ?thesis by blast
qed

lemma sample_bindings:
  "map tb_name (target_bindings sample_opened 0 i [''top.cpu.clk'']) =
     (if i = 1 then [''top.cpu.clk''] else [])"
  "missing_targets sample_opened [''top.cpu.clk''] = []"
proof -
  obtain paths where rep: "represents (ov_catalog sample_opened) (declarations sample_header) paths"
    using from_scope_items_represents [OF sample_opened_catalog] by blast
  show "map tb_name (target_bindings sample_opened 0 i [''top.cpu.clk'']) =
      (if i = 1 then [''top.cpu.clk''] else [])"
    unfolding target_binding_names [OF rep] using sample_signal by (auto simp: named_def)
  show "missing_targets sample_opened [''top.cpu.clk''] = []"
    using sample_signal by (auto simp: missing_targets_def)
qed

lemma sample_open:
  "quiet env q \<Longrightarrow> max_signals q = None \<Longrightarrow>
     \<exists>x. open_extract env q sample_opened 0 [''top.cpu.clk''] win = Inr x"
  using open_extract_quiet sample_bindings(2) by blast

lemma extraction_outcome_witness:
  "\<exists>x rows r x'. open_extract calm (with_max_rows 1 unlimited) sample_opened 0 [''top.cpu.clk''] all_time
       = Inr x \<and>
     drain (extract_next calm plain_displays) x = Some (rows, r, x') \<and> length rows \<le> 1"
proof -
  have "quiet calm (with_max_rows 1 unlimited)"
    by (rule quiet_calm) (simp add: with_max_rows_def unlimited_def)
  then obtain x where x: "open_extract calm (with_max_rows 1 unlimited) sample_opened 0
      [''top.cpu.clk''] all_time = Inr x"
    using sample_open by (fastforce simp: with_max_rows_def unlimited_def)
  from extraction_outcome [OF x, of plain_displays] obtain rows r x' where
    "drain (extract_next calm plain_displays) x = Some (rows, r, x')"
    "\<forall>l. max_rows (with_max_rows 1 unlimited) = Some l \<and> l < - 1 \<longrightarrow> length rows \<le> unat l"
    by blast
  then show ?thesis using x by (fastforce simp: with_max_rows_def less_max_u64)
qed

text \<open>
  C6. Extraction in a quiet environment without a command limit is exact: it delivers the
  requested rows that fit the limits, then the error of the first row over a limit, or the
  parser's error, or nothing.
\<close>

theorem extraction_exact:
  assumes "open_extract env q ov n targets win = Inr x" and "quiet env q" and "max_commands q = None"
    and "from_scope_items items = Inr (ov_catalog ov)"
  shows "\<exists>x'. drain (extract_next env D) x =
    (case charge q 0 0 (requested_rows D (\<lambda>i. filter (named ov i) targets) win 0 (ov_body ov)) of
       (rows, Some e) \<Rightarrow> Some (rows, Some e, x')
     | (rows, None) \<Rightarrow>
         Some (rows, map_option (\<lambda>io. Vcd (Io io)) (scan_error win (ov_body ov)), x'))"
proof -
  note x = open_extract_Inr [OF assms(1)] and rem = expand_changes_opened [OF assms(1)]
  obtain paths where rep: "represents (ov_catalog ov) (declarations items) paths"
    using from_scope_items_represents [OF assms(4)] by blast
  have v: "extract_valid x" using x by blast
  obtain rows r x' where d: "drain (extract_next env D) x = Some (rows, r, x')"
    using extract_iter.drain_returns [OF v] by blast
  have "(rows, r) = extraction_result D x"
    using drain_extract_quiet [OF v d] x assms by simp
  then show ?thesis
    using d x rem target_binding_names [OF rep]
    by (auto simp: extraction_result_def split: prod.splits option.splits)
qed

lemma extraction_exact_witness:
  "\<exists>x x'. open_extract calm (with_max_rows 1 unlimited) sample_opened 0 [''top.cpu.clk''] all_time
       = Inr x \<and>
     drain (extract_next calm plain_displays) x =
       Some ([\<lparr>tv_signal = ''top.cpu.clk'', tv_time = 0, tv_value = Text (disp_scalar plain_displays V0)\<rparr>],
         Some (LimitExceeded Rows 1 2), x')"
proof -
  have q: "quiet calm (with_max_rows 1 unlimited)"
    by (rule quiet_calm) (simp add: with_max_rows_def unlimited_def)
  then obtain x where x: "open_extract calm (with_max_rows 1 unlimited) sample_opened 0
      [''top.cpu.clk''] all_time = Inr x"
    using sample_open by (fastforce simp: with_max_rows_def unlimited_def)
  have names: "filter (named sample_opened i) [''top.cpu.clk''] =
      (if i = 1 then [''top.cpu.clk''] else [])" for i
    using sample_signal by (auto simp: named_def)
  have body: "ov_body sample_opened = [Inr (Timestamp 0), Inr (ChangeScalar 1 V0),
      Inr (ChangeVector 2 [V1, V0]), Inr (Timestamp 5), Inr (ChangeScalar 1 V1),
      Inr (Timestamp 9), Inr (ChangeScalar 1 V0)]"
    by (simp add: sample_opened_def)
  have two: "saturating_add 1 1 = (2 :: u64)" "saturating_add 0 1 = (1 :: u64)"
    by (simp_all add: saturating_add_def)
  from extraction_exact [OF x q _ sample_opened_catalog, of plain_displays] x show ?thesis
    by (simp add: names body with_max_rows_def unlimited_def over_def two Let_def del: filter.simps)
qed

text \<open>
  C7. The streaming extraction delivers what the legacy iterator delivers up to and including its
  first error: on the same file, the same names and an undisturbed source, the same rows and the
  same error, in the same order. The legacy iterator does not end at an error of the parser: what it
  delivers after it are the rows, and errors, of the commands that follow in the window. So the two
  agree on everything when nothing follows an error.
\<close>

theorem legacy_equivalence:
  assumes "from_scope_items items = Inr (ov_catalog ov)"
    and "to_compatibility_parts (ov_catalog ov) = Some (Inr (ss, idx))"
    and "build_target_map idx targets = (m, [])"
    and "quiet env unlimited" and "open_extract env unlimited ov n targets win = Inr x"
  shows "\<exists>streamed x' all s'. deliveries (extract_next env D) x = Some (streamed, x') \<and>
    deliveries (legacy_next D) (legacy_new (ov_body ov) m win) = Some (all, s') \<and>
    map (map_err into_vcd_error) streamed = up_to_error all \<and>
    all = body_items D (\<lambda>i. filter (named ov i) targets) win 0 (ov_body ov)"
proof -
  note x = open_extract_Inr [OF assms(5)] and rem = expand_changes_opened [OF assms(5)]
  obtain paths where rep: "represents (ov_catalog ov) (declarations items) paths"
    using from_scope_items_represents [OF assms(1)] by blast
  have v: "extract_valid x" using x by blast
  let ?all = "body_items D (\<lambda>i. filter (named ov i) targets) win 0 (ov_body ov)"
  obtain rows r x' where d: "drain (extract_next env D) x = Some (rows, r, x')"
    using extract_iter.drain_returns [OF v] by blast
  have res: "(rows, r) = extraction_result D x"
    using drain_extract_quiet [OF v d] x assms(4) by (simp add: unlimited_def)
  have free: "charge unlimited k b rs = (rs, None)" for k b rs
    by (induction rs arbitrary: k b) (simp_all add: unlimited_def over_def Let_def)
  have rows: "rows = before_error ?all" and r: "map_option into_vcd_error r = first_failure ?all"
    using res rem free x target_binding_names [OF rep]
    by (auto simp: extraction_result_def body_items_before_error option.map_comp comp_def)
  have cut: "map (map_err into_vcd_error) (map Inr rows @ (case r of None \<Rightarrow> [] | Some e \<Rightarrow> [Inl e])) = up_to_error ?all"
    unfolding up_to_error_eq rows [symmetric] r [symmetric] by (cases r) simp_all
  have "fst (extract_next env D x') = None" using drain_extract [OF v d] by simp
  then obtain x'' where streamed: "deliveries (extract_next env D) x =
      Some (map Inr rows @ (case r of None \<Rightarrow> [] | Some e \<Rightarrow> [Inl e]), x'')"
    using extract_iter.drain_deliveries [OF v d] by blast
  have "legacy_valid (legacy_new (ov_body ov) m win)"
    by (auto simp: legacy_valid_def legacy_new_def past_end_def split: option.splits)
  moreover have "entries m = (\<lambda>i. filter (named ov i) targets)" using compatibility_names [OF assms(1-3)] by blast
  then have "legacy_items D (legacy_new (ov_body ov) m win) = ?all" by (simp add: legacy_items_def legacy_new_def)
  ultimately obtain s' where "deliveries (legacy_next D) (legacy_new (ov_body ov) m win) = Some (?all, s')"
    using deliveries_legacy [of "legacy_new (ov_body ov) m win" D] by auto
  with streamed cut show ?thesis by blast
qed

lemma map_err_eq_Inl: "map_err f r = Inl e \<longleftrightarrow> (\<exists>d. r = Inl d \<and> f d = e)"
  by (cases r) auto

text \<open>A body whose parser fails and goes on.\<close>

definition broken_opened :: opened_vcd where
  "broken_opened = sample_opened\<lparr>ov_body := [Inr (ChangeScalar 1 V0), Inl (io_new InvalidData ''bad''),
     Inr (ChangeScalar 1 V1)]\<rparr>"

definition sample_row :: "vcd_value \<Rightarrow> time_value" where
  "sample_row v = \<lparr>tv_signal = ''top.cpu.clk'', tv_time = 0, tv_value = Text (disp_scalar plain_displays v)\<rparr>"

lemma legacy_equivalence_witness:
  "\<exists>m x e x' s'. open_extract calm unlimited broken_opened 0 [''top.cpu.clk''] all_time = Inr x \<and>
     into_vcd_error e = Io (io_new InvalidData ''bad'') \<and>
     deliveries (extract_next calm plain_displays) x = Some ([Inr (sample_row V0), Inl e], x') \<and>
     deliveries (legacy_next plain_displays) (legacy_new (ov_body broken_opened) m all_time) =
       Some ([Inr (sample_row V0), Inl (Io (io_new InvalidData ''bad'')), Inr (sample_row V1)], s')"
proof -
  have cat: "ov_catalog broken_opened = ov_catalog sample_opened" by (simp add: broken_opened_def)
  then have same: "opened_signal broken_opened s = opened_signal sample_opened s" for s
    by (simp add: opened_signal_def)
  have q: "quiet calm unlimited" by (rule quiet_calm) (simp add: unlimited_def)
  have "missing_targets broken_opened [''top.cpu.clk''] = []"
    using sample_bindings(2) by (simp add: missing_targets_def same)
  then obtain x where x: "open_extract calm unlimited broken_opened 0 [''top.cpu.clk''] all_time = Inr x"
    using open_extract_quiet [OF q] by (fastforce simp: unlimited_def)
  note items = sample_opened_catalog [folded cat]
  obtain paths where rep: "represents (ov_catalog broken_opened) (declarations sample_header) paths"
    using from_scope_items_represents [OF items] by blast
  obtain ss idx where parts: "to_compatibility_parts (ov_catalog broken_opened) = Some (Inr (ss, idx))"
    using represents_index [OF rep] by blast
  obtain m missing where m: "build_target_map idx [''top.cpu.clk''] = (m, missing)" by fastforce
  then have "missing = []"
    using compatibility_names [OF items parts m] \<open>missing_targets broken_opened _ = []\<close> by simp
  then obtain streamed x' all s' where
      run: "deliveries (extract_next calm plain_displays) x = Some (streamed, x')"
        "deliveries (legacy_next plain_displays) (legacy_new (ov_body broken_opened) m all_time) = Some (all, s')"
    and cut: "map (map_err into_vcd_error) streamed = up_to_error all"
    and all: "all = body_items plain_displays (\<lambda>i. filter (named broken_opened i) [''top.cpu.clk'']) all_time 0 (ov_body broken_opened)"
    using legacy_equivalence [OF items parts _ q x, of m plain_displays] m by blast
  have "filter (named broken_opened 1) [''top.cpu.clk''] = [''top.cpu.clk'']"
    using sample_signal by (auto simp: named_def same)
  then have all': "all = [Inr (sample_row V0), Inl (Io (io_new InvalidData ''bad'')), Inr (sample_row V1)]"
    unfolding all by (simp add: broken_opened_def sample_row_def all_time_def window_contains_def)
  with cut have "\<exists>e. streamed = [Inr (sample_row V0), Inl e] \<and> into_vcd_error e = Io (io_new InvalidData ''bad'')"
    by (auto simp: map_eq_Cons_conv map_err_eq_Inr map_err_eq_Inl)
  with run all' x show ?thesis by blast
qed

end
