(* ===== verification/Ops.thy ===== *)
theory Ops
  imports Extract
begin

text \<open>
  The row-consuming queries of src/query/ops.rs, \<^verbatim>\<open>find_nth_occurrence\<close> and
  \<^verbatim>\<open>count_toggles\<close>, and the collecting wrapper of src/lib.rs. Each is a loop over the extraction
  iterator; its result is \<open>None\<close> only if that loop never ended, which the theorems rule out.
\<close>

subsection \<open>The queries\<close>

definition extract_time_values ::
    "environment \<Rightarrow> displays \<Rightarrow> opened_vcd \<Rightarrow> string list \<Rightarrow> time_window
      \<Rightarrow> (vcd_error + time_value list) option" where
  "extract_time_values env D ov targets window =
     (case open_extract env unlimited ov 0 targets window of
        Inl e \<Rightarrow> Some (Inl (into_vcd_error e))
      | Inr x \<Rightarrow> map_option (\<lambda>(r, _). map_err into_vcd_error r) (collect_rows (extract_next env D) x))"

definition find_body ::
    "displays \<Rightarrow> string \<Rightarrow> nat \<Rightarrow> nat \<times> time_value option \<Rightarrow> time_value
      \<Rightarrow> (query_error, nat \<times> time_value option) flow" where
  "find_body D normalized occurrence acc event =
     (if normalize D (tv_value event) = normalized
      then (let count = fst acc + 1 in
            if count = occurrence then Break (count, Some event) else Continue (count, None))
      else Continue acc)"

definition find_prepare ::
    "environment \<Rightarrow> query_limits \<Rightarrow> opened_vcd \<Rightarrow> nat \<Rightarrow> string \<Rightarrow> nat \<Rightarrow> time_window
      \<Rightarrow> query_error + u32 \<times> extract_iter" where
  "find_prepare env q ov n sig occurrence window =
     (if occurrence < 1 then Inl (Vcd InvalidOccurrence)
      else
        and_then (check env q n) (\<lambda>_.
        and_then (ok_or (Vcd (MissingSignal sig)) (opened_signal ov sig)) (\<lambda>sg.
        and_then (open_extract env q ov (Suc n) [sig] window) (\<lambda>x. Inr (sm_size sg, x)))))"

definition find_nth_occurrence ::
    "environment \<Rightarrow> displays \<Rightarrow> query_limits \<Rightarrow> opened_vcd \<Rightarrow> nat \<Rightarrow> string \<Rightarrow> target_value \<Rightarrow> nat
      \<Rightarrow> time_window \<Rightarrow> (query_error + time_value option \<times> u32) option" where
  "find_nth_occurrence env D q ov n sig target occurrence window =
     (case find_prepare env q ov n sig occurrence window of
        Inl e \<Rightarrow> Some (Inl e)
      | Inr (width, x) \<Rightarrow>
          (case iterate (extract_next env D) (find_body D (normalize_target target) occurrence) x (0, None) of
             None \<Rightarrow> None
           | Some (Fail e, _) \<Rightarrow> Some (Inl e)
           | Some (Break (_, event), x') \<Rightarrow>
               Some (and_then (fst (validate_extraction env x')) (\<lambda>_. Inr (event, width)))
           | Some (Continue _, _) \<Rightarrow> Some (Inr (None, width))))"

type_synonym toggle_state = "(string \<rightharpoonup> nat) \<times> (string \<rightharpoonup> string)"

definition toggle_body ::
    "displays \<Rightarrow> (string \<rightharpoonup> u32) \<Rightarrow> toggle_state \<Rightarrow> time_value \<Rightarrow> (query_error, toggle_state) flow" where
  "toggle_body D sizes st event =
     (let (counts, lasts) = st;
          formatted = format_value_for_signal D (tv_value event)
            (case sizes (tv_signal event) of Some n \<Rightarrow> n | None \<Rightarrow> 1);
          counts' = (case lasts (tv_signal event) of
             Some prev \<Rightarrow>
               if prev \<noteq> [] \<and> prev \<noteq> formatted
               then (case counts (tv_signal event) of
                       Some c \<Rightarrow> counts(tv_signal event \<mapsto> c + 1)
                     | None \<Rightarrow> counts)
               else counts
           | None \<Rightarrow> counts)
      in Continue (counts', lasts(tv_signal event \<mapsto> formatted)))"

definition target_sizes :: "opened_vcd \<Rightarrow> string list \<Rightarrow> (string \<rightharpoonup> u32)" where
  "target_sizes ov targets =
     (\<lambda>n. if n \<in> set targets then map_option sm_size (opened_signal ov n) else None)"

definition count_toggles ::
    "environment \<Rightarrow> displays \<Rightarrow> query_limits \<Rightarrow> opened_vcd \<Rightarrow> nat \<Rightarrow> string list \<Rightarrow> time_window
      \<Rightarrow> (query_error + (string \<rightharpoonup> nat)) option" where
  "count_toggles env D q ov n targets window =
     (case and_then (check_signal_count env q n (length targets))
             (\<lambda>_. open_extract env q ov (Suc n) targets window) of
        Inl e \<Rightarrow> Some (Inl e)
      | Inr x \<Rightarrow>
          (let counts = (\<lambda>n. if n \<in> set targets then Some 0 else None);
               lasts = (\<lambda>n. if n \<in> set targets then Some [] else None) in
           case iterate (extract_next env D) (toggle_body D (target_sizes ov targets)) x (counts, lasts) of
             None \<Rightarrow> None
           | Some (Fail e, _) \<Rightarrow> Some (Inl e)
           | Some (Break (c, _), _) \<Rightarrow> Some (Inr c)
           | Some (Continue (c, _), _) \<Rightarrow> Some (Inr c)))"

subsection \<open>What they should compute\<close>

definition hits :: "displays \<Rightarrow> target_value \<Rightarrow> time_value list \<Rightarrow> time_value list" where
  "hits D target rows = filter (\<lambda>row. normalize D (tv_value row) = normalize_target target) rows"

fun toggles_from :: "string \<Rightarrow> string list \<Rightarrow> nat" where
  "toggles_from prev [] = 0"
| "toggles_from prev (v # vs) =
     (if prev \<noteq> [] \<and> prev \<noteq> v then 1 else 0) + toggles_from v vs"

text \<open>The printed values of one signal in a list of rows.\<close>

definition printed :: "displays \<Rightarrow> u32 \<Rightarrow> string \<Rightarrow> time_value list \<Rightarrow> string list" where
  "printed D width name rows =
     map (\<lambda>row. format_value_for_signal D (tv_value row) width) (filter (\<lambda>row. tv_signal row = name) rows)"

definition rows_of :: "displays \<Rightarrow> opened_vcd \<Rightarrow> string list \<Rightarrow> time_window \<Rightarrow> time_value list" where
  "rows_of D ov targets win =
     requested_rows D (\<lambda>i. map tb_name (target_bindings ov 0 i targets)) win 0 (ov_body ov)"

lemma fold_find:
  "k < occ \<Longrightarrow> fold_flow (find_body D (normalize_target target) occ) (k, None) rows =
     (if k + length (hits D target rows) < occ then Continue (k + length (hits D target rows), None)
      else Break (occ, Some (hits D target rows ! (occ - 1 - k))))"
proof (induction rows arbitrary: k)
  case (Cons row rows)
  show ?case
  proof (cases "normalize D (tv_value row) = normalize_target target")
    case True
    show ?thesis
    proof (cases "Suc k = occ")
      case False
      then have "Suc k < occ" using Cons.prems by simp
      moreover from this have "occ - 1 - k = Suc (occ - 1 - Suc k)" by linarith
      ultimately show ?thesis using Cons.IH [of "Suc k"] True
        by (auto simp: find_body_def hits_def Let_def)
    qed (use True in \<open>auto simp: find_body_def hits_def Let_def\<close>)
  next
    case False
    with Cons show ?thesis by (simp add: find_body_def hits_def)
  qed
qed (simp add: hits_def)

definition signal_width :: "(string \<rightharpoonup> u32) \<Rightarrow> string \<Rightarrow> u32" where
  "signal_width sizes s = (case sizes s of Some n \<Rightarrow> n | None \<Rightarrow> 1)"

lemma toggle_body_step:
  fixes row counts lasts D sizes
  defines "s \<equiv> tv_signal row" and "v \<equiv> format_value_for_signal D (tv_value row)
    (signal_width sizes (tv_signal row))"
  shows "\<exists>counts1. toggle_body D sizes (counts, lasts) row = Continue (counts1, lasts(s \<mapsto> v)) \<and>
    dom counts1 = dom counts \<and> (\<forall>t. t \<noteq> s \<longrightarrow> counts1 t = counts t) \<and>
    (\<forall>c. counts s = Some c \<longrightarrow> counts1 s = Some (c +
      (case lasts s of Some prev \<Rightarrow> if prev \<noteq> [] \<and> prev \<noteq> v then 1 else 0 | None \<Rightarrow> 0)))"
proof (cases "lasts s")
  case None
  then show ?thesis
    unfolding s_def v_def by (simp add: toggle_body_def signal_width_def)
next
  case (Some prev)
  then show ?thesis
    unfolding s_def v_def
    by (cases "prev \<noteq> [] \<and> prev \<noteq> v"; cases "counts s")
      (auto simp: toggle_body_def signal_width_def s_def v_def)
qed

lemma fold_toggle:
  assumes "fold_flow (toggle_body D sizes) (counts, lasts) rows = f"
  shows "\<exists>counts' lasts'. f = Continue (counts', lasts') \<and> dom counts' = dom counts \<and>
    (\<forall>s c. counts s = Some c \<longrightarrow> counts' s =
       Some (c + (case lasts s of
          Some prev \<Rightarrow> toggles_from prev (printed D (signal_width sizes s) s rows)
        | None \<Rightarrow> toggles_from [] (printed D (signal_width sizes s) s rows))))"
  using assms
proof (induction rows arbitrary: counts lasts)
  case Nil
  then show ?case by (auto simp: printed_def split: option.splits)
next
  case (Cons row rows)
  let ?s = "tv_signal row"
  let ?v = "format_value_for_signal D (tv_value row) (signal_width sizes ?s)"
  obtain counts1 where step: "toggle_body D sizes (counts, lasts) row =
      Continue (counts1, lasts(?s \<mapsto> ?v))"
    and c1: "dom counts1 = dom counts" "\<And>s. s \<noteq> ?s \<Longrightarrow> counts1 s = counts s"
      "\<And>c. counts ?s = Some c \<Longrightarrow> counts1 ?s =
        Some (c + (case lasts ?s of Some prev \<Rightarrow> if prev \<noteq> [] \<and> prev \<noteq> ?v then 1 else 0 | None \<Rightarrow> 0))"
    using toggle_body_step [of D sizes counts lasts row] by blast
  from Cons.prems step have "fold_flow (toggle_body D sizes) (counts1, lasts(?s \<mapsto> ?v)) rows = f" by simp
  from Cons.IH [OF this] obtain counts' lasts' where f: "f = Continue (counts', lasts')"
    and d: "dom counts' = dom counts1"
    and r: "\<And>s c. counts1 s = Some c \<Longrightarrow> counts' s =
       Some (c + (case (lasts(?s \<mapsto> ?v)) s of
          Some prev \<Rightarrow> toggles_from prev (printed D (signal_width sizes s) s rows)
        | None \<Rightarrow> toggles_from [] (printed D (signal_width sizes s) s rows)))"
    by blast
  have "counts' s = Some (c + (case lasts s of
          Some prev \<Rightarrow> toggles_from prev (printed D (signal_width sizes s) s (row # rows))
        | None \<Rightarrow> toggles_from [] (printed D (signal_width sizes s) s (row # rows))))"
    if c: "counts s = Some c" for s c
  proof (cases "s = ?s")
    case True
    from r [OF c1(3)] c True show ?thesis by (simp add: printed_def split: option.splits)
  next
    case False
    with c1(2) c r [of s c] show ?thesis by (simp add: printed_def split: option.splits)
  qed
  with f d c1(1) show ?case by blast
qed

subsection \<open>Loops over an extraction\<close>

text \<open>
  A loop over an opened extraction computes what its body computes over a prefix of the requested
  rows, all of them when it runs to the end.
\<close>

lemma iterate_extract:
  assumes "open_extract env q ov n targets win = Inr x"
  shows "\<exists>rows r f x'. iterate (extract_next env D) body x acc = Some (f, x') \<and>
    prefix rows (rows_of D ov targets win) \<and>
    f = (case fold_flow body acc rows of
           Continue a \<Rightarrow> (case r of None \<Rightarrow> Continue a | Some e \<Rightarrow> Fail e) | g \<Rightarrow> g) \<and>
    (r = None \<longrightarrow> rows = rows_of D ov targets win) \<and>
    (quiet env q \<and> max_commands q = None \<and> max_rows q = None \<and> max_result_bytes q = None \<longrightarrow>
       rows = rows_of D ov targets win \<and>
       r = map_option (\<lambda>io. Vcd (Io io)) (scan_error win (ov_body ov)))"
proof -
  note x = open_extract_Inr [OF assms] and rem = expand_changes_opened [OF assms]
  have v: "extract_valid x" using x by blast
  obtain rows r x' where d: "drain (extract_next env D) x = Some (rows, r, x')"
    using extract_iter.drain_returns [OF v] by blast
  note out = drain_extract [OF v d]
  have "rows = rows_of D ov targets win \<and> r = map_option (\<lambda>io. Vcd (Io io)) (scan_error win (ov_body ov))"
    if q: "quiet env q \<and> max_commands q = None \<and> max_rows q = None \<and> max_result_bytes q = None"
  proof -
    have free: "charge q k b rs = (rs, None)" for k b rs
      using q by (induction rs arbitrary: k b) (simp_all add: over_def Let_def)
    have "(rows, r) = extraction_result D x" using drain_extract_quiet [OF v d] x q by simp
    then show ?thesis using x rem free by (simp add: extraction_result_def rows_of_def)
  qed
  moreover have "prefix rows (rows_of D ov targets win)"
    using out rem by (cases r) (simp_all add: rows_of_def)
  moreover have "r = None \<longrightarrow> rows = rows_of D ov targets win"
    using out rem by (cases r) (simp_all add: rows_of_def)
  ultimately show ?thesis using extract_iter.iterate_drain [OF v d, of body acc] by blast
qed

lemma hits_prefix: "prefix rows all_rows \<Longrightarrow> prefix (hits D target rows) (hits D target all_rows)"
  by (auto simp: prefix_def hits_def)

lemma prefix_nth_eq: "prefix xs ys \<Longrightarrow> i < length xs \<Longrightarrow> ys ! i = xs ! i \<and> i < length ys"
  by (auto simp: prefix_def nth_append)

subsection \<open>Properties\<close>

lemma find_result:
  "\<exists>res. find_nth_occurrence env D q ov n sig target occ win = Some res \<and>
    (case res of
       Inr (ev, width) \<Rightarrow>
         map_option sm_size (opened_signal ov sig) = Some width \<and> 1 \<le> occ \<and>
         ev = (if occ \<le> length (hits D target (rows_of D ov [sig] win))
               then Some (hits D target (rows_of D ov [sig] win) ! (occ - 1)) else None)
     | Inl e \<Rightarrow>
         \<not> (quiet env q \<and> max_commands q = None \<and> max_rows q = None \<and> max_result_bytes q = None \<and>
            max_signals q = None \<and> scan_error win (ov_body ov) = None \<and> 1 \<le> occ \<and>
            opened_signal ov sig \<noteq> None))"
proof (cases "find_prepare env q ov n sig occ win")
  case (Inl e)
  have "\<exists>x. open_extract env q ov (Suc n) [sig] win = Inr x"
    if "quiet env q" "max_signals q = None" "opened_signal ov sig \<noteq> None"
    using that by (intro open_extract_quiet) (simp_all add: missing_targets_def)
  with Inl show ?thesis
    by (auto simp: find_nth_occurrence_def find_prepare_def and_then_eq_Inl ok_or_eq_Inl
        split: if_splits)
next
  case (Inr wx)
  obtain width x where wx: "wx = (width, x)" by fastforce
  then have occ: "1 \<le> occ" and size: "map_option sm_size (opened_signal ov sig) = Some width"
    and x: "open_extract env q ov (Suc n) [sig] win = Inr x"
    using Inr by (auto simp: find_prepare_def and_then_eq_Inr ok_or_eq_Inr split: if_splits)
  let ?body = "find_body D (normalize_target target) occ" and ?all = "rows_of D ov [sig] win"
  obtain rows r f x' where it: "iterate (extract_next env D) ?body x (0, None) = Some (f, x')"
    and pre: "prefix rows ?all"
    and f: "f = (case fold_flow ?body (0, None) rows of
        Continue a \<Rightarrow> (case r of None \<Rightarrow> Continue a | Some e \<Rightarrow> Fail e) | g \<Rightarrow> g)"
    and whole: "r = None \<longrightarrow> rows = ?all"
    and q: "quiet env q \<and> max_commands q = None \<and> max_rows q = None \<and> max_result_bytes q = None \<longrightarrow>
       rows = ?all \<and> r = map_option (\<lambda>io. Vcd (Io io)) (scan_error win (ov_body ov))"
    using iterate_extract [OF x, of D ?body "(0, None)"] by blast
  have fold: "fold_flow ?body (0, None) rows =
     (if length (hits D target rows) < occ then Continue (length (hits D target rows), None)
      else Break (occ, Some (hits D target rows ! (occ - 1))))"
    using fold_find [of 0 occ D target rows] occ by simp
  show ?thesis
  proof (cases "length (hits D target rows) < occ")
    case True
    with fold f it Inr wx occ size whole q show ?thesis
      by (cases r) (auto simp: find_nth_occurrence_def)
  next
    case False
    then have hit: "hits D target rows ! (occ - 1) = hits D target ?all ! (occ - 1)"
      and len: "occ \<le> length (hits D target ?all)"
      using prefix_nth_eq [OF hits_prefix [OF pre], of "occ - 1" D target] occ by simp_all linarith
    have find: "find_nth_occurrence env D q ov n sig target occ win =
        Some (and_then (fst (validate_extraction env x')) (\<lambda>_. Inr (Some (hits D target rows ! (occ - 1)), width)))"
      using False fold f it Inr wx by (simp add: find_nth_occurrence_def)
    have "extract_valid x'" and "ex_limits x' = q"
      using extract_iter.iterate_invariant [OF _ it, of "\<lambda>y. ex_limits y = q"]
        open_extract_Inr [OF x] extract_next_valid by auto
    then have "fst (validate_extraction env x') = Inr ()" if "quiet env q"
      using that by (simp add: validate_extraction_def validate_current_generation_def
          completion_def extract_valid_def)
    moreover have "fst (validate_extraction env x') = Inr () \<or>
        (\<exists>e. fst (validate_extraction env x') = Inl e)"
      by (cases "fst (validate_extraction env x')") auto
    ultimately have "(\<exists>e. find_nth_occurrence env D q ov n sig target occ win = Some (Inl e) \<and> \<not> quiet env q) \<or>
        find_nth_occurrence env D q ov n sig target occ win =
          Some (Inr (Some (hits D target rows ! (occ - 1)), width))"
      using find by auto
    with hit len occ size show ?thesis by auto
  qed
qed

text \<open>
  C8. \<^verbatim>\<open>find_nth_occurrence\<close> always returns, and in every environment an answer it gives is
  right: the event is the n-th among all the rows of the signal whose value equals the target,
  and \<^verbatim>\<open>None\<close> means there are fewer, never that the search was cut short. In an undisturbed
  environment without limits it gives an answer.
\<close>

theorem find_correct:
  "\<exists>res. find_nth_occurrence env D q ov n sig target occ win = Some res \<and>
    (case res of
       Inr (ev, width) \<Rightarrow>
         map_option sm_size (opened_signal ov sig) = Some width \<and> 1 \<le> occ \<and>
         ev = (if occ \<le> length (hits D target (rows_of D ov [sig] win))
               then Some (hits D target (rows_of D ov [sig] win) ! (occ - 1)) else None)
     | Inl e \<Rightarrow>
         \<not> (quiet env q \<and> max_commands q = None \<and> max_rows q = None \<and> max_result_bytes q = None \<and>
            max_signals q = None \<and> scan_error win (ov_body ov) = None \<and> 1 \<le> occ \<and>
            opened_signal ov sig \<noteq> None))"
  by (rule find_result)

lemma toggles_result:
  "\<exists>res. count_toggles env D q ov n targets win = Some res \<and>
    (case res of
       Inr counts \<Rightarrow>
         counts = (\<lambda>s. if s \<in> set targets
           then Some (toggles_from []
             (printed D (signal_width (target_sizes ov targets) s) s (rows_of D ov targets win)))
           else None)
     | Inl e \<Rightarrow>
         \<not> (quiet env q \<and> max_commands q = None \<and> max_rows q = None \<and> max_result_bytes q = None \<and>
            max_signals q = None \<and> scan_error win (ov_body ov) = None \<and>
            missing_targets ov targets = []))"
proof (cases "and_then (check_signal_count env q n (length targets))
    (\<lambda>_. open_extract env q ov (Suc n) targets win)")
  case (Inl e)
  have "\<exists>x. open_extract env q ov (Suc n) targets win = Inr x"
    if "quiet env q" "max_signals q = None" "missing_targets ov targets = []"
    using that by (rule open_extract_quiet)
  with Inl show ?thesis
    by (auto simp: count_toggles_def and_then_eq_Inl check_signal_count_def split: option.splits)
next
  case (Inr x)
  then have x: "open_extract env q ov (Suc n) targets win = Inr x" by (auto simp: and_then_eq_Inr)
  let ?body = "toggle_body D (target_sizes ov targets)" and ?all = "rows_of D ov targets win"
  let ?c0 = "(\<lambda>s. if s \<in> set targets then Some 0 else None) :: string \<rightharpoonup> nat"
  let ?l0 = "(\<lambda>s. if s \<in> set targets then Some [] else None) :: string \<rightharpoonup> string"
  let ?w = "signal_width (target_sizes ov targets)"
  obtain rows r f x' where it: "iterate (extract_next env D) ?body x (?c0, ?l0) = Some (f, x')"
    and f: "f = (case fold_flow ?body (?c0, ?l0) rows of
        Continue a \<Rightarrow> (case r of None \<Rightarrow> Continue a | Some e \<Rightarrow> Fail e) | g \<Rightarrow> g)"
    and whole: "r = None \<longrightarrow> rows = ?all"
    and q: "quiet env q \<and> max_commands q = None \<and> max_rows q = None \<and> max_result_bytes q = None \<longrightarrow>
       rows = ?all \<and> r = map_option (\<lambda>io. Vcd (Io io)) (scan_error win (ov_body ov))"
    using iterate_extract [OF x, of D ?body "(?c0, ?l0)"] by blast
  obtain counts lasts where fold: "fold_flow ?body (?c0, ?l0) rows = Continue (counts, lasts)"
    and d: "dom counts = dom ?c0"
    and c: "\<forall>s k. ?c0 s = Some k \<longrightarrow> counts s = Some (k + (case ?l0 s of
        Some prev \<Rightarrow> toggles_from prev (printed D (?w s) s rows)
      | None \<Rightarrow> toggles_from [] (printed D (?w s) s rows)))"
    using fold_toggle [OF refl, of D "target_sizes ov targets" ?c0 ?l0 rows] by blast
  have counts: "counts = (\<lambda>s. if s \<in> set targets then Some (toggles_from [] (printed D (?w s) s rows)) else None)"
  proof
    fix s
    show "counts s = (if s \<in> set targets then Some (toggles_from [] (printed D (?w s) s rows)) else None)"
      using c [rule_format, of s 0] d domIff [of s counts] by (auto simp: dom_def split: if_splits)
  qed
  have res: "count_toggles env D q ov n targets win =
      Some (case r of None \<Rightarrow> Inr counts | Some e \<Rightarrow> Inl e)"
    using Inr it f fold by (cases r) (simp_all add: count_toggles_def Let_def)
  show ?thesis
    using res counts whole q by (cases r) auto
qed

text \<open>
  C9. \<^verbatim>\<open>count_toggles\<close> always returns, and in every environment the counts it gives are right:
  one entry per requested name, with the number of changes between consecutive printed values of
  the signal in the requested rows. In an undisturbed environment without limits it gives them.
\<close>

theorem toggles_correct:
  "\<exists>res. count_toggles env D q ov n targets win = Some res \<and>
    (case res of
       Inr counts \<Rightarrow>
         counts = (\<lambda>s. if s \<in> set targets
           then Some (toggles_from []
             (printed D (signal_width (target_sizes ov targets) s) s (rows_of D ov targets win)))
           else None)
     | Inl e \<Rightarrow>
         \<not> (quiet env q \<and> max_commands q = None \<and> max_rows q = None \<and> max_result_bytes q = None \<and>
            max_signals q = None \<and> scan_error win (ov_body ov) = None \<and>
            missing_targets ov targets = []))"
  by (rule toggles_result)

text \<open>Requesting a signal twice does not change its count: each value is just seen twice.\<close>

lemma toggles_repeat:
  "toggles_from prev (concat (map (\<lambda>v. replicate (Suc k) v) vs)) = toggles_from prev vs"
proof (induction vs arbitrary: prev)
  case (Cons v vs)
  have same: "toggles_from v (replicate k v @ ws) = toggles_from v ws" for ws
    by (induction k) simp_all
  show ?case using Cons by (simp add: same)
qed simp

text \<open>
  The collecting wrapper: undisturbed, it returns all requested rows, or the names that are
  missing, or the parser's error.
\<close>

lemma extract_time_values_exact:
  assumes q: "quiet env unlimited"
  shows "extract_time_values env D ov targets win = Some
    (if missing_targets ov targets \<noteq> []
     then Inl (MissingSignals (join '', '' (missing_targets ov targets)))
     else case scan_error win (ov_body ov) of
         Some io \<Rightarrow> Inl (Io io)
       | None \<Rightarrow> Inr (rows_of D ov targets win))"
proof (cases "missing_targets ov targets = []")
  case True
  then obtain x where x: "open_extract env unlimited ov 0 targets win = Inr x"
    using open_extract_quiet [OF q] by (fastforce simp: unlimited_def)
  obtain rows r f x' where it: "iterate (extract_next env D) (\<lambda>acc a. Continue (acc @ [a])) x [] = Some (f, x')"
    and f: "f = (case fold_flow (\<lambda>acc a. Continue (acc @ [a])) [] rows of
        Continue a \<Rightarrow> (case r of None \<Rightarrow> Continue a | Some e \<Rightarrow> Fail e) | g \<Rightarrow> g)"
    and res: "quiet env unlimited \<and> max_commands unlimited = None \<and> max_rows unlimited = None \<and>
        max_result_bytes unlimited = None \<longrightarrow>
       rows = rows_of D ov targets win \<and>
       r = map_option (\<lambda>io. Vcd (Io io)) (scan_error win (ov_body ov))"
    using iterate_extract [OF x, of D "\<lambda>acc a. Continue (acc @ [a])" "[]"] by blast
  have "rows = rows_of D ov targets win"
    and r: "r = map_option (\<lambda>io. Vcd (Io io)) (scan_error win (ov_body ov))"
    using res q by (auto simp: unlimited_def)
  then show ?thesis
    using x it f True
    by (cases "scan_error win (ov_body ov)")
      (simp_all add: extract_time_values_def collect_rows_def fold_flow_collect)
next
  case False
  obtain m missing where r: "resolve_from env unlimited ov 2 0 Map.empty [] targets = Inr (m, missing)"
    using resolve_from_quiet [OF q] by fastforce
  with resolve_from_result [OF r] False q show ?thesis
    by (simp add: extract_time_values_def open_extract_def selected_change_stream_def resolve_def
        check_signal_count_def Let_def unlimited_def numeral_2_eq_2)
qed

end
