(* ===== verification/Compare.thy ===== *)
theory Compare
  imports Ops "HOL-Library.Char_ord" "HOL-Library.List_Lexorder"
begin

text \<open>
  Waveform comparison: src/query/compare.rs and the comparison records of src/lib.rs. A provider
  names its signals, collects the timelines of some of them and validates its source. The locale
  \<open>timeline_source\<close> is the contract of a provider; the comparison is proved against it and
  interpreted on the VCD provider (and on the FST provider in the theory of that format).

  A timeline is compared as the code does: both are walked by time, the last value at a time
  wins, a signal is \<^verbatim>\<open>x\<close> before its first change, and a poll of the context is due every 4096
  entries. The loop over indices is a recursion over the remaining entries.
\<close>

type_synonym timeline = "(u64 \<times> change_value) list"
type_synonym timelines = "string \<rightharpoonup> timeline"

record signal_mismatch =
  mm_signal :: string
  mm_time :: u64
  mm_value1 :: change_value
  mm_value2 :: change_value
  mm_unknown :: bool

record comparison_options =
  co_max_mismatches :: "nat option"
  co_signals_only :: "string list"
  co_ignore_unknown :: bool
  co_window :: time_window

definition default_options :: comparison_options where
  "default_options = \<lparr>co_max_mismatches = None, co_signals_only = [], co_ignore_unknown = False,
     co_window = all_time\<rparr>"

record comparison_result =
  cr_file1 :: string
  cr_file2 :: string
  cr_common :: "string list"
  cr_only1 :: "string list"
  cr_only2 :: "string list"
  cr_mismatches :: "signal_mismatch list"
  cr_total :: nat
  cr_signals_with :: nat
  cr_passed :: bool

definition get_summary :: "comparison_result \<Rightarrow> string" where
  "get_summary r =
     (if cr_passed r
      then [CHR 0xE2, CHR 0x9C, CHR 0x85] @ '' PASS - All '' @ decimal (length (cr_common r))
        @ '' common signals match''
      else [CHR 0xE2, CHR 0x9D, CHR 0x8C] @ '' FAIL - '' @ decimal (cr_signals_with r) @ ''/''
        @ decimal (length (cr_common r)) @ '' signals have mismatches ('' @ decimal (cr_total r)
        @ '' total mismatches)'')"

record json_comparison_result =
  jc_file1 :: string
  jc_file2 :: string
  jc_common_count :: nat
  jc_only1 :: "string list"
  jc_only2 :: "string list"
  jc_by_signal :: "string \<rightharpoonup> nat"
  jc_total :: nat
  jc_signals_with :: nat
  jc_passed :: bool

definition json_of_comparison :: "comparison_result \<Rightarrow> json_comparison_result" where
  "json_of_comparison r =
     \<lparr>jc_file1 = cr_file1 r, jc_file2 = cr_file2 r, jc_common_count = length (cr_common r),
      jc_only1 = cr_only1 r, jc_only2 = cr_only2 r,
      jc_by_signal = foldl (\<lambda>m mm. m(mm_signal mm \<mapsto>
        (case m (mm_signal mm) of None \<Rightarrow> 0 | Some k \<Rightarrow> k) + 1)) Map.empty (cr_mismatches r),
      jc_total = cr_total r, jc_signals_with = cr_signals_with r, jc_passed = cr_passed r\<rparr>"

subsection \<open>Values\<close>

definition is_unknown :: "change_value \<Rightarrow> bool" where
  "is_unknown v \<longleftrightarrow>
     (case v of Text t \<Rightarrow> eq_ignore_case t ''x'' \<or> eq_ignore_case t ''z'' | _ \<Rightarrow> False)"

definition values_match :: "displays \<Rightarrow> change_value \<Rightarrow> change_value \<Rightarrow> bool \<Rightarrow> bool" where
  "values_match D a b ignore_unknown \<longleftrightarrow>
     (if ignore_unknown \<and> (is_unknown a \<or> is_unknown b) then True
      else case (a, b) of
          (Integer i, Integer j) \<Rightarrow> i = j
        | (Float f, Float g) \<Rightarrow> f = g
        | (Text t, Text u) \<Rightarrow> eq_ignore_case t u
        | _ \<Rightarrow> normalize D a = normalize D b)"

subsection \<open>One signal\<close>

definition poll_timeline ::
    "environment \<Rightarrow> query_limits \<Rightarrow> u64 \<Rightarrow> nat \<Rightarrow> query_error + u64 \<times> nat" where
  "poll_timeline env q work n =
     (let work' = saturating_add work 1 in
      if work' mod 4096 = 0 then and_then (check env q n) (\<lambda>_. Inr (work', Suc n))
      else Inr (work', n))"

fun advance ::
    "environment \<Rightarrow> query_limits \<Rightarrow> u64 \<Rightarrow> u64 \<Rightarrow> nat \<Rightarrow> change_value \<Rightarrow> timeline
      \<Rightarrow> query_error + change_value \<times> timeline \<times> u64 \<times> nat" where
  "advance env q time work n current [] = Inr (current, [], work, n)"
| "advance env q time work n current ((t, v) # es) =
     (if t = time
      then and_then (poll_timeline env q work n) (\<lambda>(work', n').
        advance env q time work' n' v es)
      else Inr (current, (t, v) # es, work, n))"

definition head_time :: "timeline \<Rightarrow> u64" where
  "head_time es = (case es of [] \<Rightarrow> - 1 | (t, _) # _ \<Rightarrow> t)"

lemma advance_length:
  "advance env q time work n current es = Inr (c, rest, w, m) \<Longrightarrow>
     length rest \<le> length es \<and>
     (es \<noteq> [] \<and> head_time es = time \<longrightarrow> length rest < length es)"
proof (induction env q time work n current es arbitrary: c rest w m rule: advance.induct)
  case (2 env q time work n current t v es)
  show ?case
  proof (cases "t = time")
    case True
    then obtain work' n' where p: "poll_timeline env q work n = Inr (work', n')"
      and a: "advance env q time work' n' v es = Inr (c, rest, w, m)"
      using "2.prems" by (auto simp: and_then_eq_Inr)
    from "2.IH" [OF True p refl a] show ?thesis by auto
  next
    case False
    with "2.prems" show ?thesis by (auto simp: head_time_def)
  qed
qed (auto simp: head_time_def)

lemma advance_two_length:
  assumes "advance env q (min (head_time first) (head_time second)) work n c first = Inr (c1, first', w1, n1)"
    and "advance env q (min (head_time first) (head_time second)) w1 n1 d second = Inr (c2, second', w2, n2)"
    and "\<not> (first = [] \<and> second = [])" and "min (head_time first) (head_time second) \<noteq> - 1"
  shows "length first' + length second' < length first + length second"
proof -
  note a = advance_length [OF assms(1)] advance_length [OF assms(2)]
  have "first \<noteq> [] \<and> head_time first = min (head_time first) (head_time second) \<or>
      second \<noteq> [] \<and> head_time second = min (head_time first) (head_time second)"
    using assms(3,4) by (cases first; cases second) (auto simp: head_time_def min_def split: if_splits)
  with a show ?thesis by (auto simp: less_le)
qed

definition reached_maximum :: "comparison_options \<Rightarrow> nat \<Rightarrow> bool" where
  "reached_maximum opts count =
     (case co_max_mismatches opts of Some maximum \<Rightarrow> count \<ge> maximum | None \<Rightarrow> False)"

function compare_loop ::
    "environment \<Rightarrow> displays \<Rightarrow> query_limits \<Rightarrow> comparison_options \<Rightarrow> string \<Rightarrow> timeline \<Rightarrow> timeline
      \<Rightarrow> change_value \<Rightarrow> change_value \<Rightarrow> nat \<Rightarrow> u64 \<Rightarrow> nat \<Rightarrow> signal_mismatch list
      \<Rightarrow> query_error + nat \<times> signal_mismatch list \<times> nat" where
  "compare_loop env D q opts sig first second current1 current2 count work n mismatches =
     (if first = [] \<and> second = [] then Inr (count, mismatches, n)
      else let time = min (head_time first) (head_time second) in
        if time = - 1 then Inr (count, mismatches, n)
        else
          and_then (advance env q time work n current1 first) (\<lambda>(c1, first', w1, n1).
          and_then (advance env q time w1 n1 current2 second) (\<lambda>(c2, second', w2, n2).
            if \<not> values_match D c1 c2 (co_ignore_unknown opts)
            then
              and_then (check env q n2) (\<lambda>_.
                let mismatches' = mismatches @
                      [\<lparr>mm_signal = sig, mm_time = time, mm_value1 = c1, mm_value2 = c2,
                        mm_unknown = is_unknown c1 \<or> is_unknown c2\<rparr>];
                    count' = count + 1 in
                if reached_maximum opts count'
                then Inr (count', mismatches', Suc n2)
                else compare_loop env D q opts sig first' second' c1 c2 count' w2 (Suc n2) mismatches')
            else compare_loop env D q opts sig first' second' c1 c2 count w2 n2 mismatches)))"
  by pat_completeness auto

termination
proof (relation "measure (\<lambda>(env, D, q, opts, sig, first, second, _). length first + length second)", goal_cases)
  case 1
  show ?case by simp
next
  case 2
  then show ?case using advance_two_length by (force simp: prod_eq_iff)
next
  case 3
  then show ?case using advance_two_length by (force simp: prod_eq_iff)
qed

declare compare_loop.simps [simp del]

definition compare_signal_timeline ::
    "environment \<Rightarrow> displays \<Rightarrow> query_limits \<Rightarrow> comparison_options \<Rightarrow> string \<Rightarrow> timeline \<Rightarrow> timeline
      \<Rightarrow> nat \<Rightarrow> signal_mismatch list \<Rightarrow> query_error + nat \<times> signal_mismatch list \<times> nat" where
  "compare_signal_timeline env D q opts sig first second n mismatches =
     compare_loop env D q opts sig first second (Text ''x'') (Text ''x'') 0 0 n mismatches"

subsection \<open>What the comparison of one signal should find\<close>

text \<open>The value of a signal at a time, and the times at which either signal changes.\<close>

fun value_at :: "change_value \<Rightarrow> timeline \<Rightarrow> u64 \<Rightarrow> change_value" where
  "value_at current [] t = current"
| "value_at current ((u, v) # es) t = (if u \<le> t then value_at v es t else value_at current es t)"

definition change_times :: "timeline \<Rightarrow> timeline \<Rightarrow> u64 list" where
  "change_times a b = sorted_list_of_set (fst ` set a \<union> fst ` set b)"

definition mismatches_from ::
    "displays \<Rightarrow> comparison_options \<Rightarrow> string \<Rightarrow> change_value \<Rightarrow> change_value \<Rightarrow> timeline \<Rightarrow> timeline
      \<Rightarrow> signal_mismatch list" where
  "mismatches_from D opts sig c1 c2 a b =
     map (\<lambda>t. \<lparr>mm_signal = sig, mm_time = t, mm_value1 = value_at c1 a t, mm_value2 = value_at c2 b t,
               mm_unknown = is_unknown (value_at c1 a t) \<or> is_unknown (value_at c2 b t)\<rparr>)
       (filter (\<lambda>t. \<not> values_match D (value_at c1 a t) (value_at c2 b t) (co_ignore_unknown opts))
         (change_times a b))"

definition limit_take :: "comparison_options \<Rightarrow> 'a list \<Rightarrow> 'a list" where
  "limit_take opts xs = (case co_max_mismatches opts of None \<Rightarrow> xs | Some m \<Rightarrow> take m xs)"

definition expected_mismatches ::
    "displays \<Rightarrow> comparison_options \<Rightarrow> string \<Rightarrow> timeline \<Rightarrow> timeline \<Rightarrow> signal_mismatch list" where
  "expected_mismatches D opts sig a b =
     limit_take opts (mismatches_from D opts sig (Text ''x'') (Text ''x'') a b)"

text \<open>
  The code departs from this in two corners. It takes the last time of all, 2^64 - 1, for the end of
  a timeline, and it tests the maximum after it has reported a mismatch, so that a maximum of 0
  is one of 1. \<open>before_last\<close> and \<open>at_least_one\<close> say so; elsewhere they change nothing.
\<close>

definition before_last :: "timeline \<Rightarrow> timeline" where
  "before_last a = filter (\<lambda>e. fst e \<noteq> - 1) a"

definition at_least_one :: "comparison_options \<Rightarrow> comparison_options" where
  "at_least_one opts = opts\<lparr>co_max_mismatches := map_option (max 1) (co_max_mismatches opts)\<rparr>"

lemma at_least_one_simps [simp]:
  "co_ignore_unknown (at_least_one opts) = co_ignore_unknown opts" "co_window (at_least_one opts) = co_window opts"
  "co_signals_only (at_least_one opts) = co_signals_only opts"
  by (simp_all add: at_least_one_def)

lemma at_least_one_same: "co_max_mismatches opts \<noteq> Some 0 \<Longrightarrow> at_least_one opts = opts"
  by (cases opts; cases "co_max_mismatches opts") (auto simp: at_least_one_def max_def)

lemma before_last_same: "- 1 \<notin> fst ` set a \<Longrightarrow> before_last a = a"
  by (force simp: before_last_def filter_id_conv)

definition after :: "timeline \<Rightarrow> u64 \<Rightarrow> timeline" where
  "after a t = filter (\<lambda>e. t < fst e) a"

abbreviation ordered :: "timeline \<Rightarrow> bool" where
  "ordered a \<equiv> sorted (map fst a)"

lemma ordered_after [simp]: "ordered a \<Longrightarrow> ordered (after a t)"
  by (induction a) (auto simp: after_def)

lemma value_at_later: "(\<And>e. e \<in> set a \<Longrightarrow> t < fst e) \<Longrightarrow> value_at c a t = c"
proof (induction a)
  case (Cons e es)
  moreover have "t < fst e" using Cons.prems by simp
  ultimately show ?case by (cases e) auto
qed simp

lemma after_all: "(\<And>e. e \<in> set a \<Longrightarrow> t < fst e) \<Longrightarrow> after a t = a"
  by (simp add: after_def)

lemma value_at_after:
  "ordered a \<Longrightarrow> time \<le> t \<Longrightarrow> value_at (value_at c a time) (after a time) t = value_at c a t"
proof (induction a arbitrary: c)
  case (Cons e es)
  obtain u v where e: "e = (u, v)" by fastforce
  show ?case
  proof (cases "u \<le> time")
    case True
    with Cons e show ?thesis by (auto simp: after_def)
  next
    case False
    then have later: "time < fst x" if "x \<in> set (e # es)" for x
      using that Cons.prems(1) e by (auto simp: not_le intro: less_le_trans)
    have "value_at c (e # es) time = c" and "after (e # es) time = e # es"
      using value_at_later after_all later by blast+
    then show ?thesis by (simp only:)
  qed
qed (simp add: after_def)

lemma advance_ordered:
  "ordered a \<Longrightarrow> (\<And>e. e \<in> set a \<Longrightarrow> time \<le> fst e) \<Longrightarrow>
     advance env q time work n c a = Inr (c', rest, w, m) \<Longrightarrow>
     c' = value_at c a time \<and> rest = after a time"
proof (induction env q time work n c a arbitrary: c' rest w m rule: advance.induct)
  case (2 env q time work n c t v es)
  show ?case
  proof (cases "t = time")
    case True
    then obtain work' n' where p: "poll_timeline env q work n = Inr (work', n')"
      and a: "advance env q time work' n' v es = Inr (c', rest, w, m)"
      using "2.prems"(3) by (auto simp: and_then_eq_Inr)
    have "c' = value_at v es time \<and> rest = after es time"
      using "2.prems" by (intro "2.IH" [OF True p refl _ _ a]) auto
    with True show ?thesis by (simp add: after_def)
  next
    case False
    have "time \<le> t" using "2.prems"(2) [of "(t, v)"] by simp
    with False have "time < t" by simp
    then have later: "time < fst x" if "x \<in> set ((t, v) # es)" for x
      using that "2.prems"(1) by (auto intro: less_le_trans)
    have "value_at c ((t, v) # es) time = c" and "after ((t, v) # es) time = (t, v) # es"
      using value_at_later after_all later by blast+
    moreover have "c' = c" "rest = (t, v) # es" using False "2.prems"(3) by simp_all
    ultimately show ?thesis by (simp only:)
  qed
qed (simp add: after_def)

lemma head_time_le: "ordered a \<Longrightarrow> e \<in> set a \<Longrightarrow> head_time a \<le> fst e"
  by (cases a) (auto simp: head_time_def)

lemma head_time_mem: "a \<noteq> [] \<Longrightarrow> head_time a \<in> fst ` set a"
  by (cases a) (auto simp: head_time_def)

lemma head_time_Nil [simp]: "head_time [] = - 1"
  by (simp add: head_time_def)

lemma fst_after: "(\<And>e. e \<in> set a \<Longrightarrow> t \<le> fst e) \<Longrightarrow> fst ` set (after a t) = fst ` set a - {t}"
  unfolding after_def by (auto simp: less_le)

lemma min_head_le:
  "ordered a \<Longrightarrow> e \<in> set a \<Longrightarrow> min (head_time a) t \<le> fst e"
  "ordered b \<Longrightarrow> e \<in> set b \<Longrightarrow> min t (head_time b) \<le> fst e"
  using head_time_le [of a e] head_time_le [of b e] by (auto simp: min_le_iff_disj)

lemma before_last_ordered [simp]: "ordered a \<Longrightarrow> ordered (before_last a)"
  by (induction a) (auto simp: before_last_def)

lemma before_last_after: "before_last (after a t) = after (before_last a) t"
  by (simp add: before_last_def after_def conj_commute)

lemma before_last_value: "t \<noteq> - 1 \<Longrightarrow> value_at c (before_last a) t = value_at c a t"
proof (induction c a t rule: value_at.induct)
  case (2 c u v es t)
  have "u \<noteq> - 1" if "u \<le> t" using that 2(3) by (metis word_n1_ge antisym)
  with 2 show ?case by (auto simp: before_last_def)
qed (simp add: before_last_def)

lemma before_last_head: "ordered a \<Longrightarrow> head_time (before_last a) = head_time a"
proof (cases a)
  case (Cons e es)
  assume o: "ordered a"
  show ?thesis
  proof (cases "fst e = - 1")
    case True
    have "fst x = - 1" if "x \<in> set es" for x
      using that o Cons True by (auto intro: antisym word_n1_ge)
    then show ?thesis using Cons True by (cases e) (simp add: before_last_def head_time_def filter_empty_conv)
  next
    case False
    then show ?thesis using Cons by (simp add: before_last_def head_time_def)
  qed
qed (simp add: before_last_def)

lemma before_last_times: "- 1 \<notin> fst ` set (before_last a)"
  by (auto simp: before_last_def)

lemma change_times_step:
  assumes "ordered a" and "ordered b"
    and time: "time = min (head_time a) (head_time b)" "time \<noteq> - 1"
  shows "change_times a b = time # change_times (after a time) (after b time)"
proof -
  have le_a: "time \<le> fst e" if "e \<in> set a" for e
    using min_head_le(1) [OF assms(1) that] time(1) by simp
  have le_b: "time \<le> fst e" if "e \<in> set b" for e
    using min_head_le(2) [OF assms(2) that] time(1) by simp
  let ?S = "fst ` set a \<union> fst ` set b"
  have "head_time a = time \<or> head_time b = time" using time(1) by (auto simp: min_def)
  then have mem: "time \<in> ?S"
    using time(2) head_time_mem [of a] head_time_mem [of b] by (cases "a = []"; cases "b = []") auto
  have le: "time \<le> u" if "u \<in> ?S" for u using that le_a le_b by blast
  have "Min ?S = time" using mem le by (intro Min_eqI) simp_all
  moreover have "?S - {time} = fst ` set (after a time) \<union> fst ` set (after b time)"
    using fst_after [of a time] fst_after [of b time] le_a le_b by auto
  moreover have "?S \<noteq> {}" using mem by (metis emptyE)
  ultimately show ?thesis
    unfolding change_times_def by (subst sorted_list_of_set_nonempty) simp_all
qed

lemma mismatches_from_step:
  assumes "ordered a" and "ordered b"
    and time: "time = min (head_time a) (head_time b)" "time \<noteq> - 1"
  shows "mismatches_from D opts sig c1 c2 a b =
    (let v1 = value_at c1 a time; v2 = value_at c2 b time in
     (if values_match D v1 v2 (co_ignore_unknown opts) then []
      else [\<lparr>mm_signal = sig, mm_time = time, mm_value1 = v1, mm_value2 = v2,
             mm_unknown = is_unknown v1 \<or> is_unknown v2\<rparr>]) @
     mismatches_from D opts sig v1 v2 (after a time) (after b time))"
proof -
  have later: "time \<le> t" if "t \<in> set (change_times (after a time) (after b time))" for t
  proof -
    have "t \<in> fst ` set (after a time) \<union> fst ` set (after b time)"
      using that by (simp add: change_times_def)
    then show ?thesis by (auto simp: after_def)
  qed
  have same: "value_at (value_at c1 a time) (after a time) t = value_at c1 a t"
    "value_at (value_at c2 b time) (after b time) t = value_at c2 b t"
    if "t \<in> set (change_times (after a time) (after b time))" for t
    using later [OF that] assms(1,2) by (simp_all add: value_at_after)
  show ?thesis
    unfolding mismatches_from_def change_times_step [OF assms] Let_def
    using same by (auto intro!: map_cong filter_cong)
qed

text \<open>What the loop has yet to find, when it looks at the next time of change.\<close>

definition to_find ::
    "displays \<Rightarrow> comparison_options \<Rightarrow> string \<Rightarrow> change_value \<Rightarrow> change_value \<Rightarrow> timeline \<Rightarrow> timeline
      \<Rightarrow> signal_mismatch list" where
  "to_find D opts sig c1 c2 a b = mismatches_from D opts sig c1 c2 (before_last a) (before_last b)"

lemma to_find_step:
  assumes "ordered a" and "ordered b"
    and time: "time = min (head_time a) (head_time b)" "time \<noteq> - 1"
  shows "to_find D opts sig c1 c2 a b =
    (let v1 = value_at c1 a time; v2 = value_at c2 b time in
     (if values_match D v1 v2 (co_ignore_unknown opts) then []
      else [\<lparr>mm_signal = sig, mm_time = time, mm_value1 = v1, mm_value2 = v2,
             mm_unknown = is_unknown v1 \<or> is_unknown v2\<rparr>]) @
     to_find D opts sig v1 v2 (after a time) (after b time))"
proof -
  have "time = min (head_time (before_last a)) (head_time (before_last b))"
    using time(1) assms(1,2) by (simp add: before_last_head)
  from mismatches_from_step [OF _ _ this time(2)] assms(1,2) show ?thesis
    by (simp add: to_find_def before_last_after before_last_value [OF time(2)])
qed

lemma to_find_none:
  assumes "ordered a" and "ordered b" and "min (head_time a) (head_time b) = - 1"
  shows "to_find D opts sig c1 c2 a b = []"
proof -
  have top: "x = - 1" if "- 1 \<le> x" for x :: u64
    using that by (metis word_n1_ge antisym)
  have "fst e = - 1" if "e \<in> set a \<or> e \<in> set b" for e
    using that min_head_le(1) [OF assms(1), of e "head_time b"]
      min_head_le(2) [OF assms(2), of e "head_time a"] assms(3) top by auto
  then have "before_last a = []" "before_last b = []" by (auto simp: before_last_def filter_empty_conv)
  then show ?thesis by (simp add: to_find_def mismatches_from_def change_times_def)
qed

text \<open>The room left after \<open>count\<close> mismatches; the loop only goes on while there is some.\<close>

definition has_room :: "comparison_options \<Rightarrow> nat \<Rightarrow> bool" where
  "has_room opts count \<longleftrightarrow> (\<forall>m. co_max_mismatches opts = Some m \<longrightarrow> count < max 1 m)"

definition room_take :: "comparison_options \<Rightarrow> nat \<Rightarrow> 'a list \<Rightarrow> 'a list" where
  "room_take opts count xs = (case co_max_mismatches opts of None \<Rightarrow> xs | Some m \<Rightarrow> take (max 1 m - count) xs)"

lemma room_take_start [simp]: "room_take opts 0 xs = limit_take (at_least_one opts) xs" "has_room opts 0"
  by (auto simp: room_take_def limit_take_def at_least_one_def has_room_def split: option.split)

lemma room_take_step:
  "has_room opts count \<Longrightarrow> reached_maximum opts (count + 1) \<Longrightarrow> room_take opts count (x # xs) = [x]"
  "\<not> reached_maximum opts (count + 1) \<Longrightarrow> room_take opts count (x # xs) = x # room_take opts (count + 1) xs"
  "\<not> reached_maximum opts (count + 1) \<Longrightarrow> has_room opts (count + 1)"
  "room_take opts count [] = []"
  by (auto simp: room_take_def has_room_def reached_maximum_def max_def take_Cons' split: option.splits if_splits)

lemma compare_loop_result:
  assumes "ordered a" and "ordered b" and "has_room opts count"
    and "compare_loop env D q opts sig a b c1 c2 count work n mms = Inr (count', mms', n')"
  shows "mms' = mms @ room_take opts count (to_find D opts sig c1 c2 a b) \<and>
    count' = count + length (room_take opts count (to_find D opts sig c1 c2 a b))"
  using assms
proof (induction "length a + length b" arbitrary: a b c1 c2 count work n mms rule: less_induct)
  case less
  let ?time = "min (head_time a) (head_time b)"
  note loop = less.prems(4) [unfolded compare_loop.simps [of env D q opts sig a b c1 c2]]
  show ?case
  proof (cases "?time = - 1")
    case True
    with loop to_find_none [OF less.prems(1,2) True] show ?thesis
      by (auto simp: room_take_step Let_def split: if_splits)
  next
    case False
    then have ne: "\<not> (a = [] \<and> b = [])" by auto
    obtain d1 a' w1 n1 d2 b' w2 n2
      where ad1: "advance env q ?time work n c1 a = Inr (d1, a', w1, n1)"
        and ad2: "advance env q ?time w1 n1 c2 b = Inr (d2, b', w2, n2)"
        and rest: "(if \<not> values_match D d1 d2 (co_ignore_unknown opts)
            then and_then (check env q n2) (\<lambda>_.
                let mismatches' = mms @ [\<lparr>mm_signal = sig, mm_time = ?time, mm_value1 = d1,
                      mm_value2 = d2, mm_unknown = is_unknown d1 \<or> is_unknown d2\<rparr>];
                    count' = count + 1 in
                if reached_maximum opts count'
                then Inr (count', mismatches', Suc n2)
                else compare_loop env D q opts sig a' b' d1 d2 count' w2 (Suc n2) mismatches')
            else compare_loop env D q opts sig a' b' d1 d2 count w2 n2 mms) = Inr (count', mms', n')"
      using loop False ne by (auto simp: Let_def and_then_eq_Inr simp del: not_None_eq)
    have "d1 = value_at c1 a ?time \<and> a' = after a ?time"
      using less.prems(1) min_head_le(1) [of a] by (intro advance_ordered [OF _ _ ad1]) auto
    moreover have "d2 = value_at c2 b ?time \<and> b' = after b ?time"
      using less.prems(2) min_head_le(2) [of b] by (intro advance_ordered [OF _ _ ad2]) auto
    ultimately have d: "value_at c1 a ?time = d1" "after a ?time = a'"
      "value_at c2 b ?time = d2" "after b ?time = b'" by auto
    have len: "length a' + length b' < length a + length b"
      by (rule advance_two_length [OF ad1 ad2 ne False])
    have ord: "ordered a'" "ordered b'" using less.prems(1,2) d by auto
    note spec = to_find_step [OF less.prems(1,2) refl False, of D opts sig c1 c2, unfolded d Let_def]
    show ?thesis
    proof (cases "values_match D d1 d2 (co_ignore_unknown opts)")
      case True
      with rest have "compare_loop env D q opts sig a' b' d1 d2 count w2 n2 mms = Inr (count', mms', n')"
        by simp
      from less.hyps [OF len ord less.prems(3) this] spec True show ?thesis by simp
    next
      case mismatch: False
      let ?mm = "\<lparr>mm_signal = sig, mm_time = ?time, mm_value1 = d1,
                      mm_value2 = d2, mm_unknown = is_unknown d1 \<or> is_unknown d2\<rparr>"
      let ?full = "reached_maximum opts (count + 1)"
      show ?thesis
      proof (cases ?full)
        case True
        with rest mismatch have "count' = count + 1" "mms' = mms @ [?mm]"
          by (auto simp: and_then_eq_Inr Let_def)
        with spec mismatch show ?thesis by (simp add: room_take_step(1) [OF less.prems(3) True])
      next
        case False
        with rest mismatch have "compare_loop env D q opts sig a' b' d1 d2 (count + 1) w2 (Suc n2) (mms @ [?mm])
            = Inr (count', mms', n')"
          by (auto simp: and_then_eq_Inr Let_def)
        from less.hyps [OF len ord room_take_step(3) [OF False] this] spec mismatch
        show ?thesis by (simp add: room_take_step(2) [OF False])
      qed
    qed
  qed
qed

lemma poll_quiet: "quiet env q \<Longrightarrow> \<exists>r. poll_timeline env q work n = Inr r"
  by (simp add: poll_timeline_def Let_def)

lemma advance_quiet: "quiet env q \<Longrightarrow> \<exists>r. advance env q time work n c a = Inr r"
proof (induction env q time work n c a rule: advance.induct)
  case (2 env q time work n c t v es)
  obtain w m where p: "poll_timeline env q work n = Inr (w, m)"
    using poll_quiet [OF "2.prems"] by fastforce
  show ?case
  proof (cases "t = time")
    case True
    from "2.IH" [OF True p refl "2.prems"] p True show ?thesis by simp
  qed simp
qed simp

lemma compare_loop_quiet:
  "quiet env q \<Longrightarrow> \<exists>r. compare_loop env D q opts sig a b c1 c2 count work n mms = Inr r"
proof (induction "length a + length b" arbitrary: a b c1 c2 count work n mms rule: less_induct)
  case less
  let ?time = "min (head_time a) (head_time b)"
  show ?case
  proof (cases "?time = - 1 \<or> (a = [] \<and> b = [])")
    case True
    then show ?thesis by (auto simp: compare_loop.simps [of env D q opts sig a b] Let_def)
  next
    case False
    obtain d1 a' w1 n1 where ad1: "advance env q ?time work n c1 a = Inr (d1, a', w1, n1)"
      using advance_quiet [OF less.prems, of ?time work n c1 a] by (auto simp: split_paired_Ex)
    obtain d2 b' w2 n2 where ad2: "advance env q ?time w1 n1 c2 b = Inr (d2, b', w2, n2)"
      using advance_quiet [OF less.prems, of ?time w1 n1 c2 b] by (auto simp: split_paired_Ex)
    have "length a' + length b' < length a + length b"
      by (rule advance_two_length [OF ad1 ad2]) (use False in auto)
    note ih = less.hyps [OF this less.prems]
    show ?thesis
      using False ad1 ad2 ih less.prems
      by (simp add: compare_loop.simps [of env D q opts sig a b] Let_def)
  qed
qed

lemma compare_signal_timeline_result:
  assumes "ordered a" and "ordered b"
    and "compare_signal_timeline env D q opts sig a b n mms = Inr (count, mms', n')"
  shows "mms' = mms @ expected_mismatches D (at_least_one opts) sig (before_last a) (before_last b) \<and>
    count = length (expected_mismatches D (at_least_one opts) sig (before_last a) (before_last b))"
  using compare_loop_result [OF assms(1,2) _ assms(3) [unfolded compare_signal_timeline_def]]
  by (simp add: expected_mismatches_def to_find_def mismatches_from_def)

subsection \<open>Providers\<close>

record provider =
  pv_names :: "string list"
  pv_display :: string
  pv_collect :: "environment \<Rightarrow> query_limits \<Rightarrow> nat \<Rightarrow> string list \<Rightarrow> comparison_options
    \<Rightarrow> ((query_error + timelines) \<times> nat) option"
  pv_validate :: "environment \<Rightarrow> query_limits \<Rightarrow> nat \<Rightarrow> query_error + unit"

definition empty_timelines :: "string list \<Rightarrow> timelines" where
  "empty_timelines signals = (\<lambda>s. if s \<in> set signals then Some [] else None)"

definition timeline_body :: "timelines \<Rightarrow> time_value \<Rightarrow> (query_error, timelines) flow" where
  "timeline_body tls event =
     Continue (case tls (tv_signal event) of
       Some line \<Rightarrow> tls(tv_signal event \<mapsto> line @ [(tv_time event, tv_value event)])
     | None \<Rightarrow> tls)"

text \<open>An opened VCD with its path, as a provider.\<close>

definition vcd_collect ::
    "displays \<Rightarrow> opened_vcd \<Rightarrow> environment \<Rightarrow> query_limits \<Rightarrow> nat \<Rightarrow> string list \<Rightarrow> comparison_options
      \<Rightarrow> ((query_error + timelines) \<times> nat) option" where
  "vcd_collect D ov env q n signals opts =
     (case open_extract env q ov n signals (co_window opts) of
        Inl e \<Rightarrow> Some (Inl e, n)
      | Inr x \<Rightarrow>
          (case iterate (extract_next env D) timeline_body x (empty_timelines signals) of
             None \<Rightarrow> None
           | Some (Fail e, x') \<Rightarrow> Some (Inl e, extract_tick x')
           | Some (Break tls, x') \<Rightarrow> Some (Inr tls, extract_tick x')
           | Some (Continue tls, x') \<Rightarrow> Some (Inr tls, extract_tick x')))"

definition vcd_provider :: "displays \<Rightarrow> string \<times> opened_vcd \<Rightarrow> provider" where
  "vcd_provider D pov =
     \<lparr>pv_names = catalog_names (ov_catalog (snd pov)), pv_display = fst pov,
      pv_collect = (\<lambda>env q n signals opts. vcd_collect D (snd pov) env q n signals opts),
      pv_validate = completion\<rparr>"

subsection \<open>Comparing two providers\<close>

text \<open>The loop over the signals: counts the signals with mismatches.\<close>

fun compare_signals ::
    "environment \<Rightarrow> displays \<Rightarrow> query_limits \<Rightarrow> comparison_options \<Rightarrow> timelines \<Rightarrow> timelines
      \<Rightarrow> string list \<Rightarrow> nat \<Rightarrow> signal_mismatch list \<Rightarrow> nat
      \<Rightarrow> query_error + nat \<times> signal_mismatch list \<times> nat" where
  "compare_signals env D q opts values1 values2 [] n mismatches with_mm = Inr (with_mm, mismatches, n)"
| "compare_signals env D q opts values1 values2 (sig # sigs) n mismatches with_mm =
     and_then (check env q n) (\<lambda>_.
     and_then (compare_signal_timeline env D q opts sig
        (case values1 sig of Some line \<Rightarrow> line | None \<Rightarrow> [])
        (case values2 sig of Some line \<Rightarrow> line | None \<Rightarrow> []) (Suc n) mismatches)
       (\<lambda>(count, mismatches', n').
          compare_signals env D q opts values1 values2 sigs n' mismatches'
            (if count > 0 then with_mm + 1 else with_mm)))"

definition common_names :: "provider \<Rightarrow> provider \<Rightarrow> string list" where
  "common_names p1 p2 = sort (filter (\<lambda>s. s \<in> set (pv_names p2)) (pv_names p1))"

definition names_to_compare :: "provider \<Rightarrow> provider \<Rightarrow> comparison_options \<Rightarrow> string list" where
  "names_to_compare p1 p2 opts =
     (if co_signals_only opts = [] then common_names p1 p2
      else filter (\<lambda>s. s \<in> set (co_signals_only opts)) (common_names p1 p2))"

definition compare_collected ::
    "environment \<Rightarrow> displays \<Rightarrow> query_limits \<Rightarrow> provider \<Rightarrow> provider \<Rightarrow> comparison_options
      \<Rightarrow> timelines \<Rightarrow> timelines \<Rightarrow> nat \<Rightarrow> query_error + comparison_result" where
  "compare_collected env D q p1 p2 opts values1 values2 n =
     and_then (compare_signals env D q opts values1 values2 (names_to_compare p1 p2 opts) n [] 0)
       (\<lambda>(with_mm, mismatches, n1).
     and_then (check env q n1) (\<lambda>_.
     and_then (pv_validate p1 env q (n1 + 1)) (\<lambda>_.
     and_then (pv_validate p2 env q (n1 + 4)) (\<lambda>_.
     and_then (check env q (n1 + 7)) (\<lambda>_.
       Inr \<lparr>cr_file1 = pv_display p1, cr_file2 = pv_display p2, cr_common = common_names p1 p2,
            cr_only1 = filter (\<lambda>s. s \<notin> set (pv_names p2)) (pv_names p1),
            cr_only2 = filter (\<lambda>s. s \<notin> set (pv_names p1)) (pv_names p2),
            cr_mismatches = mismatches, cr_total = length mismatches,
            cr_signals_with = with_mm, cr_passed = (mismatches = [])\<rparr>)))))"

definition compare_providers ::
    "environment \<Rightarrow> displays \<Rightarrow> query_limits \<Rightarrow> nat \<Rightarrow> provider \<Rightarrow> provider \<Rightarrow> comparison_options
      \<Rightarrow> (query_error + comparison_result) option" where
  "compare_providers env D q n p1 p2 opts =
     (let signals = names_to_compare p1 p2 opts in
      case and_then (check env q n) (\<lambda>_. check_signal_count env q (n + 1) (length signals)) of
        Inl e \<Rightarrow> Some (Inl e)
      | Inr _ \<Rightarrow>
          (case pv_collect p1 env q (n + 2) signals opts of
             None \<Rightarrow> None
           | Some (Inl e, _) \<Rightarrow> Some (Inl e)
           | Some (Inr values1, n1) \<Rightarrow>
               (case pv_validate p1 env q n1 of
                  Inl e \<Rightarrow> Some (Inl e)
                | Inr _ \<Rightarrow>
                    (case pv_collect p2 env q (n1 + 3) signals opts of
                       None \<Rightarrow> None
                     | Some (Inl e, _) \<Rightarrow> Some (Inl e)
                     | Some (Inr values2, n2) \<Rightarrow>
                         Some (and_then (pv_validate p2 env q n2) (\<lambda>_.
                           compare_collected env D q p1 p2 opts values1 values2 (n2 + 3)))))))"

subsection \<open>The contract of a provider\<close>

definition free_limits :: "query_limits \<Rightarrow> bool" where
  "free_limits q \<longleftrightarrow> max_signals q = None \<and> max_rows q = None \<and> max_result_bytes q = None \<and>
     max_commands q = None"

text \<open>
  \<open>truth\<close> is the timeline of a signal in a window as the source defines it. A collection that
  succeeds holds exactly the timelines of the requested signals.
\<close>

locale timeline_source =
  fixes mk :: "'s \<Rightarrow> provider"
    and valid :: "'s \<Rightarrow> bool"
    and truth :: "'s \<Rightarrow> string \<Rightarrow> time_window \<Rightarrow> timeline"
    and readable :: "'s \<Rightarrow> time_window \<Rightarrow> bool"
  assumes names_distinct: "valid s \<Longrightarrow> distinct (pv_names (mk s))"
    and collect_returns: "valid s \<Longrightarrow>
      \<exists>r n'. pv_collect (mk s) env q n signals opts = Some (r, n')"
    and collect_right: "valid s \<Longrightarrow> distinct signals \<Longrightarrow> set signals \<subseteq> set (pv_names (mk s)) \<Longrightarrow>
      pv_collect (mk s) env q n signals opts = Some (Inr tls, n') \<Longrightarrow>
      tls = (\<lambda>x. if x \<in> set signals then Some (truth s x (co_window opts)) else None)"
    and collect_quiet: "valid s \<Longrightarrow> quiet env q \<Longrightarrow> free_limits q \<Longrightarrow> readable s (co_window opts) \<Longrightarrow>
      set signals \<subseteq> set (pv_names (mk s)) \<Longrightarrow>
      \<exists>tls n'. pv_collect (mk s) env q n signals opts = Some (Inr tls, n')"
    and validate_quiet: "valid s \<Longrightarrow> quiet env q \<Longrightarrow> pv_validate (mk s) env q n = Inr ()"

abbreviation found_of :: "displays \<Rightarrow> comparison_options \<Rightarrow> string \<Rightarrow> timeline \<Rightarrow> timeline \<Rightarrow> signal_mismatch list" where
  "found_of D opts s a b \<equiv> expected_mismatches D (at_least_one opts) s (before_last a) (before_last b)"

lemma compare_signals_result:
  assumes "\<And>s. s \<in> set sigs \<Longrightarrow> values1 s = Some (t1 s) \<and> values2 s = Some (t2 s) \<and>
      ordered (t1 s) \<and> ordered (t2 s)"
    and "compare_signals env D q opts values1 values2 sigs n mms k = Inr (k', mms', n')"
  shows "mms' = mms @ concat (map (\<lambda>s. found_of D opts s (t1 s) (t2 s)) sigs) \<and>
    k' = k + length (filter (\<lambda>s. found_of D opts s (t1 s) (t2 s) \<noteq> []) sigs)"
  using assms
proof (induction sigs arbitrary: n mms k)
  case (Cons s ss)
  have s: "values1 s = Some (t1 s)" "values2 s = Some (t2 s)" "ordered (t1 s)" "ordered (t2 s)"
    using Cons.prems(1) by auto
  obtain count mms1 n1 where
      one: "compare_signal_timeline env D q opts s (t1 s) (t2 s) (Suc n) mms = Inr (count, mms1, n1)"
    and rest: "compare_signals env D q opts values1 values2 ss n1 mms1
        (if count > 0 then k + 1 else k) = Inr (k', mms', n')"
    using Cons.prems(2) s by (auto simp: and_then_eq_Inr)
  have "mms' = mms1 @ concat (map (\<lambda>s. found_of D opts s (t1 s) (t2 s)) ss) \<and>
    k' = (if count > 0 then k + 1 else k) +
      length (filter (\<lambda>s. found_of D opts s (t1 s) (t2 s) \<noteq> []) ss)"
    using Cons.prems(1) by (intro Cons.IH [OF _ rest]) auto
  with compare_signal_timeline_result [OF s(3,4) one] show ?case by auto
qed simp

lemma compare_signals_quiet:
  "quiet env q \<Longrightarrow> \<exists>r. compare_signals env D q opts values1 values2 sigs n mms k = Inr r"
proof (induction sigs arbitrary: n mms k)
  case (Cons s ss)
  obtain count mms1 n1 where "compare_signal_timeline env D q opts s
      (case values1 s of Some line \<Rightarrow> line | None \<Rightarrow> []) (case values2 s of Some line \<Rightarrow> line | None \<Rightarrow> [])
      (Suc n) mms = Inr (count, mms1, n1)"
    using compare_loop_quiet [OF Cons.prems]
    unfolding compare_signal_timeline_def by (metis prod_cases3)
  with Cons show ?case by simp
qed simp

lemma names_to_compare_known:
  "set (names_to_compare p1 p2 opts) \<subseteq> set (pv_names p1)"
  "set (names_to_compare p1 p2 opts) \<subseteq> set (pv_names p2)"
  "distinct (pv_names p1) \<Longrightarrow> distinct (names_to_compare p1 p2 opts)"
  by (auto simp: names_to_compare_def common_names_def)

text \<open>The comparison a result reports.\<close>

definition faithful_result ::
    "displays \<Rightarrow> comparison_options \<Rightarrow> provider \<Rightarrow> provider \<Rightarrow> (string \<Rightarrow> timeline) \<Rightarrow> (string \<Rightarrow> timeline)
      \<Rightarrow> comparison_result \<Rightarrow> bool" where
  "faithful_result D opts p1 p2 t1 t2 r \<longleftrightarrow>
     (let signals = names_to_compare p1 p2 opts;
          expected = (\<lambda>s. expected_mismatches D opts s (t1 s) (t2 s)) in
      cr_file1 r = pv_display p1 \<and> cr_file2 r = pv_display p2 \<and>
      cr_common r = common_names p1 p2 \<and>
      cr_only1 r = filter (\<lambda>s. s \<notin> set (pv_names p2)) (pv_names p1) \<and>
      cr_only2 r = filter (\<lambda>s. s \<notin> set (pv_names p1)) (pv_names p2) \<and>
      cr_mismatches r = concat (map expected signals) \<and>
      cr_total r = length (concat (map expected signals)) \<and>
      cr_signals_with r = length (filter (\<lambda>s. expected s \<noteq> []) signals) \<and>
      cr_passed r = list_all (\<lambda>s. expected s = []) signals)"

text \<open>Outside the two corners it is the plain comparison.\<close>

lemma faithful_plain:
  assumes "faithful_result D (at_least_one opts) p1 p2 (\<lambda>s. before_last (t1 s)) (\<lambda>s. before_last (t2 s)) r"
    and "co_max_mismatches opts \<noteq> Some 0" and "\<forall>s. - 1 \<notin> fst ` set (t1 s) \<and> - 1 \<notin> fst ` set (t2 s)"
  shows "faithful_result D opts p1 p2 t1 t2 r"
  using assms by (simp add: at_least_one_same before_last_same)

locale timeline_pair =
  first: timeline_source mk1 valid1 truth1 readable1 +
  second: timeline_source mk2 valid2 truth2 readable2
  for mk1 :: "'s \<Rightarrow> provider" and valid1 truth1 readable1
    and mk2 :: "'t \<Rightarrow> provider" and valid2 truth2 readable2
begin

lemma compare_returns:
  assumes "valid1 a" and "valid2 b"
  shows "\<exists>res. compare_providers env D q n (mk1 a) (mk2 b) opts = Some res"
proof -
  let ?sigs = "names_to_compare (mk1 a) (mk2 b) opts"
  obtain r1 n1 where c1: "pv_collect (mk1 a) env q (n + 2) ?sigs opts = Some (r1, n1)"
    using first.collect_returns [OF assms(1)] by blast
  obtain r2 n2 where c2: "pv_collect (mk2 b) env q (n1 + 3) ?sigs opts = Some (r2, n2)"
    using second.collect_returns [OF assms(2)] by blast
  from c1 c2 show ?thesis
    by (cases r1; cases r2) (auto simp: compare_providers_def Let_def split: sum.splits)
qed

lemma compare_right:
  assumes a: "valid1 a" and b: "valid2 b"
    and run: "compare_providers env D q n (mk1 a) (mk2 b) opts = Some (Inr r)"
    and ord: "\<And>s. ordered (truth1 a s (co_window opts)) \<and> ordered (truth2 b s (co_window opts))"
  shows "faithful_result D (at_least_one opts) (mk1 a) (mk2 b)
    (\<lambda>s. before_last (truth1 a s (co_window opts))) (\<lambda>s. before_last (truth2 b s (co_window opts))) r"
proof -
  let ?p1 = "mk1 a" and ?p2 = "mk2 b"
  let ?sigs = "names_to_compare ?p1 ?p2 opts"
  obtain v1 n1 v2 n2 where c1: "pv_collect ?p1 env q (n + 2) ?sigs opts = Some (Inr v1, n1)"
    and c2: "pv_collect ?p2 env q (n1 + 3) ?sigs opts = Some (Inr v2, n2)"
    and fin: "compare_collected env D q ?p1 ?p2 opts v1 v2 (n2 + 3) = Inr r"
    using run
    by (auto simp: compare_providers_def Let_def and_then_eq_Inr
        split: sum.splits option.splits prod.splits)
  have dist: "distinct ?sigs" using names_to_compare_known(3) [OF first.names_distinct [OF a]] .
  note v1 = first.collect_right [OF a dist names_to_compare_known(1) c1]
    and v2 = second.collect_right [OF b dist names_to_compare_known(2) c2]
  obtain k mms n3 where cs: "compare_signals env D q opts v1 v2 ?sigs (n2 + 3) [] 0 = Inr (k, mms, n3)"
    and r: "r = \<lparr>cr_file1 = pv_display ?p1, cr_file2 = pv_display ?p2, cr_common = common_names ?p1 ?p2,
            cr_only1 = filter (\<lambda>s. s \<notin> set (pv_names ?p2)) (pv_names ?p1),
            cr_only2 = filter (\<lambda>s. s \<notin> set (pv_names ?p1)) (pv_names ?p2),
            cr_mismatches = mms, cr_total = length mms,
            cr_signals_with = k, cr_passed = (mms = [])\<rparr>"
    using fin by (auto simp: compare_collected_def and_then_eq_Inr)
  have "mms = [] @ concat (map (\<lambda>s. found_of D opts s (truth1 a s (co_window opts))
        (truth2 b s (co_window opts))) ?sigs) \<and>
    k = 0 + length (filter (\<lambda>s. found_of D opts s (truth1 a s (co_window opts))
        (truth2 b s (co_window opts)) \<noteq> []) ?sigs)"
    using v1 v2 ord by (intro compare_signals_result [OF _ cs]) simp
  then show ?thesis by (simp add: faithful_result_def names_to_compare_def r Let_def list_all_iff)
qed

lemma compare_quiet:
  assumes "valid1 a" and "valid2 b" and q: "quiet env q" and free: "free_limits q"
    and "readable1 a (co_window opts)" and "readable2 b (co_window opts)"
  shows "\<exists>r. compare_providers env D q n (mk1 a) (mk2 b) opts = Some (Inr r)"
proof -
  let ?sigs = "names_to_compare (mk1 a) (mk2 b) opts"
  obtain v1 n1 where c1: "pv_collect (mk1 a) env q (n + 2) ?sigs opts = Some (Inr v1, n1)"
    using first.collect_quiet [OF assms(1) q free assms(5) names_to_compare_known(1)] by blast
  obtain v2 n2 where c2: "pv_collect (mk2 b) env q (n1 + 3) ?sigs opts = Some (Inr v2, n2)"
    using second.collect_quiet [OF assms(2) q free assms(6) names_to_compare_known(2)] by blast
  obtain k mms n3 where "compare_signals env D q opts v1 v2 ?sigs (n2 + 3) [] 0 = Inr (k, mms, n3)"
    using compare_signals_quiet [OF q] by (metis prod_cases3)
  with c1 c2 q free first.validate_quiet [OF assms(1) q] second.validate_quiet [OF assms(2) q]
  show ?thesis
    by (simp add: compare_providers_def compare_collected_def Let_def check_signal_count_def
        free_limits_def)
qed

end

subsection \<open>The VCD provider keeps the contract\<close>

definition vcd_truth :: "displays \<Rightarrow> string \<times> opened_vcd \<Rightarrow> string \<Rightarrow> time_window \<Rightarrow> timeline" where
  "vcd_truth D pov name win =
     map (\<lambda>row. (tv_time row, tv_value row)) (rows_of D (snd pov) [name] win)"

definition vcd_valid :: "string \<times> opened_vcd \<Rightarrow> bool" where
  "vcd_valid pov \<longleftrightarrow> built (ov_catalog (snd pov))"

definition vcd_readable :: "string \<times> opened_vcd \<Rightarrow> time_window \<Rightarrow> bool" where
  "vcd_readable pov win \<longleftrightarrow> scan_error win (ov_body (snd pov)) = None"

lemma fold_timeline:
  "fold_flow timeline_body tls rows = Continue
     (\<lambda>s. map_option (\<lambda>line. line @ map (\<lambda>row. (tv_time row, tv_value row))
        (filter (\<lambda>row. tv_signal row = s) rows)) (tls s))"
proof (induction rows arbitrary: tls)
  case Nil
  then show ?case by (auto simp: fun_eq_iff option.map_ident)
next
  case (Cons row rows)
  then show ?case
    by (auto simp: timeline_body_def fun_eq_iff option.map_comp comp_def split: option.splits)
qed

lemma requested_rows_filter:
  "filter (\<lambda>row. tv_signal row = x) (requested_rows D names win t rs) =
     requested_rows D (\<lambda>i. filter (\<lambda>n. n = x) (names i)) win t rs"
proof (induction D names win t rs rule: requested_rows.induct)
  case (3 D names win t cmd rest)
  then show ?case by (cases cmd) (auto simp: filter_map comp_def)
qed auto

lemma filter_eq_distinct: "distinct xs \<Longrightarrow> x \<in> set xs \<Longrightarrow> filter (\<lambda>n. n = x) xs = [x]"
  by (induction xs) (auto simp: filter_empty_conv)

lemma rows_of_single:
  assumes rep: "represents (ov_catalog ov) ds paths" and "distinct signals" and "x \<in> set signals"
  shows "filter (\<lambda>row. tv_signal row = x) (rows_of D ov signals win) = rows_of D ov [x] win"
proof -
  have "filter (\<lambda>n. n = x) (filter (named ov i) signals) = filter (named ov i) [x]" for i
  proof -
    have "filter (\<lambda>n. n = x) (filter (named ov i) signals) = filter (named ov i) (filter (\<lambda>n. n = x) signals)"
      by (simp add: conj_commute)
    also have "filter (\<lambda>n. n = x) signals = [x]" using assms(2,3) by (rule filter_eq_distinct)
    finally show ?thesis .
  qed
  then show ?thesis
    unfolding rows_of_def requested_rows_filter target_binding_names [OF rep] by (simp only:)
qed

lemma vcd_collect_right:
  assumes "built (ov_catalog ov)" and "distinct signals"
    and c: "vcd_collect D ov env q n signals opts = Some (Inr tls, n')"
  shows "tls = (\<lambda>x. if x \<in> set signals then Some (vcd_truth D (path, ov) x (co_window opts)) else None)"
proof -
  obtain ds paths where rep: "represents (ov_catalog ov) ds paths"
    using assms(1) by (auto simp: built_def)
  obtain x where x: "open_extract env q ov n signals (co_window opts) = Inr x"
    using c by (auto simp: vcd_collect_def split: sum.splits)
  obtain rows r f x' where it: "iterate (extract_next env D) timeline_body x (empty_timelines signals) = Some (f, x')"
    and f: "f = (case fold_flow timeline_body (empty_timelines signals) rows of
        Continue a \<Rightarrow> (case r of None \<Rightarrow> Continue a | Some e \<Rightarrow> Fail e) | g \<Rightarrow> g)"
    and whole: "r = None \<longrightarrow> rows = rows_of D ov signals (co_window opts)"
    using iterate_extract [OF x, of D timeline_body "empty_timelines signals"] by blast
  from c x it f have "r = None" and "fold_flow timeline_body (empty_timelines signals) rows = Continue tls"
    by (cases r; simp add: vcd_collect_def fold_timeline)+
  with whole have "tls = (\<lambda>s. map_option (\<lambda>line. line @ map (\<lambda>row. (tv_time row, tv_value row))
        (filter (\<lambda>row. tv_signal row = s) (rows_of D ov signals (co_window opts))))
        (empty_timelines signals s))"
    by (simp add: fold_timeline)
  then show ?thesis
    using rows_of_single [OF rep assms(2)]
    by (auto simp: empty_timelines_def vcd_truth_def fun_eq_iff)
qed

lemma vcd_collect_returns: "\<exists>r n'. vcd_collect D ov env q n signals opts = Some (r, n')"
proof (cases "open_extract env q ov n signals (co_window opts)")
  case (Inr x)
  from iterate_extract [OF Inr, of D timeline_body "empty_timelines signals"] obtain f x' where
    "iterate (extract_next env D) timeline_body x (empty_timelines signals) = Some (f, x')" by blast
  with Inr show ?thesis by (cases f) (auto simp: vcd_collect_def)
qed (simp add: vcd_collect_def)

lemma known_not_missing:
  assumes "built (ov_catalog ov)" and "set signals \<subseteq> set (catalog_names (ov_catalog ov))"
  shows "missing_targets ov signals = []"
proof -
  obtain ds paths where rep: "represents (ov_catalog ov) ds paths"
    using assms(1) by (auto simp: built_def)
  have "opened_signal ov s \<noteq> None" if "s \<in> set signals" for s
  proof
    assume "opened_signal ov s = None"
    from represents_opened_None [OF rep this] represents_known [OF rep]
    have "s \<notin> set (map fst ds)" by blast
    with that assms(2) represents_names [OF rep] show False by auto
  qed
  then show ?thesis by (auto simp: missing_targets_def filter_empty_conv)
qed

lemma vcd_collect_quiet:
  assumes "built (ov_catalog ov)" and q: "quiet env q" and free: "free_limits q"
    and "scan_error (co_window opts) (ov_body ov) = None"
    and "set signals \<subseteq> set (catalog_names (ov_catalog ov))"
  shows "\<exists>tls n'. vcd_collect D ov env q n signals opts = Some (Inr tls, n')"
proof -
  obtain x where x: "open_extract env q ov n signals (co_window opts) = Inr x"
    using open_extract_quiet [OF q] known_not_missing [OF assms(1,5)] free
    by (fastforce simp: free_limits_def)
  from iterate_extract [OF x, of D timeline_body "empty_timelines signals"] q free assms(4)
  show ?thesis using x by (auto simp: vcd_collect_def fold_timeline free_limits_def)
qed

interpretation vcd: timeline_source "vcd_provider D" vcd_valid "vcd_truth D" vcd_readable for D
proof
  fix s :: "string \<times> opened_vcd" and env q n signals opts tls n'
  assume v: "vcd_valid s"
  then have b: "built (ov_catalog (snd s))" by (simp add: vcd_valid_def)
  show "distinct (pv_names (vcd_provider D s))"
    using catalog_names.names_distinct [OF b] by (simp add: vcd_provider_def)
  show "\<exists>r n'. pv_collect (vcd_provider D s) env q n signals opts = Some (r, n')"
    using vcd_collect_returns by (simp add: vcd_provider_def)
  show "tls = (\<lambda>x. if x \<in> set signals then Some (vcd_truth D s x (co_window opts)) else None)"
    if "distinct signals" "pv_collect (vcd_provider D s) env q n signals opts = Some (Inr tls, n')"
    using vcd_collect_right [OF b that(1), of D env q n opts tls n' "fst s", unfolded prod.collapse]
      that(2) by (simp add: vcd_provider_def)
  show "\<exists>tls n'. pv_collect (vcd_provider D s) env q n signals opts = Some (Inr tls, n')"
    if "quiet env q" "free_limits q" "vcd_readable s (co_window opts)"
      "set signals \<subseteq> set (pv_names (vcd_provider D s))"
    using vcd_collect_quiet [OF b that(1,2)] that(3,4) by (simp add: vcd_provider_def vcd_readable_def)
  show "pv_validate (vcd_provider D s) env q n = Inr ()" if "quiet env q"
    using that by (simp add: vcd_provider_def completion_def)
qed

interpretation vcd_pair: timeline_pair "vcd_provider D" vcd_valid "vcd_truth D" vcd_readable
    "vcd_provider D" vcd_valid "vcd_truth D" vcd_readable for D
  by unfold_locales

text \<open>A body whose timestamps do not decrease has ordered timelines.\<close>

fun timestamps :: "(io_error + command) list \<Rightarrow> u64 list" where
  "timestamps [] = []"
| "timestamps (Inl e # rest) = []"
| "timestamps (Inr cmd # rest) = (case cmd of Timestamp t \<Rightarrow> [t] | _ \<Rightarrow> []) @ timestamps rest"

lemma requested_rows_times:
  "sorted (t # timestamps rs) \<Longrightarrow>
     sorted (map tv_time (requested_rows D names win t rs)) \<and>
     (\<forall>row \<in> set (requested_rows D names win t rs). t \<le> tv_time row)"
proof (induction D names win t rs rule: requested_rows.induct)
  case (3 D names win t cmd rest)
  show ?case
  proof (cases "\<exists>u. cmd = Timestamp u")
    case True
    with 3 show ?thesis by (force intro: order_trans)
  next
    case False
    with 3 show ?thesis
      by (cases cmd) (auto simp: sorted_append sorted_wrt_map)
  qed
qed auto

lemma requested_rows_at:
  "row \<in> set (requested_rows D names win t rs) \<Longrightarrow> tv_time row \<in> {t} \<union> set (timestamps rs)"
proof (induction D names win t rs rule: requested_rows.induct)
  case (3 D names win t cmd rest)
  then show ?case by (cases cmd) (auto split: if_splits)
qed auto

lemma vcd_truth_before_last:
  "- 1 \<notin> set (timestamps (ov_body (snd pov))) \<Longrightarrow> - 1 \<notin> fst ` set (vcd_truth D pov s win)"
  using requested_rows_at by (fastforce simp: vcd_truth_def rows_of_def)

lemma vcd_truth_ordered: "sorted (timestamps (ov_body (snd pov))) \<Longrightarrow> ordered (vcd_truth D pov s win)"
  using requested_rows_times [of 0 "ov_body (snd pov)"]
  by (simp add: vcd_truth_def rows_of_def comp_def)

subsection \<open>Comparing a waveform with itself\<close>

lemma values_match_refl [simp]: "values_match D v v ignore_unknown"
  by (cases v) (auto simp: values_match_def eq_ignore_case_def)

lemma advance_value:
  "advance env q time work n c a = Inr (c', rest, w, m) \<Longrightarrow>
     rest = dropWhile (\<lambda>e. fst e = time) a \<and>
     c' = last (c # map snd (takeWhile (\<lambda>e. fst e = time) a))"
proof (induction env q time work n c a arbitrary: c' rest w m rule: advance.induct)
  case (2 env q time work n c t v es)
  show ?case
  proof (cases "t = time")
    case True
    then obtain work' n' where p: "poll_timeline env q work n = Inr (work', n')"
      and a: "advance env q time work' n' v es = Inr (c', rest, w, m)"
      using "2.prems" by (auto simp: and_then_eq_Inr)
    from "2.IH" [OF True p refl a] True show ?thesis by simp
  next
    case False
    with "2.prems" show ?thesis by auto
  qed
qed simp

lemma compare_loop_same:
  "compare_loop env D q opts sig a a c c count work n mms = Inr (count', mms', n') \<Longrightarrow>
     count' = count \<and> mms' = mms"
proof (induction "length a" arbitrary: a c count work n mms rule: less_induct)
  case less
  let ?time = "head_time a"
  note loop = less.prems [unfolded compare_loop.simps [of env D q opts sig a a c c]]
  show ?case
  proof (cases "a = [] \<or> ?time = - 1")
    case True
    with loop show ?thesis by (auto simp: Let_def split: if_splits)
  next
    case False
    obtain d1 a' w1 n1 d2 b' w2 n2
      where ad1: "advance env q ?time work n c a = Inr (d1, a', w1, n1)"
        and ad2: "advance env q ?time w1 n1 c a = Inr (d2, b', w2, n2)"
        and rest: "\<not> values_match D d1 d2 (co_ignore_unknown opts) \<or>
          compare_loop env D q opts sig a' b' d1 d2 count w2 n2 mms = Inr (count', mms', n')"
      using loop False by (auto simp: Let_def and_then_eq_Inr split: if_split_asm)
    from advance_value [OF ad1] advance_value [OF ad2] have same: "d2 = d1" "b' = a'" by auto
    have "length a' < length a" using advance_length [OF ad1] False by simp
    from less.hyps [OF this] rest show ?thesis by (auto simp: same)
  qed
qed

lemma compare_signals_same:
  "compare_signals env D q opts values values sigs n mms k = Inr (k', mms', n') \<Longrightarrow> k' = k \<and> mms' = mms"
proof (induction sigs arbitrary: n mms k)
  case (Cons s ss)
  then obtain count mms1 n1 where
      one: "compare_signal_timeline env D q opts s (case values s of Some line \<Rightarrow> line | None \<Rightarrow> [])
        (case values s of Some line \<Rightarrow> line | None \<Rightarrow> []) (Suc n) mms = Inr (count, mms1, n1)"
    and rest: "compare_signals env D q opts values values ss n1 mms1
        (if count > 0 then k + 1 else k) = Inr (k', mms', n')"
    by (auto simp: and_then_eq_Inr)
  from compare_loop_same [OF one [unfolded compare_signal_timeline_def]] Cons.IH [OF rest]
  show ?case by auto
qed simp

subsection \<open>Properties\<close>

text \<open>
  C10. Comparing two VCD files whose timestamps do not decrease: the comparison always returns,
  and in every environment a result it gives is the true comparison. The common and one-sided
  names are those of the catalogs; the mismatches of each compared signal are the times of a change
  in the window at which its two values differ, up to the per-signal maximum, with the values
  at that time (x before the first change); the totals and the verdict agree with them. This holds
  exactly unless the maximum is 0 or a change is at the last time, 2^64 - 1: then, as for every
  result, it is the comparison with a maximum of at least 1 of the changes before that time.
  Undisturbed and without limits the comparison gives a result.
\<close>

theorem comparison_correct:
  assumes "vcd_valid a" and "vcd_valid b"
    and "sorted (timestamps (ov_body (snd a)))" and "sorted (timestamps (ov_body (snd b)))"
  shows "\<exists>res. compare_providers env D q n (vcd_provider D a) (vcd_provider D b) opts = Some res \<and>
    (case res of
       Inr r \<Rightarrow>
         (co_max_mismatches opts \<noteq> Some 0 \<and> (\<forall>s. - 1 \<notin> fst ` set (vcd_truth D a s (co_window opts)) \<and>
             - 1 \<notin> fst ` set (vcd_truth D b s (co_window opts))) \<longrightarrow>
           faithful_result D opts (vcd_provider D a) (vcd_provider D b)
             (\<lambda>s. vcd_truth D a s (co_window opts)) (\<lambda>s. vcd_truth D b s (co_window opts)) r) \<and>
         faithful_result D (at_least_one opts) (vcd_provider D a) (vcd_provider D b)
           (\<lambda>s. before_last (vcd_truth D a s (co_window opts))) (\<lambda>s. before_last (vcd_truth D b s (co_window opts))) r
     | Inl e \<Rightarrow> \<not> (quiet env q \<and> free_limits q \<and> vcd_readable a (co_window opts) \<and>
         vcd_readable b (co_window opts)))"
proof -
  obtain res where res: "compare_providers env D q n (vcd_provider D a) (vcd_provider D b) opts = Some res"
    using vcd_pair.compare_returns [OF assms(1,2)] by blast
  show ?thesis
  proof (cases res)
    case (Inl e)
    have "\<exists>r. compare_providers env D q n (vcd_provider D a) (vcd_provider D b) opts = Some (Inr r)"
      if "quiet env q" "free_limits q" "vcd_readable a (co_window opts)" "vcd_readable b (co_window opts)"
      using that by (rule vcd_pair.compare_quiet [OF assms(1,2)])
    with res Inl show ?thesis by auto
  next
    case (Inr r)
    have right: "faithful_result D (at_least_one opts) (vcd_provider D a) (vcd_provider D b)
        (\<lambda>s. before_last (vcd_truth D a s (co_window opts))) (\<lambda>s. before_last (vcd_truth D b s (co_window opts))) r"
      using vcd_truth_ordered [OF assms(3)] vcd_truth_ordered [OF assms(4)]
      by (intro vcd_pair.compare_right [OF assms(1,2) res [unfolded Inr]]) blast
    from faithful_plain [OF this] right res Inr show ?thesis by simp
  qed
qed

definition sample_pair :: "string \<times> opened_vcd" where
  "sample_pair = (''dump.vcd'', sample_opened)"

lemma sample_pair_valid: "vcd_valid sample_pair"
  using from_scope_items_represents [OF sample_opened_catalog]
  by (auto simp: vcd_valid_def built_def sample_pair_def)

lemma comparison_correct_witness:
  "\<exists>r. compare_providers calm plain_displays unlimited 0 (vcd_provider plain_displays sample_pair) (vcd_provider plain_displays sample_pair)
      default_options = Some (Inr r) \<and>
    faithful_result plain_displays default_options (vcd_provider plain_displays sample_pair) (vcd_provider plain_displays sample_pair)
      (\<lambda>s. vcd_truth plain_displays sample_pair s all_time) (\<lambda>s. vcd_truth plain_displays sample_pair s all_time) r"
proof -
  have q: "quiet calm unlimited" "free_limits unlimited"
    by (simp_all add: quiet_calm unlimited_def free_limits_def)
  have ord: "sorted (timestamps (ov_body (snd sample_pair)))"
    by (simp add: sample_pair_def sample_opened_def)
  have read: "vcd_readable sample_pair all_time"
    by (simp add: vcd_readable_def sample_pair_def sample_opened_def)
  have win: "co_window default_options = all_time" by (simp add: default_options_def)
  have "- 1 \<notin> set (timestamps (ov_body (snd sample_pair)))"
    by (simp add: sample_pair_def sample_opened_def)
  then have times: "- 1 \<notin> fst ` set (vcd_truth plain_displays sample_pair s all_time)" for s
    by (rule vcd_truth_before_last)
  have some: "co_max_mismatches default_options \<noteq> Some 0" by (simp add: default_options_def)
  from comparison_correct [OF sample_pair_valid sample_pair_valid ord ord,
      of calm plain_displays unlimited 0 default_options, unfolded win] q read times some
  show ?thesis by (elim exE conjE; split sum.split_asm) blast+
qed

text \<open>
  A waveform compared with itself passes: whatever the limits and the environment, a result
  of comparing a VCD file with itself has no mismatch.
\<close>

lemma self_comparison_passes:
  assumes "vcd_valid a"
    and "compare_providers env D q n (vcd_provider D a) (vcd_provider D a) opts = Some (Inr r)"
  shows "cr_passed r \<and> cr_mismatches r = [] \<and> cr_signals_with r = 0 \<and> cr_only1 r = [] \<and>
    cr_only2 r = [] \<and> cr_common r = sort (catalog_names (ov_catalog (snd a)))"
proof -
  let ?p = "vcd_provider D a"
  let ?sigs = "names_to_compare ?p ?p opts"
  obtain v1 n1 v2 n2 where c1: "pv_collect ?p env q (n + 2) ?sigs opts = Some (Inr v1, n1)"
    and c2: "pv_collect ?p env q (n1 + 3) ?sigs opts = Some (Inr v2, n2)"
    and fin: "compare_collected env D q ?p ?p opts v1 v2 (n2 + 3) = Inr r"
    using assms(2)
    by (auto simp: compare_providers_def Let_def and_then_eq_Inr
        split: sum.splits option.splits prod.splits)
  have dist: "distinct ?sigs" using names_to_compare_known(3) [OF vcd.names_distinct [OF assms(1)]] .
  have "v2 = v1"
    using vcd.collect_right [OF assms(1) dist names_to_compare_known(1) c1]
      vcd.collect_right [OF assms(1) dist names_to_compare_known(1) c2] by simp
  with fin obtain k mms n3 where cs: "compare_signals env D q opts v1 v1 ?sigs (n2 + 3) [] 0 = Inr (k, mms, n3)"
    and r: "cr_passed r = (mms = [])" "cr_mismatches r = mms" "cr_signals_with r = k"
      "cr_common r = common_names ?p ?p" "cr_only1 r = []" "cr_only2 r = []"
    by (auto simp: compare_collected_def and_then_eq_Inr)
  from compare_signals_same [OF cs] r show ?thesis
    by (simp add: common_names_def vcd_provider_def)
qed

lemma self_comparison_passes_witness:
  "\<exists>r. compare_providers calm plain_displays unlimited 0 (vcd_provider plain_displays sample_pair) (vcd_provider plain_displays sample_pair)
      default_options = Some (Inr r) \<and> cr_passed r"
proof -
  have "quiet calm unlimited" "free_limits unlimited" "vcd_readable sample_pair (co_window default_options)"
    by (simp_all add: quiet_calm unlimited_def free_limits_def vcd_readable_def sample_pair_def
        sample_opened_def default_options_def)
  with vcd_pair.compare_quiet [OF sample_pair_valid sample_pair_valid] obtain r where
    r: "compare_providers calm plain_displays unlimited 0 (vcd_provider plain_displays sample_pair) (vcd_provider plain_displays sample_pair)
      default_options = Some (Inr r)" by blast
  from self_comparison_passes [OF sample_pair_valid r] r show ?thesis by blast
qed

text \<open>The machine-readable report counts each signal's mismatches.\<close>

lemma json_counts:
  "(case jc_by_signal (json_of_comparison r) s of Some k \<Rightarrow> k | None \<Rightarrow> 0) =
     length (filter (\<lambda>mm. mm_signal mm = s) (cr_mismatches r))"
proof -
  have "(case foldl (\<lambda>m mm. m(mm_signal mm \<mapsto> (case m (mm_signal mm) of None \<Rightarrow> 0 | Some k \<Rightarrow> k) + 1)) m mms s
        of Some k \<Rightarrow> k | None \<Rightarrow> 0) =
      (case m s of Some k \<Rightarrow> k | None \<Rightarrow> 0) + length (filter (\<lambda>mm. mm_signal mm = s) mms)"
    for m :: "string \<rightharpoonup> nat" and mms
    by (induction mms arbitrary: m) (auto split: option.splits)
  from this [of Map.empty "cr_mismatches r"] show ?thesis by (simp add: json_of_comparison_def)
qed

text \<open>
  The loop uses the largest timestamp as its end marker, so a difference at that very time goes
  unnoticed.
\<close>

lemma last_instant_ignored:
  "compare_signal_timeline env D q opts sig [(- 1, Integer 0)] [(- 1, Integer 1)] n mms = Inr (0, mms, n)"
  by (simp add: compare_signal_timeline_def compare_loop.simps head_time_def)

end
