(* ===== verification/Fst.thy ===== *)
theory Fst
  imports Compare Json
begin

text \<open>
  The FST backend of src/opened/fst.rs: the preflight of a file's sections before the external
  reader may allocate, the hierarchy builder with its resource limits, the conversion of
  timescales and values, the source identity, and the bounded visit of signal changes; then the
  FST provider of src/query/compare.rs.

  The \<^verbatim>\<open>fst-reader\<close> crate is external: a \<open>fst_reader\<close> says how reopening ends and which changes
  it delivers for a filter. Files are functions from an offset and a length to the bytes read.
\<close>

definition max_error_bytes :: nat where "max_error_bytes = 512"
definition max_hierarchy_depth :: nat where "max_hierarchy_depth = 1024"
definition max_declarations :: nat where "max_declarations = 1000000"
definition max_name_bytes :: nat where "max_name_bytes = 512 * 1024 * 1024"
definition max_catalog_bytes :: nat where "max_catalog_bytes = 1024 * 1024 * 1024"
definition max_hierarchy_uncompressed :: u64 where "max_hierarchy_uncompressed = 512 * 1024 * 1024"
definition max_hierarchy_compressed :: u64 where "max_hierarchy_compressed = 512 * 1024 * 1024"
definition max_fst_bytes :: u64 where "max_fst_bytes = 8 * 1024 * 1024 * 1024"
definition fst_gzip_wrapper_block :: nat where "fst_gzip_wrapper_block = 254"

subsection \<open>Errors\<close>

datatype fst_error =
    FeIo string io_error
  | FeParse string
  | FeDuplicateSignal string
  | FeMissingSignal string
  | FeUnsupportedInput string
  | FeUnsupportedValue string
  | FeResourceLimit string nat nat \<comment> \<open>kind, limit, actual\<close>
  | FeStaleSource
  | FeParserPanicked

fun fst_error_text :: "fst_error \<Rightarrow> string" where
  "fst_error_text (FeIo path e) = ''failed to access FST '' @ path @ '': '' @ io_message e"
| "fst_error_text (FeParse m) = ''FST parser error: '' @ m"
| "fst_error_text (FeDuplicateSignal s) = ''duplicate FST signal name: '' @ s"
| "fst_error_text (FeMissingSignal s) = ''FST signal not found: '' @ s"
| "fst_error_text (FeUnsupportedInput m) = ''unsupported FST input: '' @ m"
| "fst_error_text (FeUnsupportedValue m) = ''unsupported FST value: '' @ m"
| "fst_error_text (FeResourceLimit kind limit actual) =
     ''FST resource limit exceeded for '' @ kind @ '': '' @ decimal actual @ '' > '' @ decimal limit"
| "fst_error_text FeStaleSource = ''FST source changed since it was opened''"
| "fst_error_text FeParserPanicked = ''FST parser panicked''"

fun fst_to_query :: "fst_error \<Rightarrow> query_error" where
  "fst_to_query FeStaleSource = StaleSource generation_mismatch_error"
| "fst_to_query (FeIo _ e) = SourceUnavailable e"
| "fst_to_query (FeMissingSignal s) = SignalNotFound s"
| "fst_to_query (FeUnsupportedInput m) = UnsupportedWaveform m"
| "fst_to_query (FeUnsupportedValue m) = UnsupportedWaveform m"
| "fst_to_query e = Query.Fst (fst_error_text e)"

definition query_to_fst :: "query_error \<Rightarrow> fst_error" where
  "query_to_fst e = FeParse (query_error_text e)"

definition bounded :: "string \<Rightarrow> string" where
  "bounded text =
     (if length text \<le> max_error_bytes then text
      else take (boundary_down text max_error_bytes) text @ ellipsis)"

subsection \<open>Reading a file\<close>

type_synonym file_read = "nat \<Rightarrow> nat \<Rightarrow> io_error + string"

definition read_exact :: "file_read \<Rightarrow> string \<Rightarrow> nat \<Rightarrow> nat \<Rightarrow> fst_error + string" where
  "read_exact rd path pos n =
     (case rd pos n of
        Inl e \<Rightarrow> Inl (FeIo path e)
      | Inr bytes \<Rightarrow>
          if length bytes = n then Inr bytes
          else Inl (FeIo path (io_new UnexpectedEof ''failed to fill whole buffer'')))"

fun be_value :: "u64 \<Rightarrow> string \<Rightarrow> u64" where
  "be_value acc [] = acc"
| "be_value acc (b # bs) = be_value (or (push_bit 8 acc) (of_nat (byte b))) bs"

definition read_be_u64 :: "file_read \<Rightarrow> string \<Rightarrow> nat \<Rightarrow> fst_error + u64" where
  "read_be_u64 rd path pos = and_then (read_exact rd path pos 8) (\<lambda>bytes. Inr (be_value 0 bytes))"

fun variant_loop :: "file_read \<Rightarrow> string \<Rightarrow> nat \<Rightarrow> nat \<Rightarrow> nat \<Rightarrow> u64 \<Rightarrow> fst_error + u64" where
  "variant_loop rd path pos index 0 acc = Inl (FeParse ''invalid FST hierarchy length encoding'')"
| "variant_loop rd path pos index (Suc n) acc =
     and_then (read_exact rd path pos 1) (\<lambda>bytes.
       let b = byte (hd bytes);
           acc' = or acc (push_bit (7 * index) (and (of_nat b) 127)) in
       if b < 128 then Inr acc' else variant_loop rd path (pos + 1) (index + 1) n acc')"

definition read_variant_u64 :: "file_read \<Rightarrow> string \<Rightarrow> nat \<Rightarrow> fst_error + u64" where
  "read_variant_u64 rd path pos = variant_loop rd path pos 0 10 0"

subsection \<open>The preflight\<close>

text \<open>The checks on one section; \<open>kind\<close> was read at \<open>pos\<close>.\<close>

definition check_hierarchy ::
    "file_read \<Rightarrow> string \<Rightarrow> u64 \<Rightarrow> nat \<Rightarrow> nat \<Rightarrow> u64 \<Rightarrow> fst_error + unit" where
  "check_hierarchy rd path limit start kind section_length =
     (if section_length > max_hierarchy_compressed
      then Inl (FeResourceLimit ''hierarchy_compressed_bytes'' (unat max_hierarchy_compressed) (unat section_length))
      else if section_length < 16 then Inl (FeParse ''compressed FST hierarchy header is truncated'')
      else and_then (read_be_u64 rd path (start + 8)) (\<lambda>uncompressed.
        if uncompressed > limit
        then Inl (FeResourceLimit ''hierarchy_uncompressed_bytes'' (unat limit) (unat uncompressed))
        else if kind = 7
        then and_then (read_variant_u64 rd path (start + 16)) (\<lambda>intermediate.
          if intermediate > limit
          then Inl (FeResourceLimit ''hierarchy_intermediate_bytes'' (unat limit) (unat intermediate))
          else Inr ())
        else Inr ()))"

text \<open>
  What the loop finds at a position: the end of the file, the terminating block, or a section
  that ends at the given place.
\<close>

datatype section_head = AtEof | Terminator | Section nat nat u64 \<comment> \<open>kind, end, length\<close>

definition section_at :: "file_read \<Rightarrow> string \<Rightarrow> nat \<Rightarrow> nat \<Rightarrow> fst_error + section_head" where
  "section_at rd path file_len pos =
     (case rd pos 1 of
        Inl e \<Rightarrow> Inl (FeIo path e)
      | Inr [] \<Rightarrow> Inr AtEof
      | Inr (k # _) \<Rightarrow>
          (let kind = byte k; start = pos + 1 in
           and_then (read_be_u64 rd path start) (\<lambda>section_length.
             if kind = 255 \<and> section_length = 0 then Inr Terminator
             else if section_length < 8 then Inl (FeParse ''invalid FST section length'')
             else if start + unat section_length > u64_max then Inl (FeParse ''FST section length overflow'')
             else if start + unat section_length > file_len then Inl (FeParse ''FST section extends beyond input'')
             else Inr (Section kind (start + unat section_length) section_length))))"

function preflight_loop :: "file_read \<Rightarrow> string \<Rightarrow> nat \<Rightarrow> u64 \<Rightarrow> nat \<Rightarrow> fst_error + unit" where
  "preflight_loop rd path file_len limit pos =
     (case section_at rd path file_len pos of
        Inl e \<Rightarrow> Inl e
      | Inr AtEof \<Rightarrow> Inr ()
      | Inr Terminator \<Rightarrow> Inr ()
      | Inr (Section kind stop section_length) \<Rightarrow>
          and_then (if kind \<in> {4, 6, 7} then check_hierarchy rd path limit (pos + 1) kind section_length
                    else Inr ()) (\<lambda>_.
            preflight_loop rd path file_len limit stop))"
  by pat_completeness auto
termination
proof (relation "measure (\<lambda>(rd, path, file_len, limit, pos). file_len - pos)", goal_cases)
  case (2 rd path file_len limit pos h kind stop section_length u)
  then have "pos < stop" "stop \<le> file_len"
    by (auto simp: section_at_def Let_def and_then_eq_Inr split: sum.splits list.splits if_splits)
  then show ?case by simp
qed simp

definition preflight_hierarchy :: "file_read \<Rightarrow> string \<Rightarrow> nat \<Rightarrow> u64 \<Rightarrow> fst_error + unit" where
  "preflight_hierarchy rd path file_len limit = preflight_loop rd path file_len limit 0"

declare preflight_loop.simps [simp del]

subsection \<open>The hierarchy\<close>

datatype fst_signal_type = Digital | RealSignal | GenericString

text \<open>
  Of a variable type the source asks whether it is the generic string, and whether the reader
  counts it as real.
\<close>

datatype fst_var_type = VtGenericString | VtOther bool

datatype hierarchy_entry =
    HScope string string \<comment> \<open>name, component\<close>
  | HUpScope
  | HVar fst_var_type string u32 nat bool \<comment> \<open>type, name, length, handle, alias\<close>
  | HOther

record fst_signal =
  fs_name :: string
  fs_handle :: nat
  fs_width :: u32
  fs_type :: fst_signal_type
  fs_alias :: bool

definition signal_type :: "fst_var_type \<Rightarrow> fst_signal_type" where
  "signal_type tpe =
     (case tpe of VtGenericString \<Rightarrow> GenericString
      | VtOther is_real \<Rightarrow> if is_real then RealSignal else Digital)"

definition resource_limit :: "string \<Rightarrow> nat \<Rightarrow> nat \<Rightarrow> fst_error" where
  "resource_limit kind limit actual = FeResourceLimit kind limit actual"

definition ensure_resource :: "string \<Rightarrow> nat \<Rightarrow> nat \<Rightarrow> fst_error + unit" where
  "ensure_resource kind actual limit =
     (if actual > limit then Inl (resource_limit kind limit actual) else Inr ())"

text \<open>A \<^verbatim>\<open>usize\<close> sum that would overflow is the largest \<^verbatim>\<open>usize\<close>.\<close>

definition usize_cap :: "nat \<Rightarrow> nat" where
  "usize_cap n = min n u64_max"

definition charge_resource :: "string \<Rightarrow> nat \<Rightarrow> nat \<Rightarrow> nat \<Rightarrow> fst_error + nat" where
  "charge_resource kind current amount limit =
     (let actual = usize_cap (current + amount) in
      if actual > limit then Inl (resource_limit kind limit actual) else Inr actual)"

record hierarchy_state =
  hs_scopes :: "string list"
  hs_signals :: "fst_signal list"
  hs_names :: "string set"
  hs_name_bytes :: nat

definition empty_hierarchy :: hierarchy_state where
  "empty_hierarchy = \<lparr>hs_scopes = [], hs_signals = [], hs_names = {}, hs_name_bytes = 0\<rparr>"

text \<open>\<open>signal_bytes\<close> is \<^verbatim>\<open>size_of::<FstSignal>()\<close>.\<close>

definition declare_var ::
    "nat \<Rightarrow> fst_var_type \<Rightarrow> string \<Rightarrow> u32 \<Rightarrow> nat \<Rightarrow> bool \<Rightarrow> hierarchy_state \<Rightarrow> fst_error + hierarchy_state"
  where
  "declare_var signal_bytes tpe name width handle is_alias st =
     and_then (ensure_resource ''declarations'' (length (hs_signals st) + 1) max_declarations) (\<lambda>_.
       let full_len = usize_cap (length name + sum_list (map (\<lambda>part. length part + 1) (hs_scopes st))) in
       and_then (charge_resource ''name_bytes'' (hs_name_bytes st) full_len max_name_bytes) (\<lambda>name_bytes.
         let estimated = usize_cap (name_bytes + usize_cap ((length (hs_signals st) + 1) * (signal_bytes + 64))) in
         and_then (ensure_resource ''catalog_bytes'' estimated max_catalog_bytes) (\<lambda>_.
           let full_name = (if hs_scopes st = [] then name
                            else join [CHR ''.''] (hs_scopes st) @ CHR ''.'' # name) in
           if full_name \<in> hs_names st then Inl (FeDuplicateSignal full_name)
           else Inr (st\<lparr>hs_name_bytes := name_bytes,
             hs_names := insert full_name (hs_names st),
             hs_signals := hs_signals st @ [\<lparr>fs_name = full_name, fs_handle = handle, fs_width = width,
               fs_type = signal_type tpe, fs_alias = is_alias\<rparr>]\<rparr>))))"

fun hierarchy_step :: "nat \<Rightarrow> hierarchy_state \<Rightarrow> hierarchy_entry \<Rightarrow> fst_error + hierarchy_state" where
  "hierarchy_step sz st (HScope name component) =
     (let part = (if component = [] then name else component) in
      and_then (ensure_resource ''hierarchy_depth'' (length (hs_scopes st) + 1) max_hierarchy_depth) (\<lambda>_.
      and_then (charge_resource ''name_bytes'' (hs_name_bytes st) (length part) max_name_bytes) (\<lambda>name_bytes.
        Inr (st\<lparr>hs_name_bytes := name_bytes, hs_scopes := hs_scopes st @ [part]\<rparr>))))"
| "hierarchy_step sz st HUpScope = Inr (st\<lparr>hs_scopes := butlast (hs_scopes st)\<rparr>)"
| "hierarchy_step sz st (HVar tpe name width handle is_alias) =
     declare_var sz tpe name width handle is_alias st"
| "hierarchy_step sz st HOther = Inr st"

text \<open>After the first error the callback ignores every entry.\<close>

fun hierarchy_loop :: "nat \<Rightarrow> hierarchy_state \<Rightarrow> hierarchy_entry list \<Rightarrow> fst_error + hierarchy_state" where
  "hierarchy_loop sz st [] = Inr st"
| "hierarchy_loop sz st (entry # rest) =
     and_then (hierarchy_step sz st entry) (\<lambda>st'. hierarchy_loop sz st' rest)"

text \<open>What a hierarchy declares: every variable under the path of its open scopes.\<close>

fun scoped_signals :: "string list \<Rightarrow> hierarchy_entry list \<Rightarrow> fst_signal list" where
  "scoped_signals scopes [] = []"
| "scoped_signals scopes (HScope name component # rest) =
     scoped_signals (scopes @ [if component = [] then name else component]) rest"
| "scoped_signals scopes (HUpScope # rest) = scoped_signals (butlast scopes) rest"
| "scoped_signals scopes (HVar tpe name width handle is_alias # rest) =
     \<lparr>fs_name = join [CHR ''.''] (scopes @ [name]), fs_handle = handle, fs_width = width,
      fs_type = signal_type tpe, fs_alias = is_alias\<rparr> # scoped_signals scopes rest"
| "scoped_signals scopes (HOther # rest) = scoped_signals scopes rest"

lemma join_snoc: "join sep (xs @ [x]) = (if xs = [] then x else join sep xs @ sep @ x)"
  by (induction sep xs rule: join.induct) auto

lemma ensure_resource_error:
  "ensure_resource kind actual limit = Inl e \<Longrightarrow> \<exists>k l a. e = FeResourceLimit k l a \<and> l < a"
  by (auto simp: ensure_resource_def resource_limit_def split: if_splits)

lemma ensure_resource_ok [result_iff]: "ensure_resource kind actual limit = Inr u \<longleftrightarrow> actual \<le> limit"
  by (auto simp: ensure_resource_def)

lemma charge_resource_error:
  "charge_resource kind current amount limit = Inl e \<Longrightarrow> \<exists>k l a. e = FeResourceLimit k l a \<and> l < a"
  by (auto simp: charge_resource_def resource_limit_def Let_def split: if_splits)

lemma charge_resource_ok [result_iff]:
  "charge_resource kind current amount limit = Inr total_bytes \<longleftrightarrow>
     total_bytes = usize_cap (current + amount) \<and> total_bytes \<le> limit"
  by (auto simp: charge_resource_def Let_def)

definition hierarchy_ok :: "hierarchy_state \<Rightarrow> bool" where
  "hierarchy_ok st \<longleftrightarrow>
     hs_names st = set (map fs_name (hs_signals st)) \<and> distinct (map fs_name (hs_signals st)) \<and>
     length (hs_signals st) \<le> max_declarations \<and> length (hs_scopes st) \<le> max_hierarchy_depth \<and>
     hs_name_bytes st \<le> max_name_bytes"

lemma empty_hierarchy_ok: "hierarchy_ok empty_hierarchy"
  by (simp add: hierarchy_ok_def empty_hierarchy_def)

lemma hierarchy_step_ok:
  assumes "hierarchy_step sz st entry = Inr st'" and "hierarchy_ok st"
  shows "hierarchy_ok st' \<and>
    hs_signals st @ scoped_signals (hs_scopes st) (entry # rest) = hs_signals st' @ scoped_signals (hs_scopes st') rest"
  using assms
  by (cases entry) (auto simp: hierarchy_ok_def declare_var_def Let_def result_iff join_snoc split: if_splits)

definition resource_error :: "fst_error \<Rightarrow> bool" where
  "resource_error e \<longleftrightarrow> (\<exists>kind limit actual. e = FeResourceLimit kind limit actual \<and> limit < actual)"

lemma hierarchy_step_error:
  assumes "hierarchy_step sz st entry = Inl e" and "hierarchy_ok st"
  shows "resource_error e \<or>
    (\<exists>n. e = FeDuplicateSignal n \<and> count_list (map fs_name (hs_signals st @ scoped_signals (hs_scopes st) (entry # rest))) n \<ge> 2)"
proof (cases entry)
  case (HVar tpe name width handle is_alias)
  let ?full = "join [CHR ''.''] (hs_scopes st @ [name])"
  have "resource_error e \<or> (e = FeDuplicateSignal ?full \<and> ?full \<in> hs_names st)"
    using assms(1) HVar
    by (auto simp: declare_var_def Let_def and_then_eq_Inl resource_error_def join_snoc
        dest!: ensure_resource_error charge_resource_error split: if_splits)
  moreover have "count_list (map fs_name (hs_signals st)) ?full \<ge> 1" if "?full \<in> hs_names st"
    using that assms(2) count_list_0_iff [of "map fs_name (hs_signals st)" ?full]
    by (simp add: hierarchy_ok_def Suc_le_eq)
  ultimately consider "resource_error e"
    | "e = FeDuplicateSignal ?full" "count_list (map fs_name (hs_signals st)) ?full \<ge> 1" by blast
  then show ?thesis
  proof cases
    case 2
    then have "count_list (map fs_name (hs_signals st @ scoped_signals (hs_scopes st) (entry # rest))) ?full \<ge> 2"
      using HVar by simp
    with 2(1) show ?thesis by blast
  qed blast
qed (use assms in \<open>auto simp: Let_def and_then_eq_Inl resource_error_def
    dest!: ensure_resource_error charge_resource_error\<close>)

lemma hierarchy_loop_result:
  assumes "hierarchy_ok st"
  shows "case hierarchy_loop sz st es of
      Inr st' \<Rightarrow> hierarchy_ok st' \<and> hs_signals st' = hs_signals st @ scoped_signals (hs_scopes st) es
    | Inl e \<Rightarrow> resource_error e \<or> (\<exists>n. e = FeDuplicateSignal n \<and>
        count_list (map fs_name (hs_signals st @ scoped_signals (hs_scopes st) es)) n \<ge> 2)"
  using assms
proof (induction es arbitrary: st)
  case (Cons entry rest)
  show ?case
  proof (cases "hierarchy_step sz st entry")
    case (Inl e)
    with hierarchy_step_error [OF Inl Cons.prems, of rest] show ?thesis by simp
  next
    case (Inr st')
    note step = hierarchy_step_ok [OF Inr Cons.prems, of rest]
    with Cons.IH [of st'] Inr show ?thesis by (simp only: hierarchy_loop.simps and_then_simps simp_thms)
  qed
qed simp

subsection \<open>Timescales and values\<close>

definition timescale_bases :: "(int \<times> timescale_unit) list" where
  "timescale_bases = [(0, Sec), (-3, MilliSec), (-6, MicroSec), (-9, NanoSec), (-12, PicoSec), (-15, FemtoSec)]"

fun timescale_search :: "int \<Rightarrow> (int \<times> timescale_unit) list \<Rightarrow> timescale option" where
  "timescale_search e [] = None"
| "timescale_search e ((base, unit) # rest) =
     (if e - base = 0 then Some \<lparr>ts_magnitude = 1, ts_unit = unit\<rparr>
      else if e - base = 1 then Some \<lparr>ts_magnitude = 10, ts_unit = unit\<rparr>
      else if e - base = 2 then Some \<lparr>ts_magnitude = 100, ts_unit = unit\<rparr>
      else timescale_search e rest)"

text \<open>The exponent is an \<^verbatim>\<open>i8\<close>; the differences are taken in \<^verbatim>\<open>i16\<close> and cannot overflow.\<close>

definition timescale_from_exponent :: "8 word \<Rightarrow> timescale option" where
  "timescale_from_exponent e = timescale_search (sint e) timescale_bases"

datatype fst_signal_value = FvReal f64 | FvString string

definition fst_value :: "fst_signal_value \<Rightarrow> fst_signal_type \<Rightarrow> fst_error + change_value" where
  "fst_value v tpe =
     (case v of
        FvReal f \<Rightarrow> Inr (Float f)
      | FvString bytes \<Rightarrow>
          if \<not> utf8_valid bytes then Inl (FeUnsupportedValue ''generic string is not valid UTF-8'')
          else if tpe = Digital \<and> length bytes > 1 \<and> length bytes \<le> 128 \<and>
                  list_all (\<lambda>c. c = CHR ''0'' \<or> c = CHR ''1'') bytes
          then (case from_str_radix 2 u128_max bytes of
                  Some i \<Rightarrow> Inr (Integer (of_nat i))
                | None \<Rightarrow> Inr (Text bytes))
          else Inr (Text bytes))"

subsection \<open>Opening\<close>

text \<open>
  An opened file: its length and modification time as the metadata call reports them, and its
  bytes. Seeking within a regular file does not fail by itself; a failing read does.
\<close>

record fst_file =
  ff_metadata :: "io_error + nat \<times> nat option"
  ff_read :: file_read

record fst_identity =
  fi_len :: nat
  fi_modified :: "nat option"
  fi_sample :: string

definition sample_bytes :: nat where "sample_bytes = 64 * 1024"

definition identity_from_file ::
    "(string \<Rightarrow> string) \<Rightarrow> fst_file \<Rightarrow> nat \<times> nat option \<Rightarrow> io_error + fst_identity" where
  "identity_from_file blake3 file metadata =
     (let len = fst metadata in
      and_then (ff_read file 0 sample_bytes) (\<lambda>head.
      and_then (if len > sample_bytes then ff_read file (len - sample_bytes) sample_bytes else Inr []) (\<lambda>tail.
        Inr \<lparr>fi_len = len, fi_modified = snd metadata, fi_sample = blake3 (head @ tail)\<rparr>)))"

definition matches_file ::
    "(string \<Rightarrow> string) \<Rightarrow> fst_identity \<Rightarrow> fst_file \<Rightarrow> nat \<times> nat option \<Rightarrow> io_error + bool" where
  "matches_file blake3 identity file metadata =
     and_then (identity_from_file blake3 file metadata) (\<lambda>current.
       Inr (fi_len identity = fi_len current \<and> fi_modified identity = fi_modified current \<and>
            fi_sample identity = fi_sample current))"

text \<open>What a call into the reader under \<^verbatim>\<open>catch_unwind\<close> comes to.\<close>

datatype 'a caught = Panicked | Failed string | Returned 'a

record fst_header =
  fh_start :: u64
  fh_end :: u64
  fh_exponent :: "8 word"
  fh_version :: string
  fh_date :: string

record fst_filter =
  ft_start :: u64
  ft_end :: "u64 option"
  ft_include :: "nat list"

text \<open>
  The reader: the outcome of opening it, its header, the entries it hands to the hierarchy
  callback and how that ends, and for a filter the changes it hands to the callback and how
  reading them ends if the callback accepts them all.
\<close>

record fst_reader =
  fr_open :: "unit caught"
  fr_header :: fst_header
  fr_entries :: "hierarchy_entry list"
  fr_hierarchy_end :: "unit caught"
  fr_changes :: "fst_filter \<Rightarrow> (u64 \<times> nat \<times> fst_signal_value) list"
  fr_changes_end :: "fst_filter \<Rightarrow> unit caught"

record fst_meta =
  me_start :: u64
  me_end :: u64
  me_signal_count :: nat
  me_unique_count :: nat
  me_exponent :: "8 word"
  me_timescale :: "timescale option"
  me_version :: string
  me_date :: string

record opened_fst =
  of_display :: string
  of_configured :: string
  of_generation :: nat
  of_identity :: fst_identity
  of_meta :: fst_meta
  of_signals :: "fst_signal list"
  of_by_name :: "string \<rightharpoonup> nat"

record fst_system =
  fy_configured :: "string \<Rightarrow> io_error + string"
  fy_file :: "string \<Rightarrow> io_error + fst_file"
  fy_blake3 :: "string \<Rightarrow> string"
  fy_signal_bytes :: nat
  fy_reader :: "string \<Rightarrow> fst_reader"
  fy_generation :: nat

definition index_by_name :: "fst_signal list \<Rightarrow> (string \<rightharpoonup> nat)" where
  "index_by_name signals = map_of (rev (zip (map fs_name signals) [0..<length signals]))"

definition fst_catalog ::
    "nat \<Rightarrow> fst_reader \<Rightarrow> fst_error + fst_signal list" where
  "fst_catalog signal_bytes reader =
     (case fr_hierarchy_end reader of
        Panicked \<Rightarrow> Inl FeParserPanicked
      | Failed m \<Rightarrow> Inl (FeParse (bounded m))
      | Returned _ \<Rightarrow>
          and_then (hierarchy_loop signal_bytes empty_hierarchy (fr_entries reader)) (\<lambda>st.
            Inr (hs_signals st)))"

definition fst_io :: "string \<Rightarrow> io_error + 'a \<Rightarrow> fst_error + 'a" where
  "fst_io path r = map_err (FeIo path) r"

definition open_with_hierarchy_limit :: "fst_system \<Rightarrow> u64 \<Rightarrow> string \<Rightarrow> fst_error + opened_fst" where
  "open_with_hierarchy_limit sys hierarchy_limit path =
     (and_then (fst_io path (fy_configured sys path)) (\<lambda>configured.
      and_then (fst_io path (fy_file sys configured)) (\<lambda>file.
      and_then (fst_io path (ff_metadata file)) (\<lambda>metadata.
      if fst metadata > unat max_fst_bytes
      then Inl (FeUnsupportedInput (''input exceeds '' @ decimal (unat max_fst_bytes) @ '' byte limit''))
      else
      and_then (fst_io path (identity_from_file (fy_blake3 sys) file metadata)) (\<lambda>identity.
      and_then (read_exact (ff_read file) path 0 1) (\<lambda>head.
      if byte (hd head) = fst_gzip_wrapper_block
      then Inl (FeUnsupportedInput ''whole-file gzip wrappers are disabled'')
      else
      and_then (preflight_hierarchy (ff_read file) path (fst metadata) hierarchy_limit) (\<lambda>_.
      let reader = fy_reader sys configured in
      case fr_open reader of
        Panicked \<Rightarrow> Inl FeParserPanicked
      | Failed m \<Rightarrow> Inl (FeParse (bounded m))
      | Returned _ \<Rightarrow>
          and_then (fst_catalog (fy_signal_bytes sys) reader) (\<lambda>signals.
            let header = fr_header reader in
            Inr \<lparr>of_display = path, of_configured = configured, of_generation = fy_generation sys,
                 of_identity = identity,
                 of_meta = \<lparr>me_start = fh_start header, me_end = fh_end header,
                   me_signal_count = length signals,
                   me_unique_count = card (set (map fs_handle signals)),
                   me_exponent = fh_exponent header,
                   me_timescale = timescale_from_exponent (fh_exponent header),
                   me_version = fh_version header, me_date = fh_date header\<rparr>,
                 of_signals = signals, of_by_name = index_by_name signals\<rparr>))))))))"

definition open_fst :: "fst_system \<Rightarrow> string \<Rightarrow> fst_error + opened_fst" where
  "open_fst sys path = open_with_hierarchy_limit sys max_hierarchy_uncompressed path"

definition opened_fst_signal :: "opened_fst \<Rightarrow> string \<Rightarrow> fst_signal option" where
  "opened_fst_signal ofs name = map_option (\<lambda>i. of_signals ofs ! i) (of_by_name ofs name)"

definition fst_signal_names :: "opened_fst \<Rightarrow> string list" where
  "fst_signal_names ofs = map fs_name (of_signals ofs)"

definition fst_list_signals :: "opened_fst \<Rightarrow> string option \<Rightarrow> string list" where
  "fst_list_signals ofs flt = list_names (fst_signal_names ofs) flt"

definition fst_validate_source :: "fst_system \<Rightarrow> opened_fst \<Rightarrow> fst_error + unit" where
  "fst_validate_source sys ofs =
     (and_then (fst_io (of_display ofs) (fy_file sys (of_configured ofs))) (\<lambda>file.
      and_then (fst_io (of_display ofs) (ff_metadata file)) (\<lambda>metadata.
      and_then (fst_io (of_display ofs) (matches_file (fy_blake3 sys) (of_identity ofs) file metadata)) (\<lambda>same.
        if same then Inr () else Inl FeStaleSource))))"

subsection \<open>What the preflight guarantees\<close>

text \<open>The positions at which the reader will find the sections of a file.\<close>

inductive section_reached :: "file_read \<Rightarrow> string \<Rightarrow> nat \<Rightarrow> nat \<Rightarrow> nat \<Rightarrow> bool" for rd path file_len where
  reached_start: "section_reached rd path file_len pos pos"
| reached_next: "section_reached rd path file_len start pos \<Longrightarrow>
    section_at rd path file_len pos = Inr (Section kind stop section_length) \<Longrightarrow>
    section_reached rd path file_len start stop"

definition section_safe :: "file_read \<Rightarrow> string \<Rightarrow> nat \<Rightarrow> u64 \<Rightarrow> nat \<Rightarrow> bool" where
  "section_safe rd path file_len limit pos \<longleftrightarrow>
     (case section_at rd path file_len pos of
        Inl _ \<Rightarrow> False
      | Inr (Section kind stop section_length) \<Rightarrow>
          pos < stop \<and> stop \<le> file_len \<and>
          (if kind \<in> {4, 6, 7}
           then 16 \<le> section_length \<and> section_length \<le> max_hierarchy_compressed \<and>
             (\<exists>u. read_be_u64 rd path (pos + 9) = Inr u \<and> u \<le> limit) \<and>
             (if kind = 7 then \<exists>u. read_variant_u64 rd path (pos + 17) = Inr u \<and> u \<le> limit else True)
           else True)
      | Inr _ \<Rightarrow> True)"

lemma section_at_bounds:
  "section_at rd path file_len pos = Inr (Section kind stop section_length) \<Longrightarrow> pos < stop \<and> stop \<le> file_len"
  by (auto simp: section_at_def Let_def and_then_eq_Inr split: sum.splits list.splits if_splits)

lemma check_hierarchy_ok:
  "check_hierarchy rd path limit (pos + 1) kind section_length = Inr () \<Longrightarrow>
     16 \<le> section_length \<and> section_length \<le> max_hierarchy_compressed \<and>
     (\<exists>u. read_be_u64 rd path (pos + 9) = Inr u \<and> u \<le> limit) \<and>
     (kind = 7 \<longrightarrow> (\<exists>u. read_variant_u64 rd path (pos + 17) = Inr u \<and> u \<le> limit))"
  by (auto simp: check_hierarchy_def and_then_eq_Inr ac_simps not_less split: if_splits)

lemma preflight_step:
  assumes "preflight_loop rd path file_len limit pos = Inr ()"
  shows "section_safe rd path file_len limit pos \<and>
    (\<forall>kind stop l. section_at rd path file_len pos = Inr (Section kind stop l) \<longrightarrow>
       preflight_loop rd path file_len limit stop = Inr ())"
proof (cases "section_at rd path file_len pos")
  case (Inl e)
  with assms show ?thesis by (simp add: preflight_loop.simps)
next
  case (Inr hd)
  show ?thesis
  proof (cases hd)
    case (Section kind stop l)
    with Inr assms have next_ok: "preflight_loop rd path file_len limit stop = Inr ()"
      and "kind \<in> {4, 6, 7} \<longrightarrow> check_hierarchy rd path limit (pos + 1) kind l = Inr ()"
      by (subst (asm) preflight_loop.simps, auto simp: and_then_eq_Inr split: if_splits)+
    with Inr Section section_at_bounds [OF Inr [unfolded Section]] show ?thesis
      using check_hierarchy_ok [of rd path limit pos kind l] by (auto simp: section_safe_def)
  qed (use Inr in \<open>simp_all add: section_safe_def\<close>)
qed

lemma preflight_reached:
  "section_reached rd path file_len start pos \<Longrightarrow> preflight_loop rd path file_len limit start = Inr () \<Longrightarrow>
     preflight_loop rd path file_len limit pos = Inr ()"
  by (induction rule: section_reached.induct) (use preflight_step in blast)+

subsection \<open>Properties\<close>

text \<open>
  C21. A preflight that passes bounds what the external reader may allocate: every section the
  reader will reach can be read, makes progress and lies within the file, and every compressed
  hierarchy declares an expansion, and for the doubly compressed kind an intermediate size, of at
  most the limit.
\<close>

theorem preflight_sound:
  assumes "preflight_hierarchy rd path file_len limit = Inr ()"
    and "section_reached rd path file_len 0 pos"
  shows "section_safe rd path file_len limit pos"
  using preflight_step [OF preflight_reached [OF assms(2)]] assms(1)
  by (simp add: preflight_hierarchy_def)

text \<open>A file with one hierarchy section.\<close>

definition sample_fst_bytes :: string where
  "sample_fst_bytes = map char_of ([4, 0, 0, 0, 0, 0, 0, 0, 16, 0, 0, 0, 0, 0, 0, 0, 9] :: nat list)"

definition bytes_read :: "string \<Rightarrow> file_read" where
  "bytes_read bytes = (\<lambda>pos n. Inr (take n (drop pos bytes)))"

lemma sample_section:
  "section_at (bytes_read sample_fst_bytes) path 17 0 = Inr (Section 4 17 16)"
  "section_at (bytes_read sample_fst_bytes) path 17 17 = Inr AtEof"
  "check_hierarchy (bytes_read sample_fst_bytes) path max_hierarchy_uncompressed (Suc 0) 4 16 = Inr ()"
  by (simp_all add: section_at_def check_hierarchy_def bytes_read_def sample_fst_bytes_def read_be_u64_def
      read_exact_def byte_def u64_max_def Let_def max_hierarchy_uncompressed_def max_hierarchy_compressed_def)

lemma sample_preflight:
  "preflight_hierarchy (bytes_read sample_fst_bytes) path 17 max_hierarchy_uncompressed = Inr ()"
  by (simp add: preflight_hierarchy_def preflight_loop.simps sample_section)

lemma preflight_sound_witness:
  "section_safe (bytes_read sample_fst_bytes) ''a.fst'' 17 max_hierarchy_uncompressed 17"
  by (rule preflight_sound [OF sample_preflight reached_next [OF reached_start sample_section(1)]])

end
