(* ===== verification/Fst_Visit.thy ===== *)
theory Fst_Visit
  imports Fst
begin

text \<open>
  The bounded visit of the changes of an FST file (\<^verbatim>\<open>visit_changes_until_with_context\<close> of
  src/opened/fst.rs), the wrappers around it, and the FST provider of src/query/compare.rs.

  The visitor is a loop body on an accumulator (\<open>flow\<close>): it continues, stops or fails. The state
  of the visit after a failure is kept beside the error, so that what the visitor saw is known.
  The outcome of validating the source at a moment is the environment's; \<open>fst_source\<close> is what
  reopening the file finds.
\<close>

record fst_source =
  so_file :: "io_error + unit"
  so_reader :: fst_reader

subsection \<open>The requested signals\<close>

record fst_selection =
  sl_handles :: "nat list"
  sl_names :: "nat \<rightharpoonup> string list"
  sl_types :: "nat \<rightharpoonup> fst_signal_type"

definition empty_selection :: fst_selection where
  "empty_selection = \<lparr>sl_handles = [], sl_names = Map.empty, sl_types = Map.empty\<rparr>"

fun fst_resolve :: "opened_fst \<Rightarrow> string list \<Rightarrow> fst_selection \<Rightarrow> query_error + fst_selection" where
  "fst_resolve ofs [] sel = Inr sel"
| "fst_resolve ofs (target # targets) sel =
     and_then (ok_or (SignalNotFound target) (opened_fst_signal ofs target)) (\<lambda>sg.
       let h = fs_handle sg in
       fst_resolve ofs targets
         \<lparr>sl_handles = (if h \<in> set (sl_handles sel) then sl_handles sel else sl_handles sel @ [h]),
          sl_names = (sl_names sel)(h \<mapsto> (case sl_names sel h of Some ns \<Rightarrow> ns | None \<Rightarrow> []) @ [target]),
          sl_types = (sl_types sel)(h \<mapsto> fs_type sg)\<rparr>)"

subsection \<open>The callback\<close>

record 'b visit_state =
  vt_work :: u64
  vt_rows :: u64
  vt_bytes :: u64
  vt_tick :: nat
  vt_acc :: 'b

type_synonym 'b visitor = "'b \<Rightarrow> time_value \<Rightarrow> (query_error, 'b) flow"
type_synonym 'b visit_flow = "(query_error \<times> 'b visit_state, 'b visit_state) flow"

definition row_at :: "u64 \<Rightarrow> change_value \<Rightarrow> string \<Rightarrow> time_value" where
  "row_at t v n = \<lparr>tv_signal = n, tv_time = t, tv_value = v\<rparr>"

lemma row_at_simps [simp]:
  "tv_signal (row_at t v n) = n" "tv_time (row_at t v n) = t" "tv_value (row_at t v n) = v"
  by (simp_all add: row_at_def)

text \<open>\<open>Break\<close> is \<^verbatim>\<open>FstCallbackError::Stop\<close>.\<close>

fun deliver_names ::
    "query_limits \<Rightarrow> 'b visitor \<Rightarrow> u64 \<Rightarrow> change_value \<Rightarrow> string list \<Rightarrow> 'b visit_state \<Rightarrow> 'b visit_flow" where
  "deliver_names q body t v [] st = Continue st"
| "deliver_names q body t v (name # names) st =
     (let next_rows = saturating_add (vt_rows st) 1;
          next_bytes = saturating_add (vt_bytes st) (logical_event_bytes name v) in
      if over (max_rows q) next_rows
      then Fail (LimitExceeded Rows (the (max_rows q)) next_rows, st)
      else if over (max_result_bytes q) next_bytes
      then Fail (LimitExceeded ResultBytes (the (max_result_bytes q)) next_bytes, st)
      else
        (let st' = st\<lparr>vt_bytes := next_bytes, vt_rows := next_rows\<rparr> in
         case body (vt_acc st) (row_at t v name) of
           Fail e \<Rightarrow> Fail (e, st')
         | Break acc \<Rightarrow> Break (st'\<lparr>vt_acc := acc\<rparr>)
         | Continue acc \<Rightarrow> deliver_names q body t v names (st'\<lparr>vt_acc := acc\<rparr>)))"

definition fst_callback ::
    "environment \<Rightarrow> query_limits \<Rightarrow> u64 \<Rightarrow> u64 \<Rightarrow> fst_selection \<Rightarrow> 'b visitor
      \<Rightarrow> 'b visit_state \<Rightarrow> u64 \<times> nat \<times> fst_signal_value \<Rightarrow> 'b visit_flow" where
  "fst_callback env q start stop sel body st change =
     (let (t, handle, value) = change;
          work = saturating_add (vt_work st) 1;
          st' = st\<lparr>vt_work := work, vt_tick := vt_tick st + 1\<rparr> in
      case check env q (vt_tick st) of
        Inl e \<Rightarrow> Fail (e, st')
      | Inr _ \<Rightarrow>
          if over (max_commands q) work
          then Fail (LimitExceeded Commands (the (max_commands q)) work, st')
          else if t < start \<or> t > stop then Continue st'
          else (case sl_names sel handle of
              None \<Rightarrow> Continue st'
            | Some names \<Rightarrow>
                (case fst_value value (case sl_types sel handle of Some tpe \<Rightarrow> tpe | None \<Rightarrow> Digital) of
                   Inl e \<Rightarrow> Fail (fst_to_query e, st')
                 | Inr v \<Rightarrow> deliver_names q body t v names st')))"

subsection \<open>The visit\<close>

definition fst_revalidate :: "environment \<Rightarrow> opened_fst \<Rightarrow> nat \<Rightarrow> fst_error + unit" where
  "fst_revalidate env ofs n =
     (case env_source env n of
        Inr u \<Rightarrow> Inr u
      | Inl (Io e) \<Rightarrow> Inl (if is_generation_mismatch e then FeStaleSource else FeIo (of_display ofs) e)
      | Inl _ \<Rightarrow> Inl FeStaleSource)"

definition reopen :: "fst_source \<Rightarrow> query_error + fst_reader" where
  "reopen src =
     and_then (map_err SourceUnavailable (so_file src)) (\<lambda>_.
       case fr_open (so_reader src) of
         Panicked \<Rightarrow> Inl (Query.Fst ''FST parser panicked while reopening source'')
       | Failed m \<Rightarrow> Inl (Query.Fst (bounded m))
       | Returned _ \<Rightarrow> Inr (so_reader src))"

definition visit_filter :: "opened_fst \<Rightarrow> time_window \<Rightarrow> nat list \<Rightarrow> fst_filter" where
  "visit_filter ofs win handles =
     \<lparr>ft_start = (case win_start win of Some t \<Rightarrow> t | None \<Rightarrow> 0),
      ft_end = Some (case win_end win of Some t \<Rightarrow> t | None \<Rightarrow> me_end (of_meta ofs)),
      ft_include = handles\<rparr>"

definition empty_window :: "time_window \<Rightarrow> bool" where
  "empty_window win \<longleftrightarrow>
     (case (win_start win, win_end win) of (Some s, Some e) \<Rightarrow> s > e | _ \<Rightarrow> False)"

definition finish_visit :: "environment \<Rightarrow> query_limits \<Rightarrow> opened_fst \<Rightarrow> nat \<Rightarrow> query_error + unit" where
  "finish_visit env q ofs n =
     and_then (check env q n) (\<lambda>_. map_err fst_to_query (fst_revalidate env ofs (n + 1)))"

definition read_signals ::
    "environment \<Rightarrow> query_limits \<Rightarrow> opened_fst \<Rightarrow> fst_reader \<Rightarrow> nat \<Rightarrow> fst_selection \<Rightarrow> time_window
      \<Rightarrow> 'b visitor \<Rightarrow> 'b \<Rightarrow> (query_error + unit) \<times> 'b \<times> nat" where
  "read_signals env q ofs reader n sel win body acc =
     (let flt = visit_filter ofs win (sl_handles sel);
          st = \<lparr>vt_work = 0, vt_rows = 0, vt_bytes = 0, vt_tick = n, vt_acc = acc\<rparr>;
          finish = (\<lambda>st. (finish_visit env q ofs (vt_tick st), vt_acc st, vt_tick st + 2)) in
      case fold_flow (fst_callback env q (ft_start flt) (the (ft_end flt)) sel body) st (fr_changes reader flt) of
        Fail (e, st') \<Rightarrow> (Inl e, vt_acc st', vt_tick st')
      | Break st' \<Rightarrow> finish st'
      | Continue st' \<Rightarrow>
          (case fr_changes_end reader flt of
             Panicked \<Rightarrow> (Inl (Query.Fst ''FST parser panicked while reading signal data''), vt_acc st', vt_tick st')
           | Failed m \<Rightarrow> (Inl (Query.Fst (bounded m)), vt_acc st', vt_tick st')
           | Returned _ \<Rightarrow> finish st'))"

definition visit_changes_until ::
    "environment \<Rightarrow> query_limits \<Rightarrow> opened_fst \<Rightarrow> fst_source \<Rightarrow> nat \<Rightarrow> string list \<Rightarrow> time_window
      \<Rightarrow> 'b visitor \<Rightarrow> 'b \<Rightarrow> (query_error + unit) \<times> 'b \<times> nat" where
  "visit_changes_until env q ofs src n targets win body acc =
     (case check_signal_count env q n (length targets) of
        Inl e \<Rightarrow> (Inl e, acc, n + 1)
      | Inr _ \<Rightarrow>
          if empty_window win then (Inr (), acc, n + 1)
          else (case and_then (fst_resolve ofs targets empty_selection) (\<lambda>sel.
                  and_then (check env q (n + 1)) (\<lambda>_.
                  and_then (map_err fst_to_query (fst_revalidate env ofs (n + 2))) (\<lambda>_.
                  and_then (reopen src) (\<lambda>reader. Inr (sel, reader))))) of
              Inl e \<Rightarrow> (Inl e, acc, n + 3)
            | Inr (sel, reader) \<Rightarrow> read_signals env q ofs reader (n + 3) sel win body acc))"

text \<open>\<^verbatim>\<open>visit_changes_with_context\<close> never stops early; \<^verbatim>\<open>extract_with_context\<close> collects.\<close>

definition collecting :: "time_value list visitor" where
  "collecting rows row = Continue (rows @ [row])"

definition fst_extract_with_context ::
    "environment \<Rightarrow> query_limits \<Rightarrow> opened_fst \<Rightarrow> fst_source \<Rightarrow> nat \<Rightarrow> string list \<Rightarrow> time_window
      \<Rightarrow> (query_error + time_value list) \<times> nat" where
  "fst_extract_with_context env q ofs src n targets win =
     (case visit_changes_until env q ofs src n targets win collecting [] of
        (r, rows, n') \<Rightarrow> (and_then r (\<lambda>_. Inr rows), n'))"

definition fst_extract ::
    "environment \<Rightarrow> opened_fst \<Rightarrow> fst_source \<Rightarrow> string list \<Rightarrow> time_window \<Rightarrow> fst_error + time_value list" where
  "fst_extract env ofs src targets win =
     map_err query_to_fst (fst (fst_extract_with_context env unlimited ofs src 0 targets win))"

subsection \<open>What a visit should deliver\<close>

text \<open>
  The targets that name a handle, in the order of the request; values of a handle are read with
  the type of the last of them.
\<close>

definition handle_names :: "opened_fst \<Rightarrow> string list \<Rightarrow> nat \<Rightarrow> string list" where
  "handle_names ofs targets h =
     filter (\<lambda>n. map_option fs_handle (opened_fst_signal ofs n) = Some h) targets"

definition handle_type :: "opened_fst \<Rightarrow> string list \<Rightarrow> nat \<Rightarrow> fst_signal_type option" where
  "handle_type ofs targets h =
     (case handle_names ofs targets h of [] \<Rightarrow> None
      | ns \<Rightarrow> map_option fs_type (opened_fst_signal ofs (last ns)))"

definition read_as ::
    "opened_fst \<Rightarrow> string list \<Rightarrow> nat \<Rightarrow> fst_signal_value \<Rightarrow> fst_error + change_value" where
  "read_as ofs targets h v =
     fst_value v (case handle_type ofs targets h of Some tpe \<Rightarrow> tpe | None \<Rightarrow> Digital)"

definition between :: "u64 \<Rightarrow> u64 \<Rightarrow> u64 \<Rightarrow> bool" where
  "between start stop t \<longleftrightarrow> start \<le> t \<and> t \<le> stop"

definition change_rows ::
    "opened_fst \<Rightarrow> string list \<Rightarrow> u64 \<Rightarrow> u64 \<Rightarrow> u64 \<times> nat \<times> fst_signal_value \<Rightarrow> time_value list" where
  "change_rows ofs targets start stop change =
     (case change of (t, h, v) \<Rightarrow>
        if between start stop t
        then (case read_as ofs targets h v of
                Inr c \<Rightarrow> map (row_at t c) (handle_names ofs targets h)
              | Inl _ \<Rightarrow> [])
        else [])"

definition fst_rows :: "opened_fst \<Rightarrow> fst_reader \<Rightarrow> string list \<Rightarrow> time_window \<Rightarrow> time_value list" where
  "fst_rows ofs reader targets win =
     (if empty_window win then []
      else (let flt = visit_filter ofs win
              (case fst_resolve ofs targets empty_selection of Inr sel \<Rightarrow> sl_handles sel | Inl _ \<Rightarrow> []) in
            concat (map (change_rows ofs targets (ft_start flt) (the (ft_end flt))) (fr_changes reader flt))))"

text \<open>Why a visit may fail, apart from its visitor.\<close>

definition over_limit :: "query_limits \<Rightarrow> query_error \<Rightarrow> bool" where
  "over_limit q e \<longleftrightarrow>
     (\<exists>l a. l < a \<and> (max_rows q = Some l \<and> e = LimitExceeded Rows l a \<or>
        max_result_bytes q = Some l \<and> e = LimitExceeded ResultBytes l a \<or>
        max_commands q = Some l \<and> e = LimitExceeded Commands l a))"

definition fst_failure :: "environment \<Rightarrow> query_limits \<Rightarrow> query_error \<Rightarrow> bool" where
  "fst_failure env q e \<longleftrightarrow>
     (\<exists>n. check env q n = Inl e) \<or> over_limit q e \<or>
     (\<exists>l. max_signals q = Some l \<and> (\<exists>k. l < k \<and> e = LimitExceeded Signals (u64_of_usize l) (u64_of_usize k))) \<or>
     (\<exists>x. e = fst_to_query x) \<or> (\<exists>m. e = Query.Fst m)"

definition selects_for :: "opened_fst \<Rightarrow> string list \<Rightarrow> fst_selection \<Rightarrow> bool" where
  "selects_for ofs targets sel \<longleftrightarrow>
     (\<forall>n \<in> set targets. opened_fst_signal ofs n \<noteq> None) \<and>
     (\<forall>h. sl_names sel h = (if handle_names ofs targets h = [] then None else Some (handle_names ofs targets h))) \<and>
     (\<forall>h. sl_types sel h = handle_type ofs targets h) \<and>
     distinct (sl_handles sel) \<and> set (sl_handles sel) = {h. handle_names ofs targets h \<noteq> []}"

lemma handle_names_snoc:
  "handle_names ofs (ts @ [t]) h =
     handle_names ofs ts h @ (if map_option fs_handle (opened_fst_signal ofs t) = Some h then [t] else [])"
  by (simp add: handle_names_def)

lemma handle_type_snoc:
  "handle_type ofs (ts @ [t]) h =
     (if map_option fs_handle (opened_fst_signal ofs t) = Some h then map_option fs_type (opened_fst_signal ofs t)
      else handle_type ofs ts h)"
  by (auto simp: handle_type_def handle_names_snoc split: list.splits)

lemma fst_resolve_selects:
  assumes "fst_resolve ofs targets sel = Inr sel'" and "selects_for ofs prev sel"
  shows "selects_for ofs (prev @ targets) sel'"
  using assms
proof (induction targets arbitrary: prev sel)
  case (Cons t ts)
  obtain sg where sg: "opened_fst_signal ofs t = Some sg" using Cons.prems(1) by (auto simp: result_iff)
  let ?h = "fs_handle sg"
  let ?sel = "\<lparr>sl_handles = (if ?h \<in> set (sl_handles sel) then sl_handles sel else sl_handles sel @ [?h]),
    sl_names = (sl_names sel)(?h \<mapsto> (case sl_names sel ?h of Some ns \<Rightarrow> ns | None \<Rightarrow> []) @ [t]),
    sl_types = (sl_types sel)(?h \<mapsto> fs_type sg)\<rparr>"
  have "fst_resolve ofs ts ?sel = Inr sel'" using Cons.prems(1) sg by (simp add: Let_def)
  moreover have "selects_for ofs (prev @ [t]) ?sel"
    using Cons.prems(2) sg by (auto simp: selects_for_def handle_names_snoc handle_type_snoc)
  ultimately have "selects_for ofs ((prev @ [t]) @ ts) sel'" by (rule Cons.IH)
  then show ?case by simp
qed simp

lemma fst_resolve_empty:
  assumes "fst_resolve ofs targets empty_selection = Inr sel"
  shows "selects_for ofs targets sel"
proof -
  have "selects_for ofs [] empty_selection"
    by (simp add: selects_for_def empty_selection_def handle_names_def handle_type_def)
  from fst_resolve_selects [OF assms this] show ?thesis by simp
qed

subsection \<open>One callback\<close>

definition charged :: "query_limits \<Rightarrow> 'b visit_state \<Rightarrow> time_value list \<Rightarrow> 'b visit_state \<Rightarrow> bool" where
  "charged q st rows st' \<longleftrightarrow>
     vt_rows st' = count_rows (vt_rows st) rows \<and> vt_bytes st' = charge_rows (vt_bytes st) rows \<and>
     (rows \<noteq> [] \<longrightarrow> within (max_rows q) (vt_rows st') \<and> within (max_result_bytes q) (vt_bytes st'))"

text \<open>The visitor saw exactly \<open>rows\<close>.\<close>

fun visited ::
    "environment \<Rightarrow> query_limits \<Rightarrow> 'b visitor \<Rightarrow> 'b visit_state \<Rightarrow> time_value list \<Rightarrow> 'b visit_flow \<Rightarrow> bool" where
  "visited env q body st rows (Continue st') \<longleftrightarrow>
     fold_flow body (vt_acc st) rows = Continue (vt_acc st') \<and> charged q st rows st'"
| "visited env q body st rows (Break st') \<longleftrightarrow>
     fold_flow body (vt_acc st) rows = Break (vt_acc st') \<and> charged q st rows st'"
| "visited env q body st rows (Fail (e, st')) \<longleftrightarrow>
     (fold_flow body (vt_acc st) rows = Continue (vt_acc st') \<and> fst_failure env q e \<or>
      fold_flow body (vt_acc st) rows = Fail e) \<and> charged q st rows st'"

lemma charged_nil [simp]: "charged q st [] st' \<longleftrightarrow> vt_rows st' = vt_rows st \<and> vt_bytes st' = vt_bytes st"
  by (simp add: charged_def count_rows_def charge_rows_def)

lemma charged_append: "charged q st xs st' \<Longrightarrow> charged q st' ys st'' \<Longrightarrow> charged q st (xs @ ys) st''"
  by (cases ys) (auto simp: charged_def count_rows_def charge_rows_def)

lemma charged_same:
  "vt_rows st = vt_rows st0 \<Longrightarrow> vt_bytes st = vt_bytes st0 \<Longrightarrow> charged q st0 rows st' \<longleftrightarrow> charged q st rows st'"
  by (simp add: charged_def)

lemma visited_append:
  assumes "visited env q body st xs (Continue st')" and "visited env q body st' ys r"
  shows "visited env q body st (xs @ ys) r"
proof (cases "(env, q, body, st', ys, r)" rule: visited.cases)
qed (use assms in \<open>auto simp: fold_flow_append intro: charged_append\<close>)

lemma deliver_names_result:
  "\<exists>rows. prefix rows (map (row_at t v) names) \<and>
     visited env q body st rows (deliver_names q body t v names st) \<and>
     ((\<exists>st'. deliver_names q body t v names st = Continue st') \<longrightarrow>
        rows = map (row_at t v) names)"
proof (induction names arbitrary: st)
  case Nil
  show ?case by (simp add: charged_def count_rows_def charge_rows_def)
next
  case (Cons name names)
  let ?row = "row_at t v name"
  let ?n = "saturating_add (vt_rows st) 1" and ?b = "saturating_add (vt_bytes st) (logical_event_bytes name v)"
  let ?st = "st\<lparr>vt_bytes := ?b, vt_rows := ?n\<rparr>"
  consider (rows) "over (max_rows q) ?n" | (bytes) "\<not> over (max_rows q) ?n" "over (max_result_bytes q) ?b"
    | (go) "\<not> over (max_rows q) ?n" "\<not> over (max_result_bytes q) ?b" by blast
  then show ?case
  proof cases
    case rows
    then have "visited env q body st [] (deliver_names q body t v (name # names) st)"
      by (auto simp: charged_def count_rows_def charge_rows_def fst_failure_def over_limit_def over_def
          split: option.splits)
    with rows show ?thesis by (intro exI [of _ "[]"]) simp
  next
    case bytes
    then have "visited env q body st [] (deliver_names q body t v (name # names) st)"
      by (auto simp: charged_def count_rows_def charge_rows_def fst_failure_def over_limit_def over_def
          split: option.splits)
    with bytes show ?thesis by (intro exI [of _ "[]"]) simp
  next
    case go
    have one: "charged q st [?row] (?st\<lparr>vt_acc := a\<rparr>)" for a
      using go by (simp add: charged_def count_rows_def charge_rows_def row_bytes_def over_within)
    have one': "charged q st [?row] ?st"
      using go by (simp add: charged_def count_rows_def charge_rows_def row_bytes_def over_within)
    show ?thesis
    proof (cases "body (vt_acc st) ?row")
      case (Fail e)
      with go one' show ?thesis by (intro exI [of _ "[?row]"]) simp
    next
      case (Break a)
      with go one show ?thesis by (intro exI [of _ "[?row]"]) simp
    next
      case (Continue a)
      then have c: "visited env q body st [?row] (Continue (?st\<lparr>vt_acc := a\<rparr>))" using one by simp
      obtain rows where r: "prefix rows (map (row_at t v) names)"
        "visited env q body (?st\<lparr>vt_acc := a\<rparr>) rows (deliver_names q body t v names (?st\<lparr>vt_acc := a\<rparr>))"
        "(\<exists>st'. deliver_names q body t v names (?st\<lparr>vt_acc := a\<rparr>) = Continue st') \<longrightarrow>
           rows = map (row_at t v) names"
        using Cons.IH by blast
      from visited_append [OF c r(2)] r(1,3) go Continue show ?thesis
        by (intro exI [of _ "?row # rows"]) auto
    qed
  qed
qed

lemma fst_failure_intros:
  "check env q n = Inl e \<Longrightarrow> fst_failure env q e"
  "over_limit q e \<Longrightarrow> fst_failure env q e"
  "fst_failure env q (fst_to_query x)"
  "fst_failure env q (Query.Fst m)"
  by (auto simp: fst_failure_def)

lemma no_rows_failure:
  "fst_failure env q e \<Longrightarrow> vt_rows st' = vt_rows st \<Longrightarrow> vt_bytes st' = vt_bytes st \<Longrightarrow>
     vt_acc st' = vt_acc st \<Longrightarrow> visited env q body st [] (Fail (e, st'))"
  by (simp add: charged_def count_rows_def charge_rows_def)

lemma no_rows_continue:
  "vt_rows st' = vt_rows st \<Longrightarrow> vt_bytes st' = vt_bytes st \<Longrightarrow> vt_acc st' = vt_acc st \<Longrightarrow>
     visited env q body st [] (Continue st')"
  by (simp add: charged_def count_rows_def charge_rows_def)

lemma visited_start:
  "visited env q body st0 rows r \<Longrightarrow> vt_rows st0 = vt_rows st \<Longrightarrow> vt_bytes st0 = vt_bytes st \<Longrightarrow>
     vt_acc st0 = vt_acc st \<Longrightarrow> visited env q body st rows r"
  by (cases "(env, q, body, st0, rows, r)" rule: visited.cases) (auto simp: charged_def)

lemma fst_callback_result:
  assumes "selects_for ofs targets sel"
  shows "\<exists>rows. prefix rows (change_rows ofs targets start stop change) \<and>
    visited env q body st rows (fst_callback env q start stop sel body st change) \<and>
    ((\<exists>st'. fst_callback env q start stop sel body st change = Continue st') \<longrightarrow>
       rows = change_rows ofs targets start stop change)"
proof -
  obtain t h val where c: "change = (t, h, val)" by (cases change)
  let ?st = "st\<lparr>vt_work := saturating_add (vt_work st) 1, vt_tick := vt_tick st + 1\<rparr>"
  have names: "sl_names sel h = (if handle_names ofs targets h = [] then None else Some (handle_names ofs targets h))"
    and types: "sl_types sel h = handle_type ofs targets h"
    using assms by (auto simp: selects_for_def)
  show ?thesis
  proof (cases "check env q (vt_tick st)")
    case (Inl e)
    then show ?thesis using c
      by (intro exI [of _ "[]"]) (simp add: fst_callback_def Let_def no_rows_failure fst_failure_intros(1))
  next
    case checked: (Inr u)
    show ?thesis
    proof (cases "over (max_commands q) (saturating_add (vt_work st) 1)")
      case True
      then have "over_limit q (LimitExceeded Commands (the (max_commands q)) (saturating_add (vt_work st) 1))"
        by (auto simp: over_limit_def over_def split: option.splits)
      with True checked c show ?thesis
        by (intro exI [of _ "[]"]) (simp add: fst_callback_def Let_def no_rows_failure fst_failure_intros(2))
    next
      case budget: False
      show ?thesis
      proof (cases "start \<le> t \<and> t \<le> stop \<and> handle_names ofs targets h \<noteq> []")
        case False
        then have "change_rows ofs targets start stop change = []"
          using c by (auto simp: change_rows_def between_def split: sum.splits)
        moreover have "fst_callback env q start stop sel body st change = Continue ?st"
          using False c checked budget names by (auto simp: fst_callback_def Let_def)
        ultimately show ?thesis using no_rows_continue [of ?st st env q body] by auto
      next
        case True
        let ?tpe = "case handle_type ofs targets h of Some tpe \<Rightarrow> tpe | None \<Rightarrow> Digital"
        show ?thesis
        proof (cases "fst_value val ?tpe")
          case (Inl e)
          with True c checked budget names types show ?thesis
            by (intro exI [of _ "[]"])
               (auto simp: fst_callback_def Let_def intro!: no_rows_failure fst_failure_intros(3) simp del: visited.simps)
        next
          case (Inr v)
          have cb: "fst_callback env q start stop sel body st change =
              deliver_names q body t v (handle_names ofs targets h) ?st"
            using True c checked budget names types Inr by (auto simp: fst_callback_def Let_def)
          have cr: "change_rows ofs targets start stop change =
              map (row_at t v) (handle_names ofs targets h)"
            using True c Inr by (simp add: change_rows_def between_def read_as_def)
          obtain rows where "prefix rows (change_rows ofs targets start stop change)"
            "visited env q body ?st rows (fst_callback env q start stop sel body st change)"
            "(\<exists>st'. fst_callback env q start stop sel body st change = Continue st') \<longrightarrow>
               rows = change_rows ofs targets start stop change"
            using deliver_names_result [of t v "handle_names ofs targets h" env q body ?st] cb cr by auto
          then show ?thesis using visited_start [of env q body ?st rows _ st] by auto
        qed
      qed
    qed
  qed
qed

lemma fst_changes_result:
  assumes "selects_for ofs targets sel"
  shows "\<exists>rows. prefix rows (concat (map (change_rows ofs targets start stop) changes)) \<and>
    visited env q body st rows (fold_flow (fst_callback env q start stop sel body) st changes) \<and>
    ((\<exists>st'. fold_flow (fst_callback env q start stop sel body) st changes = Continue st') \<longrightarrow>
       rows = concat (map (change_rows ofs targets start stop) changes))"
proof (induction changes arbitrary: st)
  case Nil
  show ?case using no_rows_continue [of st st] by simp
next
  case (Cons change changes)
  let ?cb = "fst_callback env q start stop sel body"
  obtain xs where xs: "prefix xs (change_rows ofs targets start stop change)"
    "visited env q body st xs (?cb st change)"
    "(\<exists>st'. ?cb st change = Continue st') \<longrightarrow> xs = change_rows ofs targets start stop change"
    using fst_callback_result [OF assms] by blast
  show ?case
  proof (cases "?cb st change")
    case (Continue st')
    obtain ys where ys: "prefix ys (concat (map (change_rows ofs targets start stop) changes))"
      "visited env q body st' ys (fold_flow ?cb st' changes)"
      "(\<exists>st''. fold_flow ?cb st' changes = Continue st'') \<longrightarrow>
         ys = concat (map (change_rows ofs targets start stop) changes)"
      using Cons.IH by blast
    have "visited env q body st (xs @ ys) (fold_flow ?cb st' changes)"
      using visited_append xs(2) ys(2) Continue by metis
    with xs(3) ys(1,3) Continue show ?thesis by (intro exI [of _ "xs @ ys"]) auto
  qed (use xs in \<open>auto simp: prefix_append\<close>)
qed

subsection \<open>The whole visit\<close>

lemma revalidate_failure:
  "map_err fst_to_query (fst_revalidate env ofs n) = Inl e \<Longrightarrow> fst_failure env q e"
  by (cases "fst_revalidate env ofs n") (auto simp: fst_failure_def)

lemma finish_visit_failure: "finish_visit env q ofs n = Inl e \<Longrightarrow> fst_failure env q e"
  by (auto simp: finish_visit_def and_then_eq_Inl fst_failure_intros(1) revalidate_failure)

lemma reopen_failure: "reopen src = Inl e \<Longrightarrow> fst_failure env q e"
proof (cases "so_file src")
  case (Inl io)
  assume "reopen src = Inl e"
  with Inl have "e = fst_to_query (FeIo [] io)" by (simp add: reopen_def)
  then show ?thesis by (simp only: fst_failure_intros)
qed (auto simp: reopen_def fst_failure_def split: caught.splits)

lemma reopen_reader: "reopen src = Inr reader \<Longrightarrow> reader = so_reader src"
  by (auto simp: reopen_def and_then_eq_Inr split: caught.splits)

lemma fst_resolve_failure: "fst_resolve ofs targets sel = Inl e \<Longrightarrow> fst_failure env q e"
proof (induction targets arbitrary: sel)
  case (Cons t ts)
  show ?case
  proof (cases "opened_fst_signal ofs t")
    case None
    with Cons.prems have "e = fst_to_query (FeMissingSignal t)" by simp
    then show ?thesis by (simp only: fst_failure_intros)
  next
    case (Some sg)
    from Cons.prems [unfolded fst_resolve.simps Some ok_or_simps and_then_simps Let_def]
    show ?thesis by (rule Cons.IH)
  qed
qed simp

lemma signal_count_failure: "check_signal_count env q n k = Inl e \<Longrightarrow> fst_failure env q e"
  by (auto simp: check_signal_count_def and_then_eq_Inl fst_failure_def split: option.splits if_splits)

text \<open>What a visitor saw of the rows, and how the visit ended.\<close>

definition visit_outcome ::
    "environment \<Rightarrow> query_limits \<Rightarrow> 'b visitor \<Rightarrow> 'b \<Rightarrow> time_value list \<Rightarrow> query_error + unit \<Rightarrow> 'b \<Rightarrow> bool \<Rightarrow> bool" where
  "visit_outcome env q body acc rows r acc' complete \<longleftrightarrow>
     (rows \<noteq> [] \<longrightarrow> within (max_rows q) (count_rows 0 rows) \<and> within (max_result_bytes q) (charge_rows 0 rows)) \<and>
     (case fold_flow body acc rows of
        Continue a \<Rightarrow> acc' = a \<and> (r = Inr () \<longrightarrow> complete) \<and> (\<forall>e. r = Inl e \<longrightarrow> fst_failure env q e)
      | Break a \<Rightarrow> acc' = a \<and> (\<forall>e. r = Inl e \<longrightarrow> fst_failure env q e)
      | Fail e \<Rightarrow> r = Inl e)"

lemma visit_outcome_empty:
  "(r = Inr () \<longrightarrow> complete) \<Longrightarrow> (\<And>e. r = Inl e \<Longrightarrow> fst_failure env q e) \<Longrightarrow>
     visit_outcome env q body acc [] r acc complete"
  by (simp add: visit_outcome_def)

lemma read_signals_result:
  assumes sel: "selects_for ofs targets sel" and "\<not> empty_window win"
    and res: "fst_resolve ofs targets empty_selection = Inr sel"
    and run: "read_signals env q ofs reader n sel win body acc = (r, acc', n')"
  shows "\<exists>rows. prefix rows (fst_rows ofs reader targets win) \<and>
    visit_outcome env q body acc rows r acc' (rows = fst_rows ofs reader targets win)"
proof -
  let ?flt = "visit_filter ofs win (sl_handles sel)"
  let ?st = "\<lparr>vt_work = 0, vt_rows = 0, vt_bytes = 0, vt_tick = n, vt_acc = acc\<rparr>"
  let ?fold = "fold_flow (fst_callback env q (ft_start ?flt) (the (ft_end ?flt)) sel body) ?st (fr_changes reader ?flt)"
  have all: "fst_rows ofs reader targets win =
      concat (map (change_rows ofs targets (ft_start ?flt) (the (ft_end ?flt))) (fr_changes reader ?flt))"
    using assms(2) res by (simp add: fst_rows_def Let_def)
  obtain rows where rows: "prefix rows (fst_rows ofs reader targets win)"
    "visited env q body ?st rows ?fold"
    "(\<exists>st'. ?fold = Continue st') \<longrightarrow> rows = fst_rows ofs reader targets win"
    using fst_changes_result [OF sel, of "ft_start ?flt" "the (ft_end ?flt)" "fr_changes reader ?flt" env q body ?st] all
    by auto
  have "visit_outcome env q body acc rows r acc' (rows = fst_rows ofs reader targets win)"
  proof (cases ?fold)
    case (Fail x)
    with rows(2) run show ?thesis
      by (cases x) (auto simp: read_signals_def visit_outcome_def charged_def split: flow.splits)
  next
    case (Break st')
    with rows(2) run show ?thesis
      by (auto simp: read_signals_def visit_outcome_def charged_def finish_visit_failure)
  next
    case (Continue st')
    then have "rows = fst_rows ofs reader targets win" using rows(3) by blast
    with Continue rows(2) run show ?thesis
      by (auto simp: read_signals_def visit_outcome_def charged_def finish_visit_failure fst_failure_intros(4)
          split: caught.splits)
  qed
  with rows(1) show ?thesis by blast
qed

lemma visit_result:
  assumes "visit_changes_until env q ofs src n targets win body acc = (r, acc', n')"
  shows "\<exists>rows. prefix rows (fst_rows ofs (so_reader src) targets win) \<and>
    visit_outcome env q body acc rows r acc' (rows = fst_rows ofs (so_reader src) targets win)"
proof (cases "check_signal_count env q n (length targets)")
  case (Inl e)
  with assms show ?thesis
    by (intro exI [of _ "[]"]) (auto simp: visit_changes_until_def intro!: visit_outcome_empty signal_count_failure)
next
  case counted: (Inr u)
  show ?thesis
  proof (cases "empty_window win")
    case True
    with counted assms show ?thesis
      by (intro exI [of _ "[]"]) (auto simp: visit_changes_until_def fst_rows_def intro!: visit_outcome_empty)
  next
    case window: False
    let ?prep = "and_then (fst_resolve ofs targets empty_selection) (\<lambda>sel. and_then (check env q (n + 1)) (\<lambda>_.
      and_then (map_err fst_to_query (fst_revalidate env ofs (n + 2))) (\<lambda>_.
      and_then (reopen src) (\<lambda>reader. Inr (sel, reader)))))"
    show ?thesis
    proof (cases ?prep)
      case (Inl e)
      then have "fst_failure env q e"
        by (auto simp: and_then_eq_Inl intro: fst_resolve_failure fst_failure_intros(1) revalidate_failure reopen_failure)
      with Inl counted window assms show ?thesis
        by (intro exI [of _ "[]"]) (auto simp: visit_changes_until_def intro!: visit_outcome_empty)
    next
      case (Inr p)
      then obtain sel where sel: "fst_resolve ofs targets empty_selection = Inr sel" "p = (sel, so_reader src)"
        by (auto simp: and_then_eq_Inr dest: reopen_reader)
      with Inr counted window assms
      have "read_signals env q ofs (so_reader src) (n + 3) sel win body acc = (r, acc', n')"
        by (simp add: visit_changes_until_def)
      from read_signals_result [OF fst_resolve_empty [OF sel(1)] window sel(1) this] show ?thesis .
    qed
  qed
qed

subsection \<open>The signal table\<close>

definition fst_table :: "opened_fst \<Rightarrow> bool" where
  "fst_table ofs \<longleftrightarrow> distinct (fst_signal_names ofs) \<and> of_by_name ofs = index_by_name (of_signals ofs)"

lemma index_by_name_iff:
  assumes "distinct (map fs_name signals)"
  shows "index_by_name signals n = Some i \<longleftrightarrow> i < length signals \<and> fs_name (signals ! i) = n"
proof -
  have d: "distinct (map fst (rev (zip (map fs_name signals) [0..<length signals])))"
    using assms by (simp add: rev_map [symmetric])
  have "index_by_name signals n = Some i \<longleftrightarrow> (n, i) \<in> set (zip (map fs_name signals) [0..<length signals])"
    unfolding index_by_name_def using map_of_eq_Some_iff [OF d] by simp
  also have "\<dots> \<longleftrightarrow> i < length signals \<and> fs_name (signals ! i) = n"
    by (auto simp: set_zip intro!: exI [of _ i])
  finally show ?thesis .
qed

interpretation fst_names: signal_names fst_signal_names of_by_name "\<lambda>i. i" fst_table
proof
  fix ofs n k
  assume t: "fst_table ofs"
  then have d: "distinct (map fs_name (of_signals ofs))" by (simp add: fst_table_def fst_signal_names_def)
  have idx: "of_by_name ofs n = Some i \<longleftrightarrow> i < length (of_signals ofs) \<and> fs_name (of_signals ofs ! i) = n" for i
    using t index_by_name_iff [OF d] by (simp add: fst_table_def)
  show "distinct (fst_signal_names ofs)" using t by (simp add: fst_table_def)
  show "k < length (fst_signal_names ofs) \<and> fst_signal_names ofs ! k = n" if "of_by_name ofs n = Some k"
    using that idx [of k] by (simp add: fst_signal_names_def)
  show "n \<notin> set (fst_signal_names ofs)" if "of_by_name ofs n = None"
  proof
    assume "n \<in> set (fst_signal_names ofs)"
    then obtain i where "i < length (of_signals ofs)" "fs_name (of_signals ofs ! i) = n"
      by (auto simp: fst_signal_names_def in_set_conv_nth)
    with idx [of i] that show False by simp
  qed
qed

lemma fst_signal_known:
  assumes "fst_table ofs"
  shows "opened_fst_signal ofs n \<noteq> None \<longleftrightarrow> n \<in> set (fst_signal_names ofs)"
  using fst_names.lookup_known [OF assms, of n] by (auto simp: opened_fst_signal_def)

lemma fst_signal_member:
  assumes "fst_table ofs" and "opened_fst_signal ofs n = Some sg"
  shows "sg \<in> set (of_signals ofs) \<and> fs_name sg = n"
  using assms fst_names.lookup_Some [OF assms(1), of n]
  by (auto simp: opened_fst_signal_def fst_signal_names_def)

lemma caught_unit: "(r :: unit caught) \<noteq> Panicked \<Longrightarrow> (\<forall>m. r \<noteq> Failed m) \<Longrightarrow> r = Returned ()"
  by (cases r) auto

lemma open_fst_ok:
  assumes "open_with_hierarchy_limit sys limit path = Inr ofs"
  shows "fst_table ofs \<and> of_signals ofs = scoped_signals [] (fr_entries (fy_reader sys (of_configured ofs))) \<and>
    length (of_signals ofs) \<le> max_declarations"
proof -
  obtain signals where s: "fst_catalog (fy_signal_bytes sys) (fy_reader sys (of_configured ofs)) = Inr signals"
      "of_signals ofs = signals" "of_by_name ofs = index_by_name signals"
    using assms
    by (auto simp: open_with_hierarchy_limit_def Let_def and_then_eq_Inr dest: caught_unit
        split: if_splits caught.splits)
  then obtain st where "hierarchy_loop (fy_signal_bytes sys) empty_hierarchy
      (fr_entries (fy_reader sys (of_configured ofs))) = Inr st" "signals = hs_signals st"
    by (auto simp: fst_catalog_def and_then_eq_Inr split: caught.splits)
  with hierarchy_loop_result [OF empty_hierarchy_ok, where sz = "fy_signal_bytes sys" and es = "fr_entries (fy_reader sys (of_configured ofs))"] s
  show ?thesis by (auto simp: hierarchy_ok_def fst_table_def fst_signal_names_def empty_hierarchy_def)
qed

subsection \<open>The FST provider\<close>

definition fst_collect ::
    "opened_fst \<times> fst_source \<Rightarrow> environment \<Rightarrow> query_limits \<Rightarrow> nat \<Rightarrow> string list \<Rightarrow> comparison_options
      \<Rightarrow> ((query_error + timelines) \<times> nat) option" where
  "fst_collect fs env q n signals opts =
     (case fst_extract_with_context env q (fst fs) (snd fs) n signals (co_window opts) of
        (Inl e, n') \<Rightarrow> Some (Inl e, n')
      | (Inr rows, n') \<Rightarrow>
          (case fold_flow timeline_body (empty_timelines signals) rows of
             Fail e \<Rightarrow> Some (Inl e, n')
           | Break tls \<Rightarrow> Some (Inr tls, n')
           | Continue tls \<Rightarrow> Some (Inr tls, n')))"

definition fst_validate_complete :: "opened_fst \<Rightarrow> environment \<Rightarrow> query_limits \<Rightarrow> nat \<Rightarrow> query_error + unit" where
  "fst_validate_complete ofs env q n =
     and_then (check env q n) (\<lambda>_.
     and_then (map_err fst_to_query (fst_revalidate env ofs (n + 1))) (\<lambda>_.
       check env q (n + 2)))"

definition fst_provider :: "opened_fst \<times> fst_source \<Rightarrow> provider" where
  "fst_provider fs =
     \<lparr>pv_names = fst_signal_names (fst fs), pv_display = of_display (fst fs),
      pv_collect = (\<lambda>env q n signals opts. fst_collect fs env q n signals opts),
      pv_validate = fst_validate_complete (fst fs)\<rparr>"

text \<open>
  What the comparison relies on of the reader: the changes of a handle do not depend on which other
  handles the filter includes; and of the file: aliases of one handle have one type (else the type
  of the last requested alias would decide how the values of all of them are read).
\<close>

definition on_handle :: "nat \<Rightarrow> u64 \<times> nat \<times> fst_signal_value \<Rightarrow> bool" where
  "on_handle h change \<longleftrightarrow> fst (snd change) = h"

definition reader_selects :: "fst_reader \<Rightarrow> bool" where
  "reader_selects reader \<longleftrightarrow> (\<forall>flt h. h \<in> set (ft_include flt) \<longrightarrow>
     filter (on_handle h) (fr_changes reader flt) = filter (on_handle h) (fr_changes reader (flt\<lparr>ft_include := [h]\<rparr>)))"

definition fst_typed :: "opened_fst \<Rightarrow> bool" where
  "fst_typed ofs \<longleftrightarrow> (\<forall>a \<in> set (of_signals ofs). \<forall>b \<in> set (of_signals ofs).
     fs_handle a = fs_handle b \<longrightarrow> fs_type a = fs_type b)"

definition fst_valid :: "opened_fst \<times> fst_source \<Rightarrow> bool" where
  "fst_valid fs \<longleftrightarrow> fst_table (fst fs) \<and> fst_typed (fst fs) \<and> reader_selects (so_reader (snd fs))"

definition fst_readable :: "opened_fst \<times> fst_source \<Rightarrow> time_window \<Rightarrow> bool" where
  "fst_readable fs win \<longleftrightarrow>
     (let reader = so_reader (snd fs) in
      so_file (snd fs) = Inr () \<and> fr_open reader = Returned () \<and>
      (\<forall>flt. fr_changes_end reader flt = Returned ()) \<and>
      (\<forall>flt. \<forall>(t, h, v) \<in> set (fr_changes reader flt). \<forall>tpe. \<exists>c. fst_value v tpe = Inr c))"

definition fst_truth :: "opened_fst \<times> fst_source \<Rightarrow> string \<Rightarrow> time_window \<Rightarrow> timeline" where
  "fst_truth fs name win =
     map (\<lambda>row. (tv_time row, tv_value row)) (fst_rows (fst fs) (so_reader (snd fs)) [name] win)"

lemma change_rows_cases:
  obtains "change_rows ofs targets start stop (time, h, v) = []"
  | c where "read_as ofs targets h v = Inr c"
      "change_rows ofs targets start stop (time, h, v) = map (row_at time c) (handle_names ofs targets h)"
  by (cases "between start stop time"; cases "read_as ofs targets h v") (simp_all add: change_rows_def)

lemma change_rows_names:
  assumes "row \<in> set (change_rows ofs targets start stop (time, h, v))"
  shows "tv_signal row \<in> set (handle_names ofs targets h)"
  by (rule change_rows_cases [of ofs targets start stop time h v]) (use assms in auto)

lemma change_rows_signal:
  assumes t: "fst_table ofs" and ty: "fst_typed ofs" and "distinct targets" and x: "x \<in> set targets"
  shows "filter (\<lambda>row. tv_signal row = x) (change_rows ofs targets start stop change) =
    change_rows ofs [x] start stop change"
proof -
  obtain time h v where c: "change = (time, h, v)" by (cases change)
  have names: "filter (\<lambda>n. n = x) (handle_names ofs targets h) = handle_names ofs [x] h"
  proof -
    have "filter (\<lambda>n. n = x) (handle_names ofs targets h) =
        filter (\<lambda>n. map_option fs_handle (opened_fst_signal ofs n) = Some h) (filter (\<lambda>n. n = x) targets)"
      by (simp add: handle_names_def conj_commute)
    then show ?thesis using filter_eq_distinct [OF assms(3) x] by (simp add: handle_names_def)
  qed
  show ?thesis
  proof (cases "handle_names ofs [x] h = []")
    case True
    then have "change_rows ofs [x] start stop change = []"
      using c by (auto simp: change_rows_def split: sum.splits)
    moreover have "filter (\<lambda>row. tv_signal row = x) (change_rows ofs targets start stop change) = []"
    proof -
      have "x \<notin> set (handle_names ofs targets h)"
        using names True by (auto simp: filter_empty_conv)
      then have "\<forall>row \<in> set (change_rows ofs targets start stop change). tv_signal row \<noteq> x"
        using c change_rows_names by fastforce
      then show ?thesis by (simp add: filter_empty_conv)
    qed
    ultimately show ?thesis by simp
  next
    case False
    then obtain sg where sg: "opened_fst_signal ofs x = Some sg" "fs_handle sg = h"
      by (auto simp: handle_names_def split: if_splits)
    then have "x \<in> set (handle_names ofs targets h)" using x by (simp add: handle_names_def)
    then have ne: "handle_names ofs targets h \<noteq> []" by auto
    then have "last (handle_names ofs targets h) \<in> set (handle_names ofs targets h)" by simp
    then obtain sg' where sg': "opened_fst_signal ofs (last (handle_names ofs targets h)) = Some sg'" "fs_handle sg' = h"
      by (auto simp: handle_names_def)
    have "fs_type sg' = fs_type sg"
      using fst_signal_member [OF t sg(1)] fst_signal_member [OF t sg'(1)] sg(2) sg'(2) ty
      by (simp add: fst_typed_def)
    then have "handle_type ofs targets h = handle_type ofs [x] h"
      using ne sg sg' by (auto simp: handle_type_def handle_names_def split: list.splits)
    then have "read_as ofs targets h v = read_as ofs [x] h v" by (simp add: read_as_def)
    then show ?thesis
      by (cases "between start stop time"; cases "read_as ofs [x] h v")
         (simp_all add: c change_rows_def filter_map comp_def names)
  qed
qed

lemma change_rows_other:
  "opened_fst_signal ofs x = Some sg \<Longrightarrow> \<not> on_handle (fs_handle sg) change \<Longrightarrow>
     change_rows ofs [x] start stop change = []"
  by (cases change) (auto simp: change_rows_def handle_names_def on_handle_def split: sum.splits)

lemma concat_only:
  "(\<And>c. c \<in> set cs \<Longrightarrow> \<not> P c \<Longrightarrow> f c = []) \<Longrightarrow> concat (map f (filter P cs)) = concat (map f cs)"
  by (induction cs) auto

text \<open>The rows of one signal do not depend on what else is requested.\<close>

lemma fst_rows_single:
  assumes v: "fst_valid (ofs, src)" and d: "distinct targets" and x: "x \<in> set targets"
    and known: "set targets \<subseteq> set (fst_signal_names ofs)"
  shows "filter (\<lambda>row. tv_signal row = x) (fst_rows ofs (so_reader src) targets win) =
    fst_rows ofs (so_reader src) [x] win"
proof (cases "empty_window win")
  case False
  have t: "fst_table ofs" and ty: "fst_typed ofs" and sel: "reader_selects (so_reader src)"
    using v by (simp_all add: fst_valid_def)
  have resolves: "\<exists>s'. fst_resolve ofs ts s = Inr s'" if "set ts \<subseteq> set targets" for ts s
    using that
  proof (induction ts arbitrary: s)
    case (Cons a as)
    then have "opened_fst_signal ofs a \<noteq> None" using known fst_signal_known [OF t] by auto
    with Cons show ?case by (auto simp: Let_def)
  qed simp
  obtain s where s: "fst_resolve ofs targets empty_selection = Inr s" using resolves by blast
  obtain s1 where s1: "fst_resolve ofs [x] empty_selection = Inr s1" using resolves [of "[x]"] x by auto
  obtain sg where sg: "opened_fst_signal ofs x = Some sg" using x known fst_signal_known [OF t, of x] by auto
  let ?h = "fs_handle sg" and ?r = "so_reader src"
  have h1: "sl_handles s1 = [?h]" using s1 sg by (auto simp: empty_selection_def Let_def)
  have "x \<in> set (handle_names ofs targets ?h)" using x sg by (simp add: handle_names_def)
  then have h: "?h \<in> set (sl_handles s)" using fst_resolve_empty [OF s] by (auto simp: selects_for_def)
  let ?flt = "visit_filter ofs win (sl_handles s)" and ?flt1 = "visit_filter ofs win [?h]"
  let ?f = "change_rows ofs [x] (ft_start ?flt) (the (ft_end ?flt))"
  have same: "ft_start ?flt1 = ft_start ?flt" "ft_end ?flt1 = ft_end ?flt" "?flt\<lparr>ft_include := [?h]\<rparr> = ?flt1"
    by (simp_all add: visit_filter_def)
  have "filter (\<lambda>row. tv_signal row = x) (fst_rows ofs ?r targets win) = concat (map ?f (fr_changes ?r ?flt))"
    using False s by (simp add: fst_rows_def Let_def filter_concat comp_def change_rows_signal [OF t ty d x])
  also have "\<dots> = concat (map ?f (filter (on_handle ?h) (fr_changes ?r ?flt)))"
    using change_rows_other [OF sg] by (simp add: concat_only)
  also have "filter (on_handle ?h) (fr_changes ?r ?flt) = filter (on_handle ?h) (fr_changes ?r ?flt1)"
  proof -
    have "?h \<in> set (ft_include ?flt)" using h by (simp add: visit_filter_def)
    with sel show ?thesis unfolding reader_selects_def same(3) [symmetric] by blast
  qed
  also have "concat (map ?f (filter (on_handle ?h) (fr_changes ?r ?flt1))) = concat (map ?f (fr_changes ?r ?flt1))"
    using change_rows_other [OF sg] by (simp add: concat_only)
  also have "\<dots> = fst_rows ofs ?r [x] win"
    using False s1 h1 same by (simp add: fst_rows_def Let_def)
  finally show ?thesis .
qed (simp add: fst_rows_def)

lemma fold_collecting: "fold_flow collecting acc rows = Continue (acc @ rows)"
  by (induction rows arbitrary: acc) (auto simp: collecting_def)

lemma fst_extract_right:
  assumes "fst_extract_with_context env q ofs src n targets win = (Inr rows, n')"
  shows "rows = fst_rows ofs (so_reader src) targets win"
proof -
  obtain r acc m where v: "visit_changes_until env q ofs src n targets win collecting [] = (r, acc, m)"
    by (metis prod_cases3)
  from visit_result [OF this] v assms show ?thesis
    by (auto simp: fst_extract_with_context_def visit_outcome_def fold_collecting and_then_eq_Inr)
qed

lemma fst_collect_right:
  assumes "fst_valid fs" and "distinct signals" and "set signals \<subseteq> set (fst_signal_names (fst fs))"
    and "fst_collect fs env q n signals opts = Some (Inr tls, n')"
  shows "tls = (\<lambda>x. if x \<in> set signals then Some (fst_truth fs x (co_window opts)) else None)"
proof -
  obtain r m where x: "fst_extract_with_context env q (fst fs) (snd fs) n signals (co_window opts) = (r, m)"
    by (cases "fst_extract_with_context env q (fst fs) (snd fs) n signals (co_window opts)")
  with assms(4) obtain rows where r: "r = Inr rows"
    by (cases r) (auto simp: fst_collect_def)
  have rows: "rows = fst_rows (fst fs) (so_reader (snd fs)) signals (co_window opts)"
    using fst_extract_right x r by blast
  have "tls = (\<lambda>s. map_option (\<lambda>line. line @ map (\<lambda>row. (tv_time row, tv_value row))
      (filter (\<lambda>row. tv_signal row = s) rows)) (empty_timelines signals s))"
    using assms(4) x r by (simp add: fst_collect_def fold_timeline)
  then show ?thesis
    using fst_rows_single [of "fst fs" "snd fs" signals] assms(1-3)
    by (auto simp: rows empty_timelines_def fst_truth_def fun_eq_iff)
qed

text \<open>Undisturbed and without limits, a visit that collects a readable file succeeds.\<close>

lemma deliver_names_quiet:
  "free_limits q \<Longrightarrow> \<exists>st'. deliver_names q collecting t v names st = Continue st'"
  by (induction names arbitrary: st)
     (auto simp: free_limits_def over_def Let_def collecting_def)

lemma fst_callback_quiet:
  assumes "quiet env q" and free: "free_limits q" and "\<And>tpe. \<exists>c. fst_value v tpe = Inr c"
  shows "\<exists>st'. fst_callback env q start stop sel collecting st (t, h, v) = Continue st'"
proof -
  obtain c where "fst_value v (case sl_types sel h of Some tpe \<Rightarrow> tpe | None \<Rightarrow> Digital) = Inr c"
    using assms(3) by blast
  with assms(1,2) show ?thesis
    by (auto simp: fst_callback_def Let_def free_limits_def over_def
        intro: deliver_names_quiet [OF free] split: option.split)
qed

lemma fst_changes_quiet:
  assumes "quiet env q" and "free_limits q"
    and "\<forall>(t, h, v) \<in> set changes. \<forall>tpe. \<exists>c. fst_value v tpe = Inr c"
  shows "\<exists>st'. fold_flow (fst_callback env q start stop sel collecting) st changes = Continue st'"
  using assms(3)
proof (induction changes arbitrary: st)
  case (Cons change changes)
  obtain t h v where c: "change = (t, h, v)" by (cases change)
  with Cons.prems obtain st' where "fst_callback env q start stop sel collecting st change = Continue st'"
    using fst_callback_quiet [OF assms(1,2), of v start stop sel st t h] by auto
  with Cons show ?case by simp
qed simp

lemma fst_collect_quiet:
  assumes "quiet env q" and "free_limits q" and "fst_table (fst fs)" and "fst_readable fs (co_window opts)"
    and "set signals \<subseteq> set (fst_signal_names (fst fs))"
  shows "\<exists>tls n'. fst_collect fs env q n signals opts = Some (Inr tls, n')"
proof -
  let ?ofs = "fst fs" and ?src = "snd fs"
  have "\<exists>sel. fst_resolve ?ofs ts s = Inr sel" if "set ts \<subseteq> set signals" for ts s
    using that
  proof (induction ts arbitrary: s)
    case (Cons a as)
    then have "opened_fst_signal ?ofs a \<noteq> None" using assms(5) fst_signal_known [OF assms(3)] by auto
    with Cons show ?case by (auto simp: Let_def)
  qed simp
  then obtain sel where sel: "fst_resolve ?ofs signals empty_selection = Inr sel" by blast
  have reval: "fst_revalidate env ?ofs k = Inr ()" for k
    using assms(1) by (simp add: fst_revalidate_def)
  have r: "reopen ?src = Inr (so_reader ?src)"
    using assms(4) by (simp add: reopen_def fst_readable_def Let_def)
  have changes: "\<forall>(t, h, v) \<in> set (fr_changes (so_reader ?src) flt). \<forall>tpe. \<exists>c. fst_value v tpe = Inr c"
    and fin: "fr_changes_end (so_reader ?src) flt = Returned ()" for flt
    using assms(4) by (auto simp: fst_readable_def Let_def)
  have "\<exists>rows m. visit_changes_until env q ?ofs ?src n signals (co_window opts) collecting [] = (Inr (), rows, m)"
  proof (cases "empty_window (co_window opts)")
    case False
    let ?flt = "visit_filter ?ofs (co_window opts) (sl_handles sel)"
    obtain st' where "fold_flow (fst_callback env q (ft_start ?flt) (the (ft_end ?flt)) sel collecting)
        \<lparr>vt_work = 0, vt_rows = 0, vt_bytes = 0, vt_tick = n + 3, vt_acc = []\<rparr> (fr_changes (so_reader ?src) ?flt) = Continue st'"
      using fst_changes_quiet [OF assms(1,2) changes] by blast
    with False sel r reval fin assms(1,2) show ?thesis
      by (simp add: visit_changes_until_def read_signals_def finish_visit_def Let_def check_signal_count_def
          free_limits_def)
  qed (use assms(1,2) in \<open>simp add: visit_changes_until_def check_signal_count_def free_limits_def\<close>)
  then obtain rows m where "fst_extract_with_context env q ?ofs ?src n signals (co_window opts) = (Inr rows, m)"
    by (auto simp: fst_extract_with_context_def)
  then show ?thesis by (simp add: fst_collect_def fold_timeline)
qed

lemma fst_collect_returns: "\<exists>r n'. fst_collect fs env q n signals opts = Some (r, n')"
  by (cases "fst_extract_with_context env q (fst fs) (snd fs) n signals (co_window opts)";
      cases "fst (fst_extract_with_context env q (fst fs) (snd fs) n signals (co_window opts))")
     (auto simp: fst_collect_def fold_timeline)

interpretation fst_file: timeline_source fst_provider fst_valid fst_truth fst_readable
proof
  fix fs :: "opened_fst \<times> fst_source" and env q n signals opts tls n'
  assume v: "fst_valid fs"
  show "distinct (pv_names (fst_provider fs))"
    using v by (simp add: fst_provider_def fst_valid_def fst_table_def)
  show "\<exists>r n'. pv_collect (fst_provider fs) env q n signals opts = Some (r, n')"
    using fst_collect_returns by (simp add: fst_provider_def)
  show "tls = (\<lambda>x. if x \<in> set signals then Some (fst_truth fs x (co_window opts)) else None)"
    if "distinct signals" "set signals \<subseteq> set (pv_names (fst_provider fs))"
      "pv_collect (fst_provider fs) env q n signals opts = Some (Inr tls, n')"
    using fst_collect_right [OF v that(1)] that(2,3) by (simp add: fst_provider_def)
  show "\<exists>tls n'. pv_collect (fst_provider fs) env q n signals opts = Some (Inr tls, n')"
    if "quiet env q" "free_limits q" "fst_readable fs (co_window opts)"
      "set signals \<subseteq> set (pv_names (fst_provider fs))"
    using fst_collect_quiet [OF that(1,2)] v that(3,4) by (simp add: fst_provider_def fst_valid_def)
  show "pv_validate (fst_provider fs) env q n = Inr ()" if "quiet env q"
    using that by (simp add: fst_provider_def fst_validate_complete_def fst_revalidate_def)
qed

lemma fst_signal_find:
  assumes "fst_table ofs"
  shows "opened_fst_signal ofs n = List.find (\<lambda>sg. fs_name sg = n) (of_signals ofs)"
proof (cases "opened_fst_signal ofs n")
  case None
  then have "n \<notin> set (fst_signal_names ofs)" using fst_signal_known [OF assms, of n] by simp
  then have "List.find (\<lambda>sg. fs_name sg = n) (of_signals ofs) = None"
    by (auto simp: find_None_iff fst_signal_names_def)
  with None show ?thesis by simp
next
  case (Some sg)
  note mem = fst_signal_member [OF assms Some]
  have d: "distinct (map fs_name (of_signals ofs))"
    using assms by (simp add: fst_table_def fst_signal_names_def)
  have "List.find (\<lambda>sg. fs_name sg = n) (of_signals ofs) \<noteq> None"
    using mem by (auto simp: find_None_iff)
  then obtain sg' where f: "List.find (\<lambda>sg. fs_name sg = n) (of_signals ofs) = Some sg'" by auto
  then have "sg' \<in> set (of_signals ofs)" "fs_name sg' = n" by (auto simp: find_Some_iff)
  with mem d have "sg' = sg" by (metis distinct_map inj_onD)
  with Some f show ?thesis by simp
qed

lemma open_fst_file:
  assumes "open_with_hierarchy_limit sys limit path = Inr ofs"
  obtains fl len modified head where "fy_file sys (of_configured ofs) = Inr fl" "ff_metadata fl = Inr (len, modified)"
    "len \<le> unat max_fst_bytes" "read_exact (ff_read fl) path 0 1 = Inr head"
    "byte (hd head) \<noteq> fst_gzip_wrapper_block"
    "preflight_hierarchy (ff_read fl) path len limit = Inr ()"
  using assms
  by (auto simp: open_with_hierarchy_limit_def fst_io_def Let_def and_then_eq_Inr map_err_eq_Inr
      dest: caught_unit split: if_splits caught.splits)

subsection \<open>Properties\<close>

text \<open>
  C22. An FST file that opens is within the size limit, is no gzip wrapper and passed the preflight;
  its signals are exactly the variables its hierarchy declares, each under the path of its open
  scopes, at most a million of them, no name twice; and looking a name up finds that signal.
\<close>

theorem fst_open_result:
  assumes "open_with_hierarchy_limit sys limit path = Inr ofs"
  shows "of_signals ofs = scoped_signals [] (fr_entries (fy_reader sys (of_configured ofs))) \<and>
    length (of_signals ofs) \<le> max_declarations \<and> distinct (fst_signal_names ofs) \<and>
    (\<forall>n. opened_fst_signal ofs n = List.find (\<lambda>sg. fs_name sg = n) (of_signals ofs)) \<and>
    (\<exists>fl len modified head. fy_file sys (of_configured ofs) = Inr fl \<and> ff_metadata fl = Inr (len, modified) \<and>
      len \<le> unat max_fst_bytes \<and> read_exact (ff_read fl) path 0 1 = Inr head \<and>
      byte (hd head) \<noteq> fst_gzip_wrapper_block \<and> preflight_hierarchy (ff_read fl) path len limit = Inr ())"
proof -
  note ok = open_fst_ok [OF assms]
  obtain fl len modified head where f: "fy_file sys (of_configured ofs) = Inr fl" "ff_metadata fl = Inr (len, modified)"
      "len \<le> unat max_fst_bytes" "read_exact (ff_read fl) path 0 1 = Inr head"
      "byte (hd head) \<noteq> fst_gzip_wrapper_block" "preflight_hierarchy (ff_read fl) path len limit = Inr ()"
    using open_fst_file [OF assms] .
  show ?thesis
    using ok fst_signal_find [of ofs] f by (auto simp: fst_table_def)
qed

text \<open>A small file: one hierarchy section, whose entries the reader reports as two aliases and a real.\<close>

definition sample_reader :: fst_reader where
  "sample_reader = \<lparr>fr_open = Returned (),
     fr_header = \<lparr>fh_start = 0, fh_end = 40, fh_exponent = - 9, fh_version = [], fh_date = []\<rparr>,
     fr_entries = [HScope ''top'' [], HVar (VtOther False) ''d'' 2 1 False, HVar (VtOther False) ''e'' 2 1 True,
       HUpScope, HVar (VtOther True) ''r'' 64 2 False],
     fr_hierarchy_end = Returned (),
     fr_changes = (\<lambda>flt. filter (\<lambda>(t, h, v). h \<in> set (ft_include flt))
       [(0, 1, FvString ''01''), (5, 2, FvReal 7), (20, 1, FvString ''1x'')]),
     fr_changes_end = (\<lambda>_. Returned ())\<rparr>"

definition sample_system :: fst_system where
  "sample_system = \<lparr>fy_configured = (\<lambda>path. Inr path),
     fy_file = (\<lambda>_. Inr \<lparr>ff_metadata = Inr (17, None), ff_read = bytes_read sample_fst_bytes\<rparr>),
     fy_blake3 = (\<lambda>bytes. bytes), fy_signal_bytes = 64, fy_reader = (\<lambda>_. sample_reader), fy_generation = 1\<rparr>"

definition sample_fst :: opened_fst where
  "sample_fst = (case open_fst sample_system ''a.fst'' of Inr ofs \<Rightarrow> ofs | Inl _ \<Rightarrow> undefined)"

lemma sample_hierarchy:
  "fst_catalog 64 sample_reader = Inr
     [\<lparr>fs_name = ''top.d'', fs_handle = 1, fs_width = 2, fs_type = Digital, fs_alias = False\<rparr>,
      \<lparr>fs_name = ''top.e'', fs_handle = 1, fs_width = 2, fs_type = Digital, fs_alias = True\<rparr>,
      \<lparr>fs_name = ''r'', fs_handle = 2, fs_width = 64, fs_type = RealSignal, fs_alias = False\<rparr>]"
  by (simp add: fst_catalog_def sample_reader_def empty_hierarchy_def declare_var_def ensure_resource_def
      charge_resource_def usize_cap_def Let_def signal_type_def max_hierarchy_depth_def max_name_bytes_def
      max_declarations_def max_catalog_bytes_def u64_max_def)

lemma sample_reader_simps [simp]:
  "fr_open sample_reader = Returned ()" "fh_end (fr_header sample_reader) = 40"
  "fh_exponent (fr_header sample_reader) = - 9" "fh_start (fr_header sample_reader) = 0"
  "fr_changes_end sample_reader flt = Returned ()"
  by (simp_all add: sample_reader_def)

lemma sample_fst_open:
  "\<exists>ofs. open_with_hierarchy_limit sample_system max_hierarchy_uncompressed ''a.fst'' = Inr ofs \<and>
     me_end (of_meta ofs) = 40 \<and> me_exponent (of_meta ofs) = - 9"
  using sample_preflight [of "''a.fst''"]
  by (simp add: open_with_hierarchy_limit_def sample_system_def fst_io_def max_fst_bytes_def
      identity_from_file_def read_exact_def fst_gzip_wrapper_block_def sample_hierarchy Let_def
      sample_bytes_def bytes_read_def sample_fst_bytes_def byte_def)

lemma sample_opens:
  "open_with_hierarchy_limit sample_system max_hierarchy_uncompressed ''a.fst'' = Inr sample_fst"
  "me_end (of_meta sample_fst) = 40" "me_exponent (of_meta sample_fst) = - 9"
  using sample_fst_open by (auto simp: sample_fst_def open_fst_def)

lemma fst_open_result_witness:
  "open_with_hierarchy_limit sample_system max_hierarchy_uncompressed ''a.fst'' = Inr sample_fst \<and>
   fst_signal_names sample_fst = [''top.d'', ''top.e'', ''r'']"
  using sample_opens fst_open_result [OF sample_opens(1)]
  by (simp add: fst_signal_names_def sample_system_def sample_reader_def)

text \<open>
  C23. A visit of FST changes, in any environment and with any visitor: the visitor sees an initial
  part of the rows the request asks for, in order, and if it neither stops nor fails and the visit
  succeeds it saw all of them; its own error is the error of the visit; the rows never exceed the
  row limit, nor their logical bytes the byte limit.
\<close>

theorem fst_visit_outcome:
  assumes "visit_changes_until env q ofs src n targets win body acc = (r, acc', n')"
  shows "\<exists>rows. prefix rows (fst_rows ofs (so_reader src) targets win) \<and>
    (case fold_flow body acc rows of
       Continue a \<Rightarrow> acc' = a \<and> (r = Inr () \<longrightarrow> rows = fst_rows ofs (so_reader src) targets win) \<and>
         (\<forall>e. r = Inl e \<longrightarrow> fst_failure env q e)
     | Break a \<Rightarrow> acc' = a \<and> (\<forall>e. r = Inl e \<longrightarrow> fst_failure env q e)
     | Fail e \<Rightarrow> r = Inl e) \<and>
    (\<forall>l. max_rows q = Some l \<and> l < - 1 \<longrightarrow> length rows \<le> unat l) \<and>
    (\<forall>l. max_result_bytes q = Some l \<and> l < - 1 \<longrightarrow>
       sum_list (map (\<lambda>row. unat (row_bytes row)) rows) \<le> unat l)"
proof -
  obtain rows where rows: "prefix rows (fst_rows ofs (so_reader src) targets win)"
    "visit_outcome env q body acc rows r acc' (rows = fst_rows ofs (so_reader src) targets win)"
    using visit_result [OF assms] by blast
  have "length rows \<le> unat l" if "max_rows q = Some l" "l < - 1" for l
    using rows(2) that within_nat [OF _ unat_count_rows, of l 0 rows]
    by (cases rows) (auto simp: visit_outcome_def)
  moreover have "sum_list (map (\<lambda>row. unat (row_bytes row)) rows) \<le> unat l"
    if "max_result_bytes q = Some l" "l < - 1" for l
    using rows(2) that within_nat [OF _ unat_charge_rows, of l 0 rows]
    by (cases rows) (auto simp: visit_outcome_def)
  ultimately show ?thesis using rows by (intro exI [of _ rows]) (auto simp: visit_outcome_def)
qed

definition sample_source :: fst_source where
  "sample_source = \<lparr>so_file = Inr (), so_reader = sample_reader\<rparr>"

lemma sample_lookup:
  "opened_fst_signal sample_fst ''top.d'' = Some \<lparr>fs_name = ''top.d'', fs_handle = 1, fs_width = 2, fs_type = Digital, fs_alias = False\<rparr>"
  "opened_fst_signal sample_fst ''top.e'' = Some \<lparr>fs_name = ''top.e'', fs_handle = 1, fs_width = 2, fs_type = Digital, fs_alias = True\<rparr>"
  using fst_signal_find [of sample_fst] open_fst_ok [OF sample_opens(1)]
  by (simp_all add: sample_system_def sample_reader_def signal_type_def)

lemma sample_resolve:
  "fst_resolve sample_fst [''top.d'', ''top.e''] empty_selection = Inr
     \<lparr>sl_handles = [1], sl_names = [1 \<mapsto> [''top.d'', ''top.e'']], sl_types = [1 \<mapsto> Digital]\<rparr>"
  by (simp add: sample_lookup empty_selection_def Let_def)

lemma sample_values:
  "fst_value (FvString ''01'') Digital = Inr (Integer 1)" "fst_value (FvString ''1x'') Digital = Inr (Text ''1x'')"
  by (simp_all add: fst_value_def from_str_radix_def digit_value_def byte_def u128_max_def in_range_def is_digit_def)

lemma sample_visit:
  "visit_changes_until calm (with_max_rows 3 unlimited) sample_fst sample_source 0 [''top.d'', ''top.e''] all_time collecting [] =
     (Inl (LimitExceeded Rows 3 4), [row_at 0 (Integer 1) ''top.d'', row_at 0 (Integer 1) ''top.e'',
        row_at 20 (Text ''1x'') ''top.d''], 5)"
proof -
  let ?q = "with_max_rows 3 unlimited"
  have q: "quiet calm ?q" "max_signals ?q = None" "max_rows ?q = Some 3" "max_result_bytes ?q = None"
      "max_commands ?q = None"
    by (simp_all add: quiet_calm with_max_rows_def unlimited_def)
  have w: "\<not> empty_window all_time" by (simp add: empty_window_def all_time_def)
  have ch: "fr_changes sample_reader \<lparr>ft_start = 0, ft_end = Some 40, ft_include = [1]\<rparr> =
      [(0, 1, FvString ''01''), (20, 1, FvString ''1x'')]"
    by (simp add: sample_reader_def)
  show ?thesis
    using q w
    by (simp add: visit_changes_until_def check_signal_count_def sample_resolve fst_revalidate_def
          reopen_def sample_source_def Let_def del: fst_resolve.simps)
       (simp add: read_signals_def visit_filter_def sample_opens all_time_def Let_def ch [simplified]
          fst_callback_def over_def sample_values collecting_def row_at_def saturating_add_def)
qed

lemma fst_visit_outcome_witness:
  "\<exists>rows. prefix rows (fst_rows sample_fst sample_reader [''top.d'', ''top.e''] all_time) \<and> length rows = 3 \<and>
     visit_changes_until calm (with_max_rows 3 unlimited) sample_fst sample_source 0 [''top.d'', ''top.e''] all_time collecting [] =
       (Inl (LimitExceeded Rows 3 4), rows, 5)"
proof -
  from fst_visit_outcome [OF sample_visit] obtain rows where
    "prefix rows (fst_rows sample_fst sample_reader [''top.d'', ''top.e''] all_time)"
    "rows = [row_at 0 (Integer 1) ''top.d'', row_at 0 (Integer 1) ''top.e'', row_at 20 (Text ''1x'') ''top.d'']"
    by (auto simp: fold_collecting sample_source_def)
  with sample_visit show ?thesis by (intro exI [of _ rows]) simp
qed

end
