(* ===== verification/Waveform.thy ===== *)
theory Waveform
  imports Metadata_Cache Fst_Visit
begin

text \<open>
  The format-independent waveform: the content-based format detection of src/waveform.rs and the
  facade \<^verbatim>\<open>OpenedWaveform\<close> of src/opened/waveform.rs over an opened VCD or FST file, with the
  comparison of waveforms of src/query/compare.rs.

  What a query of an opened VCD does not see is beside it in \<open>vcd_wave\<close>; the metadata of a VCD is
  what the shared cache answers at a moment (its protocol is in the theory of the cache).
\<close>

subsection \<open>Formats and their detection\<close>

datatype waveform_format = FormatVcd | FormatFst
datatype format_hint = HintAuto | HintVcd | HintFst

fun format_text :: "waveform_format \<Rightarrow> string" where
  "format_text FormatVcd = ''vcd''"
| "format_text FormatFst = ''fst''"

fun hint_of_format :: "waveform_format \<Rightarrow> format_hint" where
  "hint_of_format FormatVcd = HintVcd"
| "hint_of_format FormatFst = HintFst"

datatype detection_error =
    DeIo string io_error
  | DeExplicitMismatch waveform_format waveform_format \<comment> \<open>requested, detected\<close>
  | DeInvalid waveform_format string
  | DeUnsupportedFst string
  | DeResourceLimit nat nat \<comment> \<open>actual, limit\<close>
  | DeFstParserPanicked
  | DeUndetected string

fun detection_error_text :: "detection_error \<Rightarrow> string" where
  "detection_error_text (DeIo path e) = ''failed to read waveform '' @ path @ '': '' @ io_message e"
| "detection_error_text (DeExplicitMismatch requested detected) =
     format_text requested @ '' format was requested, but the input is valid '' @ format_text detected"
| "detection_error_text (DeInvalid f m) = ''input is not a valid '' @ format_text f @ '' waveform: '' @ m"
| "detection_error_text (DeUnsupportedFst m) = ''unsupported FST input: '' @ m"
| "detection_error_text (DeResourceLimit actual limit) =
     ''waveform input exceeds the format-detection limit ('' @ decimal actual @ '' > '' @ decimal limit @ '' bytes)''"
| "detection_error_text DeFstParserPanicked = ''FST parser failed while validating the input''"
| "detection_error_text (DeUndetected m) = ''could not detect a VCD or FST waveform: '' @ m"

definition max_detection_input_bytes :: nat where
  "max_detection_input_bytes = 8 * 1024 * 1024 * 1024"

text \<open>Cut at 512 bytes like the FST errors.\<close>

definition bounded_message :: "string \<Rightarrow> string" where
  "bounded_message message =
     (if length message \<le> 512 then message
      else take (boundary_down message 512) message @ ellipsis)"

text \<open>
  What detection finds on the system: the file, whether the reader recognises its structure, how
  opening it ends, and opening it as a VCD.
\<close>

record probe_system =
  ps_file :: "string \<Rightarrow> io_error + fst_file"
  ps_is_fst :: "string \<Rightarrow> bool caught"
  ps_open_fst :: "string \<Rightarrow> unit caught"
  ps_open_vcd :: "string \<Rightarrow> vcd_error option"

definition probe_io :: "string \<Rightarrow> io_error + 'a \<Rightarrow> detection_error + 'a" where
  "probe_io path r = map_err (DeIo path) r"

definition probe_and_validate_fst :: "probe_system \<Rightarrow> string \<Rightarrow> detection_error + bool" where
  "probe_and_validate_fst sys path =
     and_then (probe_io path (ps_file sys path)) (\<lambda>file.
     and_then (probe_io path (ff_metadata file)) (\<lambda>(len, _).
     if len > max_detection_input_bytes then Inl (DeResourceLimit len max_detection_input_bytes)
     else and_then (probe_io path (ff_read file 0 1)) (\<lambda>head.
     if length head = 1 \<and> byte (hd head) = fst_gzip_wrapper_block
     then Inl (DeUnsupportedFst ''whole-file gzip wrappers are disabled because fst-reader decompresses them entirely in memory'')
     else (case ps_is_fst sys path of
         Panicked \<Rightarrow> Inl DeFstParserPanicked
       | Returned True \<Rightarrow>
           (case ps_open_fst sys path of
              Panicked \<Rightarrow> Inl DeFstParserPanicked
            | Failed m \<Rightarrow> Inl (DeInvalid FormatFst (bounded_message m))
            | Returned _ \<Rightarrow> Inr True)
       | _ \<Rightarrow> Inr False))))"

definition validate_vcd :: "probe_system \<Rightarrow> string \<Rightarrow> detection_error + unit" where
  "validate_vcd sys path =
     (case ps_open_vcd sys path of
        None \<Rightarrow> Inr ()
      | Some e \<Rightarrow> Inl (DeInvalid FormatVcd (bounded_message (vcd_error_text e))))"

definition detect_waveform_format :: "probe_system \<Rightarrow> string \<Rightarrow> format_hint \<Rightarrow> detection_error + waveform_format" where
  "detect_waveform_format sys path hint =
     and_then (probe_and_validate_fst sys path) (\<lambda>looks_like_fst.
       if looks_like_fst then
         (if hint = HintVcd then Inl (DeExplicitMismatch FormatVcd FormatFst) else Inr FormatFst)
       else if hint = HintFst then
         (case validate_vcd sys path of
            Inr _ \<Rightarrow> Inl (DeExplicitMismatch FormatFst FormatVcd)
          | Inl _ \<Rightarrow> Inl (DeInvalid FormatFst ''FST signature not found''))
       else
         (case validate_vcd sys path of
            Inr _ \<Rightarrow> Inr FormatVcd
          | Inl (DeInvalid _ message) \<Rightarrow>
              if hint = HintVcd then Inl (DeInvalid FormatVcd message) else Inl (DeUndetected message)
          | Inl e \<Rightarrow> Inl e))"

subsection \<open>An opened waveform\<close>

record vcd_wave =
  vw_path :: string
  vw_generation :: nat
  vw_source_size :: nat
  vw_timescale :: "timescale option"
  vw_opened :: opened_vcd
  vw_metadata :: "environment \<Rightarrow> query_limits \<Rightarrow> nat \<Rightarrow> query_error + vcd_meta"

datatype waveform = WVcd vcd_wave | WFst opened_fst fst_source

fun map_fst_open :: "fst_error \<Rightarrow> detection_error" where
  "map_fst_open (FeResourceLimit _ limit actual) = DeResourceLimit actual limit"
| "map_fst_open (FeUnsupportedInput m) = DeUnsupportedFst m"
| "map_fst_open (FeUnsupportedValue m) = DeUnsupportedFst m"
| "map_fst_open FeParserPanicked = DeFstParserPanicked"
| "map_fst_open e = DeInvalid FormatFst (fst_error_text e)"

definition open_with_hint ::
    "probe_system \<Rightarrow> (string \<Rightarrow> vcd_error + vcd_wave) \<Rightarrow> (string \<Rightarrow> fst_error + opened_fst \<times> fst_source)
      \<Rightarrow> string \<Rightarrow> format_hint \<Rightarrow> detection_error + waveform" where
  "open_with_hint sys opener_vcd opener_fst path hint =
     and_then (detect_waveform_format sys path hint) (\<lambda>format.
       case format of
         FormatVcd \<Rightarrow> and_then (map_err (\<lambda>e. DeInvalid FormatVcd (vcd_error_text e)) (opener_vcd path)) (\<lambda>v. Inr (WVcd v))
       | FormatFst \<Rightarrow> and_then (map_err map_fst_open (opener_fst path)) (\<lambda>(ofs, src). Inr (WFst ofs src)))"

fun wave_format :: "waveform \<Rightarrow> waveform_format" where
  "wave_format (WVcd _) = FormatVcd"
| "wave_format (WFst _ _) = FormatFst"

fun wave_generation :: "waveform \<Rightarrow> nat" where
  "wave_generation (WVcd v) = vw_generation v"
| "wave_generation (WFst ofs _) = of_generation ofs"

fun wave_source_size :: "waveform \<Rightarrow> nat" where
  "wave_source_size (WVcd v) = vw_source_size v"
| "wave_source_size (WFst ofs _) = fi_len (of_identity ofs)"

fun wave_names :: "waveform \<Rightarrow> string list" where
  "wave_names (WVcd v) = catalog_names (ov_catalog (vw_opened v))"
| "wave_names (WFst ofs _) = fst_signal_names ofs"

fun wave_signal_count :: "waveform \<Rightarrow> nat" where
  "wave_signal_count (WVcd v) = catalog_len (ov_catalog (vw_opened v))"
| "wave_signal_count (WFst ofs _) = length (of_signals ofs)"

definition wave_list_signals :: "waveform \<Rightarrow> string option \<Rightarrow> string list" where
  "wave_list_signals w flt = list_names (wave_names w) flt"

fun wave_timescale :: "waveform \<Rightarrow> timescale option" where
  "wave_timescale (WVcd v) = vw_timescale v"
| "wave_timescale (WFst ofs _) = me_timescale (of_meta ofs)"

fun wave_width :: "waveform \<Rightarrow> string \<Rightarrow> u32 option" where
  "wave_width (WVcd v) sig = map_option sm_size (opened_signal (vw_opened v) sig)"
| "wave_width (WFst ofs _) sig = map_option fs_width (opened_fst_signal ofs sig)"

fun wave_validate :: "environment \<Rightarrow> waveform \<Rightarrow> nat \<Rightarrow> query_error + unit" where
  "wave_validate env (WVcd _) n = map_err query_error_of_vcd (env_source env n)"
| "wave_validate env (WFst ofs _) n = map_err fst_to_query (fst_revalidate env ofs n)"

fun visit_name_loop ::
    "environment \<Rightarrow> query_limits \<Rightarrow> nat \<Rightarrow> string list \<Rightarrow> ('b \<Rightarrow> string \<Rightarrow> (query_error, 'b) flow) \<Rightarrow> 'b
      \<Rightarrow> (query_error + 'b) \<times> nat" where
  "visit_name_loop env q n [] visitor acc = (Inr acc, n)"
| "visit_name_loop env q n (name # names) visitor acc =
     (case check env q n of
        Inl e \<Rightarrow> (Inl e, n + 1)
      | Inr _ \<Rightarrow>
          (case visitor acc name of
             Fail e \<Rightarrow> (Inl e, n + 1)
           | Break acc' \<Rightarrow> (Inr acc', n + 1)
           | Continue acc' \<Rightarrow> visit_name_loop env q (n + 1) names visitor acc'))"

definition visit_signal_names ::
    "environment \<Rightarrow> query_limits \<Rightarrow> waveform \<Rightarrow> nat \<Rightarrow> ('b \<Rightarrow> string \<Rightarrow> (query_error, 'b) flow) \<Rightarrow> 'b
      \<Rightarrow> query_error + 'b" where
  "visit_signal_names env q w n visitor acc =
     (case visit_name_loop env q n (wave_names w) visitor acc of
        (r, n') \<Rightarrow>
          and_then r (\<lambda>acc'.
          and_then (wave_validate env w n') (\<lambda>_.
          and_then (check env q (n' + 1)) (\<lambda>_. Inr acc'))))"

fun wave_metadata ::
    "environment \<Rightarrow> query_limits \<Rightarrow> waveform \<Rightarrow> nat \<Rightarrow> query_error + nat \<times> timescale option \<times> u64 \<times> u64" where
  "wave_metadata env q (WVcd v) n =
     and_then (check env q n) (\<lambda>_.
     and_then (vw_metadata v env q (n + 1)) (\<lambda>m.
       Inr (vm_signal_count m, vm_timescale m, vm_start m, vm_end m)))"
| "wave_metadata env q (WFst ofs src) n =
     and_then (check env q n) (\<lambda>_.
     and_then (check env q (n + 1)) (\<lambda>_.
     and_then (wave_validate env (WFst ofs src) (n + 2)) (\<lambda>_.
     and_then (check env q (n + 3)) (\<lambda>_.
     and_then (wave_validate env (WFst ofs src) (n + 4)) (\<lambda>_.
     and_then (check env q (n + 5)) (\<lambda>_.
       let m = of_meta ofs in Inr (me_signal_count m, me_timescale m, me_start m, me_end m)))))))"

subsection \<open>Row queries\<close>

text \<open>
  \<^verbatim>\<open>visit_changes\<close> hands the visitor the rows of the backend one by one and stops at the first
  one it refuses. \<open>wave_rows\<close> gives those rows and how the visit ends if none is refused;
  \<open>None\<close>: the visit does not end.
\<close>

fun wave_rows ::
    "environment \<Rightarrow> displays \<Rightarrow> query_limits \<Rightarrow> waveform \<Rightarrow> nat \<Rightarrow> string list \<Rightarrow> time_window
      \<Rightarrow> (time_value list \<times> (query_error + unit)) option" where
  "wave_rows env D q (WVcd v) n targets win =
     (case open_extract env q (vw_opened v) n targets win of
        Inl e \<Rightarrow> Some ([], Inl e)
      | Inr x \<Rightarrow> map_option (\<lambda>(rows, r, _). (rows, case r of None \<Rightarrow> Inr () | Some e \<Rightarrow> Inl e))
                 (drain (extract_next env D) x))"
| "wave_rows env D q (WFst ofs src) n targets win =
     (case visit_changes_until env q ofs src n targets win collecting [] of (r, rows, _) \<Rightarrow> Some (rows, r))"

definition wave_extract ::
    "environment \<Rightarrow> displays \<Rightarrow> query_limits \<Rightarrow> waveform \<Rightarrow> nat \<Rightarrow> string list \<Rightarrow> time_window
      \<Rightarrow> (query_error + time_value list) option" where
  "wave_extract env D q w n targets win =
     map_option (\<lambda>(rows, r). and_then r (\<lambda>_. Inr rows)) (wave_rows env D q w n targets win)"

definition fst_find ::
    "environment \<Rightarrow> displays \<Rightarrow> query_limits \<Rightarrow> opened_fst \<Rightarrow> fst_source \<Rightarrow> nat \<Rightarrow> string \<Rightarrow> target_value \<Rightarrow> nat
      \<Rightarrow> time_window \<Rightarrow> query_error + time_value option \<times> u32" where
  "fst_find env D q ofs src n sig target occurrence win =
     and_then (ok_or (SignalNotFound sig) (map_option fs_width (opened_fst_signal ofs sig))) (\<lambda>width.
       case visit_changes_until env q ofs src n [sig] win (find_body D (normalize_target target) occurrence) (0, None) of
         (r, (_, found), _) \<Rightarrow> and_then r (\<lambda>_. Inr (found, width)))"

fun wave_find ::
    "environment \<Rightarrow> displays \<Rightarrow> query_limits \<Rightarrow> waveform \<Rightarrow> nat \<Rightarrow> string \<Rightarrow> target_value \<Rightarrow> nat
      \<Rightarrow> time_window \<Rightarrow> (query_error + time_value option \<times> u32) option" where
  "wave_find env D q (WVcd v) n sig target occurrence win =
     (if occurrence = 0 then Some (Inl (Vcd InvalidOccurrence))
      else find_nth_occurrence env D q (vw_opened v) n sig target occurrence win)"
| "wave_find env D q (WFst ofs src) n sig target occurrence win =
     (if occurrence = 0 then Some (Inl (Vcd InvalidOccurrence))
      else Some (fst_find env D q ofs src n sig target occurrence win))"

text \<open>\<^verbatim>\<open>width(signal).unwrap_or(1)\<close>\<close>

definition width_or_one :: "(string \<Rightarrow> u32 option) \<Rightarrow> string \<Rightarrow> u32" where
  "width_or_one width s = (case width s of Some n \<Rightarrow> n | None \<Rightarrow> 1)"

definition fst_toggle_body ::
    "displays \<Rightarrow> (string \<Rightarrow> u32 option) \<Rightarrow> toggle_state \<Rightarrow> time_value \<Rightarrow> (query_error, toggle_state) flow" where
  "fst_toggle_body D width st event =
     (let (counts, previous) = st; sig = tv_signal event;
          v = format_value_for_signal D (tv_value event) (width_or_one width sig);
          counts' = (if (case previous sig of Some old \<Rightarrow> old \<noteq> v | None \<Rightarrow> False)
                     then counts(sig \<mapsto> (case counts sig of Some c \<Rightarrow> c | None \<Rightarrow> 0) + 1) else counts) in
      Continue (counts', previous(sig \<mapsto> v)))"

fun wave_toggles ::
    "environment \<Rightarrow> displays \<Rightarrow> query_limits \<Rightarrow> waveform \<Rightarrow> nat \<Rightarrow> string list \<Rightarrow> time_window
      \<Rightarrow> (query_error + (string \<rightharpoonup> nat)) option" where
  "wave_toggles env D q (WVcd v) n targets win = count_toggles env D q (vw_opened v) n targets win"
| "wave_toggles env D q (WFst ofs src) n targets win =
     (case visit_changes_until env q ofs src n targets win (fst_toggle_body D (wave_width (WFst ofs src)))
             ((\<lambda>s. if s \<in> set targets then Some 0 else None), Map.empty) of
        (r, (counts, _), _) \<Rightarrow> Some (and_then r (\<lambda>_. Inr counts)))"

subsection \<open>Comparison\<close>

fun wave_provider :: "displays \<Rightarrow> waveform \<Rightarrow> provider" where
  "wave_provider D (WVcd v) = vcd_provider D (vw_path v, vw_opened v)"
| "wave_provider D (WFst ofs src) = fst_provider (ofs, src)"

fun compatible_timescale :: "waveform \<Rightarrow> waveform \<Rightarrow> bool" where
  "compatible_timescale (WVcd _) (WVcd _) = True"
| "compatible_timescale (WFst a _) (WFst b _) = (me_exponent (of_meta a) = me_exponent (of_meta b))"
| "compatible_timescale (WVcd v) (WFst f _) =
     (me_timescale (of_meta f) \<noteq> None \<and> vw_timescale v = me_timescale (of_meta f))"
| "compatible_timescale (WFst f _) (WVcd v) =
     (me_timescale (of_meta f) \<noteq> None \<and> vw_timescale v = me_timescale (of_meta f))"

definition wave_compare ::
    "environment \<Rightarrow> displays \<Rightarrow> query_limits \<Rightarrow> nat \<Rightarrow> waveform \<Rightarrow> waveform \<Rightarrow> comparison_options
      \<Rightarrow> (query_error + comparison_result) option" where
  "wave_compare env D q n a b opts =
     (if \<not> compatible_timescale a b
      then Some (Inl (UnsupportedWaveform ''waveform comparison requires equal physical timescales''))
      else compare_providers env D q n (wave_provider D a) (wave_provider D b) opts)"

subsection \<open>The rows of a waveform\<close>

fun wave_requested :: "displays \<Rightarrow> waveform \<Rightarrow> string list \<Rightarrow> time_window \<Rightarrow> time_value list" where
  "wave_requested D (WVcd v) targets win = rows_of D (vw_opened v) targets win"
| "wave_requested D (WFst ofs src) targets win = fst_rows ofs (so_reader src) targets win"

lemma wave_rows_result:
  "\<exists>rows r. wave_rows env D q w n targets win = Some (rows, r) \<and>
     prefix rows (wave_requested D w targets win) \<and>
     (r = Inr () \<longrightarrow> rows = wave_requested D w targets win)"
proof (cases w)
  case (WVcd v)
  show ?thesis
  proof (cases "open_extract env q (vw_opened v) n targets win")
    case (Inl e)
    with WVcd show ?thesis by simp
  next
    case (Inr x)
    note o = open_extract_Inr [OF Inr] and rem = expand_changes_opened [OF Inr]
    obtain rows r x' where d: "drain (extract_next env D) x = Some (rows, r, x')"
      using extract_iter.drain_returns o by blast
    with drain_extract [OF _ d] o rem WVcd Inr show ?thesis
      by (cases r) (auto simp: rows_of_def)
  qed
next
  case (WFst ofs src)
  obtain r rows m where v: "visit_changes_until env q ofs src n targets win collecting [] = (r, rows, m)"
    by (metis prod_cases3)
  from visit_result [OF this] v WFst show ?thesis
    by (auto simp: visit_outcome_def fold_collecting)
qed

subsection \<open>Searching and counting in an FST file\<close>

lemma fst_find_result:
  assumes "1 \<le> occ" and "fst_find env D q ofs src n sig target occ win = Inr (ev, width)"
  shows "ev = (let all = hits D target (fst_rows ofs (so_reader src) [sig] win) in
      if occ \<le> length all then Some (all ! (occ - 1)) else None) \<and>
    wave_width (WFst ofs src) sig = Some width"
proof -
  let ?body = "find_body D (normalize_target target) occ" and ?all = "fst_rows ofs (so_reader src) [sig] win"
  obtain r k found m where v: "visit_changes_until env q ofs src n [sig] win ?body (0, None) = (r, (k, found), m)"
    by (metis prod_cases3 prod.collapse)
  obtain rows where pre: "prefix rows ?all"
      and out: "visit_outcome env q ?body (0, None) rows r (k, found) (rows = ?all)"
    using visit_result [OF v] by blast
  have r: "r = Inr ()" and ev: "ev = found" and width: "wave_width (WFst ofs src) sig = Some width"
    using assms(2) v by (auto simp: fst_find_def and_then_eq_Inr ok_or_eq_Inr split: prod.splits)
  have fold: "fold_flow ?body (0, None) rows =
     (if length (hits D target rows) < occ then Continue (length (hits D target rows), None)
      else Break (occ, Some (hits D target rows ! (occ - 1))))"
    using fold_find [of 0 occ D target rows] assms(1) by simp
  show ?thesis
  proof (cases "length (hits D target rows) < occ")
    case True
    with fold out r have "found = None" "rows = ?all"
      by (simp_all add: visit_outcome_def)
    with True ev width show ?thesis by simp
  next
    case False
    have "found = Some (hits D target rows ! (occ - 1))"
      using False fold out by (simp add: visit_outcome_def)
    moreover have "hits D target rows ! (occ - 1) = hits D target ?all ! (occ - 1)"
        "occ \<le> length (hits D target ?all)"
      using prefix_nth_eq [OF hits_prefix [OF pre], of "occ - 1" D target] assms(1) False by simp_all linarith
    ultimately show ?thesis using ev width by simp
  qed
qed

text \<open>How often a list of printed values changes.\<close>

fun transitions :: "string option \<Rightarrow> string list \<Rightarrow> nat" where
  "transitions prev [] = 0"
| "transitions prev (v # vs) = (if prev \<noteq> None \<and> prev \<noteq> Some v then 1 else 0) + transitions (Some v) vs"

lemma fold_fst_toggle:
  "\<exists>counts' previous'. fold_flow (fst_toggle_body D width) (counts, previous) rows = Continue (counts', previous') \<and>
     (\<forall>s. (case counts' s of Some c \<Rightarrow> c | None \<Rightarrow> 0) = (case counts s of Some c \<Rightarrow> c | None \<Rightarrow> 0) +
        transitions (previous s) (printed D (width_or_one width s) s rows)) \<and>
     dom counts \<subseteq> dom counts' \<and> dom counts' \<subseteq> dom counts \<union> set (map tv_signal rows)"
proof (induction rows arbitrary: counts previous)
  case Nil
  show ?case by (simp add: printed_def)
next
  case (Cons row rows)
  let ?s = "tv_signal row"
  let ?v = "format_value_for_signal D (tv_value row) (width_or_one width ?s)"
  define changed where "changed = (case previous ?s of Some old \<Rightarrow> old \<noteq> ?v | None \<Rightarrow> False)"
  define counts1 where "counts1 = (if changed then counts(?s \<mapsto> (case counts ?s of Some c \<Rightarrow> c | None \<Rightarrow> 0) + 1) else counts)"
  have step: "fst_toggle_body D width (counts, previous) row = Continue (counts1, previous(?s \<mapsto> ?v))"
    by (simp add: fst_toggle_body_def Let_def counts1_def changed_def)
  obtain counts' previous' where
      fold: "fold_flow (fst_toggle_body D width) (counts1, previous(?s \<mapsto> ?v)) rows = Continue (counts', previous')"
    and c: "\<forall>s. (case counts' s of Some c \<Rightarrow> c | None \<Rightarrow> 0) = (case counts1 s of Some c \<Rightarrow> c | None \<Rightarrow> 0) +
        transitions ((previous(?s \<mapsto> ?v)) s) (printed D (width_or_one width s) s rows)"
    and d: "dom counts1 \<subseteq> dom counts'" "dom counts' \<subseteq> dom counts1 \<union> set (map tv_signal rows)"
    using Cons.IH [of counts1 "previous(?s \<mapsto> ?v)"] by blast
  have "dom counts \<subseteq> dom counts1" "dom counts1 \<subseteq> dom counts \<union> {?s}" by (auto simp: counts1_def)
  then have "dom counts \<subseteq> dom counts'" "dom counts' \<subseteq> dom counts \<union> set (map tv_signal (row # rows))"
    using d by (simp_all, blast+)
  moreover have "(case counts' s of Some c \<Rightarrow> c | None \<Rightarrow> 0) = (case counts s of Some c \<Rightarrow> c | None \<Rightarrow> 0) +
      transitions (previous s) (printed D (width_or_one width s) s (row # rows))" for s
    using c [rule_format, of s]
    by (cases "s = ?s"; cases "previous s") (auto simp: counts1_def changed_def printed_def)
  ultimately show ?case using step fold by simp
qed

lemma fst_rows_signals:
  assumes "row \<in> set (fst_rows ofs reader targets win)"
  shows "tv_signal row \<in> set targets"
proof -
  let ?flt = "visit_filter ofs win
    (case fst_resolve ofs targets empty_selection of Inr sel \<Rightarrow> sl_handles sel | Inl _ \<Rightarrow> [])"
  obtain change where "row \<in> set (change_rows ofs targets (ft_start ?flt) (the (ft_end ?flt)) change)"
    using assms by (cases "empty_window win") (auto simp: fst_rows_def Let_def)
  then have "tv_signal row \<in> set (handle_names ofs targets (fst (snd change)))"
    by (cases change) (auto dest: change_rows_names)
  then show ?thesis by (simp add: handle_names_def)
qed

lemma fst_toggles_result:
  assumes "wave_toggles env D q (WFst ofs src) n targets win = Some (Inr counts)"
  shows "counts = (\<lambda>s. if s \<in> set targets
    then Some (transitions None (printed D (width_or_one (wave_width (WFst ofs src)) s) s
      (fst_rows ofs (so_reader src) targets win))) else None)"
proof -
  let ?body = "fst_toggle_body D (wave_width (WFst ofs src))" and ?all = "fst_rows ofs (so_reader src) targets win"
  let ?c0 = "(\<lambda>s. if s \<in> set targets then Some 0 else None) :: string \<rightharpoonup> nat"
  obtain r acc m where v: "visit_changes_until env q ofs src n targets win ?body (?c0, Map.empty) = (r, acc, m)"
    by (metis prod_cases3)
  obtain rows where out: "visit_outcome env q ?body (?c0, Map.empty) rows r acc (rows = ?all)"
    using visit_result [OF v] by blast
  obtain counts' previous' where fold: "fold_flow ?body (?c0, Map.empty) rows = Continue (counts', previous')"
    and c: "\<forall>s. (case counts' s of Some c \<Rightarrow> c | None \<Rightarrow> 0) = (case ?c0 s of Some c \<Rightarrow> c | None \<Rightarrow> 0) +
        transitions (Map.empty s) (printed D (width_or_one (wave_width (WFst ofs src)) s) s rows)"
    and d: "dom ?c0 \<subseteq> dom counts'" "dom counts' \<subseteq> dom ?c0 \<union> set (map tv_signal rows)"
    using fold_fst_toggle [of D "wave_width (WFst ofs src)" ?c0 Map.empty rows] by blast
  have "counts = fst acc" "r = Inr ()"
    using assms v by (auto simp: and_then_eq_Inr split: prod.splits)
  with out fold have eq: "counts = counts'" "rows = ?all" by (auto simp: visit_outcome_def)
  have "dom counts' = set targets"
    using d fst_rows_signals [of _ ofs "so_reader src" targets win] eq by (auto split: if_splits)
  then have dom: "counts' s = None \<longleftrightarrow> s \<notin> set targets" for s by (metis domIff)
  show ?thesis
  proof
    fix s
    show "counts s = (if s \<in> set targets
      then Some (transitions None (printed D (width_or_one (wave_width (WFst ofs src)) s) s ?all)) else None)"
      using c [rule_format, of s] dom [of s] by (cases "counts' s") (simp_all add: eq)
  qed
qed

subsection \<open>Every waveform provides timelines\<close>

fun wave_valid :: "waveform \<Rightarrow> bool" where
  "wave_valid (WVcd v) = vcd_valid (vw_path v, vw_opened v)"
| "wave_valid (WFst ofs src) = fst_valid (ofs, src)"

fun wave_truth :: "displays \<Rightarrow> waveform \<Rightarrow> string \<Rightarrow> time_window \<Rightarrow> timeline" where
  "wave_truth D (WVcd v) = vcd_truth D (vw_path v, vw_opened v)"
| "wave_truth D (WFst ofs src) = fst_truth (ofs, src)"

fun wave_readable :: "waveform \<Rightarrow> time_window \<Rightarrow> bool" where
  "wave_readable (WVcd v) = vcd_readable (vw_path v, vw_opened v)"
| "wave_readable (WFst ofs src) = fst_readable (ofs, src)"

interpretation wave: timeline_source "wave_provider D" wave_valid "wave_truth D" wave_readable for D
proof
  fix w env q n signals opts tls n'
  assume v: "wave_valid w"
  show "distinct (pv_names (wave_provider D w))"
    using v vcd.names_distinct fst_file.names_distinct by (cases w) simp_all
  show "\<exists>r n'. pv_collect (wave_provider D w) env q n signals opts = Some (r, n')"
    using v vcd.collect_returns fst_file.collect_returns by (cases w) simp_all
  show "tls = (\<lambda>x. if x \<in> set signals then Some (wave_truth D w x (co_window opts)) else None)"
    if "distinct signals" "set signals \<subseteq> set (pv_names (wave_provider D w))"
      "pv_collect (wave_provider D w) env q n signals opts = Some (Inr tls, n')"
  proof (cases w)
    case (WVcd x)
    with v that show ?thesis
      using vcd.collect_right [of "(vw_path x, vw_opened x)" signals D env q n opts tls n'] by auto
  next
    case (WFst ofs src)
    with v that show ?thesis
      using fst_file.collect_right [of "(ofs, src)" signals env q n opts tls n'] by auto
  qed
  show "\<exists>tls n'. pv_collect (wave_provider D w) env q n signals opts = Some (Inr tls, n')"
    if "quiet env q" "free_limits q" "wave_readable w (co_window opts)"
      "set signals \<subseteq> set (pv_names (wave_provider D w))"
    using v that vcd.collect_quiet fst_file.collect_quiet by (cases w) simp_all
  show "pv_validate (wave_provider D w) env q n = Inr ()" if "quiet env q"
    using v that vcd.validate_quiet fst_file.validate_quiet by (cases w) simp_all
qed

interpretation wave_pair: timeline_pair "wave_provider D" wave_valid "wave_truth D" wave_readable
    "wave_provider D" wave_valid "wave_truth D" wave_readable for D
  by unfold_locales

lemma change_rows_time: "row \<in> set (change_rows ofs targets start stop change) \<Longrightarrow> tv_time row = fst change"
proof -
  assume row: "row \<in> set (change_rows ofs targets start stop change)"
  obtain t h v where c: "change = (t, h, v)" by (cases change)
  show ?thesis
    by (rule change_rows_cases [of ofs targets start stop t h v]) (use row c in auto)
qed

lemma sorted_constant: "\<forall>x \<in> set xs. f x = c \<Longrightarrow> sorted (map f xs)"
  by (induction xs) auto

lemma sorted_change_rows:
  "sorted (map fst changes) \<Longrightarrow> sorted (map tv_time (concat (map (change_rows ofs targets start stop) changes)))"
proof (induction changes)
  case (Cons change changes)
  have "sorted (map tv_time (change_rows ofs targets start stop change))"
    using change_rows_time by (intro sorted_constant) blast
  with Cons show ?case
    by (fastforce simp: sorted_append dest: change_rows_time)
qed simp

lemma fst_truth_ordered:
  assumes "\<And>flt. sorted (map fst (fr_changes (so_reader src) flt))"
  shows "ordered (fst_truth (ofs, src) s win)"
  using sorted_change_rows [OF assms] by (simp add: fst_truth_def fst_rows_def Let_def comp_def)

lemma timescale_exact:
  "timescale_from_exponent e = Some ts \<Longrightarrow>
     - 15 \<le> sint e \<and> sint e \<le> 2 \<and> unat (ts_magnitude ts) \<in> {1, 10, 100}"
  by (auto simp: timescale_from_exponent_def timescale_bases_def split: if_splits)

lemma timescale_None: "timescale_from_exponent e = None \<longleftrightarrow> sint e < - 15 \<or> 2 < sint e"
proof -
  have "timescale_search k timescale_bases = None \<longleftrightarrow> k < - 15 \<or> 2 < k" for k
    by (simp add: timescale_bases_def) presburger
  then show ?thesis by (simp add: timescale_from_exponent_def)
qed

subsection \<open>Properties\<close>

text \<open>
  C24. Searching and counting in an FST file answer as in a VCD file: an event found is the
  requested occurrence among all the requested rows of the signal whose value equals the target,
  with the signal's width, and \<^verbatim>\<open>None\<close> means there are fewer; the counts are, for each requested name,
  the number of changes between consecutive printed values in the requested rows. When no printed
  value is empty this is the count the VCD query defines.
\<close>

theorem fst_queries_correct:
  "(case wave_find env D q (WFst ofs src) n sig target occ win of
      Some (Inr (ev, width)) \<Rightarrow>
        1 \<le> occ \<and> wave_width (WFst ofs src) sig = Some width \<and>
        ev = (let all = hits D target (fst_rows ofs (so_reader src) [sig] win) in
          if occ \<le> length all then Some (all ! (occ - 1)) else None)
    | Some (Inl e) \<Rightarrow> True
    | None \<Rightarrow> False) \<and>
   (case wave_toggles env D q (WFst ofs src) n targets win of
      Some (Inr counts) \<Rightarrow> counts = (\<lambda>s. if s \<in> set targets
        then Some (transitions None (printed D (width_or_one (wave_width (WFst ofs src)) s) s
          (fst_rows ofs (so_reader src) targets win))) else None)
    | Some (Inl e) \<Rightarrow> True
    | None \<Rightarrow> False) \<and>
   (if [] \<in> set vs then True else transitions None vs = toggles_from [] vs)"
proof (intro conjI)
  show "case wave_find env D q (WFst ofs src) n sig target occ win of
      Some (Inr (ev, width)) \<Rightarrow>
        1 \<le> occ \<and> wave_width (WFst ofs src) sig = Some width \<and>
        ev = (let all = hits D target (fst_rows ofs (so_reader src) [sig] win) in
          if occ \<le> length all then Some (all ! (occ - 1)) else None)
    | Some (Inl e) \<Rightarrow> True
    | None \<Rightarrow> False"
    using fst_find_result [of occ env D q ofs src n sig target win]
    by (cases "fst_find env D q ofs src n sig target occ win") auto
  show "case wave_toggles env D q (WFst ofs src) n targets win of
      Some (Inr counts) \<Rightarrow> counts = (\<lambda>s. if s \<in> set targets
        then Some (transitions None (printed D (width_or_one (wave_width (WFst ofs src)) s) s
          (fst_rows ofs (so_reader src) targets win))) else None)
    | Some (Inl e) \<Rightarrow> True
    | None \<Rightarrow> False"
    using fst_toggles_result [of env D q ofs src n targets win]
    by (auto simp del: wave_width.simps split: option.split sum.split prod.split)
  have "[] \<notin> set vs \<Longrightarrow> p \<noteq> [] \<Longrightarrow> transitions (Some p) vs = toggles_from p vs" for p
    by (induction vs arbitrary: p) auto
  then show "if [] \<in> set vs then True else transitions None vs = toggles_from [] vs"
    by (cases vs) auto
qed

text \<open>
  C25. Comparing waveforms of any two formats: it is refused when the physical timescales cannot be
  equal; otherwise it always returns, and in every environment a result it gives is the true
  comparison of the timelines of the two sources, as in C10: exactly, unless the maximum of mismatches
  is 0 or a change is at the last time, 2^64 - 1; then it is the comparison with a maximum of at least
  1 of the changes before that time. Undisturbed and without limits it gives a result.
\<close>

theorem wave_comparison:
  assumes "wave_valid a" and "wave_valid b"
    and "\<forall>s. ordered (wave_truth D a s (co_window opts))" and "\<forall>s. ordered (wave_truth D b s (co_window opts))"
  shows "if compatible_timescale a b
    then \<exists>res. wave_compare env D q n a b opts = Some res \<and>
      (case res of
         Inr r \<Rightarrow>
           (co_max_mismatches opts \<noteq> Some 0 \<and> (\<forall>s. - 1 \<notin> fst ` set (wave_truth D a s (co_window opts)) \<and>
               - 1 \<notin> fst ` set (wave_truth D b s (co_window opts))) \<longrightarrow>
             faithful_result D opts (wave_provider D a) (wave_provider D b)
               (\<lambda>s. wave_truth D a s (co_window opts)) (\<lambda>s. wave_truth D b s (co_window opts)) r) \<and>
           faithful_result D (at_least_one opts) (wave_provider D a) (wave_provider D b)
             (\<lambda>s. before_last (wave_truth D a s (co_window opts))) (\<lambda>s. before_last (wave_truth D b s (co_window opts))) r
       | Inl e \<Rightarrow> \<not> (quiet env q \<and> free_limits q \<and> wave_readable a (co_window opts) \<and>
           wave_readable b (co_window opts)))
    else wave_compare env D q n a b opts =
      Some (Inl (UnsupportedWaveform ''waveform comparison requires equal physical timescales''))"
proof (cases "compatible_timescale a b")
  case True
  obtain res where res: "compare_providers env D q n (wave_provider D a) (wave_provider D b) opts = Some res"
    using wave_pair.compare_returns [OF assms(1,2)] by blast
  show ?thesis
  proof (cases res)
    case (Inl e)
    have "\<exists>r. compare_providers env D q n (wave_provider D a) (wave_provider D b) opts = Some (Inr r)"
      if "quiet env q" "free_limits q" "wave_readable a (co_window opts)" "wave_readable b (co_window opts)"
      using that by (rule wave_pair.compare_quiet [OF assms(1,2)])
    with res Inl True show ?thesis by (auto simp: wave_compare_def)
  next
    case (Inr r)
    have right: "faithful_result D (at_least_one opts) (wave_provider D a) (wave_provider D b)
        (\<lambda>s. before_last (wave_truth D a s (co_window opts))) (\<lambda>s. before_last (wave_truth D b s (co_window opts))) r"
      using assms(3,4) by (intro wave_pair.compare_right [OF assms(1,2) res [unfolded Inr]]) blast
    from faithful_plain [OF this] right res Inr True show ?thesis by (simp add: wave_compare_def)
  qed
qed (simp add: wave_compare_def)

definition sample_vcd_wave :: waveform where
  "sample_vcd_wave = WVcd \<lparr>vw_path = ''dump.vcd'', vw_generation = 1, vw_source_size = 100,
     vw_timescale = Some \<lparr>ts_magnitude = 1, ts_unit = NanoSec\<rparr>, vw_opened = sample_opened,
     vw_metadata = (\<lambda>env q n. compute_metadata_with_context env q None sample_opened n)\<rparr>"

definition sample_fst_wave :: waveform where
  "sample_fst_wave = WFst sample_fst sample_source"

lemma sample_waves_valid: "wave_valid sample_vcd_wave" "wave_valid sample_fst_wave"
proof -
  show "wave_valid sample_vcd_wave"
    using from_scope_items_represents [OF sample_opened_catalog]
    by (auto simp: sample_vcd_wave_def vcd_valid_def built_def)
  have "fst_table sample_fst" using open_fst_ok [OF sample_opens(1)] by blast
  moreover have "fst_typed sample_fst"
    using open_fst_ok [OF sample_opens(1)]
    by (auto simp: fst_typed_def sample_system_def sample_reader_def signal_type_def)
  moreover have "reader_selects sample_reader"
    by (auto simp: reader_selects_def sample_reader_def on_handle_def)
  ultimately show "wave_valid sample_fst_wave"
    by (simp add: sample_fst_wave_def fst_valid_def sample_source_def)
qed

lemma wave_comparison_witness:
  "\<exists>res. wave_compare calm plain_displays unlimited 0 sample_vcd_wave sample_fst_wave default_options = Some res"
proof -
  have ord: "\<forall>s. ordered (wave_truth plain_displays sample_vcd_wave s (co_window default_options))"
    using vcd_truth_ordered [of "(''dump.vcd'', sample_opened)"] by (simp add: sample_vcd_wave_def sample_opened_def)
  have "sorted (map fst (fr_changes sample_reader flt))" for flt
    by (simp add: sample_reader_def)
  then have ord': "\<forall>s. ordered (wave_truth plain_displays sample_fst_wave s (co_window default_options))"
    using fst_truth_ordered [of sample_source] by (simp add: sample_fst_wave_def sample_source_def)
  from wave_comparison [OF sample_waves_valid ord ord', of calm unlimited 0] show ?thesis
    by (auto split: if_splits)
qed

end
