(* ===== verification/Service.thy ===== *)
theory Service
  imports Response_Stream Waveform
begin

text \<open>
  The protocol dispatcher of src/server/service.rs: its configuration, the generation slot that
  replaces a stale waveform between requests, the query limits of a request, and what each method
  does and sends. It is the dispatcher a worker runs (the locale \<open>dispatcher\<close>).

  A request runs in a \<open>service_env\<close>: the environment of its sink, the environment of its queries
  with the moment of the observations after a scan, the printing of values, and the texts of the
  clock. \<open>srv_reopen\<close> is how reopening the configured path ends. The test hooks are left out.
\<close>

subsection \<open>Configuration\<close>

record runtime_config =
  rc_max_connections :: nat
  rc_max_active :: nat
  rc_workers :: nat
  rc_queue_depth :: nat
  rc_output_chunks :: nat
  rc_request_line_bytes :: nat
  rc_max_frame_bytes :: nat
  rc_max_timeout_ms :: u64

definition default_runtime :: runtime_config where
  "default_runtime = \<lparr>rc_max_connections = 32, rc_max_active = 8, rc_workers = 4, rc_queue_depth = 64,
     rc_output_chunks = 8, rc_request_line_bytes = max_request_line_bytes,
     rc_max_frame_bytes = unat chunk_bytes, rc_max_timeout_ms = 120000\<rparr>"

text \<open>\<open>representable\<close>: the clock can show the moment \<open>max_timeout_ms\<close> from now.\<close>

definition runtime_validate :: "(u64 \<Rightarrow> bool) \<Rightarrow> runtime_config \<Rightarrow> io_error + unit" where
  "runtime_validate representable c =
     (if rc_max_connections c = 0 \<or> rc_max_connections c > 256
       \<or> rc_max_active c = 0 \<or> rc_max_active c > 64
       \<or> rc_workers c = 0 \<or> rc_workers c > 64
       \<or> rc_queue_depth c = 0 \<or> rc_queue_depth c > 4096
       \<or> rc_output_chunks c = 0 \<or> rc_output_chunks c > 256
       \<or> rc_request_line_bytes c = 0 \<or> rc_request_line_bytes c > max_request_line_bytes
       \<or> rc_max_frame_bytes c < unat terminal_frame_reserve_bytes
       \<or> rc_max_frame_bytes c > unat chunk_bytes
       \<or> rc_max_timeout_ms c = 0 \<or> rc_max_timeout_ms c > 3600000
       \<or> \<not> representable (rc_max_timeout_ms c)
      then Inl (io_new InvalidInput ''server runtime limits are outside supported bounds'')
      else Inr ())"

record service_config =
  sc_max_signals :: nat
  sc_max_rows :: u64
  sc_max_response_bytes :: u64
  sc_max_commands :: u64

definition default_service :: service_config where
  "default_service = \<lparr>sc_max_signals = 4096, sc_max_rows = 1000000, sc_max_response_bytes = 268435456,
     sc_max_commands = 1000000000\<rparr>"

definition service_validate :: "service_config \<Rightarrow> io_error + unit" where
  "service_validate c =
     (if sc_max_signals c = 0 \<or> sc_max_signals c > 65536
       \<or> sc_max_rows c = 0 \<or> sc_max_rows c > 16000000
       \<or> sc_max_response_bytes c < terminal_frame_reserve_bytes \<or> sc_max_response_bytes c > 1073741824
       \<or> sc_max_commands c = 0 \<or> sc_max_commands c > 4000000000
      then Inl (io_new InvalidInput ''server query limits are outside supported bounds'')
      else Inr ())"

subsection \<open>Errors\<close>

definition map_query :: "query_error \<Rightarrow> protocol_error" where
  "map_query e = protocol_error_from_query e"

definition map_waveform :: "detection_error \<Rightarrow> protocol_error" where
  "map_waveform e = protocol_error_new ESourceUnavailable ''waveform source unavailable''
     (json_obj [(''message'', JString (detection_error_text e))]) True"

text \<open>The details name the kind of the I/O error, as the standard library prints it.\<close>

definition map_io :: "(io_kind \<Rightarrow> string) \<Rightarrow> io_error \<Rightarrow> protocol_error" where
  "map_io kind_text e = protocol_error_new ESourceUnavailable ''source unavailable''
     (json_obj [(''kind'', JString (kind_text (io_kind_of e)))]) True"

definition protocol_error_text :: "protocol_error \<Rightarrow> string" where
  "protocol_error_text e = code_str (perr_code e) @ '': '' @ perr_message e"

subsection \<open>The service\<close>

record service =
  srv_runtime :: runtime_config
  srv_limits :: service_config
  srv_current :: waveform
  srv_reopen :: "detection_error + waveform"

record service_env =
  se_out :: output_env
  se_query :: environment
  se_after :: nat
  se_displays :: displays
  se_unit :: "timescale_unit \<Rightarrow> string"
  se_version :: string
  se_uptime :: string
  se_elapsed :: string

definition new_service ::
    "(u64 \<Rightarrow> bool) \<Rightarrow> (io_kind \<Rightarrow> string) \<Rightarrow> runtime_config \<Rightarrow> service_config \<Rightarrow> detection_error + waveform
      \<Rightarrow> detection_error + waveform \<Rightarrow> protocol_error + service" where
  "new_service representable kind_text rt limits opened reopened =
     and_then (map_err (map_io kind_text) (runtime_validate representable rt)) (\<lambda>_.
     and_then (map_err (map_io kind_text) (service_validate limits)) (\<lambda>_.
     and_then (map_err map_waveform opened) (\<lambda>w.
       Inr \<lparr>srv_runtime = rt, srv_limits = limits, srv_current = w, srv_reopen = reopened\<rparr>)))"

text \<open>\<^verbatim>\<open>GenerationSlot::current\<close>: the waveform of the request, and the one the slot holds after it.\<close>

definition slot_current :: "environment \<Rightarrow> service \<Rightarrow> (protocol_error + waveform) \<times> waveform" where
  "slot_current env srv =
     (case wave_validate env (srv_current srv) 0 of
        Inr _ \<Rightarrow> (Inr (srv_current srv), srv_current srv)
      | Inl _ \<Rightarrow>
          (case srv_reopen srv of
             Inl e \<Rightarrow> (Inl (map_waveform e), srv_current srv)
           | Inr w \<Rightarrow> (Inr w, w)))"

definition service_current :: "service_env \<Rightarrow> service \<Rightarrow> (protocol_error, waveform) action" where
  "service_current se srv =
     act_bind (runtime_check (se_out se)) (\<lambda>_.
     act_bind (act_lift (fst (slot_current (se_query se) srv))) (\<lambda>w.
     act_bind (runtime_check (se_out se)) (\<lambda>_.
       act_return w)))"

text \<open>The limits of a request's queries, with the deadline of its runtime context, and of its response.\<close>

definition service_limits ::
    "service_config \<Rightarrow> u64 option \<Rightarrow> u64 option \<Rightarrow> u64 option \<Rightarrow> protocol_error + query_limits \<times> u64" where
  "service_limits c commands rows response =
     and_then (lower_limit ''commands'' commands (sc_max_commands c)) (\<lambda>commands.
     and_then (lower_limit ''rows'' rows (sc_max_rows c)) (\<lambda>rows.
     and_then (lower_limit ''response_bytes'' response (sc_max_response_bytes c)) (\<lambda>response.
     if response < terminal_frame_reserve_bytes
     then Inl (bad_request ''max_response_bytes must reserve at least 4096 terminal bytes'')
     else Inr (with_max_commands commands (with_max_result_bytes response (with_max_rows rows
       (with_max_signals (sc_max_signals c) unlimited))), response))))"

definition query_context ::
    "service \<Rightarrow> u64 option \<Rightarrow> u64 option \<Rightarrow> u64 option \<Rightarrow> (protocol_error, query_limits \<times> u64) action" where
  "query_context srv commands rows response = (\<lambda>sk.
     Some (and_then (service_limits (srv_limits srv) commands rows response) (\<lambda>(q, limit).
       Inr (case sk_deadline sk of Some d \<Rightarrow> with_deadline d q | None \<Rightarrow> q, limit)), sk))"

definition frame_limit :: "service \<Rightarrow> u64" where
  "frame_limit srv = of_nat (rc_max_frame_bytes (srv_runtime srv))"

subsection \<open>Results\<close>

fun optional_json :: "json option \<Rightarrow> json" where
  "optional_json None = JNull"
| "optional_json (Some j) = j"

definition timescale_json :: "(timescale_unit \<Rightarrow> string) \<Rightarrow> timescale option \<Rightarrow> json" where
  "timescale_json disp_unit t = optional_json (map_option (\<lambda>t.
     let w = wire_timescale_of disp_unit t in
     json_obj [(''magnitude'', JString (wt_magnitude w)), (''unit'', JString (wt_unit w))]) t)"

fun wire_value_json :: "wire_value \<Rightarrow> json" where
  "wire_value_json (WInteger t) = json_obj [(''kind'', JString ''integer''), (''text'', JString t)]"
| "wire_value_json (WFloat t b) =
     json_obj [(''kind'', JString ''float''), (''text'', JString t), (''bits'', JString b)]"
| "wire_value_json (WText t) = json_obj [(''kind'', JString ''text''), (''text'', JString t)]"

definition ping_json :: "service_env \<Rightarrow> bool \<Rightarrow> json" where
  "ping_json se ready = json_obj [(''protocol'', JString ''1''), (''package_version'', JString (se_version se)),
     (''uptime_ms'', JString (se_uptime se)), (''ready'', JBool ready)]"

definition metadata_json :: "service_env \<Rightarrow> nat \<times> timescale option \<times> u64 \<times> u64 \<Rightarrow> json" where
  "metadata_json se m = (case m of (count, scale, start, stop) \<Rightarrow>
     json_obj [(''signal_count'', JString (decimal count)), (''timescale'', timescale_json (se_unit se) scale),
       (''start_time'', JString (decimal (unat start))), (''end_time'', JString (decimal (unat stop)))])"

definition row_json :: "displays \<Rightarrow> waveform \<Rightarrow> time_value \<Rightarrow> json" where
  "row_json D w row = json_obj [(''signal'', JString (tv_signal row)),
     (''time'', JString (decimal (unat (tv_time row)))),
     (''width'', JString (decimal (unat (width_or_one (wave_width w) (tv_signal row))))),
     (''value'', wire_value_json (wire_value_of D (tv_value row)))]"

definition find_json :: "displays \<Rightarrow> string \<Rightarrow> time_value option \<times> u32 \<Rightarrow> json" where
  "find_json D sig r = (case r of (event, width) \<Rightarrow>
     json_obj [(''found'', JBool (event \<noteq> None)), (''signal'', JString sig),
       (''time'', optional_json (map_option (\<lambda>ev. JString (decimal (unat (tv_time ev)))) event)),
       (''width'', JString (decimal (unat width))),
       (''value'', optional_json (map_option (\<lambda>ev. wire_value_json (wire_value_of D (tv_value ev))) event))])"

definition toggles_json :: "string list \<Rightarrow> (string \<rightharpoonup> nat) \<Rightarrow> json" where
  "toggles_json signals counts = json_obj [(''rows'', JArray (map (\<lambda>s.
     json_obj [(''toggles'', JString (decimal (case counts s of Some k \<Rightarrow> k | None \<Rightarrow> 0))),
       (''signal'', JString s)]) signals))]"

definition server_limits_json :: "service \<Rightarrow> json" where
  "server_limits_json srv = (let rt = srv_runtime srv; c = srv_limits srv; num = (\<lambda>n. JString (decimal n)) in
     json_obj [(''connections'', num (rc_max_connections rt)),
       (''active_requests_per_connection'', num (rc_max_active rt)),
       (''workers'', num (rc_workers rt)), (''queued_jobs'', num (rc_queue_depth rt)),
       (''output_chunks_per_connection'', num (rc_output_chunks rt)),
       (''request_line_bytes'', num (rc_request_line_bytes rt)),
       (''request_id_bytes'', num max_request_id_bytes),
       (''signals_per_query'', num (sc_max_signals c)), (''response_rows'', num (unat (sc_max_rows c))),
       (''response_bytes'', num (unat (sc_max_response_bytes c))),
       (''commands'', num (unat (sc_max_commands c))), (''timeout_ms'', num (unat (rc_max_timeout_ms rt))),
       (''chunk_rows'', num (unat chunk_rows)), (''chunk_bytes'', num (unat chunk_bytes)),
       (''simultaneous_expensive_scans'', JString ''1'')])"

definition describe_json :: "service_env \<Rightarrow> service \<Rightarrow> waveform \<Rightarrow> json" where
  "describe_json se srv w = json_obj [(''protocol'', JString ''1''),
     (''generation'', JString (decimal (wave_generation w))),
     (''source_format'', JString (format_text (wave_format w))),
     (''signal_count'', JString (decimal (wave_signal_count w))),
     (''timescale'', timescale_json (se_unit se) (wave_timescale w)),
     (''source_size'', JString (decimal (wave_source_size w))), (''immutable_source'', JBool True),
     (''methods'', JArray (map JString [''ping'', ''describe'', ''list'', ''metadata'', ''extract'', ''find'',
        ''toggles'', ''cancel''])),
     (''schemas'', JArray (map JString [''signal_name.v1'', ''time_value.v1''])),
     (''backends'', JArray [JString ''stream'']), (''limits'', server_limits_json srv),
     (''security'', json_obj [(''transport'', JString ''unix''), (''socket_mode'', JString ''0600''),
        (''peer_uid_check'', JBool False)]),
     (''distribution'', json_obj [(''native_serve'', JBool True), (''python_console_serve'', JBool True)])]"

subsection \<open>Streaming rows\<close>

text \<open>
  The errors of \<open>send_rows\<close> inside a visitor become query errors; rows are sent in chunks of 1024.
\<close>

definition send_inside ::
    "output_env \<Rightarrow> stream_output \<Rightarrow> json list \<Rightarrow> (query_error, stream_output) action" where
  "send_inside env st rows = act_map_err (\<lambda>e. Internal (protocol_error_text e)) (send_rows env st rows)"

definition push_row ::
    "output_env \<Rightarrow> stream_output \<times> json list \<Rightarrow> json \<Rightarrow> (query_error, stream_output \<times> json list) action" where
  "push_row env s row = (case s of (st, rows) \<Rightarrow>
     if length (rows @ [row]) = unat chunk_rows
     then act_bind (send_inside env st (rows @ [row])) (\<lambda>st'. act_return (st', []))
     else act_return (st, rows @ [row]))"

definition list_visitor ::
    "output_env \<Rightarrow> string option \<Rightarrow> u64 \<Rightarrow> stream_output \<times> json list \<Rightarrow> string
      \<Rightarrow> (query_error, stream_output \<times> json list) action" where
  "list_visitor env flt rows_limit s name =
     (if (case flt of Some f \<Rightarrow> \<not> contains_str name f | None \<Rightarrow> False) then act_return s
      else if to_rows (fst s) + of_nat (length (snd s)) \<ge> rows_limit
      then act_lift (Inl (LimitExceeded Rows rows_limit (saturating_add rows_limit 1)))
      else push_row env s (JString name))"

text \<open>\<^verbatim>\<open>visit_signal_names\<close> with that visitor; the number is the moment of the next check.\<close>

fun list_loop ::
    "service_env \<Rightarrow> query_limits \<Rightarrow> string option \<Rightarrow> u64 \<Rightarrow> nat \<Rightarrow> string list \<Rightarrow> stream_output \<times> json list
      \<Rightarrow> (query_error, (stream_output \<times> json list) \<times> nat) action" where
  "list_loop se q flt rows_limit n [] s = act_return (s, n)"
| "list_loop se q flt rows_limit n (name # names) s =
     act_bind (act_lift (check (se_query se) q n)) (\<lambda>_.
     act_bind (list_visitor (se_out se) flt rows_limit s name) (\<lambda>s'.
       list_loop se q flt rows_limit (n + 1) names s'))"

definition list_names_visited ::
    "service_env \<Rightarrow> query_limits \<Rightarrow> waveform \<Rightarrow> string option \<Rightarrow> u64 \<Rightarrow> stream_output
      \<Rightarrow> (query_error, stream_output \<times> json list) action" where
  "list_names_visited se q w flt rows_limit st =
     act_bind (list_loop se q flt rows_limit 1 (wave_names w) (st, [])) (\<lambda>(s, n).
     act_bind (act_lift (wave_validate (se_query se) w n)) (\<lambda>_.
     act_bind (act_lift (check (se_query se) q (n + 1))) (\<lambda>_.
       act_return s)))"

text \<open>The visitor of \<open>extract\<close> over the rows of the scan, with the number of rows it has seen.\<close>

fun emit_rows ::
    "service_env \<Rightarrow> waveform \<Rightarrow> time_value list \<Rightarrow> (stream_output \<times> json list) \<times> u64
      \<Rightarrow> (query_error, (stream_output \<times> json list) \<times> u64) action" where
  "emit_rows se w [] s = act_return s"
| "emit_rows se w (row # rest) s =
     act_bind (push_row (se_out se) (fst s) (row_json (se_displays se) w row)) (\<lambda>s'.
       emit_rows se w rest (s', snd s + 1))"

definition stream_changes ::
    "service_env \<Rightarrow> query_limits \<Rightarrow> waveform \<Rightarrow> string list \<Rightarrow> time_window \<Rightarrow> stream_output
      \<Rightarrow> (query_error, (stream_output \<times> json list) \<times> u64) action" where
  "stream_changes se q w targets win st =
     (case wave_rows (se_query se) (se_displays se) q w 1 targets win of
        None \<Rightarrow> (\<lambda>_. None)
      | Some (rows, r) \<Rightarrow>
          act_bind (emit_rows se w rows ((st, []), 0)) (\<lambda>s.
          act_bind (act_lift r) (\<lambda>_. act_return s)))"

definition send_rest ::
    "output_env \<Rightarrow> stream_output \<times> json list \<Rightarrow> (protocol_error, stream_output) action" where
  "send_rest env s = (case s of (st, rows) \<Rightarrow>
     if rows \<noteq> [] then send_rows env st rows else act_return st)"

subsection \<open>The methods\<close>

text \<open>A query that may never return, as an action.\<close>

definition act_query :: "(query_error + 'a) option \<Rightarrow> (protocol_error, 'a) action" where
  "act_query r = (case r of None \<Rightarrow> (\<lambda>_. None) | Some x \<Rightarrow> act_lift (map_err map_query x))"

definition still_wanted :: "output_env \<Rightarrow> (protocol_error, unit) action" where
  "still_wanted env = act_map_err map_query (query_check env)"

definition still_valid :: "service_env \<Rightarrow> waveform \<Rightarrow> (protocol_error, unit) action" where
  "still_valid se w = act_lift (map_err map_query (wave_validate (se_query se) w (se_after se)))"

definition dispatch_ping :: "service_env \<Rightarrow> service \<Rightarrow> string \<Rightarrow> (protocol_error, unit) action" where
  "dispatch_ping se srv i =
     (let ready = (case fst (slot_current (se_query se) srv) of Inr _ \<Rightarrow> True | Inl _ \<Rightarrow> False) in
      send_unary (se_out se) i (ping_json se ready) (sc_max_response_bytes (srv_limits srv)) (frame_limit srv))"

definition dispatch_describe :: "service_env \<Rightarrow> service \<Rightarrow> string \<Rightarrow> (protocol_error, unit) action" where
  "dispatch_describe se srv i =
     act_bind (service_current se srv) (\<lambda>w.
     act_bind (still_valid se w) (\<lambda>_.
       send_unary (se_out se) i (describe_json se srv w) (sc_max_response_bytes (srv_limits srv)) (frame_limit srv)))"

definition dispatch_list ::
    "service_env \<Rightarrow> service \<Rightarrow> string \<Rightarrow> list_params \<Rightarrow> (protocol_error, unit) action" where
  "dispatch_list se srv i p =
     act_bind (query_context srv None (lp_max_rows p) (lp_max_response_bytes p)) (\<lambda>(q, response_limit).
     act_bind (service_current se srv) (\<lambda>w.
     act_bind (stream_begin (se_out se) i ''signal_name.v1'' (wave_generation w) response_limit (frame_limit srv)) (\<lambda>st.
     let rows_limit = (case max_rows q of Some m \<Rightarrow> m | None \<Rightarrow> sc_max_rows (srv_limits srv)) in
     act_bind (act_map_err map_query (list_names_visited se q w (lp_filter p) rows_limit st)) (\<lambda>s.
     act_bind (send_rest (se_out se) s) (\<lambda>st'.
     act_bind (still_valid se w) (\<lambda>_.
     act_bind (still_wanted (se_out se)) (\<lambda>_.
       stream_finish (se_out se) (se_elapsed se) st' 0)))))))"

definition dispatch_metadata ::
    "service_env \<Rightarrow> service \<Rightarrow> string \<Rightarrow> metadata_params \<Rightarrow> (protocol_error, unit) action" where
  "dispatch_metadata se srv i p =
     act_bind (query_context srv (mp_max_commands p) None None) (\<lambda>(q, response_limit).
     act_bind (service_current se srv) (\<lambda>w.
     act_bind (with_expensive_scan (se_out se) (act_query (Some (wave_metadata (se_query se) q w 1)))) (\<lambda>m.
     act_bind (still_wanted (se_out se)) (\<lambda>_.
     act_bind (still_valid se w) (\<lambda>_.
     act_bind (still_wanted (se_out se)) (\<lambda>_.
       send_unary (se_out se) i (metadata_json se m) response_limit (frame_limit srv)))))))"

definition dispatch_extract ::
    "service_env \<Rightarrow> service \<Rightarrow> string \<Rightarrow> extract_params \<Rightarrow> (protocol_error, unit) action" where
  "dispatch_extract se srv i p =
     act_bind (query_context srv (ep_max_commands p) (ep_max_rows p) (ep_max_response_bytes p)) (\<lambda>(q, response_limit).
     act_bind (service_current se srv) (\<lambda>w.
     case find (\<lambda>s. wave_width w s = None) (ep_signals p) of
       Some missing \<Rightarrow> act_lift (Inl (map_query (SignalNotFound missing)))
     | None \<Rightarrow>
         act_bind (stream_begin (se_out se) i ''time_value.v1'' (wave_generation w) response_limit (frame_limit srv)) (\<lambda>st.
         act_bind (with_expensive_scan (se_out se) (act_map_err map_query
           (stream_changes se q w (ep_signals p) \<lparr>win_start = ep_start p, win_end = ep_end p\<rparr> st))) (\<lambda>(s, emitted).
         act_bind (send_rest (se_out se) s) (\<lambda>st'.
           stream_finish (se_out se) (se_elapsed se) st' emitted)))))"

definition dispatch_find ::
    "service_env \<Rightarrow> service \<Rightarrow> string \<Rightarrow> find_params \<Rightarrow> (protocol_error, unit) action" where
  "dispatch_find se srv i p =
     act_bind (query_context srv (fp_max_commands p) None (fp_max_response_bytes p)) (\<lambda>(q, response_limit).
     act_bind (service_current se srv) (\<lambda>w.
     act_bind (with_expensive_scan (se_out se) (act_query
       (wave_find (se_query se) (se_displays se) q w 1 (fp_signal p) (parse_target_value (fp_value p))
         (unat (fp_occurrence p)) \<lparr>win_start = fp_start p, win_end = fp_end p\<rparr>))) (\<lambda>r.
       send_unary (se_out se) i (find_json (se_displays se) (fp_signal p) r) response_limit (frame_limit srv))))"

definition dispatch_toggles ::
    "service_env \<Rightarrow> service \<Rightarrow> string \<Rightarrow> toggles_params \<Rightarrow> (protocol_error, unit) action" where
  "dispatch_toggles se srv i p =
     act_bind (query_context srv (tp_max_commands p) None (tp_max_response_bytes p)) (\<lambda>(q, response_limit).
     act_bind (service_current se srv) (\<lambda>w.
     act_bind (with_expensive_scan (se_out se) (act_query
       (wave_toggles (se_query se) (se_displays se) q w 1 (tp_signals p)
         \<lparr>win_start = tp_start p, win_end = tp_end p\<rparr>))) (\<lambda>counts.
       send_unary (se_out se) i (toggles_json (tp_signals p) counts) response_limit (frame_limit srv))))"

fun dispatch_inner :: "service_env \<Rightarrow> service \<Rightarrow> request \<Rightarrow> (protocol_error, unit) action" where
  "dispatch_inner se srv req =
     (case req_method req of
        MPing \<Rightarrow> dispatch_ping se srv (req_id req)
      | MDescribe \<Rightarrow> dispatch_describe se srv (req_id req)
      | MList p \<Rightarrow> dispatch_list se srv (req_id req) p
      | MMetadata p \<Rightarrow> dispatch_metadata se srv (req_id req) p
      | MExtract p \<Rightarrow> dispatch_extract se srv (req_id req) p
      | MFind p \<Rightarrow> dispatch_find se srv (req_id req) p
      | MToggles p \<Rightarrow> dispatch_toggles se srv (req_id req) p
      | MCancel _ \<Rightarrow> act_lift (Inl (protocol_error_new EInternal
          ''cancel must be handled by the connection runtime'' (json_obj []) False)))"

text \<open>What the worker sees.\<close>

definition job_of :: "(protocol_error, unit) action \<Rightarrow> sink \<Rightarrow> (job_result \<times> sink) option" where
  "job_of m sk = map_option (\<lambda>(r, sk'). (case r of Inr _ \<Rightarrow> JobOk | Inl e \<Rightarrow> JobErr e, sk')) (m sk)"

definition dispatch :: "service_env \<Rightarrow> service \<Rightarrow> request \<Rightarrow> sink \<Rightarrow> (job_result \<times> sink) option" where
  "dispatch se srv req = job_of (dispatch_inner se srv req)"

subsection \<open>The service only sends\<close>

lemma only_sends_parts [intro!]:
  "only_sends env (send_inside env st rows)"
  "only_sends env (push_row env s row)"
  "only_sends env (list_visitor env flt l s name)"
  "only_sends env (send_rest env s)"
  "only_sends env (act_query res)"
  "only_sends env (still_wanted env)"
  "only_sends env (still_valid se w)"
  "only_sends env (query_context srv c r b)"
proof -
  show inside: "only_sends env (send_inside env st rows)" for st rows by (auto simp: send_inside_def)
  show push: "only_sends env (push_row env s row)" for s row
    by (auto simp: push_row_def inside split: prod.split)
  show "only_sends env (list_visitor env flt l s name)" by (auto simp: list_visitor_def push)
  show "only_sends env (send_rest env s)" by (auto simp: send_rest_def split: prod.split)
  show "only_sends env (act_query res)" by (auto simp: act_query_def only_sends_def act_lift_def intro: sends_refl split: option.splits)
  show "only_sends env (still_wanted env)" by (auto simp: still_wanted_def)
  show "only_sends env (still_valid se w)" by (auto simp: still_valid_def)
  show "only_sends env (query_context srv c r b)"
    by (auto simp: only_sends_def query_context_def intro: sends_refl)
qed

lemma only_sends_current [intro!]: "only_sends (se_out se) (service_current se srv)"
  by (auto simp: service_current_def)

lemma only_sends_list [intro!]: "only_sends (se_out se) (list_loop se q flt l n names s)"
  by (induction se q flt l n names s rule: list_loop.induct) (auto intro!: only_sends_bind simp: split_paired_all)

lemma only_sends_visited [intro!]: "only_sends (se_out se) (list_names_visited se q w flt l st)"
  by (auto simp: list_names_visited_def intro!: only_sends_bind split: prod.split)

lemma only_sends_emit [intro!]: "only_sends (se_out se) (emit_rows se w rows s)"
  by (induction se w rows s rule: emit_rows.induct) auto

lemma only_sends_changes [intro!]: "only_sends (se_out se) (stream_changes se q w targets win st)"
  by (auto simp: stream_changes_def only_sends_def [of _ "\<lambda>_. None"] split: option.split)

lemma dispatch_only_sends: "only_sends (se_out se) (dispatch_inner se srv req)"
  by (auto simp: dispatch_ping_def dispatch_describe_def dispatch_list_def dispatch_metadata_def
      dispatch_extract_def dispatch_find_def dispatch_toggles_def Let_def
      intro!: only_sends_bind only_sends_map_err only_sends_scan split: request_method.split prod.split option.split)

interpretation service: dispatcher "se_out se" "dispatch se srv req" for se srv req
  by unfold_locales
    (use dispatch_only_sends [of se srv req] in \<open>auto simp: dispatch_def job_of_def only_sends_def\<close>)

end
