(* ===== verification/Service_Streams.thy ===== *)
theory Service_Streams
  imports Service
begin

text \<open>
  What the dispatcher of the service achieves: the rows that \<^verbatim>\<open>list\<close> and \<^verbatim>\<open>extract\<close> deliver, that
  every method returns when time passes, and the complete response of every job.
\<close>

subsection \<open>The rows of a stream\<close>

text \<open>Frames of at most 1024 rows, within the frame limit, that leave room for the end frame.\<close>

definition streamed :: "output_env \<Rightarrow> stream_output \<Rightarrow> sink \<Rightarrow> json list \<Rightarrow> sink \<Rightarrow> bool" where
  "streamed env st sk rows sk' \<longleftrightarrow>
     same_sink sk sk' \<and>
     (\<exists>fs. sk_sent sk' = sk_sent sk @ fs \<and> delivered_rows fs = rows \<and>
        (\<forall>f \<in> set fs. length (frame_rows f) \<le> 1024 \<and> frame_len env f \<le> unat (to_frame_limit st))) \<and>
     total_len env (sk_sent sk') + 4096 \<le> unat (to_response_limit st) \<and>
     (\<exists>n. sk_lifecycle sk' = Streaming n)"

lemma streamed_nothing: "stream_inv env st sk \<Longrightarrow> streamed env st sk [] sk"
  by (simp add: streamed_def stream_inv_def)

lemma streamed_sent:
  assumes "sent_rows env st sk rows sk'" and "length rows \<le> 1024"
  shows "streamed env st sk rows sk'"
proof -
  obtain fs where fs: "sk_sent sk' = sk_sent sk @ fs" "delivered_rows fs = rows"
      "\<forall>f \<in> set fs. length (frame_rows f) \<le> length rows \<and> frame_len env f \<le> unat (to_frame_limit st)"
    using assms(1) by (auto simp: sent_rows_def)
  then have "\<forall>f \<in> set fs. length (frame_rows f) \<le> 1024 \<and> frame_len env f \<le> unat (to_frame_limit st)"
    using assms(2) by fastforce
  with fs assms(1) show ?thesis by (auto simp: sent_rows_def streamed_def)
qed

lemma streamed_trans:
  assumes "streamed env st sk xs sk1" and "streamed env st1 sk1 ys sk2" and "same_limits st st1"
  shows "streamed env st sk (xs @ ys) sk2"
proof -
  obtain fs where fs: "sk_sent sk1 = sk_sent sk @ fs" "delivered_rows fs = xs"
      "\<forall>f \<in> set fs. length (frame_rows f) \<le> 1024 \<and> frame_len env f \<le> unat (to_frame_limit st)"
    using assms(1) by (auto simp: streamed_def)
  obtain gs where gs: "sk_sent sk2 = sk_sent sk1 @ gs" "delivered_rows gs = ys"
      "\<forall>f \<in> set gs. length (frame_rows f) \<le> 1024 \<and> frame_len env f \<le> unat (to_frame_limit st)"
    using assms(2,3) by (auto simp: streamed_def same_limits_def)
  have "\<forall>f \<in> set (fs @ gs). length (frame_rows f) \<le> 1024 \<and> frame_len env f \<le> unat (to_frame_limit st)"
    using fs(3) gs(3) by auto
  moreover have "sk_sent sk2 = sk_sent sk @ (fs @ gs)" "delivered_rows (fs @ gs) = xs @ ys"
    using fs gs by simp_all
  moreover have "same_sink sk sk2"
    using assms(1,2) by (auto simp: streamed_def intro: same_sink_trans)
  moreover have "total_len env (sk_sent sk2) + 4096 \<le> unat (to_response_limit st)"
      and "\<exists>n. sk_lifecycle sk2 = Streaming n"
    using assms(2,3) by (simp_all add: streamed_def same_limits_def)
  ultimately show ?thesis unfolding streamed_def by blast
qed

text \<open>
  \<open>pushed\<close>: the pending rows and the given ones, in order, were sent up to some point; after a
  success, all but the rows that are pending now.
\<close>

definition pushed ::
    "output_env \<Rightarrow> stream_output \<times> json list \<Rightarrow> sink \<Rightarrow> json list
      \<Rightarrow> 'e + stream_output \<times> json list \<Rightarrow> sink \<Rightarrow> bool" where
  "pushed env s sk rows r sk' \<longleftrightarrow>
     (\<exists>pre. prefix pre (snd s @ rows) \<and> streamed env (fst s) sk pre sk' \<and>
       (\<forall>s'. r = Inr s' \<longrightarrow> pre @ snd s' = snd s @ rows \<and> length (snd s') < 1024 \<and>
          stream_inv env (fst s') sk' \<and> same_limits (fst s) (fst s')))"

lemma same_limits_refl [simp]: "same_limits st st"
  by (simp add: same_limits_def)

lemma same_limits_trans: "same_limits a b \<Longrightarrow> same_limits b c \<Longrightarrow> same_limits a c"
  by (simp add: same_limits_def)

lemma pushed_nothing: "stream_inv env (fst s) sk \<Longrightarrow> length (snd s) < 1024 \<Longrightarrow> pushed env s sk [] (Inr s) sk"
  by (auto simp: pushed_def intro!: exI [of _ "[]"] streamed_nothing)

lemma pushed_failed: "stream_inv env (fst s) sk \<Longrightarrow> pushed env s sk rows (Inl e) sk"
  by (auto simp: pushed_def intro!: exI [of _ "[]"] streamed_nothing)

lemma pushed_more: "pushed env s sk rows r sk' \<Longrightarrow> pushed env s sk (rows @ rest) (Inl e') sk'"
  unfolding pushed_def by (metis Inl_Inr_False append.assoc prefix_prefix)

lemma pushed_trans:
  assumes "pushed env s sk xs (Inr s1) sk1" and "pushed env s1 sk1 ys r sk2"
  shows "pushed env s sk (xs @ ys) r sk2"
proof -
  obtain pre where pre: "streamed env (fst s) sk pre sk1" "pre @ snd s1 = snd s @ xs" "same_limits (fst s) (fst s1)"
    using assms(1) by (auto simp: pushed_def)
  obtain pre' where pre': "prefix pre' (snd s1 @ ys)" "streamed env (fst s1) sk1 pre' sk2"
      "\<forall>s'. r = Inr s' \<longrightarrow> pre' @ snd s' = snd s1 @ ys \<and> length (snd s') < 1024 \<and>
          stream_inv env (fst s') sk2 \<and> same_limits (fst s1) (fst s')"
    using assms(2) by (auto simp: pushed_def)
  have all: "pre @ snd s1 @ ys = snd s @ xs @ ys" using pre(2) by (metis append.assoc)
  have "prefix (pre @ pre') (snd s @ xs @ ys)"
    using pre'(1) by (simp flip: all)
  moreover have "streamed env (fst s) sk (pre @ pre') sk2" by (rule streamed_trans [OF pre(1) pre'(2) pre(3)])
  moreover have "(pre @ pre') @ snd s' = snd s @ xs @ ys \<and> length (snd s') < 1024 \<and>
      stream_inv env (fst s') sk2 \<and> same_limits (fst s) (fst s')" if "r = Inr s'" for s'
    using pre'(3) that all same_limits_trans [OF pre(3)] by simp
  ultimately show ?thesis unfolding pushed_def by (intro exI [of _ "pre @ pre'"]) blast
qed

lemma push_row_result:
  assumes inv: "stream_inv env (fst s) sk" "length (snd s) < 1024"
    and run: "push_row env s row sk = Some (r, sk')"
  shows "pushed env s sk [row] r sk'"
proof (cases "length (snd s) = 1023")
  case True
  with run have chunk: "act_bind (send_inside env (fst s) (snd s @ [row])) (\<lambda>st'. act_return (st', [])) sk = Some (r, sk')"
    by (cases s) (simp add: push_row_def chunk_rows_def)
  obtain x where x: "send_rows env (fst s) (snd s @ [row]) sk = Some (x, sk')"
      "r = (case x of Inl e \<Rightarrow> Inl (Internal (protocol_error_text e)) | Inr st' \<Rightarrow> Inr (st', []))"
  proof (cases "send_rows env (fst s) (snd s @ [row]) sk")
    case None
    with chunk show ?thesis by (simp add: act_bind_def send_inside_def act_map_err_def)
  next
    case (Some out)
    with chunk that show ?thesis
      by (cases out; cases "fst out") (auto simp: act_bind_def send_inside_def act_map_err_def act_return_def)
  qed
  obtain pre where pre: "prefix pre (snd s @ [row])" "sent_rows env (fst s) sk pre sk'"
      "\<forall>st'. x = Inr st' \<longrightarrow> pre = snd s @ [row] \<and> stream_inv env st' sk' \<and> same_limits (fst s) st'"
    using send_rows_result [OF inv(1) x(1)] by blast
  have "length pre \<le> 1024" using prefix_length_le [OF pre(1)] True by simp
  with streamed_sent [OF pre(2)] pre x(2) show ?thesis
    unfolding pushed_def by (intro exI [of _ pre]) (auto split: sum.splits)
next
  case False
  with run have "r = Inr (fst s, snd s @ [row])" "sk' = sk"
    by (cases s; simp add: push_row_def chunk_rows_def act_return_def)+
  with inv False streamed_nothing [OF inv(1)] show ?thesis
    unfolding pushed_def by (intro exI [of _ "[]"]) auto
qed

lemma emit_rows_result:
  assumes "emit_rows se w rows s sk = Some (r, sk')"
    and "stream_inv (se_out se) (fst (fst s)) sk" and "length (snd (fst s)) < 1024"
  shows "pushed (se_out se) (fst s) sk (map (row_json (se_displays se) w) rows) (map_sum (\<lambda>e. e) fst r) sk'"
  using assms
proof (induction se w rows s arbitrary: sk rule: emit_rows.induct)
  case (1 se w s)
  then show ?case by (auto simp: act_simps intro: pushed_nothing)
next
  case (2 se w row rest s)
  let ?env = "se_out se" and ?row = "row_json (se_displays se) w row"
  from 2(2) consider
      (failed) e where "push_row ?env (fst s) ?row sk = Some (Inl e, sk')" "r = Inl e"
    | (on) s1 sk1 where "push_row ?env (fst s) ?row sk = Some (Inr s1, sk1)"
        "emit_rows se w rest (s1, snd s + 1) sk1 = Some (r, sk')"
    by (auto simp: act_simps)
  then show ?case
  proof cases
    case failed
    with pushed_more [OF push_row_result [OF 2(3,4) failed(1)]] show ?thesis by simp
  next
    case on
    note one = push_row_result [OF 2(3,4) on(1)]
    then have "stream_inv ?env (fst s1) sk1" "length (snd s1) < 1024" by (auto simp: pushed_def)
    then have "pushed ?env s1 sk1 (map (row_json (se_displays se) w) rest) (map_sum (\<lambda>e. e) fst r) sk'"
      using 2(1) [OF on(2)] by simp
    from pushed_trans [OF one this] show ?thesis by simp
  qed
qed

definition matching :: "string option \<Rightarrow> string \<Rightarrow> bool" where
  "matching flt name \<longleftrightarrow> (case flt of Some f \<Rightarrow> contains_str name f | None \<Rightarrow> True)"

lemma list_names_matching: "list_names names flt = filter (matching flt) names"
  by (cases flt) (simp_all add: list_names_def matching_def [abs_def])

lemma list_visitor_result:
  assumes "stream_inv env (fst s) sk" "length (snd s) < 1024"
    and "list_visitor env flt l s name sk = Some (r, sk')"
  shows "pushed env s sk (if matching flt name then [JString name] else []) r sk'"
proof (cases "matching flt name")
  case True
  with assms push_row_result [OF assms(1,2), of "JString name" r sk'] pushed_failed [OF assms(1)] show ?thesis
    by (auto simp: list_visitor_def matching_def act_simps split: if_splits option.splits)
next
  case False
  with assms pushed_nothing [OF assms(1,2)] show ?thesis
    by (auto simp: list_visitor_def matching_def act_simps split: option.splits)
qed

lemma list_loop_result:
  assumes "list_loop se q flt l n names s sk = Some (r, sk')"
    and "stream_inv (se_out se) (fst s) sk" and "length (snd s) < 1024"
  shows "pushed (se_out se) s sk (map JString (filter (matching flt) names)) (map_sum (\<lambda>e. e) fst r) sk'"
  using assms
proof (induction se q flt l n names s arbitrary: sk rule: list_loop.induct)
  case (1 se q flt l n s)
  then show ?case by (auto simp: act_simps intro: pushed_nothing)
next
  case (2 se q flt l n name names s)
  let ?env = "se_out se" and ?one = "if matching flt name then [JString name] else []"
  let ?rest = "map JString (filter (matching flt) names)"
  have split: "map JString (filter (matching flt) (name # names)) = ?one @ ?rest" by simp
  from 2(2) consider
      (checked) e where "r = Inl e" "sk' = sk"
    | (failed) e where "list_visitor ?env flt l s name sk = Some (Inl e, sk')" "r = Inl e"
    | (on) s1 sk1 where "list_visitor ?env flt l s name sk = Some (Inr s1, sk1)"
        "list_loop se q flt l (n + 1) names s1 sk1 = Some (r, sk')"
    by (auto simp: act_simps)
  then show ?case
  proof cases
    case checked
    show ?thesis unfolding checked by (simp only: map_sum.simps pushed_failed [OF 2(3)])
  next
    case failed
    with pushed_more [OF list_visitor_result [OF 2(3,4) failed(1)], of ?rest e] show ?thesis
      unfolding split by simp
  next
    case on
    note one = list_visitor_result [OF 2(3,4) on(1)]
    then have "stream_inv ?env (fst s1) sk1" "length (snd s1) < 1024" by (auto simp: pushed_def)
    then have "pushed ?env s1 sk1 ?rest (map_sum (\<lambda>e. e) fst r) sk'"
      using 2(1) [OF on(2)] by simp
    from pushed_trans [OF one this] show ?thesis unfolding split .
  qed
qed

lemma changes_result:
  assumes "stream_changes se q w targets win st sk = Some (r, sk')" and "stream_inv (se_out se) st sk"
  shows "pushed (se_out se) (st, []) sk
    (map (row_json (se_displays se) w) (wave_requested (se_displays se) w targets win)) (map_sum (\<lambda>e. e) fst r) sk'"
proof -
  let ?env = "se_out se" and ?row = "row_json (se_displays se) w"
  obtain rows res where rows: "wave_rows (se_query se) (se_displays se) q w 1 targets win = Some (rows, res)"
      "prefix rows (wave_requested (se_displays se) w targets win)"
      "res = Inr () \<longrightarrow> rows = wave_requested (se_displays se) w targets win"
    using wave_rows_result by blast
  obtain zs where zs: "wave_requested (se_displays se) w targets win = rows @ zs"
    using rows(2) by (rule prefixE)
  have emit: "pushed ?env (st, []) sk (map ?row rows) (map_sum (\<lambda>e. e) fst x) sk1"
    if "emit_rows se w rows ((st, []), 0) sk = Some (x, sk1)" for x sk1
    using emit_rows_result [OF that] assms(2) by simp
  from assms(1) rows(1) consider
      (failed) e where "emit_rows se w rows ((st, []), 0) sk = Some (Inl e, sk')" "r = Inl e"
    | (ended) s where "emit_rows se w rows ((st, []), 0) sk = Some (Inr s, sk')"
        "(case res of Inl e \<Rightarrow> r = Inl e | Inr _ \<Rightarrow> r = Inr s)"
    by (cases res) (auto simp: stream_changes_def act_simps)
  then show ?thesis
  proof cases
    case failed
    with pushed_more [OF emit [OF failed(1)], of "map ?row zs" e] zs show ?thesis by simp
  next
    case ended
    show ?thesis
    proof (cases res)
      case (Inl e)
      with ended pushed_more [OF emit [OF ended(1)], of "map ?row zs" e] zs show ?thesis by simp
    next
      case (Inr u)
      with ended emit [OF ended(1)] rows(3) show ?thesis by simp
    qed
  qed
qed

lemma visited_result:
  assumes "list_names_visited se q w flt l st sk = Some (r, sk')" and "stream_inv (se_out se) st sk"
  shows "pushed (se_out se) (st, []) sk (map JString (wave_list_signals w flt)) r sk'"
proof -
  let ?rows = "map JString (wave_list_signals w flt)"
  have loop: "pushed (se_out se) (st, []) sk ?rows (map_sum (\<lambda>e. e) fst x) sk1"
    if "list_loop se q flt l 1 (wave_names w) (st, []) sk = Some (x, sk1)" for x sk1
    using list_loop_result [OF that] assms(2) by (simp add: wave_list_signals_def list_names_matching)
  from assms(1) consider
      (failed) e x where "list_loop se q flt l 1 (wave_names w) (st, []) sk = Some (x, sk')" "r = Inl e"
    | (ended) s n where "list_loop se q flt l 1 (wave_names w) (st, []) sk = Some (Inr (s, n), sk')" "r = Inr s"
    by (auto simp: list_names_visited_def act_simps split: prod.splits)
  then show ?thesis
  proof cases
    case failed
    with pushed_more [OF loop [OF failed(1)], of "[]" e] show ?thesis by simp
  next
    case ended
    with loop [OF ended(1)] show ?thesis by simp
  qed
qed

text \<open>Steps that send nothing.\<close>

definition idle :: "sink \<Rightarrow> sink \<Rightarrow> bool" where
  "idle sk sk' \<longleftrightarrow> same_sink sk sk' \<and> sk_sent sk' = sk_sent sk \<and> sk_lifecycle sk' = sk_lifecycle sk"

lemma idle_refl [simp]: "idle sk sk"
  by (simp add: idle_def)

lemma idle_trans: "idle a b \<Longrightarrow> idle b c \<Longrightarrow> idle a c"
  by (auto simp: idle_def intro: same_sink_trans)

lemma idle_tick [simp]: "idle sk (sk\<lparr>sk_tick := Suc (sk_tick sk)\<rparr>)"
  by (simp add: idle_def same_sink_def)

lemma idle_stream_inv: "idle sk sk' \<Longrightarrow> stream_inv env st sk \<Longrightarrow> stream_inv env st sk'"
  by (simp add: idle_def stream_inv_def same_sink_def)

lemma gate_idle: "gate_acquire env sk = Some (r, sk') \<Longrightarrow> idle sk sk'"
proof -
  assume run: "gate_acquire env sk = Some (r, sk')"
  show "idle sk sk'"
  proof (rule gate_acquire.raw_induct [of "\<lambda>env sk out. idle sk (snd out)" env sk "(r, sk')", OF _ run, unfolded snd_conv])
    fix loop :: "output_env \<Rightarrow> sink \<Rightarrow> ((protocol_error + unit) \<times> sink) option"
      and env and sk :: sink and out :: "(protocol_error + unit) \<times> sink"
    let ?sk = "sk\<lparr>sk_tick := sk_tick sk + 1\<rparr>"
    assume IH: "\<And>env sk out. loop env sk = Some out \<Longrightarrow> idle sk (snd out)"
      and step: "(let p = oe_poll env (sk_tick sk); sk' = ?sk in
        case request_check (sk_deadline sk) p of
          Inl e \<Rightarrow> Some (Inl e, sk')
        | Inr _ \<Rightarrow> if sp_held p then loop env sk' else Some (Inr (), sk')) = Some out"
    have tick: "idle sk ?sk" by simp
    from step show "idle sk (snd out)"
      using tick idle_trans [OF tick IH]
      by (auto simp: Let_def split: sum.splits if_splits)
  qed
qed

lemma checks_idle:
  "still_wanted env sk = Some (x, sk') \<Longrightarrow> idle sk sk'"
  "still_valid se w sk = Some (x, sk') \<Longrightarrow> idle sk sk'"
  by (auto simp: still_wanted_def still_valid_def query_check_def Let_def act_simps)

lemma service_current_result:
  assumes "service_current se srv sk = Some (r, sk')"
  shows "idle sk sk' \<and> (\<forall>w. r = Inr w \<longrightarrow> fst (slot_current (se_query se) srv) = Inr w)"
proof -
  have check: "idle s s'" if "runtime_check env s = Some (x, s')" for env s x s'
    using that by (auto simp: runtime_check_def)
  from assms show ?thesis
    by (auto simp: service_current_def act_simps dest!: check intro: idle_trans)
qed

text \<open>The rows that were sent after the begin frame.\<close>

definition rows_sent ::
    "output_env \<Rightarrow> stream_output \<Rightarrow> sink \<Rightarrow> json list \<Rightarrow> 'e + stream_output \<Rightarrow> sink \<Rightarrow> bool" where
  "rows_sent env st sk rows r sk' \<longleftrightarrow>
     (\<exists>pre. prefix pre rows \<and> streamed env st sk pre sk' \<and>
       (\<forall>st'. r = Inr st' \<longrightarrow> pre = rows \<and> stream_inv env st' sk' \<and> same_limits st st'))"

lemma pushed_rows_sent: "pushed env (st, []) sk rows r sk' \<Longrightarrow> rows_sent env st sk rows (Inl e) sk'"
  by (auto simp: pushed_def rows_sent_def)

lemma send_rest_result:
  assumes "pushed env (st, []) sk rows (Inr s) sk1" and "send_rest env s sk1 = Some (r, sk2)"
  shows "rows_sent env st sk rows r sk2"
proof -
  obtain pre where pre: "streamed env st sk pre sk1" "pre @ snd s = rows" "length (snd s) < 1024"
      "stream_inv env (fst s) sk1" "same_limits st (fst s)"
    using assms(1) by (auto simp: pushed_def)
  have "send_rest env s = send_rows env (fst s) (snd s)"
    by (cases s) (simp add: send_rest_def send_rows_def)
  then have run: "send_rows env (fst s) (snd s) sk1 = Some (r, sk2)" using assms(2) by simp
  obtain mid where mid: "prefix mid (snd s)" "sent_rows env (fst s) sk1 mid sk2"
      "\<forall>st'. r = Inr st' \<longrightarrow> mid = snd s \<and> stream_inv env st' sk2 \<and> same_limits (fst s) st'"
    using send_rows_result [OF pre(4) run] by blast
  have "streamed env (fst s) sk1 mid sk2"
    using streamed_sent [OF mid(2)] prefix_length_le [OF mid(1)] pre(3) by simp
  from streamed_trans [OF pre(1) this pre(5)] have "streamed env st sk (pre @ mid) sk2" .
  moreover have "prefix (pre @ mid) rows" using mid(1) by (simp flip: pre(2))
  moreover have "pre @ mid = rows \<and> stream_inv env st' sk2 \<and> same_limits st st'" if "r = Inr st'" for st'
    using mid(3) that pre(2) same_limits_trans [OF pre(5)] by simp
  ultimately show ?thesis unfolding rows_sent_def by blast
qed

text \<open>
  What a response that should stream \<open>rows\<close> has delivered, given how the dispatcher ended.
\<close>

definition streams_rows ::
    "output_env \<Rightarrow> u64 \<Rightarrow> json list \<Rightarrow> protocol_error + unit \<Rightarrow> sink \<Rightarrow> bool" where
  "streams_rows env limit rows r sk \<longleftrightarrow>
     prefix (delivered_rows (sk_sent sk)) rows \<and>
     (\<forall>f \<in> set (sk_sent sk). length (frame_rows f) \<le> 1024) \<and>
     total_len env (sk_sent sk) \<le> unat limit \<and>
     (case r of
        Inl _ \<Rightarrow> sk_lifecycle sk \<noteq> Terminal
      | Inr _ \<Rightarrow> delivered_rows (sk_sent sk) = rows \<and>
          (\<exists>fs e. sk_sent sk = fs @ [FEnd e] \<and> nf_complete e))"

lemma streams_nothing:
  "sk_sent sk = [] \<Longrightarrow> sk_lifecycle sk = NotStarted \<Longrightarrow> streams_rows env limit rows (Inl e) sk"
  by (simp add: streams_rows_def total_len_def)

text \<open>The begin frame carries no rows.\<close>

definition begun :: "output_env \<Rightarrow> u64 \<Rightarrow> stream_output \<Rightarrow> sink \<Rightarrow> bool" where
  "begun env limit st sk \<longleftrightarrow> stream_inv env st sk \<and> to_response_limit st = limit \<and>
     (\<exists>b. sk_sent sk = [FBegin b])"

lemma streams_stopped:
  assumes "begun env limit st sk" and "rows_sent env st sk rows x sk'" and "idle sk' sk2"
  shows "streams_rows env limit rows (Inl e) sk2"
proof -
  obtain b where b: "sk_sent sk = [FBegin b]" using assms(1) by (auto simp: begun_def)
  obtain pre where pre: "prefix pre rows" "streamed env st sk pre sk'"
    using assms(2) by (auto simp: rows_sent_def)
  then obtain fs n where fs: "sk_sent sk' = FBegin b # fs" "delivered_rows fs = pre"
      "\<forall>f \<in> set fs. length (frame_rows f) \<le> 1024" "sk_lifecycle sk' = Streaming n"
    using b by (auto simp: streamed_def)
  have "delivered_rows (sk_sent sk') = pre" using fs(1,2) by (simp add: delivered_rows_def)
  moreover have "total_len env (sk_sent sk') \<le> unat limit"
    using pre(2) assms(1) by (simp add: streamed_def begun_def)
  ultimately show ?thesis using pre(1) fs assms(3) by (simp add: streams_rows_def idle_def)
qed

lemma streams_finished:
  assumes "begun env limit st sk" and "rows_sent env st sk rows (Inr st') sk'" and "idle sk' sk2"
    and "stream_finish env elapsed st' commands sk2 = Some (r, sk3)"
  shows "streams_rows env limit rows r sk3"
proof -
  obtain b where b: "sk_sent sk = [FBegin b]" using assms(1) by (auto simp: begun_def)
  have sent: "streamed env st sk rows sk'" "stream_inv env st' sk'" "same_limits st st'"
    using assms(2) by (auto simp: rows_sent_def)
  then obtain fs n where fs: "sk_sent sk' = FBegin b # fs" "delivered_rows fs = rows"
      "\<forall>f \<in> set fs. length (frame_rows f) \<le> 1024" "sk_lifecycle sk' = Streaming n"
    using b by (auto simp: streamed_def)
  have rows: "delivered_rows (sk_sent sk2) = rows" "\<forall>f \<in> set (sk_sent sk2). length (frame_rows f) \<le> 1024"
    using fs assms(3) by (simp_all add: delivered_rows_def idle_def)
  have limit: "to_response_limit st' = limit" using sent(3) assms(1) by (simp add: same_limits_def begun_def)
  note fin = stream_finish_result [OF idle_stream_inv [OF assms(3) sent(2)] assms(4)]
  show ?thesis
  proof (cases r)
    case (Inl e)
    with fin have same: "sk_sent sk3 = sk_sent sk2" "sk_lifecycle sk3 = sk_lifecycle sk2" by simp_all
    have "total_len env (sk_sent sk2) \<le> unat limit"
      using idle_stream_inv [OF assms(3) sent(2)] limit by (simp add: stream_inv_def)
    with same rows fs(4) assms(3) Inl show ?thesis by (simp add: streams_rows_def idle_def)
  next
    case (Inr u)
    with fin obtain e where e: "sk_sent sk3 = sk_sent sk2 @ [FEnd e]" "nf_complete e"
        "total_len env (sk_sent sk3) \<le> unat limit"
      using limit by auto
    with rows Inr show ?thesis by (auto simp: streams_rows_def delivered_rows_def)
  qed
qed

lemma service_limits_result:
  assumes "service_limits c commands rows response = Inr (q, limit)" and "service_validate c = Inr ()"
  shows "limit = (case response of Some r \<Rightarrow> r | None \<Rightarrow> sc_max_response_bytes c) \<and>
    limit \<le> sc_max_response_bytes c \<and> limit < - 1"
proof -
  have "limit = (case response of Some r \<Rightarrow> r | None \<Rightarrow> sc_max_response_bytes c)"
      and le: "limit \<le> sc_max_response_bytes c"
    using assms(1) by (auto simp: service_limits_def lower_limit_def and_then_eq_Inr Let_def split: if_splits)
  moreover have max: "sc_max_response_bytes c \<le> 1073741824"
    using assms(2) by (auto simp: service_validate_def split: if_splits)
  have "limit \<le> 1073741824" using le max by (rule order_trans)
  then have "limit < - 1" by (rule order_le_less_trans) simp
  ultimately show ?thesis using le by simp
qed

lemma frame_limit_positive: "runtime_validate rep (srv_runtime srv) = Inr () \<Longrightarrow> 0 < frame_limit srv"
proof -
  assume "runtime_validate rep (srv_runtime srv) = Inr ()"
  then have "4096 \<le> rc_max_frame_bytes (srv_runtime srv)" "rc_max_frame_bytes (srv_runtime srv) \<le> 262144"
    by (auto simp: runtime_validate_def terminal_frame_reserve_bytes_def chunk_bytes_def split: if_splits)
  then have "0 < unat (frame_limit srv)" by (simp add: frame_limit_def unat_of_nat64)
  then show ?thesis by (simp add: word_less_nat_alt)
qed

lemma begun_idle: "idle sk sk' \<Longrightarrow> begun env limit st sk \<Longrightarrow> begun env limit st sk'"
  by (auto simp: begun_def idle_stream_inv) (simp add: idle_def)

lemma begun_rows_sent: "begun env limit st sk \<Longrightarrow> rows_sent env st sk rows (Inl e) sk"
  using streamed_nothing [of env st sk] unfolding rows_sent_def begun_def by (intro exI [of _ "[]"]) simp

lemma begin_streams:
  assumes "stream_begin env (sk_id sk) schema generation limit frames sk = Some (x, sk')"
    and "sk_lifecycle sk = NotStarted" and "sk_sent sk = []" and "limit < - 1" and "0 < frames"
  shows "case x of Inr st \<Rightarrow> begun env limit st sk' | Inl e \<Rightarrow> streams_rows env limit rows (Inl e') sk'"
  using stream_begin_result [OF assms] streams_nothing [of sk']
  by (cases x) (auto simp: begun_def)

text \<open>What is common to the streaming methods before their stream.\<close>

definition starting :: "service_env \<Rightarrow> service \<Rightarrow> u64 option \<Rightarrow> sink \<Rightarrow> u64 \<Rightarrow> waveform \<Rightarrow> sink \<Rightarrow> bool" where
  "starting se srv requested sk limit w sk' \<longleftrightarrow> idle sk sk' \<and>
     limit = (case requested of Some r \<Rightarrow> r | None \<Rightarrow> sc_max_response_bytes (srv_limits srv)) \<and> limit < - 1 \<and>
     fst (slot_current (se_query se) srv) = Inr w"

lemma start_cases:
  assumes run: "act_bind (query_context srv c l b) (\<lambda>(q, limit).
      act_bind (service_current se srv) (\<lambda>w. k q limit w)) sk = Some (r, sk')"
    and ok: "service_validate (srv_limits srv) = Inr ()"
  shows "(\<exists>e. r = Inl e \<and> idle sk sk') \<or>
    (\<exists>q limit w sk1. starting se srv b sk limit w sk1 \<and> k q limit w sk1 = Some (r, sk'))"
proof -
  from run consider (failed) e where "r = Inl e" "sk' = sk"
    | (on) q limit where "service_limits (srv_limits srv) c l b = Inr (q, limit)"
        "\<exists>q'. act_bind (service_current se srv) (\<lambda>w. k q' limit w) sk = Some (r, sk')"
    by (fastforce simp: act_bind_eq query_context_def and_then_eq_Inr and_then_eq_Inl)
  then show ?thesis
  proof cases
    case on
    note limit = service_limits_result [OF on(1) ok]
    from on(2) obtain q' where "act_bind (service_current se srv) (\<lambda>w. k q' limit w) sk = Some (r, sk')" by blast
    then consider (failed) e where "service_current se srv sk = Some (Inl e, sk')" "r = Inl e"
      | (w) w sk1 where "service_current se srv sk = Some (Inr w, sk1)" "k q' limit w sk1 = Some (r, sk')"
      by (auto simp: act_bind_eq)
    then show ?thesis
    proof cases
      case failed
      with service_current_result [OF failed(1)] show ?thesis by simp
    next
      case w
      with service_current_result [OF w(1)] limit have "starting se srv b sk limit w sk1"
        unfolding starting_def by blast
      with w(2) show ?thesis by blast
    qed
  qed simp
qed

text \<open>The rows of a streaming request, and the byte limit it asks for.\<close>

definition stream_of ::
    "service_env \<Rightarrow> waveform \<Rightarrow> request_method \<Rightarrow> (json list \<times> u64 option) option" where
  "stream_of se w m = (case m of
     MExtract p \<Rightarrow> Some (map (row_json (se_displays se) w) (wave_requested (se_displays se) w (ep_signals p)
       \<lparr>win_start = ep_start p, win_end = ep_end p\<rparr>), ep_max_response_bytes p)
   | MList p \<Rightarrow> Some (map JString (wave_list_signals w (lp_filter p)), lp_max_response_bytes p)
   | _ \<Rightarrow> None)"

lemma act_map_err_results:
  "act_map_err g m sk = Some (Inl e, sk') \<longleftrightarrow> (\<exists>e'. m sk = Some (Inl e', sk') \<and> e = g e')"
  "act_map_err g m sk = Some (Inr x, sk') \<longleftrightarrow> m sk = Some (Inr x, sk')"
proof -
  have "map_err g x = Inl e \<longleftrightarrow> (\<exists>e'. x = Inl e' \<and> e = g e')" for x by (cases x) auto
  then show "act_map_err g m sk = Some (Inl e, sk') \<longleftrightarrow> (\<exists>e'. m sk = Some (Inl e', sk') \<and> e = g e')"
    by (auto simp: act_map_err_eq eq_commute [of "Inl e"])
  show "act_map_err g m sk = Some (Inr x, sk') \<longleftrightarrow> m sk = Some (Inr x, sk')"
    by (auto simp: act_map_err_eq map_err_eq_Inr eq_commute [of "Inr x"])
qed

lemma extract_streams:
  assumes ok: "runtime_validate rep (srv_runtime srv) = Inr ()"
    and start: "starting se srv requested sk limit w sk1"
    and fresh: "sk_lifecycle sk = NotStarted" "sk_sent sk = []"
    and run: "(case find (\<lambda>s. wave_width w s = None) targets of
       Some missing \<Rightarrow> act_lift (Inl (map_query (SignalNotFound missing)))
     | None \<Rightarrow>
         act_bind (stream_begin (se_out se) (sk_id sk) schema (wave_generation w) limit (frame_limit srv)) (\<lambda>st.
         act_bind (with_expensive_scan (se_out se) (act_map_err map_query
           (stream_changes se q w targets win st))) (\<lambda>(s, emitted).
         act_bind (send_rest (se_out se) s) (\<lambda>st'.
           stream_finish (se_out se) (se_elapsed se) st' emitted)))) sk1 = Some (r, sk')"
  shows "streams_rows (se_out se) limit
    (map (row_json (se_displays se) w) (wave_requested (se_displays se) w targets win)) r sk'"
proof -
  let ?env = "se_out se" and ?rows = "map (row_json (se_displays se) w) (wave_requested (se_displays se) w targets win)"
  have sk1: "sk_lifecycle sk1 = NotStarted" "sk_sent sk1 = []" "sk_id sk1 = sk_id sk" and small: "limit < - 1"
    using start fresh by (auto simp: starting_def idle_def same_sink_def)
  note begins = begin_streams [OF _ sk1(1,2) small frame_limit_positive [OF ok], unfolded sk1(3)]
  from run consider
      (missing) e where "r = Inl e" "sk' = sk1"
    | (refused) e where "stream_begin ?env (sk_id sk) schema (wave_generation w) limit (frame_limit srv) sk1 = Some (Inl e, sk')"
        "r = Inl e"
    | (on) st sk2 where "stream_begin ?env (sk_id sk) schema (wave_generation w) limit (frame_limit srv) sk1 = Some (Inr st, sk2)"
        "act_bind (with_expensive_scan ?env (act_map_err map_query (stream_changes se q w targets win st)))
          (\<lambda>(s, emitted). act_bind (send_rest ?env s) (\<lambda>st'. stream_finish ?env (se_elapsed se) st' emitted)) sk2 = Some (r, sk')"
    by (auto simp: act_lift_eq act_bind_eq [of "stream_begin a b c d e f" for a b c d e f] split: option.splits)
  then show ?thesis
  proof cases
    case missing
    with streams_nothing [OF sk1(2,1)] show ?thesis by simp
  next
    case refused
    with begins [OF refused(1)] show ?thesis by simp
  next
    case on
    have begun: "begun ?env limit st sk2" using begins [OF on(1)] by simp
    from on(2) consider
        (gate) e where "gate_acquire ?env sk2 = Some (Inl e, sk')" "r = Inl e"
      | (scan) e e' sk3 where "gate_acquire ?env sk2 = Some (Inr (), sk3)"
          "stream_changes se q w targets win st sk3 = Some (Inl e', sk')" "r = Inl e"
      | (rest) s n sk3 sk4 where "gate_acquire ?env sk2 = Some (Inr (), sk3)"
          "stream_changes se q w targets win st sk3 = Some (Inr (s, n), sk4)"
          "act_bind (send_rest ?env s) (\<lambda>st'. stream_finish ?env (se_elapsed se) st' n) sk4 = Some (r, sk')"
      by (auto simp: with_expensive_scan_def act_bind_eq act_map_err_results split: prod.splits)
    then show ?thesis
    proof cases
      case gate
      from streams_stopped [OF begun begun_rows_sent [OF begun] gate_idle [OF gate(1)]] gate(2) show ?thesis
        by simp
    next
      case scan
      note b = begun_idle [OF gate_idle [OF scan(1)] begun]
      from changes_result [OF scan(2)] b have "pushed ?env (st, []) sk3 ?rows (Inl e') sk'" by (simp add: begun_def)
      from streams_stopped [OF b pushed_rows_sent [OF this] idle_refl] scan(3) show ?thesis by simp
    next
      case rest
      note b = begun_idle [OF gate_idle [OF rest(1)] begun]
      from changes_result [OF rest(2)] b have p: "pushed ?env (st, []) sk3 ?rows (Inr s :: query_error + _) sk4"
        by (simp add: begun_def)
      from rest(3) consider
          (stopped) e where "send_rest ?env s sk4 = Some (Inl e, sk')" "r = Inl e"
        | (finish) st' sk5 where "send_rest ?env s sk4 = Some (Inr st', sk5)"
            "stream_finish ?env (se_elapsed se) st' n sk5 = Some (r, sk')"
        by (auto simp: act_bind_eq)
      then show ?thesis
      proof cases
        case stopped
        from streams_stopped [OF b send_rest_result [OF p stopped(1)] idle_refl] stopped(2) show ?thesis by simp
      next
        case finish
        from streams_finished [OF b send_rest_result [OF p finish(1)] idle_refl finish(2)] show ?thesis .
      qed
    qed
  qed
qed

lemma list_streams:
  assumes ok: "runtime_validate rep (srv_runtime srv) = Inr ()"
    and start: "starting se srv requested sk limit w sk1"
    and fresh: "sk_lifecycle sk = NotStarted" "sk_sent sk = []"
    and run: "act_bind (stream_begin (se_out se) (sk_id sk) schema (wave_generation w) limit (frame_limit srv)) (\<lambda>st.
       act_bind (act_map_err map_query (list_names_visited se q w flt l st)) (\<lambda>s.
       act_bind (send_rest (se_out se) s) (\<lambda>st'.
       act_bind (still_valid se w) (\<lambda>_.
       act_bind (still_wanted (se_out se)) (\<lambda>_.
         stream_finish (se_out se) (se_elapsed se) st' 0))))) sk1 = Some (r, sk')"
  shows "streams_rows (se_out se) limit (map JString (wave_list_signals w flt)) r sk'"
proof -
  let ?env = "se_out se" and ?rows = "map JString (wave_list_signals w flt)"
  have sk1: "sk_lifecycle sk1 = NotStarted" "sk_sent sk1 = []" "sk_id sk1 = sk_id sk" and small: "limit < - 1"
    using start fresh by (auto simp: starting_def idle_def same_sink_def)
  note begins = begin_streams [OF _ sk1(1,2) small frame_limit_positive [OF ok], unfolded sk1(3)]
  from run consider
      (refused) e where "stream_begin ?env (sk_id sk) schema (wave_generation w) limit (frame_limit srv) sk1 = Some (Inl e, sk')"
        "r = Inl e"
    | (visit) st sk2 e e' where "stream_begin ?env (sk_id sk) schema (wave_generation w) limit (frame_limit srv) sk1 = Some (Inr st, sk2)"
        "list_names_visited se q w flt l st sk2 = Some (Inl e', sk')" "r = Inl e"
    | (on) st sk2 s sk3 where "stream_begin ?env (sk_id sk) schema (wave_generation w) limit (frame_limit srv) sk1 = Some (Inr st, sk2)"
        "list_names_visited se q w flt l st sk2 = Some (Inr s, sk3)"
        "act_bind (send_rest ?env s) (\<lambda>st'. act_bind (still_valid se w) (\<lambda>_. act_bind (still_wanted ?env) (\<lambda>_.
         stream_finish ?env (se_elapsed se) st' 0))) sk3 = Some (r, sk')"
    by (auto simp: act_bind_eq act_map_err_results)
  then show ?thesis
  proof cases
    case refused
    with begins [OF refused(1)] show ?thesis by simp
  next
    case visit
    have b: "begun ?env limit st sk2" using begins [OF visit(1)] by simp
    with visited_result [OF visit(2)] have "pushed ?env (st, []) sk2 ?rows (Inl e') sk'" by (simp add: begun_def)
    from streams_stopped [OF b pushed_rows_sent [OF this] idle_refl] visit(3) show ?thesis by simp
  next
    case on
    have b: "begun ?env limit st sk2" using begins [OF on(1)] by simp
    with visited_result [OF on(2)] have p: "pushed ?env (st, []) sk2 ?rows (Inr s :: query_error + _) sk3"
      by (simp add: begun_def)
    have checks: "(\<exists>e. r = Inl e \<and> idle sk4 sk') \<or>
        (\<exists>sk5. idle sk4 sk5 \<and> stream_finish ?env (se_elapsed se) st' 0 sk5 = Some (r, sk'))"
      if c: "act_bind (still_valid se w) (\<lambda>_. act_bind (still_wanted ?env) (\<lambda>_.
         stream_finish ?env (se_elapsed se) st' 0)) sk4 = Some (r, sk')" for st' sk4
    proof -
      from c consider (one) e where "still_valid se w sk4 = Some (Inl e, sk')" "r = Inl e"
        | (two) e s1 where "still_valid se w sk4 = Some (Inr (), s1)" "still_wanted ?env s1 = Some (Inl e, sk')" "r = Inl e"
        | (both) s1 s2 where "still_valid se w sk4 = Some (Inr (), s1)" "still_wanted ?env s1 = Some (Inr (), s2)"
            "stream_finish ?env (se_elapsed se) st' 0 s2 = Some (r, sk')"
        by (auto simp: act_bind_eq)
      then show ?thesis
        by cases (blast dest: checks_idle intro: idle_trans)+
    qed
    from on(3) consider
        (stopped) e where "send_rest ?env s sk3 = Some (Inl e, sk')" "r = Inl e"
      | (sent) st' sk4 where "send_rest ?env s sk3 = Some (Inr st', sk4)"
          "act_bind (still_valid se w) (\<lambda>_. act_bind (still_wanted ?env) (\<lambda>_.
             stream_finish ?env (se_elapsed se) st' 0)) sk4 = Some (r, sk')"
      by (subst (asm) act_bind_eq) blast
    then consider
        (stopped) e where "send_rest ?env s sk3 = Some (Inl e, sk')" "r = Inl e"
      | (checked) st' sk4 e where "send_rest ?env s sk3 = Some (Inr st', sk4)" "idle sk4 sk'" "r = Inl e"
      | (finish) st' sk4 sk5 where "send_rest ?env s sk3 = Some (Inr st', sk4)" "idle sk4 sk5"
          "stream_finish ?env (se_elapsed se) st' 0 sk5 = Some (r, sk')"
      using checks by cases blast+
    then show ?thesis
    proof cases
      case stopped
      from streams_stopped [OF b send_rest_result [OF p stopped(1)] idle_refl] stopped(2) show ?thesis by simp
    next
      case checked
      from streams_stopped [OF b send_rest_result [OF p checked(1)] checked(2)] checked(3) show ?thesis by simp
    next
      case finish
      from streams_finished [OF b send_rest_result [OF p finish(1)] finish(2,3)] show ?thesis .
    qed
  qed
qed

subsection \<open>Every method returns\<close>

text \<open>Time passes and the request has a deadline, so an action that waits only on them returns.\<close>

definition returns :: "nat \<Rightarrow> ('e, 'a) action \<Rightarrow> bool" where
  "returns d m \<longleftrightarrow> (\<forall>sk. sk_deadline sk = Some d \<longrightarrow> (\<exists>r sk'. m sk = Some (r, sk') \<and> sk_deadline sk' = Some d))"

lemma returns_basic [intro!]: "returns d (act_return x)" "returns d (act_lift r)"
  "returns d (runtime_check env)" "returns d (query_check env)" "returns d (query_context srv c l b)"
  by (auto simp: returns_def act_return_def act_lift_def runtime_check_def query_check_def query_context_def Let_def)

lemma returns_bind [intro]: "returns d m \<Longrightarrow> (\<And>x. returns d (k x)) \<Longrightarrow> returns d (act_bind m k)"
  unfolding returns_def act_bind_def by (fastforce split: sum.split)

lemma returns_map_err [intro]: "returns d m \<Longrightarrow> returns d (act_map_err g m)"
  by (fastforce simp: returns_def act_map_err_def)

lemma returns_send [intro]: "time_passes env d \<Longrightarrow> returns d (send_frame env f)"
  unfolding returns_def
proof (intro allI impI)
  fix sk :: sink
  assume t: "time_passes env d" and sk: "sk_deadline sk = Some d"
  then obtain n where "sk_tick sk \<le> n" "d \<le> sp_now (oe_poll env n)" unfolding time_passes_def by blast
  from send_frame_returns [OF sk this] obtain r sk' where run: "send_frame env f sk = Some (r, sk')" by fastforce
  with send_frame_result [OF run] sk show "\<exists>r sk'. send_frame env f sk = Some (r, sk') \<and> sk_deadline sk' = Some d"
    by (auto simp: same_sink_def)
qed

lemma gate_returns:
  "sk_deadline sk = Some d \<Longrightarrow> sk_tick sk \<le> n \<Longrightarrow> d \<le> sp_now (oe_poll env n) \<Longrightarrow> gate_acquire env sk \<noteq> None"
proof (induction "n - sk_tick sk" arbitrary: sk)
  case 0
  then show ?case by (subst gate_acquire.simps) (auto simp: request_check_def Let_def)
next
  case (Suc k)
  have "gate_acquire env (sk\<lparr>sk_tick := sk_tick sk + 1\<rparr>) \<noteq> None"
    using Suc by (intro Suc.hyps(1)) auto
  then show ?case by (subst gate_acquire.simps) (auto simp: Let_def split: sum.split)
qed

lemma returns_scan [intro]:
  assumes "time_passes env d" and "returns d work"
  shows "returns d (with_expensive_scan env work)"
proof -
  have "returns d (gate_acquire env)"
    unfolding returns_def
  proof (intro allI impI)
    fix sk :: sink
    assume sk: "sk_deadline sk = Some d"
    obtain n where "sk_tick sk \<le> n" "d \<le> sp_now (oe_poll env n)"
      using assms(1) unfolding time_passes_def by blast
    from gate_returns [OF sk this] obtain r sk' where run: "gate_acquire env sk = Some (r, sk')" by fastforce
    with gate_idle [OF run] sk show "\<exists>r sk'. gate_acquire env sk = Some (r, sk') \<and> sk_deadline sk' = Some d"
      by (auto simp: idle_def same_sink_def)
  qed
  with assms(2) show ?thesis by (auto simp: with_expensive_scan_def)
qed

lemma returns_split: "time_passes env d \<Longrightarrow> rows \<noteq> [] \<Longrightarrow> returns d (send_rows_split env st rows)"
proof (induction env st rows rule: send_rows_split.induct)
  case (1 env st rows)
  show ?case
  proof (cases "length rows = 1")
    case True
    show ?thesis
      using 1(3,4) True unfolding send_rows_split.simps [of env st rows] Let_def
      by (auto intro!: returns_bind split: option.split)
  next
    case False
    have nonempty: "take (length rows div 2) rows \<noteq> []" "drop (length rows div 2) rows \<noteq> []"
      using halves [OF 1(4) False] by auto
    have "returns d (act_bind (send_rows_split env st (take (length rows div 2) rows)) (\<lambda>st'.
        send_rows_split env st' (drop (length rows div 2) rows)))"
      using 1(1) [OF refl False 1(4,3) nonempty(1)] 1(2) [OF refl False 1(4,3) nonempty(2)] by blast
    then show ?thesis
      using 1(3,4) False unfolding send_rows_split.simps [of env st rows] Let_def
      by (auto intro!: returns_bind split: option.split)
  qed
qed

lemma scan_iterates:
  assumes "open_extract env q ov n targets win = Inr x"
  shows "iterate (extract_next env D) body x acc \<noteq> None"
  using iterate_extract [OF assms, of D body acc] by (elim exE conjE) simp

lemma scans_return:
  "wave_find env D q w n sig target occ win \<noteq> None" "wave_toggles env D q w n targets win \<noteq> None"
proof -
  show "wave_find env D q w n sig target occ win \<noteq> None"
  proof (cases w)
    case (WVcd v)
    show ?thesis
    proof (cases "find_prepare env q (vw_opened v) n sig occ win")
      case (Inl e)
      with WVcd show ?thesis by (simp add: find_nth_occurrence_def)
    next
      case (Inr wx)
      then have "open_extract env q (vw_opened v) (Suc n) [sig] win = Inr (snd wx)"
        by (cases wx) (auto simp: find_prepare_def and_then_eq_Inr split: if_splits)
      from scan_iterates [OF this, of D "find_body D (normalize_target target) occ" "(0, None)"]
      obtain f x' where "iterate (extract_next env D) (find_body D (normalize_target target) occ) (snd wx) (0, None) = Some (f, x')"
        by fastforce
      with WVcd Inr show ?thesis by (cases wx; cases f) (auto simp: find_nth_occurrence_def)
    qed
  qed simp
  show "wave_toggles env D q w n targets win \<noteq> None"
  proof (cases w)
    case (WVcd v)
    show ?thesis
    proof (cases "and_then (check_signal_count env q n (length targets))
        (\<lambda>_. open_extract env q (vw_opened v) (Suc n) targets win)")
      case (Inl e)
      with WVcd show ?thesis by (simp add: count_toggles_def)
    next
      case (Inr x)
      then have "open_extract env q (vw_opened v) (Suc n) targets win = Inr x" by (auto simp: and_then_eq_Inr)
      from scan_iterates [OF this] obtain f x' where "iterate (extract_next env D) (toggle_body D (target_sizes (vw_opened v) targets)) x
          ((\<lambda>s. if s \<in> set targets then Some 0 else None), (\<lambda>s. if s \<in> set targets then Some [] else None)) = Some (f, x')"
        by fastforce
      with WVcd Inr show ?thesis by (cases f) (auto simp: count_toggles_def Let_def)
    qed
  qed (auto split: prod.split)
qed

lemma returns_stream:
  assumes "time_passes (se_out se) d"
  shows "returns d (send_rows (se_out se) st rows)"
    and "returns d (stream_begin (se_out se) i schema generation l f)"
    and "returns d (stream_finish (se_out se) elapsed st commands)"
    and "returns d (send_unary (se_out se) i result l f)"
    and "returns d (push_row (se_out se) s row)"
    and "returns d (send_rest (se_out se) s)"
proof -
  show rows: "returns d (send_rows (se_out se) st rows)" for st rows
    using returns_split [OF assms] by (auto simp: send_rows_def)
  show "returns d (stream_begin (se_out se) i schema generation l f)"
    using assms by (auto simp: stream_begin_def Let_def intro!: returns_bind)
  show "returns d (stream_finish (se_out se) elapsed st commands)"
    using assms by (auto simp: stream_finish_def Let_def intro!: returns_bind)
  show "returns d (send_unary (se_out se) i result l f)"
    using assms by (auto simp: send_unary_def Let_def intro!: returns_bind)
  show "returns d (push_row (se_out se) s row)"
    using rows by (auto simp: push_row_def send_inside_def split: prod.split)
  show "returns d (send_rest (se_out se) s)"
    using rows by (auto simp: send_rest_def split: prod.split)
qed

lemma returns_visits:
  assumes "time_passes (se_out se) d"
  shows "returns d (list_loop se q flt l n names s)" and "returns d (emit_rows se w rows es)"
proof -
  have visit: "returns d (list_visitor (se_out se) flt l s name)" for s name
    using returns_stream(5) [OF assms] by (auto simp: list_visitor_def)
  show "returns d (list_loop se q flt l n names s)"
  proof (induction names arbitrary: n s)
    case (Cons name names)
    show ?case unfolding list_loop.simps by (intro returns_bind returns_basic visit Cons)
  qed auto
  show "returns d (emit_rows se w rows es)"
    using returns_stream(5) [OF assms] by (induction rows arbitrary: es) (auto intro!: returns_bind)
qed

lemma returns_changes: "time_passes (se_out se) d \<Longrightarrow> returns d (stream_changes se q w targets win st)"
  using wave_rows_result [of "se_query se" "se_displays se" q w 1 targets win] returns_visits(2) [of se d]
  by (auto simp: stream_changes_def intro!: returns_bind)

lemma dispatch_returns:
  assumes "time_passes (se_out se) d"
  shows "returns d (dispatch_inner se srv req)"
proof -
  note stream = returns_stream [OF assms] and scan = returns_scan [OF assms]
  have current: "returns d (service_current se srv)" by (auto simp: service_current_def)
  have checks: "returns d (still_valid se w)" "returns d (still_wanted (se_out se))" for w
    by (auto simp: still_valid_def still_wanted_def)
  have query: "returns d (act_query r)" if "r \<noteq> None" for r :: "(query_error + 'c) option"
    using that by (auto simp: act_query_def split: option.split)
  have visited: "returns d (list_names_visited se q w flt l st)" for q w flt l st
    using returns_visits(1) [OF assms] by (auto simp: list_names_visited_def intro!: returns_bind split: prod.split)
  have metadata: "returns d (act_query (Some r))" for r :: "query_error + 'c" by (rule query) simp
  have "returns d (dispatch_ping se srv i)" "returns d (dispatch_describe se srv i)" for i
    using stream current checks by (auto simp: dispatch_ping_def dispatch_describe_def Let_def intro!: returns_bind)
  moreover have "returns d (dispatch_list se srv i p)" for i p
    using stream current checks visited
    by (auto simp: dispatch_list_def Let_def intro!: returns_bind returns_map_err split: prod.split)
  moreover have "returns d (dispatch_metadata se srv i p)" for i p
    using stream current checks
    by (auto simp: dispatch_metadata_def intro!: returns_bind scan metadata split: prod.split)
  moreover have "returns d (dispatch_extract se srv i p)" for i p
    using stream current scan returns_changes [OF assms]
    by (auto simp: dispatch_extract_def intro!: returns_bind scan returns_map_err split: prod.split option.split)
  moreover have "returns d (dispatch_find se srv i p)" for i p
    using stream current scan query [OF scans_return(1)]
    by (auto simp: dispatch_find_def intro!: returns_bind scan split: prod.split)
  moreover have "returns d (dispatch_toggles se srv i p)" for i p
    using stream current scan query [OF scans_return(2)]
    by (auto simp: dispatch_toggles_def intro!: returns_bind scan split: prod.split)
  ultimately show ?thesis by (auto split: request_method.split)
qed

subsection \<open>Properties\<close>

text \<open>
  C26. Whatever the request and however full its channel: when time passes, a worker's job on the
  service ends, and then the connection got a complete response with the request's id (one result,
  one error, or begin, chunks and end in sequence), or was seen to be gone after a beginning of one.
\<close>

theorem service_job_response:
  assumes "time_passes (se_out se) d"
  shows "\<exists>sk'. run_job (se_out se) (dispatch se srv req) (new_sink (req_id req) max_bytes (Some d)) = Some sk' \<and>
    (complete_response (req_id req) (sk_sent sk') \<or>
     observed_gone (se_out se) sk' \<and> partial_response (req_id req) (sk_sent sk'))"
proof -
  let ?env = "se_out se" and ?sk = "new_sink (req_id req) max_bytes (Some d)"
  have terminal: "required_terminal ?env e s \<noteq> None" for e s
    using assms required_terminal_returns unfolding time_passes_def by meson
  have "dispatch se srv req s \<noteq> None" if "sk_deadline s = Some d" for s
    using dispatch_returns [OF assms, of srv req] that by (fastforce simp: returns_def dispatch_def job_of_def)
  then have "dispatch se srv req (?sk\<lparr>sk_tick := sk_tick ?sk + 1\<rparr>) \<noteq> None" by (simp add: new_sink_def)
  then obtain sk' where run: "run_job ?env (dispatch se srv req) ?sk = Some sk'"
    using terminal by (fastforce simp: run_job_def ensure_terminal_def Let_def split: sum.split job_result.split)
  from service.job_response [OF run new_sink_ok] have out: "sink_ok sk'" "sk_id sk' = req_id req"
      "sk_lifecycle sk' = Terminal \<or> observed_gone ?env sk'"
    by (auto simp: same_sink_def new_sink_def)
  from out(3) have "complete_response (req_id req) (sk_sent sk') \<or>
      observed_gone ?env sk' \<and> partial_response (req_id req) (sk_sent sk')"
    using out(1,2) sink_ok_response [OF out(1)]
    by (auto simp: sink_ok_def response_state_def)
  with run show ?thesis by blast
qed

definition sample_service :: service where
  "sample_service = \<lparr>srv_runtime = default_runtime, srv_limits = default_service,
     srv_current = sample_vcd_wave, srv_reopen = Inr sample_vcd_wave\<rparr>"

definition sample_service_env :: "output_env \<Rightarrow> service_env" where
  "sample_service_env env = \<lparr>se_out = env, se_query = calm, se_after = 50, se_displays = plain_displays,
     se_unit = (\<lambda>_. ''ns''), se_version = ''0.1.0'', se_uptime = ''0'', se_elapsed = ''0''\<rparr>"

definition sample_extract :: request where
  "sample_extract = \<lparr>req_id = ''r1'', req_method = MExtract \<lparr>ep_signals = [''top.clk''], ep_start = None,
     ep_end = None, ep_max_rows = None, ep_max_response_bytes = None, ep_max_commands = None,
     ep_timeout_ms = None\<rparr>\<rparr>"

lemma service_job_response_witness:
  "\<exists>sk'. run_job blocked_env (dispatch (sample_service_env blocked_env) sample_service sample_extract)
     (new_sink ''r1'' 4096 (Some 50)) = Some sk' \<and>
    (complete_response ''r1'' (sk_sent sk') \<or>
     observed_gone blocked_env sk' \<and> partial_response ''r1'' (sk_sent sk'))"
proof -
  have "time_passes (se_out (sample_service_env blocked_env)) 50"
    unfolding time_passes_def
  proof (intro allI conjI)
    fix t :: nat
    show "\<exists>n\<ge>t. 50 \<le> sp_now (oe_poll (se_out (sample_service_env blocked_env)) n)"
      by (rule exI [of _ "max t 50"]) (simp add: blocked_env_def sample_service_env_def)
    show "\<exists>n\<ge>t. sp_expired (oe_poll (se_out (sample_service_env blocked_env)) n)"
      by (rule exI [of _ t]) (simp add: blocked_env_def sample_service_env_def)
  qed
  from service_job_response [OF this, of sample_service sample_extract 4096] show ?thesis
    by (simp add: sample_extract_def sample_service_env_def)
qed

text \<open>
  C27. What \<^verbatim>\<open>extract\<close> and \<^verbatim>\<open>list\<close> stream, on a service whose configuration is accepted: at every
  end the rows in the chunks are a beginning, in order, of the requested rows of the waveform the
  request runs on (of the matching names), no chunk has more than 1024 rows, and the encoded frames
  together stay within the response limit; after a success all rows have been delivered and the
  last frame is a complete end, after an error no end has been sent.
\<close>

theorem service_streams:
  assumes "runtime_validate rep (srv_runtime srv) = Inr ()" and "service_validate (srv_limits srv) = Inr ()"
    and "sk_lifecycle sk = NotStarted" and "sk_sent sk = []" and "sk_id sk = req_id req"
    and "dispatch_inner se srv req sk = Some (r, sk')"
    and "fst (slot_current (se_query se) srv) = Inr w"
  shows "case stream_of se w (req_method req) of
      Some (rows, requested) \<Rightarrow>
        streams_rows (se_out se) (case requested of Some l \<Rightarrow> l | None \<Rightarrow> sc_max_response_bytes (srv_limits srv))
          rows r sk'
    | None \<Rightarrow> True"
proof -
  have w: "w' = w" "limit = (case b of Some l \<Rightarrow> l | None \<Rightarrow> sc_max_response_bytes (srv_limits srv))"
    if "starting se srv b sk limit w' sk1" for b limit w' sk1
    using that assms(7) by (auto simp: starting_def)
  have stopped: "streams_rows (se_out se) limit rows (Inl e) sk'" if "idle sk sk'" for limit rows e
    using that assms(3,4) by (intro streams_nothing) (simp_all add: idle_def)
  show ?thesis
  proof (cases "req_method req")
    case (MExtract p)
    have "dispatch_extract se srv (sk_id sk) p sk = Some (r, sk')"
      using assms(5,6) MExtract by simp
    from start_cases [OF this [unfolded dispatch_extract_def] assms(2)] show ?thesis
      using extract_streams [OF assms(1) _ assms(3,4)] w stopped MExtract
      by (fastforce simp: stream_of_def)
  next
    case (MList p)
    have "dispatch_list se srv (sk_id sk) p sk = Some (r, sk')"
      using assms(5,6) MList by simp
    from start_cases [OF this [unfolded dispatch_list_def Let_def] assms(2)] show ?thesis
      using list_streams [OF assms(1) _ assms(3,4)] w stopped MList
      by (fastforce simp: stream_of_def)
  qed (simp_all add: stream_of_def)
qed

text \<open>A channel that takes every frame, on a clock that counts turns.\<close>

definition open_env :: output_env where
  "open_env = \<lparr>oe_poll = (\<lambda>n. \<lparr>sp_cancelled = False, sp_now = n, sp_disconnected = False,
     sp_send = Sent, sp_expired = True, sp_held = False\<rparr>), oe_pieces = (\<lambda>_. ([''{}''], True))\<rparr>"

lemma service_streams_witness:
  "\<exists>r sk'. dispatch_inner (sample_service_env open_env) sample_service sample_extract
       (new_sink ''r1'' 4096 (Some 1000)) = Some (r, sk') \<and>
     streams_rows open_env 268435456
       (map (row_json plain_displays sample_vcd_wave)
         (wave_requested plain_displays sample_vcd_wave [''top.clk''] \<lparr>win_start = None, win_end = None\<rparr>)) r sk'"
proof -
  let ?se = "sample_service_env open_env"
  have "time_passes (se_out ?se) 1000"
    unfolding time_passes_def
  proof (intro allI conjI)
    fix t :: nat
    show "\<exists>n\<ge>t. 1000 \<le> sp_now (oe_poll (se_out ?se) n)"
      by (rule exI [of _ "max t 1000"]) (simp add: open_env_def sample_service_env_def)
    show "\<exists>n\<ge>t. sp_expired (oe_poll (se_out ?se) n)"
      by (rule exI [of _ t]) (simp add: open_env_def sample_service_env_def)
  qed
  note ret = dispatch_returns [OF this, of sample_service sample_extract, unfolded returns_def, rule_format]
  have "sk_deadline (new_sink ''r1'' 4096 (Some 1000)) = Some 1000" by (simp add: new_sink_def)
  from ret [OF this] obtain r sk' where
    run: "dispatch_inner ?se sample_service sample_extract (new_sink ''r1'' 4096 (Some 1000)) = Some (r, sk')"
    by blast
  have "runtime_validate (\<lambda>_. True) (srv_runtime sample_service) = Inr ()"
      and "service_validate (srv_limits sample_service) = Inr ()"
    by (simp_all add: sample_service_def runtime_validate_def service_validate_def default_runtime_def
        default_service_def max_request_line_bytes_def terminal_frame_reserve_bytes_def chunk_bytes_def)
  moreover have "fst (slot_current (se_query ?se) sample_service) = Inr sample_vcd_wave"
    by (simp add: slot_current_def sample_service_def sample_vcd_wave_def sample_service_env_def calm_def)
  ultimately have "case stream_of ?se sample_vcd_wave (req_method sample_extract) of
      Some (rows, requested) \<Rightarrow> streams_rows (se_out ?se)
        (case requested of Some l \<Rightarrow> l | None \<Rightarrow> sc_max_response_bytes (srv_limits sample_service)) rows r sk'
    | None \<Rightarrow> True"
    using run by (intro service_streams) (simp_all add: new_sink_def sample_extract_def)
  with run show ?thesis
    by (auto simp: stream_of_def sample_extract_def sample_service_env_def sample_service_def default_service_def)
qed

end
