(* ===== verification/Stream_Failure.thy ===== *)
theory Stream_Failure
  imports Service_Streams
begin

text \<open>
  How a failure to send inside the scan of \<^verbatim>\<open>extract\<close> or \<^verbatim>\<open>list\<close> is reported
  (src/server/service.rs): with which error the response of a job ends whose stream was cut. The
  visitor that sends fails with \<open>Internal\<close> only (\<open>push_row_count\<close>, \<open>emit_rows_count\<close>,
  \<open>list_loop_count\<close>), a scan that ended has delivered every full chunk (\<open>full_chunks_delivered\<close>),
  and the worker puts the error of the dispatcher into the end frame (\<open>terminal_ends\<close>).
\<close>

subsection \<open>The errors inside a scan\<close>

text \<open>The limits of a query, as \<open>query_context\<close> gives them to a request with this deadline.\<close>

definition request_limits ::
    "service \<Rightarrow> nat option \<Rightarrow> u64 option \<Rightarrow> u64 option \<Rightarrow> u64 option \<Rightarrow> protocol_error + query_limits \<times> u64" where
  "request_limits srv dl c l b = and_then (service_limits (srv_limits srv) c l b) (\<lambda>(q, limit).
     Inr (case dl of Some d \<Rightarrow> with_deadline d q | None \<Rightarrow> q, limit))"

definition list_rows_limit :: "service \<Rightarrow> query_limits \<Rightarrow> u64" where
  "list_rows_limit srv q = (case max_rows q of Some m \<Rightarrow> m | None \<Rightarrow> sc_max_rows (srv_limits srv))"

text \<open>
  The errors that a scan ends with by itself: what reading the changes fails with, and, for
  \<^verbatim>\<open>list\<close>, what a check of the context or the row limit says.
\<close>

definition own_error :: "service_env \<Rightarrow> service \<Rightarrow> waveform \<Rightarrow> nat option \<Rightarrow> request_method \<Rightarrow> query_error \<Rightarrow> bool" where
  "own_error se srv w dl m e \<longleftrightarrow> (case m of
     MExtract p \<Rightarrow> \<exists>q limit rows.
       request_limits srv dl (ep_max_commands p) (ep_max_rows p) (ep_max_response_bytes p) = Inr (q, limit) \<and>
       wave_rows (se_query se) (se_displays se) q w 1 (ep_signals p) \<lparr>win_start = ep_start p, win_end = ep_end p\<rparr> =
         Some (rows, Inl e)
   | MList p \<Rightarrow> \<exists>q limit. request_limits srv dl None (lp_max_rows p) (lp_max_response_bytes p) = Inr (q, limit) \<and>
       ((\<exists>n. check (se_query se) q n = Inl e) \<or>
        e = LimitExceeded Rows (list_rows_limit srv q) (saturating_add (list_rows_limit srv q) 1))
   | _ \<Rightarrow> False)"

text \<open>
  The visitor that sends: it fails with \<^verbatim>\<open>Internal\<close> only, and keeps back what does not fill a chunk.
\<close>

lemma push_row_count:
  assumes "push_row env s row sk = Some (r, sk')" and "length (snd s) < 1024"
  shows "case r of Inl e \<Rightarrow> \<exists>m. e = Internal m | Inr s' \<Rightarrow> length (snd s') = (length (snd s) + 1) mod 1024"
  using assms
  by (cases s) (auto simp: push_row_def chunk_rows_def send_inside_def act_simps map_err_def
      split: if_splits sum.splits)

lemma emit_rows_count:
  assumes "emit_rows se w rows s sk = Some (r, sk')" and "length (snd (fst s)) < 1024"
  shows "case r of Inl e \<Rightarrow> \<exists>m. e = Internal m
    | Inr s' \<Rightarrow> length (snd (fst s')) = (length (snd (fst s)) + length rows) mod 1024"
  using assms
proof (induction se w rows s arbitrary: sk rule: emit_rows.induct)
  case (1 se w s)
  then show ?case by (auto simp: act_simps)
next
  case (2 se w row rest s)
  from 2(2) consider
      (failed) e where "push_row (se_out se) (fst s) (row_json (se_displays se) w row) sk = Some (Inl e, sk')" "r = Inl e"
    | (on) s1 sk1 where "push_row (se_out se) (fst s) (row_json (se_displays se) w row) sk = Some (Inr s1, sk1)"
        "emit_rows se w rest (s1, snd s + 1) sk1 = Some (r, sk')"
    by (auto simp: act_simps)
  then show ?case
  proof cases
    case failed
    with push_row_count [OF failed(1) 2(3)] show ?thesis by simp
  next
    case on
    have one: "length (snd s1) = (length (snd (fst s)) + 1) mod 1024" using push_row_count [OF on(1) 2(3)] by simp
    then have "length (snd (fst (s1, snd s + 1))) < 1024" by simp
    from 2(1) [OF on(2) this] one show ?thesis by (cases r) (auto simp: mod_simps)
  qed
qed

lemma list_loop_count:
  assumes "list_loop se q flt l n names s sk = Some (r, sk')" and "length (snd s) < 1024"
  shows "case r of
      Inl e \<Rightarrow> (\<exists>m. e = Internal m) \<or> (\<exists>n. check (se_query se) q n = Inl e) \<or> e = LimitExceeded Rows l (saturating_add l 1)
    | Inr s' \<Rightarrow> length (snd (fst s')) = (length (snd s) + length (filter (matching flt) names)) mod 1024"
  using assms
proof (induction se q flt l n names s arbitrary: sk rule: list_loop.induct)
  case (1 se q flt l n s)
  then show ?case by (auto simp: act_simps)
next
  case (2 se q flt l n name names s)
  have visit: "case x of
      Inl e \<Rightarrow> (\<exists>m. e = Internal m) \<or> e = LimitExceeded Rows l (saturating_add l 1)
    | Inr s1 \<Rightarrow> length (snd s1) = (length (snd s) + (if matching flt name then 1 else 0)) mod 1024"
    if v: "list_visitor (se_out se) flt l s name sk = Some (x, sk1)" for x sk1
  proof (cases "matching flt name")
    case True
    then consider (limit) "x = Inl (LimitExceeded Rows l (saturating_add l 1))"
      | (push) "push_row (se_out se) s (JString name) sk = Some (x, sk1)"
      using v by (auto simp: list_visitor_def matching_def act_simps split: if_splits option.splits)
    then show ?thesis
    proof cases
      case push
      from push_row_count [OF this 2(3)] True show ?thesis by (cases x) simp_all
    qed simp
  next
    case False
    then have "x = Inr s" using v by (auto simp: list_visitor_def matching_def act_simps split: option.splits)
    then show ?thesis using 2(3) False by simp
  qed
  from 2(2) consider
      (checked) e where "check (se_query se) q n = Inl e" "r = Inl e"
    | (failed) e where "list_visitor (se_out se) flt l s name sk = Some (Inl e, sk')" "r = Inl e"
    | (on) s1 sk1 where "list_visitor (se_out se) flt l s name sk = Some (Inr s1, sk1)"
        "list_loop se q flt l (n + 1) names s1 sk1 = Some (r, sk')"
    by (auto simp: act_simps)
  then show ?case
  proof cases
    case checked
    then show ?thesis by auto
  next
    case failed
    with visit [OF failed(1)] show ?thesis by auto
  next
    case on
    have one: "length (snd s1) = (length (snd s) + (if matching flt name then 1 else 0)) mod 1024"
      using visit [OF on(1)] by simp
    then have "length (snd s1) < 1024" by simp
    from 2(1) [OF on(2) this] one show ?thesis by (cases r) (auto simp: mod_simps)
  qed
qed

lemma gate_error:
  assumes "gate_acquire env sk = Some (Inl e, sk')"
  shows "perr_code e \<in> {ECancelled, EDeadlineExceeded}"
proof -
  from gate_acquire.raw_induct [of "\<lambda>env sk out. \<forall>e. fst out = Inl e \<longrightarrow> perr_code e \<in> {ECancelled, EDeadlineExceeded}",
      OF _ assms]
  show ?thesis
    by (fastforce simp: Let_def request_check_def protocol_error_new_def split: sum.splits if_splits)
qed

text \<open>A scan that ended has delivered all full chunks.\<close>

definition cut :: "json list \<Rightarrow> sink \<Rightarrow> bool" where
  "cut rows sk \<longleftrightarrow> length (delivered_rows (sk_sent sk)) < 1024 * (length rows div 1024)"

lemma sends_prefix: "sends env sk sk' \<Longrightarrow> prefix (sk_sent sk) (sk_sent sk')"
proof (induction rule: sends.induct)
  case (sends_step sk sk1 f r sk2)
  have "prefix (sk_sent sk1) (sk_sent sk2)"
    using send_frame_result [OF sends_step.hyps(2)] by (cases r) auto
  with sends_step.IH show ?case by (rule prefix_order.trans)
qed simp_all

lemma full_chunks_delivered:
  assumes begun: "begun env limit st sk" and p: "pushed env (st, []) sk rows (Inr s :: 'e + _) sk1"
    and count: "length (snd s) = length rows mod 1024" and more: "prefix (sk_sent sk1) (sk_sent sk2)"
  shows "\<not> cut rows sk2"
proof -
  obtain pre where pre: "streamed env st sk pre sk1" "pre @ snd s = rows"
    using p by (auto simp: pushed_def)
  have "delivered_rows (sk_sent sk1) = pre"
    using pre(1) begun by (auto simp: streamed_def begun_def delivered_rows_def)
  moreover have "length pre = 1024 * (length rows div 1024)"
    using arg_cong [OF pre(2), of length] count minus_mod_eq_mult_div [of "length rows" 1024] by simp
  moreover obtain fs where "sk_sent sk2 = sk_sent sk1 @ fs" using more by (auto simp: prefix_def)
  ultimately show ?thesis by (simp add: cut_def)
qed

subsection \<open>The error of a cut stream\<close>

text \<open>How the error of a stream is classified that began and was cut.\<close>

definition cut_error :: "service_env \<Rightarrow> service \<Rightarrow> waveform \<Rightarrow> nat option \<Rightarrow> request_method \<Rightarrow> response_frame list \<Rightarrow> protocol_error \<Rightarrow> bool" where
  "cut_error se srv w dl m fs e \<longleftrightarrow> perr_code e = EInternal \<or>
     (\<exists>q. own_error se srv w dl m q \<and> e = map_query q) \<or>
     fs = [] \<and> (\<exists>p. m = MExtract p) \<and> perr_code e \<in> {ECancelled, EDeadlineExceeded}"

lemma internal_code: "perr_code (map_query (Internal m)) = EInternal"
  by (simp add: map_query_def protocol_error_new_def)

lemma start_limits:
  assumes run: "act_bind (query_context srv c l b) (\<lambda>(q, limit).
      act_bind (service_current se srv) (\<lambda>w. k q limit w)) sk = Some (r, sk')"
    and ok: "service_validate (srv_limits srv) = Inr ()"
  shows "(\<exists>e. r = Inl e \<and> idle sk sk') \<or>
    (\<exists>q limit w sk1. request_limits srv (sk_deadline sk) c l b = Inr (q, limit) \<and>
       starting se srv b sk limit w sk1 \<and> k q limit w sk1 = Some (r, sk'))"
proof -
  have ctx: "query_context srv c l b sk = Some (request_limits srv (sk_deadline sk) c l b, sk)"
    by (simp add: query_context_def request_limits_def)
  from run consider (failed) e where "r = Inl e" "sk' = sk"
    | (on) q limit where "request_limits srv (sk_deadline sk) c l b = Inr (q, limit)"
        "act_bind (service_current se srv) (\<lambda>w. k q limit w) sk = Some (r, sk')"
    by (cases "request_limits srv (sk_deadline sk) c l b") (auto simp: act_bind_eq ctx)
  then show ?thesis
  proof cases
    case failed
    then show ?thesis by simp
  next
    case on
    from on(1) obtain q0 where "service_limits (srv_limits srv) c l b = Inr (q0, limit)"
      by (auto simp: request_limits_def and_then_eq_Inr)
    note limit = service_limits_result [OF this ok]
    from on(2) consider (failed) e where "service_current se srv sk = Some (Inl e, sk')" "r = Inl e"
      | (w) w sk1 where "service_current se srv sk = Some (Inr w, sk1)" "k q limit w sk1 = Some (r, sk')"
      by (auto simp: act_bind_eq)
    then show ?thesis
    proof cases
      case failed
      with service_current_result [OF failed(1)] show ?thesis by simp
    next
      case w
      with service_current_result [OF w(1)] limit have "starting se srv b sk limit w sk1"
        unfolding starting_def by blast
      with w(2) on(1) show ?thesis by blast
    qed
  qed
qed

lemma rest_sends:
  "only_sends (se_out se) (act_bind (send_rest (se_out se) s) (\<lambda>st'. stream_finish (se_out se) (se_elapsed se) st' n))"
  "only_sends (se_out se) (act_bind (send_rest (se_out se) s) (\<lambda>st'. act_bind (still_valid se w) (\<lambda>_.
     act_bind (still_wanted (se_out se)) (\<lambda>_. stream_finish (se_out se) (se_elapsed se) st' 0))))"
  by (auto intro!: only_sends_bind)

lemma extract_cut:
  assumes ok: "runtime_validate rep (srv_runtime srv) = Inr ()"
    and start: "starting se srv b sk limit w sk1" and fresh: "sk_lifecycle sk = NotStarted" "sk_sent sk = []"
    and limits: "request_limits srv dl (ep_max_commands p) (ep_max_rows p) (ep_max_response_bytes p) = Inr (q, limit)"
    and run: "(case find (\<lambda>s. wave_width w s = None) (ep_signals p) of
       Some missing \<Rightarrow> act_lift (Inl (map_query (SignalNotFound missing)))
     | None \<Rightarrow>
         act_bind (stream_begin (se_out se) (sk_id sk) schema (wave_generation w) limit (frame_limit srv)) (\<lambda>st.
         act_bind (with_expensive_scan (se_out se) (act_map_err map_query
           (stream_changes se q w (ep_signals p) \<lparr>win_start = ep_start p, win_end = ep_end p\<rparr> st))) (\<lambda>(s, emitted).
         act_bind (send_rest (se_out se) s) (\<lambda>st'.
           stream_finish (se_out se) (se_elapsed se) st' emitted)))) sk1 = Some (Inl e, sk')"
    and begun: "sk_sent sk' = FBegin h # fs"
    and cut: "cut (map (row_json (se_displays se) w) (wave_requested (se_displays se) w (ep_signals p)
        \<lparr>win_start = ep_start p, win_end = ep_end p\<rparr>)) sk'"
  shows "cut_error se srv w dl (MExtract p) fs e"
proof -
  let ?env = "se_out se" and ?win = "\<lparr>win_start = ep_start p, win_end = ep_end p\<rparr>"
  let ?row = "row_json (se_displays se) w" and ?all = "wave_requested (se_displays se) w (ep_signals p) ?win"
  have sk1: "sk_lifecycle sk1 = NotStarted" "sk_sent sk1 = []" "sk_id sk1 = sk_id sk" and small: "limit < - 1"
    using start fresh by (auto simp: starting_def idle_def same_sink_def)
  note begins = stream_begin_result [OF _ sk1(1,2) small frame_limit_positive [OF ok], unfolded sk1(3)]
  from run begun sk1(2) begins obtain st sk2 where
      st: "stream_begin ?env (sk_id sk) schema (wave_generation w) limit (frame_limit srv) sk1 = Some (Inr st, sk2)"
    and on: "act_bind (with_expensive_scan ?env (act_map_err map_query (stream_changes se q w (ep_signals p) ?win st)))
          (\<lambda>(s, emitted). act_bind (send_rest ?env s) (\<lambda>st'. stream_finish ?env (se_elapsed se) st' emitted)) sk2 = Some (Inl e, sk')"
    by (fastforce simp: act_lift_eq act_bind_eq [of "stream_begin a b c d e f" for a b c d e f] split: option.splits)
  have b: "begun ?env limit st sk2" using begins [OF st] by (simp add: begun_def)
  from on consider
      (gate) "gate_acquire ?env sk2 = Some (Inl e, sk')"
    | (scan) e' sk3 where "gate_acquire ?env sk2 = Some (Inr (), sk3)"
        "stream_changes se q w (ep_signals p) ?win st sk3 = Some (Inl e', sk')" "e = map_query e'"
    | (rest) s n sk3 sk4 where "gate_acquire ?env sk2 = Some (Inr (), sk3)"
        "stream_changes se q w (ep_signals p) ?win st sk3 = Some (Inr (s, n), sk4)"
        "act_bind (send_rest ?env s) (\<lambda>st'. stream_finish ?env (se_elapsed se) st' n) sk4 = Some (Inl e, sk')"
    by (auto simp: with_expensive_scan_def act_bind_eq act_map_err_results split: prod.splits)
  then show ?thesis
  proof cases
    case gate
    have "fs = []" using gate_idle [OF gate] b begun by (auto simp: begun_def idle_def)
    then show ?thesis using gate_error [OF gate] by (simp add: cut_error_def)
  next
    case scan
    then show ?thesis
    proof (cases "\<exists>rows. wave_rows (se_query se) (se_displays se) q w 1 (ep_signals p) ?win = Some (rows, Inl e')")
      case True
      then have "own_error se srv w dl (MExtract p) e'" using limits by (auto simp: own_error_def)
      then show ?thesis using scan(3) by (auto simp: cut_error_def)
    next
      case False
      then obtain rows where "emit_rows se w rows ((st, []), 0) sk3 = Some (Inl e', sk')"
        using scan(2) by (auto simp: stream_changes_def act_simps split: option.splits)
      from emit_rows_count [OF this] scan(3) show ?thesis by (auto simp: cut_error_def internal_code)
    qed
  next
    case rest
    note b3 = begun_idle [OF gate_idle [OF rest(1)] b]
    from rest(2) obtain rows where rows: "wave_rows (se_query se) (se_displays se) q w 1 (ep_signals p) ?win = Some (rows, Inr ())"
        and emit: "emit_rows se w rows ((st, []), 0) sk3 = Some (Inr (s, n), sk4)"
      by (auto simp: stream_changes_def act_simps split: option.splits)
    have "length (snd s) = length (map ?row ?all) mod 1024"
      using emit_rows_count [OF emit] wave_rows_result [of "se_query se" "se_displays se" q w 1 "ep_signals p" ?win] rows by auto
    moreover have "pushed ?env (st, []) sk3 (map ?row ?all) (Inr s :: query_error + _) sk4"
      using changes_result [OF rest(2)] b3 by (simp add: begun_def)
    moreover have "prefix (sk_sent sk4) (sk_sent sk')"
      using rest_sends(1) rest(3) sends_prefix unfolding only_sends_def by blast
    ultimately show ?thesis using full_chunks_delivered [OF b3] cut by blast
  qed
qed

lemma list_cut:
  assumes ok: "runtime_validate rep (srv_runtime srv) = Inr ()"
    and start: "starting se srv b sk limit w sk1" and fresh: "sk_lifecycle sk = NotStarted" "sk_sent sk = []"
    and limits: "request_limits srv dl None (lp_max_rows p) (lp_max_response_bytes p) = Inr (q, limit)"
    and run: "act_bind (stream_begin (se_out se) (sk_id sk) schema (wave_generation w) limit (frame_limit srv)) (\<lambda>st.
       act_bind (act_map_err map_query (list_names_visited se q w (lp_filter p) (list_rows_limit srv q) st)) (\<lambda>s.
       act_bind (send_rest (se_out se) s) (\<lambda>st'.
       act_bind (still_valid se w) (\<lambda>_.
       act_bind (still_wanted (se_out se)) (\<lambda>_.
         stream_finish (se_out se) (se_elapsed se) st' 0))))) sk1 = Some (Inl e, sk')"
    and begun: "sk_sent sk' = FBegin h # fs"
    and cut: "cut (map JString (wave_list_signals w (lp_filter p))) sk'"
  shows "cut_error se srv w dl (MList p) fs e"
proof -
  let ?env = "se_out se" and ?rows = "map JString (wave_list_signals w (lp_filter p))"
  let ?loop = "list_loop se q (lp_filter p) (list_rows_limit srv q) 1 (wave_names w)"
  have sk1: "sk_lifecycle sk1 = NotStarted" "sk_sent sk1 = []" "sk_id sk1 = sk_id sk" and small: "limit < - 1"
    using start fresh by (auto simp: starting_def idle_def same_sink_def)
  note begins = stream_begin_result [OF _ sk1(1,2) small frame_limit_positive [OF ok], unfolded sk1(3)]
  from run begun begins obtain st sk2 where
      st: "stream_begin ?env (sk_id sk) schema (wave_generation w) limit (frame_limit srv) sk1 = Some (Inr st, sk2)"
    and on: "act_bind (act_map_err map_query (list_names_visited se q w (lp_filter p) (list_rows_limit srv q) st)) (\<lambda>s.
       act_bind (send_rest ?env s) (\<lambda>st'. act_bind (still_valid se w) (\<lambda>_. act_bind (still_wanted ?env) (\<lambda>_.
         stream_finish ?env (se_elapsed se) st' 0)))) sk2 = Some (Inl e, sk')"
    by (fastforce simp: act_bind_eq [of "stream_begin a b c d e f" for a b c d e f])
  have b: "begun ?env limit st sk2" using begins [OF st] by (simp add: begun_def)
  have ended: "\<not> cut ?rows sk'" if loop: "?loop (st, []) sk2 = Some (Inr (s, n), sk3)" and "prefix (sk_sent sk3) (sk_sent sk')" for s n sk3
  proof (rule full_chunks_delivered [OF b _ _ that(2)])
    show "pushed ?env (st, []) sk2 ?rows (Inr s :: query_error + _) sk3"
      using list_loop_result [OF loop] b by (simp add: begun_def wave_list_signals_def list_names_matching)
    show "length (snd s) = length ?rows mod 1024"
      using list_loop_count [OF loop] by (simp add: wave_list_signals_def list_names_matching)
  qed
  from on consider
      (visit) e' where "list_names_visited se q w (lp_filter p) (list_rows_limit srv q) st sk2 = Some (Inl e', sk')" "e = map_query e'"
    | (rest) s sk3 where "list_names_visited se q w (lp_filter p) (list_rows_limit srv q) st sk2 = Some (Inr s, sk3)"
        "act_bind (send_rest ?env s) (\<lambda>st'. act_bind (still_valid se w) (\<lambda>_. act_bind (still_wanted ?env) (\<lambda>_.
         stream_finish ?env (se_elapsed se) st' 0))) sk3 = Some (Inl e, sk')"
    by (subst (asm) act_bind_eq) (auto simp: act_map_err_results)
  then show ?thesis
  proof cases
    case visit
    then consider (loop) "?loop (st, []) sk2 = Some (Inl e', sk')"
      | (after) s n where "?loop (st, []) sk2 = Some (Inr (s, n), sk')"
      by (auto simp: list_names_visited_def act_simps split: prod.splits)
    then show ?thesis
    proof cases
      case loop
      from list_loop_count [OF loop] consider (int) m where "e' = Internal m" | (own) "own_error se srv w dl (MList p) e'"
        using limits by (auto simp: own_error_def)
      then show ?thesis using visit(2) by cases (auto simp: cut_error_def internal_code)
    next
      case after
      from ended [OF this] cut show ?thesis by simp
    qed
  next
    case rest
    then obtain n where "?loop (st, []) sk2 = Some (Inr (s, n), sk3)"
      by (auto simp: list_names_visited_def act_simps split: prod.splits)
    moreover have "prefix (sk_sent sk3) (sk_sent sk')"
      using rest_sends(2) rest(2) sends_prefix unfolding only_sends_def by blast
    ultimately show ?thesis using ended cut by blast
  qed
qed

lemma dispatch_cut:
  assumes valid: "runtime_validate rep (srv_runtime srv) = Inr ()" "service_validate (srv_limits srv) = Inr ()"
    and fresh: "sk_lifecycle sk = NotStarted" "sk_sent sk = []" and ids: "sk_id sk = req_id req"
    and w: "fst (slot_current (se_query se) srv) = Inr w"
    and rows: "stream_of se w (req_method req) = Some (rows, requested)"
    and run: "dispatch_inner se srv req sk = Some (r, sk')"
    and begun: "sk_sent sk' = FBegin b # fs" and cut: "cut rows sk'"
  shows "\<exists>e. r = Inl e \<and> sk_lifecycle sk' \<noteq> Terminal \<and> cut_error se srv w (sk_deadline sk) (req_method req) fs e"
proof -
  have "length (delivered_rows (sk_sent sk')) \<noteq> length rows"
    using cut by (auto simp: cut_def)
  then obtain e where e: "r = Inl e" "sk_lifecycle sk' \<noteq> Terminal"
    using service_streams [OF valid fresh ids run w] rows by (cases r) (auto simp: streams_rows_def)
  have busy: "\<not> idle sk sk'" using begun fresh by (simp add: idle_def)
  have same: "w' = w" if "starting se srv l sk limit w' sk1" for l limit w' sk1
    using that w by (auto simp: starting_def)
  show ?thesis
  proof (cases "req_method req")
    case (MExtract p)
    have d: "dispatch_extract se srv (sk_id sk) p sk = Some (Inl e, sk')"
      using run e ids MExtract by simp
    from start_limits [OF d [unfolded dispatch_extract_def] valid(2)] busy obtain q limit w' sk1 where
      "request_limits srv (sk_deadline sk) (ep_max_commands p) (ep_max_rows p) (ep_max_response_bytes p) = Inr (q, limit)"
      "starting se srv (ep_max_response_bytes p) sk limit w' sk1"
      "(case find (\<lambda>s. wave_width w' s = None) (ep_signals p) of
         Some missing \<Rightarrow> act_lift (Inl (map_query (SignalNotFound missing)))
       | None \<Rightarrow>
         act_bind (stream_begin (se_out se) (sk_id sk) ''time_value.v1'' (wave_generation w') limit (frame_limit srv)) (\<lambda>st.
         act_bind (with_expensive_scan (se_out se) (act_map_err map_query
           (stream_changes se q w' (ep_signals p) \<lparr>win_start = ep_start p, win_end = ep_end p\<rparr> st))) (\<lambda>(s, emitted).
         act_bind (send_rest (se_out se) s) (\<lambda>st'.
           stream_finish (se_out se) (se_elapsed se) st' emitted)))) sk1 = Some (Inl e, sk')"
      by blast
    note on = this
    from same [OF on(2)] on extract_cut [OF valid(1) on(2) fresh on(1) on(3) begun] cut rows e MExtract
    show ?thesis by (simp add: stream_of_def)
  next
    case (MList p)
    have d: "dispatch_list se srv (sk_id sk) p sk = Some (Inl e, sk')"
      using run e ids MList by simp
    from start_limits [OF d [unfolded dispatch_list_def Let_def, folded list_rows_limit_def] valid(2)] busy
    obtain q limit w' sk1 where
      "request_limits srv (sk_deadline sk) None (lp_max_rows p) (lp_max_response_bytes p) = Inr (q, limit)"
      "starting se srv (lp_max_response_bytes p) sk limit w' sk1"
      "act_bind (stream_begin (se_out se) (sk_id sk) ''signal_name.v1'' (wave_generation w') limit (frame_limit srv)) (\<lambda>st.
       act_bind (act_map_err map_query (list_names_visited se q w' (lp_filter p) (list_rows_limit srv q) st)) (\<lambda>s.
       act_bind (send_rest (se_out se) s) (\<lambda>st'.
       act_bind (still_valid se w') (\<lambda>_.
       act_bind (still_wanted (se_out se)) (\<lambda>_.
         stream_finish (se_out se) (se_elapsed se) st' 0))))) sk1 = Some (Inl e, sk')"
      by blast
    note on = this
    from same [OF on(2)] list_cut [OF valid(1) on(2) fresh on(1) on(3) begun] cut rows e MList
    show ?thesis by (simp add: stream_of_def)
  qed (use rows in \<open>simp_all add: stream_of_def\<close>)
qed

lemma terminal_ends:
  assumes "required_terminal env e sk = Some sk'" and "sk_lifecycle sk' = Terminal" and "sk_lifecycle sk \<noteq> Terminal"
  shows "if sk_lifecycle sk = NotStarted then sk_sent sk' = sk_sent sk @ [frame_error (Some (sk_id sk)) 0 e]
    else \<exists>seq. sk_sent sk' = sk_sent sk @ [frame_end_error (sk_id sk) seq e]"
proof -
  have send: "ended_or_gone env f sk sk'"
    if "(case encode_bounded env (sk_max_bytes sk) f of
        Inl _ \<Rightarrow> Some (force_disconnect env sk) | Inr _ \<Rightarrow> terminal_loop env f sk) = Some sk'" for f
    using that force_disconnect_gone [of env f sk] terminal_loop_result [of env f sk sk']
    by (auto split: sum.splits)
  show ?thesis
  proof (cases "sk_lifecycle sk")
    case NotStarted
    with assms send [of "frame_error (Some (sk_id sk)) 0 e"] show ?thesis
      by (auto simp: required_terminal_def Let_def ended_or_gone_def)
  next
    case (Streaming n)
    with assms send [of "frame_end_error (sk_id sk) n e"] show ?thesis
      by (auto simp: required_terminal_def Let_def ended_or_gone_def)
  qed (use assms(3) in simp)
qed

lemma end_error_rows [simp]: "delivered_rows [frame_end_error i n e] = []"
  by (simp add: frame_end_error_def delivered_rows_def)

text \<open>What a response that began says of the run of its job.\<close>

lemma run_begun:
  assumes "run_job (se_out se) (dispatch se srv req) sk = Some sk'" and "sk_lifecycle sk' = Terminal"
    and "sk_sent sk' = FBegin b # fs" and "sk_lifecycle sk = NotStarted" and "sk_sent sk = []"
  shows "\<exists>r s. dispatch_inner se srv req (sk\<lparr>sk_tick := Suc (sk_tick sk)\<rparr>) = Some (r, s) \<and>
    (sk_lifecycle s = Terminal \<and> sk' = s \<or> sk_lifecycle s \<noteq> Terminal \<and>
      (\<exists>e. required_terminal (se_out se) e s = Some sk' \<and> (\<forall>e'. r = Inl e' \<longrightarrow> e = e')))"
proof -
  let ?env = "se_out se" and ?sk = "sk\<lparr>sk_tick := Suc (sk_tick sk)\<rparr>"
  have "required_terminal ?env e ?sk \<noteq> Some sk'" for e
    using terminal_ends [of ?env e ?sk sk'] assms by (auto simp: frame_error_def)
  then obtain r s where d: "dispatch_inner se srv req ?sk = Some (r, s)"
      "case r of Inr _ \<Rightarrow> ensure_terminal ?env s = Some sk' | Inl e \<Rightarrow> required_terminal ?env e s = Some sk'"
    using assms(1) by (auto simp: run_job_def Let_def dispatch_def job_of_def split: sum.splits option.splits)
  moreover have "sk' = s" if "sk_lifecycle s = Terminal"
    using d(2) that by (auto simp: ensure_terminal_def required_terminal_def Let_def split: sum.splits)
  ultimately show ?thesis by (cases r; cases "sk_lifecycle s = Terminal") (auto simp: ensure_terminal_def)
qed

lemma terminal_of_begun:
  assumes "required_terminal env e s = Some sk'" and "sk_lifecycle sk' = Terminal" and "sk_lifecycle s \<noteq> Terminal"
    and "sink_ok s" and "sk_sent sk' = FBegin b # fs"
  shows "\<exists>gs seq. sk_sent s = FBegin b # gs \<and> fs = gs @ [frame_end_error (sk_id s) seq e]"
proof -
  have "sk_lifecycle s \<noteq> NotStarted"
  proof
    assume n: "sk_lifecycle s = NotStarted"
    with assms(4) have "sk_sent s = []" by (simp add: sink_ok_def response_state_def)
    with n terminal_ends [OF assms(1-3)] assms(5) show False by (simp add: frame_error_def)
  qed
  with terminal_ends [OF assms(1-3)] obtain seq where "sk_sent sk' = sk_sent s @ [frame_end_error (sk_id s) seq e]"
    by auto
  then show ?thesis using assms(5) by (cases "sk_sent s") (auto simp: frame_end_error_def)
qed

subsection \<open>Properties\<close>

text \<open>
  C28. How a stream ends that was cut, on a service whose configuration is accepted: when the
  response of an \<^verbatim>\<open>extract\<close> or \<^verbatim>\<open>list\<close> job began and ended although not all full chunks of 1024
  rows were delivered, its last frame is an incomplete end with the code INTERNAL, whatever stopped
  the sending of the chunk (the response byte limit, the frame limit, cancellation or the deadline).
  The only other errors are what the scan itself ends with (reading the changes, a check of the
  context between names, the row limit of \<^verbatim>\<open>list\<close>), mapped as a query error, and, when
  \<^verbatim>\<open>extract\<close> sent no chunk, the cancellation or deadline seen in the wait for the scan permit.
\<close>

theorem full_chunk_failure:
  assumes "runtime_validate rep (srv_runtime srv) = Inr ()" and "service_validate (srv_limits srv) = Inr ()"
    and "fst (slot_current (se_query se) srv) = Inr w"
    and "stream_of se w (req_method req) = Some (rows, requested)"
    and "run_job (se_out se) (dispatch se srv req) (new_sink (req_id req) max_bytes dl) = Some sk'"
    and "sk_lifecycle sk' = Terminal" and "sk_sent sk' = FBegin b # fs"
    and "length (delivered_rows fs) < 1024 * (length rows div 1024)"
  shows "\<exists>gs seq e. fs = gs @ [frame_end_error (req_id req) seq e] \<and>
    cut_error se srv w dl (req_method req) gs e"
proof -
  let ?env = "se_out se" and ?sk = "(new_sink (req_id req) max_bytes dl)\<lparr>sk_tick := 1\<rparr>"
  have fresh: "sk_lifecycle ?sk = NotStarted" "sk_sent ?sk = []" "sk_id ?sk = req_id req" "sk_deadline ?sk = dl"
    by (simp_all add: new_sink_def)
  have "\<exists>r s. dispatch_inner se srv req ?sk = Some (r, s) \<and>
      (sk_lifecycle s = Terminal \<and> sk' = s \<or> sk_lifecycle s \<noteq> Terminal \<and>
        (\<exists>e. required_terminal ?env e s = Some sk' \<and> (\<forall>e'. r = Inl e' \<longrightarrow> e = e')))"
    using run_begun [OF assms(5,6,7)] by (simp add: new_sink_def)
  then obtain r s where ran: "dispatch_inner se srv req ?sk = Some (r, s)"
      "sk_lifecycle s = Terminal \<and> sk' = s \<or> sk_lifecycle s \<noteq> Terminal \<and>
        (\<exists>e. required_terminal ?env e s = Some sk' \<and> (\<forall>e'. r = Inl e' \<longrightarrow> e = e'))"
    by blast
  have "sink_ok ?sk" using new_sink_ok [of "req_id req" max_bytes dl] by (simp add: sink_ok_def)
  with dispatch_only_sends ran(1) sends_ok [of ?env ?sk s] have s: "sink_ok s" "sk_id s = req_id req"
    by (auto simp: only_sends_def same_sink_def new_sink_def)
  have stays: "\<exists>e. r = Inl e \<and> sk_lifecycle s \<noteq> Terminal \<and> cut_error se srv w dl (req_method req) gs e"
    if "sk_sent s = FBegin b # gs" "delivered_rows gs = delivered_rows fs" for gs
    using dispatch_cut [OF assms(1,2) fresh(1,2,3) assms(3,4) ran(1) that(1)] that assms(8) fresh(4)
    by (simp add: cut_def delivered_rows_def)
  show ?thesis
  proof (cases "sk_lifecycle s = Terminal")
    case True
    with ran(2) stays [of fs] assms(7) show ?thesis by simp
  next
    case False
    with ran(2) obtain e where e: "required_terminal ?env e s = Some sk'" "\<forall>e'. r = Inl e' \<longrightarrow> e = e'" by blast
    from terminal_of_begun [OF e(1) assms(6) False s(1) assms(7)] s(2) obtain gs seq where
      gs: "sk_sent s = FBegin b # gs" "fs = gs @ [frame_end_error (req_id req) seq e]" by auto
    from stays [OF gs(1)] gs(2) e(2) show ?thesis by auto
  qed
qed

text \<open>A waveform of 1024 signals, listed under a response limit that leaves no room for a chunk.\<close>

definition wide_fst :: opened_fst where
  "wide_fst = sample_fst\<lparr>of_signals := map (\<lambda>i. \<lparr>fs_name = ''s'' @ decimal i, fs_handle = i + 1,
     fs_width = 1, fs_type = Digital, fs_alias = False\<rparr>) [0..<1024]\<rparr>"

definition wide_service :: service where
  "wide_service = sample_service\<lparr>srv_current := WFst wide_fst sample_source\<rparr>"

definition wide_list :: request where
  "wide_list = \<lparr>req_id = ''r1'', req_method = MList \<lparr>lp_filter = None, lp_max_rows = None,
     lp_max_response_bytes = Some 4100, lp_timeout_ms = None\<rparr>\<rparr>"

lemma list_loop_refused:
  assumes "\<And>n. check (se_query se) q n = Inr ()" and "to_rows st = 0" and "1024 < l"
    and "\<And>rows. rows \<noteq> [] \<Longrightarrow> send_rows (se_out se) st rows sk = Some (Inl e, sk)"
    and "names \<noteq> []" and "length rows + length names = 1024"
  shows "list_loop se q None l n names (st, rows) sk = Some (Inl (Internal (protocol_error_text e)), sk)"
  using assms(5,6)
proof (induction names arbitrary: n rows)
  case (Cons name names)
  have "of_nat (length rows) < (1024 :: u64)"
    using Cons.prems by (simp add: word_less_nat_alt unat_of_nat64)
  then have room: "\<not> l \<le> of_nat (length rows)" using assms(3) by simp
  show ?case
  proof (cases names)
    case Nil
    with room Cons.prems assms(1,2) assms(4) [of "rows @ [JString name]"] show ?thesis
      by (simp add: list_visitor_def push_row_def chunk_rows_def send_inside_def act_bind_def act_lift_def act_map_err_def)
  next
    case (Cons x xs)
    with room Cons.prems Cons.IH [of "rows @ [JString name]" "n + 1"] assms(1,2) show ?thesis
      by (simp add: list_visitor_def push_row_def chunk_rows_def act_bind_def act_lift_def act_return_def)
  qed
qed simp

lemma open_frames:
  "frame_bytes open_env f 262144 = Inr 3" "try_frame_bytes open_env f 262144 = Inr (Some 3)"
  "encode_bounded open_env 4096 f = Inr [CHR ''{'', CHR ''}'', newline]"
  by (simp_all add: frame_bytes_def try_frame_bytes_def encode_bounded_def open_env_def new_counter_def
      counter_write_def new_capped_writer_def capped_write_def Let_def and_then_def ok_or_def)

lemma open_polls: "sp_cancelled (oe_poll open_env n) = False" "sp_now (oe_poll open_env n) = n"
  "sp_disconnected (oe_poll open_env n) = False" "sp_send (oe_poll open_env n) = Sent"
  by (simp_all add: open_env_def)

lemma wide_frames: "frame_limit wide_service = 262144"
  by (simp add: frame_limit_def wide_service_def sample_service_def default_runtime_def chunk_bytes_def)

text \<open>The frames of the response, the stream after its begin, and the error of the first chunk.\<close>

definition wide_begin :: response_frame where
  "wide_begin = frame_begin ''r1'' ''signal_name.v1'' (decimal (of_generation sample_fst))"

definition wide_sink :: "response_frame list \<Rightarrow> lifecycle \<Rightarrow> nat \<Rightarrow> sink" where
  "wide_sink fs l n = (new_sink ''r1'' 4096 None)\<lparr>sk_tick := n, sk_lifecycle := l, sk_sent := fs\<rparr>"

definition wide_stream :: stream_output where
  "wide_stream = \<lparr>to_id = ''r1'', to_next_seq = 1, to_bytes = 3, to_rows = 0, to_response_limit = 4100,
     to_frame_limit = 262144\<rparr>"

definition wide_error :: query_error where
  "wide_error = Internal (protocol_error_text (limit_error ''response_bytes'' 4100 4102))"

lemma wide_started:
  "stream_begin open_env ''r1'' ''signal_name.v1'' (of_generation sample_fst) 4100 262144 (wide_sink [] NotStarted 3) =
     Some (Inr wide_stream, wide_sink [wide_begin] (Streaming 1) 4)"
  by (simp add: stream_begin_def Let_def act_bind_def act_lift_def act_return_def open_frames ensure_response_budget_def
      saturating_add_def terminal_frame_reserve_bytes_def send_frame_def validate_frame_def frame_begin_def
      send_loop.simps [of open_env] request_check_def deliver_def open_polls wide_sink_def wide_stream_def
      wide_begin_def new_sink_def)

lemma wide_refused:
  "rows \<noteq> [] \<Longrightarrow> send_rows open_env wide_stream rows sk = Some (Inl (limit_error ''response_bytes'' 4100 4102), sk)"
  by (simp add: send_rows_def send_rows_split.simps [of _ _ rows] Let_def open_frames act_bind_def act_lift_def
      ensure_response_budget_def saturating_add_def terminal_frame_reserve_bytes_def wide_stream_def)

lemma wide_listed:
  "deadline q = None \<Longrightarrow>
     list_names_visited (sample_service_env open_env) q (WFst wide_fst sample_source) None 1000000 wide_stream sk =
       Some (Inl wide_error, sk)"
  using list_loop_refused [of "sample_service_env open_env" q wide_stream 1000000 sk
      "limit_error ''response_bytes'' 4100 4102" "wave_names (WFst wide_fst sample_source)" "[]" 1] wide_refused
  by (simp add: list_names_visited_def act_bind_def fst_signal_names_def wide_fst_def sample_service_env_def
      quiet_calm wide_error_def wide_stream_def)

lemma wide_slot: "fst (slot_current (se_query (sample_service_env open_env)) wide_service) = Inr (WFst wide_fst sample_source)"
  by (simp add: slot_current_def wide_service_def sample_service_env_def calm_def fst_revalidate_def)

lemma wide_dispatched:
  "dispatch_inner (sample_service_env open_env) wide_service wide_list (wide_sink [] NotStarted 1) =
     Some (Inl (map_query wide_error), wide_sink [wide_begin] (Streaming 1) 4)"
proof -
  have limits: "service_limits default_service None None (Some 4100) = Inr (with_max_commands 1000000000
      (with_max_result_bytes 4100 (with_max_rows 1000000 (with_max_signals 4096 unlimited))), 4100)"
    by (simp add: service_limits_def lower_limit_def default_service_def and_then_def terminal_frame_reserve_bytes_def)
  have generation: "wave_generation (WFst wide_fst sample_source) = of_generation sample_fst"
    by (simp add: wide_fst_def)
  have out: "se_out (sample_service_env open_env) = open_env" "srv_limits wide_service = default_service"
    by (simp_all add: sample_service_env_def wide_service_def sample_service_def)
  have tick: "runtime_check open_env (wide_sink fs l n) = Some (Inr (), wide_sink fs l (Suc n))" for fs l n
    by (simp add: runtime_check_def request_check_def open_polls wide_sink_def new_sink_def)
  have current: "service_current (sample_service_env open_env) wide_service (wide_sink [] NotStarted (Suc 0)) =
      Some (Inr (WFst wide_fst sample_source), wide_sink [] NotStarted 3)"
    using wide_slot by (simp add: service_current_def act_bind_def act_lift_def act_return_def out tick eval_nat_numeral)
  have query: "query_context wide_service None None (Some 4100) (wide_sink [] NotStarted (Suc 0)) =
      Some (Inr (with_max_commands 1000000000 (with_max_result_bytes 4100 (with_max_rows 1000000
        (with_max_signals 4096 unlimited))), 4100), wide_sink [] NotStarted (Suc 0))"
    by (simp add: query_context_def out limits and_then_def wide_sink_def new_sink_def)
  show ?thesis
    using wide_started generation
    by (simp add: wide_list_def dispatch_list_def act_bind_def query current act_map_err_def wide_listed out wide_frames
        with_max_commands_def with_max_result_bytes_def with_max_rows_def with_max_signals_def unlimited_def)
qed

lemma wide_run:
  "run_job open_env (dispatch (sample_service_env open_env) wide_service wide_list) (new_sink ''r1'' 4096 None) =
     Some (wide_sink [wide_begin, frame_end_error ''r1'' 1 (map_query wide_error)] Terminal 5)"
proof -
  have sk: "(new_sink ''r1'' 4096 None)\<lparr>sk_tick := Suc 0\<rparr> = wide_sink [] NotStarted 1"
    by (simp add: wide_sink_def new_sink_def)
  have "request_check (sk_deadline (new_sink ''r1'' 4096 None)) (oe_poll open_env n) = Inr ()" for n
    by (simp add: request_check_def open_polls new_sink_def)
  then have "run_job open_env (dispatch (sample_service_env open_env) wide_service wide_list) (new_sink ''r1'' 4096 None) =
      required_terminal open_env (map_query wide_error) (wide_sink [wide_begin] (Streaming 1) 4)"
    using wide_dispatched sk by (simp add: run_job_def Let_def dispatch_def job_of_def new_sink_def)
  also have "\<dots> = Some (wide_sink [wide_begin, frame_end_error ''r1'' 1 (map_query wide_error)] Terminal 5)"
    by (simp add: required_terminal_def Let_def open_frames terminal_loop.simps [of open_env] open_polls deliver_def
        wide_sink_def new_sink_def)
  finally show ?thesis .
qed

lemma full_chunk_failure_witness:
  "\<exists>gs seq e. run_job open_env (dispatch (sample_service_env open_env) wide_service wide_list) (new_sink ''r1'' 4096 None) =
       Some (wide_sink (wide_begin # gs @ [frame_end_error ''r1'' seq e]) Terminal 5) \<and>
     cut_error (sample_service_env open_env) wide_service (WFst wide_fst sample_source) None (req_method wide_list) gs e"
proof -
  let ?se = "sample_service_env open_env" and ?w = "WFst wide_fst sample_source"
  let ?last = "frame_end_error ''r1'' 1 (map_query wide_error)"
  obtain b where b: "wide_begin = FBegin b" by (simp add: wide_begin_def frame_begin_def)
  have "\<exists>gs seq e. [?last] = gs @ [frame_end_error (req_id wide_list) seq e] \<and>
      cut_error ?se wide_service ?w None (req_method wide_list) gs e"
  proof (rule full_chunk_failure [OF _ _ wide_slot])
    show "runtime_validate (\<lambda>_. True) (srv_runtime wide_service) = Inr ()"
        and "service_validate (srv_limits wide_service) = Inr ()"
      by (simp_all add: wide_service_def sample_service_def runtime_validate_def service_validate_def
          default_runtime_def default_service_def max_request_line_bytes_def terminal_frame_reserve_bytes_def chunk_bytes_def)
    show "stream_of ?se ?w (req_method wide_list) = Some (map JString (wave_list_signals ?w None), Some 4100)"
      by (simp add: stream_of_def wide_list_def)
    show "run_job (se_out ?se) (dispatch ?se wide_service wide_list) (new_sink (req_id wide_list) 4096 None) =
        Some (wide_sink [wide_begin, ?last] Terminal 5)"
      using wide_run by (simp add: sample_service_env_def wide_list_def)
    show "length (delivered_rows [?last]) < 1024 * (length (map JString (wave_list_signals ?w None)) div 1024)"
      by (simp add: wave_list_signals_def list_names_def fst_signal_names_def wide_fst_def)
  qed (use b in \<open>simp_all add: wide_sink_def\<close>)
  then obtain gs seq e where g: "[?last] = gs @ [frame_end_error ''r1'' seq e]"
      "cut_error ?se wide_service ?w None (req_method wide_list) gs e"
    by (auto simp: wide_list_def)
  from wide_run [unfolded g(1)] g(2) show ?thesis by blast
qed

end
