(* ===== verification/Identity.thy ===== *)
theory Identity
  imports Errors Values
begin

text \<open>
  The identity of an opened VCD, src/opened/identity.rs: what it records of a file, how it is
  computed from one open handle, and how a new handle is validated against it.

  A file is a \<open>file_env\<close>: what asking for its metadata, reading from a position and seeking answer
  at each moment, so that other processes may change it in between. The handle has the moment and
  the cursor. \<open>hash\<close> is BLAKE3, on the concatenation of what its hasher was given. An operation
  may never return (hashing a file that keeps growing): \<open>None\<close>.
\<close>

subsection \<open>Generations\<close>

text \<open>
  \<^verbatim>\<open>GenerationId::fresh\<close>: the process-wide counter, its wrapping \<^verbatim>\<open>fetch_add\<close>, and the assertion
  that its last value is never given out (\<open>None\<close>: the panic).
\<close>

definition generation_fresh :: "u64 \<Rightarrow> u64 option \<times> u64" where
  "generation_fresh counter = ((if counter = - 1 then None else Some counter), counter + 1)"

fun generations :: "nat \<Rightarrow> u64 \<Rightarrow> u64 option list" where
  "generations 0 counter = []"
| "generations (Suc n) counter =
     (case generation_fresh counter of (g, counter') \<Rightarrow> g # generations n counter')"

lemma generations_nth:
  "k < n \<Longrightarrow> generations n counter ! k = fst (generation_fresh (counter + of_nat k))"
proof (induction n counter arbitrary: k rule: generations.induct)
  case (2 n counter)
  then show ?case
    by (cases k) (simp_all add: generation_fresh_def add.assoc)
qed simp

lemma generations_length [simp]: "length (generations n counter) = n"
  by (induction n counter rule: generations.induct) (simp_all add: generation_fresh_def)

text \<open>Starting from 1, fewer than $2^{64}$ calls give distinct ids, none of them the zero.\<close>

lemma generations_distinct:
  assumes "n < 2 ^ 64 - 1"
  shows "distinct (generations n 1) \<and> list_all (\<lambda>g. g \<noteq> None \<and> g \<noteq> Some 0) (generations n 1)"
proof -
  have small: "unat (1 + of_nat k :: u64) = k + 1" if "k < n" for k
  proof -
    have "unat (of_nat (k + 1) :: u64) = k + 1" using that assms by (subst unat_of_nat) simp
    then show ?thesis by simp
  qed
  have id_at: "generations n 1 ! k = Some (1 + of_nat k)" if "k < n" for k
  proof -
    have "(1 + of_nat k :: u64) \<noteq> - 1"
    proof
      assume "1 + of_nat k = (- 1 :: u64)"
      then have "unat (1 + of_nat k :: u64) = unat (- 1 :: u64)" by (rule arg_cong)
      then show False using small [OF that] that assms by (simp add: unsigned_minus_1_eq_mask mask_eq_exp_minus_1)
    qed
    then show ?thesis using generations_nth [OF that, of 1] by (simp add: generation_fresh_def)
  qed
  have "i = j" if "i < n" "j < n" "generations n 1 ! i = generations n 1 ! j" for i j
  proof -
    have "(1 + of_nat i :: u64) = 1 + of_nat j" using that(3) id_at [OF that(1)] id_at [OF that(2)] by simp
    then have "unat (1 + of_nat i :: u64) = unat (1 + of_nat j :: u64)" by (rule arg_cong)
    then show ?thesis unfolding small [OF that(1)] small [OF that(2)] by simp
  qed
  then have "distinct (generations n 1)" by (auto simp: distinct_conv_nth)
  moreover have "generations n 1 ! k \<noteq> Some 0" if "k < n" for k
  proof -
    have "unat (1 + of_nat k :: u64) \<noteq> unat (0 :: u64)" unfolding small [OF that] by simp
    then have "(1 + of_nat k :: u64) \<noteq> 0" by metis
    then show ?thesis unfolding id_at [OF that] by simp
  qed
  ultimately show ?thesis using id_at by (auto simp: list_all_length)
qed

subsection \<open>Files\<close>

record file_metadata =
  md_len :: u64
  md_modified :: "nat option"
  md_device :: u64
  md_inode :: u64

record file_env =
  fe_metadata :: "nat \<Rightarrow> io_error + file_metadata"
  fe_read :: "nat \<Rightarrow> nat \<Rightarrow> nat \<Rightarrow> io_error + string"
  fe_seek :: "nat \<Rightarrow> nat \<Rightarrow> io_error + unit"

record file_handle =
  fh_tick :: nat
  fh_pos :: nat

type_synonym 'a file_op = "file_handle \<Rightarrow> ((vcd_error + 'a) \<times> file_handle) option"

definition fop_lift :: "vcd_error + 'a \<Rightarrow> 'a file_op" where
  "fop_lift r fh = Some (r, fh)"

definition fop_bind :: "'a file_op \<Rightarrow> ('a \<Rightarrow> 'b file_op) \<Rightarrow> 'b file_op" where
  "fop_bind m k fh = (case m fh of
     None \<Rightarrow> None | Some (Inl e, fh') \<Rightarrow> Some (Inl e, fh') | Some (Inr x, fh') \<Rightarrow> k x fh')"

definition ask_metadata :: "file_env \<Rightarrow> file_metadata file_op" where
  "ask_metadata env fh =
     Some (map_err Io (fe_metadata env (fh_tick fh)), fh\<lparr>fh_tick := fh_tick fh + 1\<rparr>)"

definition seek_start :: "file_env \<Rightarrow> nat \<Rightarrow> unit file_op" where
  "seek_start env pos fh =
     (case fe_seek env (fh_tick fh) pos of
        Inl e \<Rightarrow> Some (Inl (Io e), fh\<lparr>fh_tick := fh_tick fh + 1\<rparr>)
      | Inr _ \<Rightarrow> Some (Inr (), \<lparr>fh_tick = fh_tick fh + 1, fh_pos = pos\<rparr>))"

definition read_some :: "file_env \<Rightarrow> nat \<Rightarrow> string file_op" where
  "read_some env k fh =
     (case fe_read env (fh_tick fh) (fh_pos fh) k of
        Inl e \<Rightarrow> Some (Inl (Io e), fh\<lparr>fh_tick := fh_tick fh + 1\<rparr>)
      | Inr bytes \<Rightarrow> Some (Inr bytes, \<lparr>fh_tick = fh_tick fh + 1, fh_pos = fh_pos fh + length bytes\<rparr>))"

subsection \<open>Hashing regions\<close>

definition content_sample_bytes :: nat where "content_sample_bytes = 64 * 1024"

definition le_bytes :: "u64 \<Rightarrow> string" where
  "le_bytes w = map (\<lambda>i. char_of (unat (drop_bit (8 * i) w) mod 256)) [0..<8]"

text \<open>The loop of \<^verbatim>\<open>hash_region\<close> and \<^verbatim>\<open>fingerprint_raw_region\<close>: \<open>acc\<close> is what was hashed.\<close>

function read_region :: "file_env \<Rightarrow> string \<Rightarrow> string \<Rightarrow> nat \<Rightarrow> string file_op" where
  "read_region env message acc remaining fh =
     (if remaining = 0 then Some (Inr acc, fh)
      else (case read_some env (min remaining content_sample_bytes) fh of
          Some (Inr bytes, fh') \<Rightarrow>
            if bytes = [] then Some (Inl (Io (io_new UnexpectedEof message)), fh')
            else read_region env message (acc @ bytes) (remaining - length bytes) fh'
        | Some (Inl e, fh') \<Rightarrow> Some (Inl e, fh')
        | None \<Rightarrow> None))"
  by pat_completeness auto
termination
  by (relation "measure (\<lambda>(env, message, acc, remaining, fh). remaining)") auto

declare read_region.simps [simp del]

definition hash_region :: "file_env \<Rightarrow> string \<Rightarrow> nat \<Rightarrow> nat \<Rightarrow> string file_op" where
  "hash_region env acc offset len =
     fop_bind (seek_start env offset) (\<lambda>_.
       read_region env ''VCD changed while calculating content fingerprint''
         (acc @ le_bytes (of_nat offset) @ le_bytes (of_nat len)) len)"

definition samples_tag :: string where
  "samples_tag = ''vcd_tools_rs bounded samples v1'' @ [char_of (0 :: nat)]"

definition full_tag :: string where
  "full_tag = ''vcd_tools_rs full content v1'' @ [char_of (0 :: nat)]"

definition fingerprint_samples :: "(string \<Rightarrow> string) \<Rightarrow> file_env \<Rightarrow> u64 \<Rightarrow> string file_op" where
  "fingerprint_samples hash env len =
     (let beginning_len = min (unat len) content_sample_bytes; end_start = unat len - content_sample_bytes in
      fop_bind (hash_region env samples_tag 0 beginning_len) (\<lambda>acc.
      fop_bind (hash_region env (acc @ le_bytes (of_nat end_start)) end_start (unat len - end_start)) (\<lambda>acc'.
        fop_lift (Inr (hash acc')))))"

definition fingerprint_raw_region :: "(string \<Rightarrow> string) \<Rightarrow> file_env \<Rightarrow> nat \<Rightarrow> nat \<Rightarrow> string file_op" where
  "fingerprint_raw_region hash env offset len =
     fop_bind (seek_start env offset) (\<lambda>_.
     fop_bind (read_region env ''VCD changed while calculating header fingerprint'' [] len) (\<lambda>acc.
       fop_lift (Inr (hash acc))))"

partial_function (option) read_all :: "file_env \<Rightarrow> string \<Rightarrow> string file_op" where
  "read_all env acc fh =
     (case read_some env content_sample_bytes fh of
        Some (Inr bytes, fh') \<Rightarrow>
          if bytes = [] then Some (Inr acc, fh') else read_all env (acc @ bytes) fh'
      | Some (Inl e, fh') \<Rightarrow> Some (Inl e, fh')
      | None \<Rightarrow> None)"

definition fingerprint_full_content :: "(string \<Rightarrow> string) \<Rightarrow> file_env \<Rightarrow> string file_op" where
  "fingerprint_full_content hash env =
     fop_bind (seek_start env 0) (\<lambda>_.
     fop_bind (read_all env full_tag) (\<lambda>acc. fop_lift (Inr (hash acc))))"

subsection \<open>The identity\<close>

datatype fingerprint_policy = MetadataAndSamples | StrictFullContent

record file_identity =
  fid_len :: u64
  fid_modified :: "nat option"
  fid_body_offset :: nat
  fid_header :: string
  fid_sample :: string
  fid_full :: "string option"
  fid_device :: u64
  fid_inode :: u64

definition same_platform_identity :: "file_metadata \<Rightarrow> file_metadata \<Rightarrow> bool" where
  "same_platform_identity before after \<longleftrightarrow>
     md_device before = md_device after \<and> md_inode before = md_inode after"

definition metadata_changed :: "file_metadata \<Rightarrow> file_metadata \<Rightarrow> bool" where
  "metadata_changed m m' \<longleftrightarrow>
     md_len m \<noteq> md_len m' \<or> md_modified m \<noteq> md_modified m' \<or> \<not> same_platform_identity m m'"

definition matches_metadata :: "file_identity \<Rightarrow> file_metadata \<Rightarrow> bool" where
  "matches_metadata i m \<longleftrightarrow> fid_len i = md_len m \<and> fid_modified i = md_modified m \<and>
     fid_device i = md_device m \<and> fid_inode i = md_inode m"

definition from_metadata ::
    "file_metadata \<Rightarrow> nat \<Rightarrow> string \<Rightarrow> string \<Rightarrow> string option \<Rightarrow> file_identity" where
  "from_metadata m body_offset header sample full =
     \<lparr>fid_len = md_len m, fid_modified = md_modified m, fid_body_offset = body_offset, fid_header = header,
      fid_sample = sample, fid_full = full, fid_device = md_device m, fid_inode = md_inode m\<rparr>"

definition from_open_file ::
    "(string \<Rightarrow> string) \<Rightarrow> file_env \<Rightarrow> string \<Rightarrow> nat \<Rightarrow> fingerprint_policy \<Rightarrow> file_identity file_op" where
  "from_open_file hash env header body_offset policy =
     fop_bind (ask_metadata env) (\<lambda>m.
     if body_offset > unat (md_len m)
     then fop_lift (Inl (Io (io_new InvalidData ''VCD body offset is outside the opened file'')))
     else
       fop_bind (fingerprint_samples hash env (md_len m)) (\<lambda>sample.
       fop_bind (case policy of
           MetadataAndSamples \<Rightarrow> fop_lift (Inr None)
         | StrictFullContent \<Rightarrow> fop_bind (fingerprint_full_content hash env) (\<lambda>f. fop_lift (Inr (Some f)))) (\<lambda>full.
       fop_bind (ask_metadata env) (\<lambda>m'.
       if metadata_changed m m'
       then fop_lift (Inl (Io (io_new OtherKind ''VCD changed while calculating file identity'')))
       else fop_bind (seek_start env body_offset) (\<lambda>_.
         fop_lift (Inr (from_metadata m body_offset (hash header) sample full)))))))"

definition content_fingerprints_match ::
    "(string \<Rightarrow> string) \<Rightarrow> file_env \<Rightarrow> file_identity \<Rightarrow> fingerprint_policy \<Rightarrow> bool file_op" where
  "content_fingerprints_match hash env i policy =
     fop_bind (fingerprint_raw_region hash env 0 (fid_body_offset i)) (\<lambda>header.
     if header \<noteq> fid_header i then fop_lift (Inr False)
     else fop_bind (fingerprint_samples hash env (fid_len i)) (\<lambda>sample.
       if sample \<noteq> fid_sample i then fop_lift (Inr False)
       else (case (policy, fid_full i) of
           (MetadataAndSamples, None) \<Rightarrow> fop_lift (Inr True)
         | (StrictFullContent, Some expected) \<Rightarrow>
             fop_bind (fingerprint_full_content hash env) (\<lambda>f. fop_lift (Inr (f = expected)))
         | _ \<Rightarrow> fop_lift (Inr False))))"

definition validation ::
    "(string \<Rightarrow> string) \<Rightarrow> file_env \<Rightarrow> file_identity \<Rightarrow> fingerprint_policy \<Rightarrow> unit file_op" where
  "validation hash env i policy =
     fop_bind (ask_metadata env) (\<lambda>before.
     if \<not> matches_metadata i before then fop_lift (Inl generation_mismatch_error)
     else fop_bind (content_fingerprints_match hash env i policy) (\<lambda>same.
       if \<not> same then fop_lift (Inl generation_mismatch_error)
       else fop_bind (ask_metadata env) (\<lambda>after.
         if \<not> matches_metadata i after \<or> \<not> same_platform_identity before after
         then fop_lift (Inl generation_mismatch_error)
         else fop_lift (Inr ()))))"

text \<open>The cursor is restored whatever the outcome.\<close>

definition validate_open_file ::
    "(string \<Rightarrow> string) \<Rightarrow> file_env \<Rightarrow> file_identity \<Rightarrow> fingerprint_policy \<Rightarrow> unit file_op" where
  "validate_open_file hash env i policy fh =
     (case validation hash env i policy fh of
        None \<Rightarrow> None
      | Some (r, fh1) \<Rightarrow>
          (case seek_start env (fid_body_offset i) fh1 of
             None \<Rightarrow> None
           | Some (restored, fh2) \<Rightarrow> Some (and_then r (\<lambda>_. restored), fh2)))"

subsection \<open>What is hashed\<close>

text \<open>
  The file has the content \<open>content\<close> whenever it is read: a read gives some of the bytes at its
  position, none only at the end. It may be short and it may fail.
\<close>

definition serves :: "file_env \<Rightarrow> string \<Rightarrow> bool" where
  "serves env content \<longleftrightarrow> (\<forall>n pos k bytes. 0 < k \<longrightarrow> fe_read env n pos k = Inr bytes \<longrightarrow>
     length bytes \<le> k \<and> bytes = take (length bytes) (drop pos content) \<and> (bytes = [] \<longrightarrow> length content \<le> pos))"

definition sample_input :: "string \<Rightarrow> nat \<Rightarrow> string" where
  "sample_input content len =
     (let b = min len content_sample_bytes; e = len - content_sample_bytes in
      samples_tag @ le_bytes 0 @ le_bytes (of_nat b) @ take b content @
      le_bytes (of_nat e) @ le_bytes (of_nat e) @ le_bytes (of_nat (len - e)) @ take (len - e) (drop e content))"

lemma fop_bind_eq:
  "fop_bind m k fh = Some (r, fh') \<longleftrightarrow>
     (\<exists>e. m fh = Some (Inl e, fh') \<and> r = Inl e) \<or> (\<exists>x fh1. m fh = Some (Inr x, fh1) \<and> k x fh1 = Some (r, fh'))"
  by (auto simp: fop_bind_def split: option.splits sum.splits prod.splits)

lemma fop_lift_eq: "fop_lift x fh = Some (r, fh') \<longleftrightarrow> r = x \<and> fh' = fh"
  by (auto simp: fop_lift_def)

lemma seek_Inr: "seek_start env pos fh = Some (Inr u, fh') \<Longrightarrow> fh_pos fh' = pos"
  by (auto simp: seek_start_def split: sum.splits)

lemma read_some_Inr:
  assumes "serves env content" and "0 < k" and "read_some env k fh = Some (Inr bytes, fh')"
  shows "length bytes \<le> k \<and> bytes = take (length bytes) (drop (fh_pos fh) content) \<and>
    (bytes = [] \<longrightarrow> length content \<le> fh_pos fh) \<and> fh_pos fh' = fh_pos fh + length bytes"
  using assms unfolding serves_def read_some_def by (auto split: sum.splits)

lemma take_in_steps:
  "xs = take (length xs) (drop p c) \<Longrightarrow> xs @ take (r - length xs) (drop (p + length xs) c) = take r (drop p c)"
  if "length xs \<le> r"
  using that by (metis drop_drop add.commute le_add_diff_inverse take_add)

lemma read_region_result:
  assumes "serves env content" and "read_region env message acc remaining fh = Some (Inr s, fh')"
  shows "s = acc @ take remaining (drop (fh_pos fh) content) \<and> (0 < remaining \<longrightarrow> fh_pos fh + remaining \<le> length content)"
  using assms(2)
proof (induction remaining arbitrary: acc fh rule: less_induct)
  case (less remaining)
  show ?case
  proof (cases "remaining = 0")
    case True
    with less.prems show ?thesis by (simp add: read_region.simps)
  next
    case False
    let ?k = "min remaining content_sample_bytes"
    have k: "0 < ?k" using False by (simp add: content_sample_bytes_def)
    obtain bytes fh1 where r: "read_some env ?k fh = Some (Inr bytes, fh1)" "bytes \<noteq> []"
        "read_region env message (acc @ bytes) (remaining - length bytes) fh1 = Some (Inr s, fh')"
      using less.prems False
      by (auto simp: read_region.simps [of env message acc remaining fh] split: option.splits prod.splits sum.splits if_splits)
    note b = read_some_Inr [OF assms(1) k r(1)]
    have len: "length bytes \<le> remaining" "0 < length bytes" using b r(2) by auto
    have shorter: "remaining - length bytes < remaining" using len by linarith
    note IH = less.IH [OF shorter r(3)]
    have rest: "s = (acc @ bytes) @ take (remaining - length bytes) (drop (fh_pos fh1) content)"
        "0 < remaining - length bytes \<longrightarrow> fh_pos fh1 + (remaining - length bytes) \<le> length content"
      using IH len by simp_all
    have joined: "bytes @ take (remaining - length bytes) (drop (fh_pos fh + length bytes) content) =
        take remaining (drop (fh_pos fh) content)"
      using take_in_steps [OF len(1), of "fh_pos fh" content] b by simp
    have "length bytes \<le> length (drop (fh_pos fh) content)" using b by (metis length_take min.cobounded1)
    then have inside: "fh_pos fh + length bytes \<le> length content"
      using len(2) unfolding length_drop by linarith
    have pos: "fh_pos fh1 = fh_pos fh + length bytes" using b by simp
    have "s = acc @ take remaining (drop (fh_pos fh) content)" using rest(1) joined pos by simp
    moreover have "fh_pos fh + remaining \<le> length content"
      using rest(2) inside pos len(1) by (cases "0 < remaining - length bytes") auto
    ultimately show ?thesis by simp
  qed
qed

lemma hash_region_result:
  assumes "serves env content" and "hash_region env acc offset len fh = Some (Inr s, fh')"
  shows "s = acc @ le_bytes (of_nat offset) @ le_bytes (of_nat len) @ take len (drop offset content) \<and>
    (0 < len \<longrightarrow> offset + len \<le> length content)"
proof -
  obtain fh1 where "fh_pos fh1 = offset"
      "read_region env ''VCD changed while calculating content fingerprint''
        (acc @ le_bytes (of_nat offset) @ le_bytes (of_nat len)) len fh1 = Some (Inr s, fh')"
    using assms(2) by (auto simp: hash_region_def fop_bind_eq dest: seek_Inr)
  with read_region_result [OF assms(1) this(2)] show ?thesis by simp
qed

lemma samples_result:
  assumes "serves env content" and "fingerprint_samples hash env len fh = Some (Inr f, fh')"
  shows "f = hash (sample_input content (unat len)) \<and> unat len \<le> length content"
proof -
  let ?b = "min (unat len) content_sample_bytes" and ?e = "unat len - content_sample_bytes"
  obtain acc fh1 acc' where one: "hash_region env samples_tag 0 ?b fh = Some (Inr acc, fh1)"
      and two: "hash_region env (acc @ le_bytes (of_nat ?e)) ?e (unat len - ?e) fh1 = Some (Inr acc', fh')"
      and f: "f = hash acc'"
    using assms(2) by (auto simp: fingerprint_samples_def Let_def fop_bind_eq fop_lift_eq)
  have "unat len \<le> length content"
    using hash_region_result [OF assms(1) two] by (cases "unat len = 0") (auto simp: content_sample_bytes_def)
  with hash_region_result [OF assms(1) one] hash_region_result [OF assms(1) two] f show ?thesis
    by (simp add: sample_input_def Let_def)
qed

lemma raw_region_result:
  assumes "serves env content" and "fingerprint_raw_region hash env 0 len fh = Some (Inr f, fh')"
  shows "f = hash (take len content) \<and> len \<le> length content"
proof -
  obtain acc fh1 where "fh_pos fh1 = 0" "f = hash acc"
      "read_region env ''VCD changed while calculating header fingerprint'' [] len fh1 = Some (Inr acc, fh')"
    using assms(2) by (auto simp: fingerprint_raw_region_def fop_bind_eq fop_lift_eq dest: seek_Inr)
  with read_region_result [OF assms(1) this(3)] show ?thesis by (cases "len = 0") simp_all
qed

lemma read_all_result:
  assumes "serves env content" and "read_all env acc fh = Some (Inr s, fh')"
  shows "s = acc @ drop (fh_pos fh) content"
proof -
  let ?P = "\<lambda>acc fh (out :: (vcd_error + string) \<times> file_handle). \<forall>s fh'. out = (Inr s, fh') \<longrightarrow> s = acc @ drop (fh_pos fh) content"
  have "env = env \<longrightarrow> ?P acc fh (Inr s, fh')"
  proof (rule read_all.raw_induct [of "\<lambda>e acc fh out. e = env \<longrightarrow> ?P acc fh out" env acc fh "(Inr s, fh')",
        OF _ assms(2)], intro impI allI)
    fix loop :: "file_env \<Rightarrow> string \<Rightarrow> string file_op" and e acc fh out s fh'
    assume IH: "\<And>e acc fh out. loop e acc fh = Some out \<Longrightarrow> e = env \<longrightarrow> ?P acc fh out"
      and step: "(case read_some e content_sample_bytes fh of None \<Rightarrow> None
        | Some (Inl x, fh') \<Rightarrow> Some (Inl x, fh')
        | Some (Inr bytes, fh') \<Rightarrow> if bytes = [] then Some (Inr acc, fh') else loop e (acc @ bytes) fh') = Some out"
      and e: "e = env" and out: "out = (Inr s, fh')"
    have k: "0 < content_sample_bytes" by (simp add: content_sample_bytes_def)
    from step out obtain bytes fh1 where r: "read_some e content_sample_bytes fh = Some (Inr bytes, fh1)"
        "if bytes = [] then s = acc else loop e (acc @ bytes) fh1 = Some (Inr s, fh')"
      by (auto split: option.splits prod.splits sum.splits if_splits)
    note b = read_some_Inr [OF assms(1) k r(1) [unfolded e]]
    show "s = acc @ drop (fh_pos fh) content"
    proof (cases "bytes = []")
      case True
      with r(2) b show ?thesis by simp
    next
      case False
      then have "s = (acc @ bytes) @ drop (fh_pos fh1) content" using IH [of e "acc @ bytes" fh1 "(Inr s, fh')"] r(2) e by simp
      moreover have "bytes @ drop (fh_pos fh + length bytes) content = drop (fh_pos fh) content"
        using b by (metis append_take_drop_id drop_drop add.commute)
      ultimately show ?thesis using b by simp
    qed
  qed
  then show ?thesis by simp
qed

lemma full_result:
  assumes "serves env content" and "fingerprint_full_content hash env fh = Some (Inr f, fh')"
  shows "f = hash (full_tag @ content)"
proof -
  obtain acc fh1 where "fh_pos fh1 = 0" "f = hash acc" "read_all env full_tag fh1 = Some (Inr acc, fh')"
    using assms(2) by (auto simp: fingerprint_full_content_def fop_bind_eq fop_lift_eq dest: seek_Inr)
  with read_all_result [OF assms(1) this(3)] show ?thesis by simp
qed

subsection \<open>Opening and validating\<close>

lemma sample_input_eq:
  assumes "sample_input old len = sample_input new len" and "len \<le> length old" and "len \<le> length new"
  shows "take (min len content_sample_bytes) new = take (min len content_sample_bytes) old"
    and "take (len - (len - content_sample_bytes)) (drop (len - content_sample_bytes) new) =
      take (len - (len - content_sample_bytes)) (drop (len - content_sample_bytes) old)"
  using assms by (simp_all add: sample_input_def Let_def)

lemma from_open_file_result:
  assumes env: "serves env content" and run: "from_open_file hash env header off policy fh = Some (Inr i, fh')"
  shows "fid_body_offset i = off" and "off \<le> unat (fid_len i)" and "unat (fid_len i) \<le> length content"
    and "fid_header i = hash header" and "fid_sample i = hash (sample_input content (unat (fid_len i)))"
    and "fid_full i = (case policy of MetadataAndSamples \<Rightarrow> None | StrictFullContent \<Rightarrow> Some (hash (full_tag @ content)))"
    and "fh_pos fh' = off"
proof -
  obtain m fh1 sample fh2 full fh3 m' fh4 where inside: "off \<le> unat (md_len m)"
    and sample: "fingerprint_samples hash env (md_len m) fh1 = Some (Inr sample, fh2)"
    and full: "(case policy of MetadataAndSamples \<Rightarrow> fop_lift (Inr None)
         | StrictFullContent \<Rightarrow> fop_bind (fingerprint_full_content hash env) (\<lambda>f. fop_lift (Inr (Some f)))) fh2 =
        Some (Inr full, fh3)"
    and seek: "seek_start env off fh4 = Some (Inr (), fh')"
    and i: "i = from_metadata m off (hash header) sample full"
    using run
    by (auto simp: from_open_file_def fop_bind_eq fop_lift_eq not_less split: if_splits)
  have "full = (case policy of MetadataAndSamples \<Rightarrow> None | StrictFullContent \<Rightarrow> Some (hash (full_tag @ content)))"
    using full full_result [OF env]
    by (cases policy) (auto simp: fop_bind_eq fop_lift_eq)
  then show "fid_body_offset i = off" "off \<le> unat (fid_len i)" "unat (fid_len i) \<le> length content"
    "fid_header i = hash header" "fid_sample i = hash (sample_input content (unat (fid_len i)))"
    "fid_full i = (case policy of MetadataAndSamples \<Rightarrow> None | StrictFullContent \<Rightarrow> Some (hash (full_tag @ content)))"
    "fh_pos fh' = off"
    using inside i samples_result [OF env sample] seek_Inr [OF seek] by (simp_all add: from_metadata_def)
qed

lemma content_match_result:
  assumes env: "serves env content"
    and run: "content_fingerprints_match hash env i policy fh = Some (Inr b, fh')"
  shows "b \<longleftrightarrow> hash (take (fid_body_offset i) content) = fid_header i \<and>
      hash (sample_input content (unat (fid_len i))) = fid_sample i \<and>
      fid_full i = (case policy of MetadataAndSamples \<Rightarrow> None | StrictFullContent \<Rightarrow> Some (hash (full_tag @ content)))"
    and "b \<Longrightarrow> fid_body_offset i \<le> length content" and "b \<Longrightarrow> unat (fid_len i) \<le> length content"
proof -
  obtain header fh1 where header: "fingerprint_raw_region hash env 0 (fid_body_offset i) fh = Some (Inr header, fh1)"
    and rest: "(if header \<noteq> fid_header i then fop_lift (Inr False)
     else fop_bind (fingerprint_samples hash env (fid_len i)) (\<lambda>sample.
       if sample \<noteq> fid_sample i then fop_lift (Inr False)
       else (case (policy, fid_full i) of
           (MetadataAndSamples, None) \<Rightarrow> fop_lift (Inr True)
         | (StrictFullContent, Some expected) \<Rightarrow>
             fop_bind (fingerprint_full_content hash env) (\<lambda>f. fop_lift (Inr (f = expected)))
         | _ \<Rightarrow> fop_lift (Inr False)))) fh1 = Some (Inr b, fh')"
    using run by (auto simp: content_fingerprints_match_def fop_bind_eq [where k = "\<lambda>h. if _ h then _ h else _ h"])
  note h = raw_region_result [OF env header]
  have "(b \<longleftrightarrow> hash (take (fid_body_offset i) content) = fid_header i \<and>
      hash (sample_input content (unat (fid_len i))) = fid_sample i \<and>
      fid_full i = (case policy of MetadataAndSamples \<Rightarrow> None | StrictFullContent \<Rightarrow> Some (hash (full_tag @ content)))) \<and>
      (b \<longrightarrow> fid_body_offset i \<le> length content \<and> unat (fid_len i) \<le> length content)"
  proof (cases "header = fid_header i")
    case False
    then show ?thesis using rest h by (simp add: fop_lift_eq)
  next
    case True
    then obtain sample fh2 where sample: "fingerprint_samples hash env (fid_len i) fh1 = Some (Inr sample, fh2)"
      and rest': "(if sample \<noteq> fid_sample i then fop_lift (Inr False)
       else (case (policy, fid_full i) of
           (MetadataAndSamples, None) \<Rightarrow> fop_lift (Inr True)
         | (StrictFullContent, Some expected) \<Rightarrow>
             fop_bind (fingerprint_full_content hash env) (\<lambda>f. fop_lift (Inr (f = expected)))
         | _ \<Rightarrow> fop_lift (Inr False))) fh2 = Some (Inr b, fh')"
      using rest by (auto simp: fop_bind_eq [where m = "fingerprint_samples hash env (fid_len i)"])
    note s = samples_result [OF env sample]
    show ?thesis
    proof (cases "sample = fid_sample i")
      case False
      then show ?thesis using rest' s True h by (simp add: fop_lift_eq)
    next
      case same: True
      then show ?thesis using rest' s True h full_result [OF env]
        by (cases policy; cases "fid_full i") (auto simp: fop_bind_eq fop_lift_eq)
    qed
  qed
  then show "b \<longleftrightarrow> hash (take (fid_body_offset i) content) = fid_header i \<and>
      hash (sample_input content (unat (fid_len i))) = fid_sample i \<and>
      fid_full i = (case policy of MetadataAndSamples \<Rightarrow> None | StrictFullContent \<Rightarrow> Some (hash (full_tag @ content)))"
    and "b \<Longrightarrow> fid_body_offset i \<le> length content" and "b \<Longrightarrow> unat (fid_len i) \<le> length content"
    by blast+
qed

lemma validate_result:
  assumes run: "validate_open_file hash env i policy fh = Some (Inr (), fh')"
  shows "\<exists>fh1 fh2. content_fingerprints_match hash env i policy fh1 = Some (Inr True, fh2)"
    and "fh_pos fh' = fid_body_offset i"
proof -
  obtain fh1 where v: "validation hash env i policy fh = Some (Inr (), fh1)"
    and s: "seek_start env (fid_body_offset i) fh1 = Some (Inr (), fh')"
    using run by (auto simp: validate_open_file_def and_then_def split: option.splits prod.splits sum.splits)
  from v show "\<exists>fh1 fh2. content_fingerprints_match hash env i policy fh1 = Some (Inr True, fh2)"
    by (auto simp: validation_def fop_bind_eq fop_lift_eq split: if_splits)
  from s show "fh_pos fh' = fid_body_offset i" by (rule seek_Inr)
qed


definition distinguishes :: "(string \<Rightarrow> string) \<Rightarrow> string \<Rightarrow> string \<Rightarrow> nat \<Rightarrow> nat \<Rightarrow> bool" where
  "distinguishes hash old new off len \<longleftrightarrow>
     (hash (take off old) = hash (take off new) \<longrightarrow> take off old = take off new) \<and>
     (hash (sample_input old len) = hash (sample_input new len) \<longrightarrow> sample_input old len = sample_input new len) \<and>
     (hash (full_tag @ old) = hash (full_tag @ new) \<longrightarrow> old = new)"

subsection \<open>An unchanged source\<close>

text \<open>The file has the metadata \<open>m\<close> and the content \<open>content\<close> all the time and nothing fails.\<close>

definition steady :: "file_env \<Rightarrow> file_metadata \<Rightarrow> string \<Rightarrow> bool" where
  "steady env m content \<longleftrightarrow> unat (md_len m) = length content \<and> serves env content \<and>
     (\<forall>n. fe_metadata env n = Inr m \<and> (\<forall>pos. fe_seek env n pos = Inr ()) \<and>
       (\<forall>pos k. \<exists>bytes. fe_read env n pos k = Inr bytes))"

lemma steady_serves: "steady env m content \<Longrightarrow> serves env content"
  by (simp add: steady_def)

lemma steady_metadata: "steady env m content \<Longrightarrow> ask_metadata env fh = Some (Inr m, fh\<lparr>fh_tick := fh_tick fh + 1\<rparr>)"
  by (simp add: steady_def ask_metadata_def)

lemma steady_seek:
  "steady env m content \<Longrightarrow> seek_start env pos fh = Some (Inr (), \<lparr>fh_tick = fh_tick fh + 1, fh_pos = pos\<rparr>)"
  by (simp add: steady_def seek_start_def)

lemma steady_read:
  assumes "steady env m content" and "0 < k"
  obtains bytes fh' where "read_some env k fh = Some (Inr bytes, fh')" and "fh_pos fh' = fh_pos fh + length bytes"
    and "length bytes \<le> k" and "length bytes \<le> length content - fh_pos fh"
    and "fh_pos fh < length content \<Longrightarrow> bytes \<noteq> []"
proof -
  have "\<exists>bytes. fe_read env (fh_tick fh) (fh_pos fh) k = Inr bytes"
    using assms(1) by (simp add: steady_def)
  then obtain bytes where r: "fe_read env (fh_tick fh) (fh_pos fh) k = Inr bytes" by blast
  then have s: "read_some env k fh = Some (Inr bytes, \<lparr>fh_tick = fh_tick fh + 1, fh_pos = fh_pos fh + length bytes\<rparr>)"
    by (simp add: read_some_def)
  note b = read_some_Inr [OF steady_serves [OF assms(1)] assms(2) s]
  then have "length bytes \<le> length (drop (fh_pos fh) content)" by (metis length_take min.cobounded1)
  with b that [OF s] show ?thesis by auto
qed

lemma steady_region:
  assumes "steady env m content" and "fh_pos fh + remaining \<le> length content"
  shows "\<exists>s fh'. read_region env message acc remaining fh = Some (Inr s, fh')"
  using assms(2)
proof (induction remaining arbitrary: acc fh rule: less_induct)
  case (less remaining)
  show ?case
  proof (cases "remaining = 0")
    case True
    then show ?thesis by (simp add: read_region.simps)
  next
    case False
    let ?k = "min remaining content_sample_bytes"
    have k: "0 < ?k" using False by (simp add: content_sample_bytes_def)
    obtain bytes fh1 where r: "read_some env ?k fh = Some (Inr bytes, fh1)" "fh_pos fh1 = fh_pos fh + length bytes"
        "length bytes \<le> ?k" "length bytes \<le> length content - fh_pos fh"
        "fh_pos fh < length content \<Longrightarrow> bytes \<noteq> []"
      by (rule steady_read [OF assms(1) k, of fh]) (rule that)
    have "bytes \<noteq> []" using r(5) less.prems False by simp
    have "\<exists>s fh'. read_region env message (acc @ bytes) (remaining - length bytes) fh1 = Some (Inr s, fh')"
    proof (rule less.IH)
      show "remaining - length bytes < remaining" using \<open>bytes \<noteq> []\<close> False by (cases bytes) auto
      show "fh_pos fh1 + (remaining - length bytes) \<le> length content" using r less.prems by simp
    qed
    with r(1) \<open>bytes \<noteq> []\<close> False show ?thesis by (simp add: read_region.simps [of env message acc remaining fh])
  qed
qed

lemma steady_hash_region:
  assumes "steady env m content" and "offset + len \<le> length content"
  shows "\<exists>s fh'. hash_region env acc offset len fh = Some (Inr s, fh')"
  using steady_region [OF assms(1), of "\<lparr>fh_tick = fh_tick fh + 1, fh_pos = offset\<rparr>" len] assms(2)
  by (simp add: hash_region_def fop_bind_def steady_seek [OF assms(1)])

lemma steady_samples:
  assumes "steady env m content" and "unat len \<le> length content"
  shows "\<exists>fh'. fingerprint_samples hash env len fh = Some (Inr (hash (sample_input content (unat len))), fh')"
proof -
  let ?e = "unat len - content_sample_bytes"
  obtain s fh1 where one: "hash_region env samples_tag 0 (min (unat len) content_sample_bytes) fh = Some (Inr s, fh1)"
    using steady_hash_region [OF assms(1), of 0 "min (unat len) content_sample_bytes"] assms(2) by fastforce
  obtain s' fh2 where two: "hash_region env (s @ le_bytes (of_nat ?e)) ?e (unat len - ?e) fh1 = Some (Inr s', fh2)"
    using steady_hash_region [OF assms(1), of ?e "unat len - ?e"] assms(2) by fastforce
  have "fingerprint_samples hash env len fh = Some (Inr (hash s'), fh2)"
    using one two by (simp add: fingerprint_samples_def Let_def fop_bind_def fop_lift_def)
  with samples_result [OF steady_serves [OF assms(1)] this] show ?thesis by simp
qed

lemma steady_raw_region:
  assumes "steady env m content" and "len \<le> length content"
  shows "\<exists>fh'. fingerprint_raw_region hash env 0 len fh = Some (Inr (hash (take len content)), fh')"
proof -
  obtain s fh1 where "read_region env ''VCD changed while calculating header fingerprint'' [] len
      \<lparr>fh_tick = fh_tick fh + 1, fh_pos = 0\<rparr> = Some (Inr s, fh1)"
    using steady_region [OF assms(1), of "\<lparr>fh_tick = fh_tick fh + 1, fh_pos = 0\<rparr>" len] assms(2) by fastforce
  then have "fingerprint_raw_region hash env 0 len fh = Some (Inr (hash s), fh1)"
    by (simp add: fingerprint_raw_region_def fop_bind_def fop_lift_def steady_seek [OF assms(1)])
  with raw_region_result [OF steady_serves [OF assms(1)] this] show ?thesis by simp
qed

lemma steady_read_all:
  assumes "steady env m content"
  shows "\<exists>s fh'. read_all env acc fh = Some (Inr s, fh')"
proof (induction "length content - fh_pos fh" arbitrary: acc fh rule: less_induct)
  case less
  have k: "0 < content_sample_bytes" by (simp add: content_sample_bytes_def)
  obtain bytes fh1 where r: "read_some env content_sample_bytes fh = Some (Inr bytes, fh1)"
      "fh_pos fh1 = fh_pos fh + length bytes" "length bytes \<le> content_sample_bytes"
      "length bytes \<le> length content - fh_pos fh" "fh_pos fh < length content \<Longrightarrow> bytes \<noteq> []"
    by (rule steady_read [OF assms k, of fh]) (rule that)
  show ?case
  proof (cases "bytes = []")
    case True
    with r show ?thesis by (simp add: read_all.simps [of env acc fh])
  next
    case False
    then have "0 < length bytes" by simp
    then have "length content - fh_pos fh1 < length content - fh_pos fh" using r(2,4) by linarith
    from less [OF this] obtain s fh' where "read_all env (acc @ bytes) fh1 = Some (Inr s, fh')" by blast
    with r(1) False show ?thesis by (simp add: read_all.simps [of env acc fh])
  qed
qed

lemma steady_full:
  assumes "steady env m content"
  shows "\<exists>fh'. fingerprint_full_content hash env fh = Some (Inr (hash (full_tag @ content)), fh')"
proof -
  obtain s fh1 where "read_all env full_tag \<lparr>fh_tick = fh_tick fh + 1, fh_pos = 0\<rparr> = Some (Inr s, fh1)"
    using steady_read_all [OF assms] by blast
  then have "fingerprint_full_content hash env fh = Some (Inr (hash s), fh1)"
    by (simp add: fingerprint_full_content_def fop_bind_def fop_lift_def steady_seek [OF assms])
  with full_result [OF steady_serves [OF assms] this] show ?thesis by simp
qed

lemma steady_open:
  assumes env: "steady env m content" and off: "off \<le> length content"
  shows "\<exists>i fh'. from_open_file hash env header off policy fh = Some (Inr i, fh') \<and> matches_metadata i m"
proof -
  obtain fh1 where samples: "fingerprint_samples hash env (md_len m) (fh\<lparr>fh_tick := fh_tick fh + 1\<rparr>) =
      Some (Inr (hash (sample_input content (unat (md_len m)))), fh1)"
    using steady_samples [OF env, of "md_len m"] env by (fastforce simp: steady_def)
  obtain full fh2 where full: "(case policy of MetadataAndSamples \<Rightarrow> fop_lift (Inr None)
         | StrictFullContent \<Rightarrow> fop_bind (fingerprint_full_content hash env) (\<lambda>f. fop_lift (Inr (Some f)))) fh1 =
        Some (Inr full, fh2)"
    using steady_full [OF env, of hash fh1] by (cases policy) (auto simp: fop_lift_def fop_bind_def)
  have "\<not> unat (md_len m) < off" using env off by (simp add: steady_def)
  with samples full show ?thesis
    by (auto simp: from_open_file_def fop_bind_def fop_lift_def steady_metadata [OF env] steady_seek [OF env]
        metadata_changed_def same_platform_identity_def from_metadata_def matches_metadata_def)
qed

lemma steady_match:
  assumes env: "steady env m content" and off: "fid_body_offset i \<le> length content"
    and len: "unat (fid_len i) \<le> length content"
  shows "\<exists>b fh'. content_fingerprints_match hash env i policy fh = Some (Inr b, fh')"
proof -
  obtain fh1 where h: "fingerprint_raw_region hash env 0 (fid_body_offset i) fh =
      Some (Inr (hash (take (fid_body_offset i) content)), fh1)"
    using steady_raw_region [OF env off] by blast
  obtain fh2 where s: "fingerprint_samples hash env (fid_len i) fh1 =
      Some (Inr (hash (sample_input content (unat (fid_len i)))), fh2)"
    using steady_samples [OF env len] by blast
  obtain fh3 where f: "fingerprint_full_content hash env fh2 = Some (Inr (hash (full_tag @ content)), fh3)"
    using steady_full [OF env] by blast
  show ?thesis
    by (cases policy; cases "fid_full i") (simp_all add: content_fingerprints_match_def fop_bind_def fop_lift_def h s f ex_bool_eq)
qed

lemma unchanged_validates:
  assumes env: "steady env m content" and again: "steady env' m content" and off: "off \<le> length content"
  shows "\<exists>i fh1 fh3. from_open_file hash env (take off content) off policy fh = Some (Inr i, fh1) \<and>
    fh_pos fh1 = off \<and>
    validate_open_file hash env' i policy fh2 = Some (Inr (), fh3) \<and> fh_pos fh3 = off"
proof -
  obtain i fh1 where o: "from_open_file hash env (take off content) off policy fh = Some (Inr i, fh1)"
      and m: "matches_metadata i m"
    using steady_open [OF env off] by blast
  note i = from_open_file_result [OF steady_serves [OF env] o]
  have "\<exists>b fh'. content_fingerprints_match hash env' i policy (fh2\<lparr>fh_tick := fh_tick fh2 + 1\<rparr>) = Some (Inr b, fh')"
    by (rule steady_match [OF again]) (use i(1,3) off in simp_all)
  then obtain b fh4 where c: "content_fingerprints_match hash env' i policy (fh2\<lparr>fh_tick := fh_tick fh2 + 1\<rparr>) = Some (Inr b, fh4)"
    by blast
  have "b" using content_match_result(1) [OF steady_serves [OF again] c] i by simp
  with c m have "validate_open_file hash env' i policy fh2 =
      Some (Inr (), \<lparr>fh_tick = fh_tick fh4 + 2, fh_pos = fid_body_offset i\<rparr>)"
    by (simp add: validate_open_file_def validation_def fop_bind_def fop_lift_def steady_metadata [OF again]
        steady_seek [OF again] same_platform_identity_def)
  with o i(1,7) show ?thesis by simp
qed

text \<open>The file that always serves one content.\<close>

definition constant_file :: "file_metadata \<Rightarrow> string \<Rightarrow> file_env" where
  "constant_file m content =
     \<lparr>fe_metadata = \<lambda>_. Inr m, fe_read = \<lambda>_ pos k. Inr (take k (drop pos content)), fe_seek = \<lambda>_ _. Inr ()\<rparr>"

lemma steady_constant: "unat (md_len m) = length content \<Longrightarrow> steady (constant_file m content) m content"
  by (simp add: steady_def serves_def constant_file_def min_def)

text \<open>
  C34. An accepted source is the source that was opened. Let a file that serves the content
  \<open>old\<close> be opened, its identity recorded, and a file that serves \<open>new\<close> be validated against it, each
  with short reads, at any moments and with metadata of any kind. If the hash does not collide on
  the three inputs that are compared, then acceptance means that the whole header region up to the
  body offset, the first and the last 64 KiB of the recorded length and, under the strict policy,
  the whole content are those of the opened file, and that the cursor is at the body.
\<close>

theorem identity_detects_changes:
  assumes old: "serves env old" and opened: "from_open_file hash env (take off old) off policy fh = Some (Inr i, fh1)"
    and new: "serves env' new" and valid: "validate_open_file hash env' i policy fh2 = Some (Inr (), fh3)"
    and hash: "distinguishes hash old new off (unat (fid_len i))"
  shows "take off new = take off old \<and>
    take (min (unat (fid_len i)) content_sample_bytes) new = take (min (unat (fid_len i)) content_sample_bytes) old \<and>
    take content_sample_bytes (drop (unat (fid_len i) - content_sample_bytes) (take (unat (fid_len i)) new)) =
      take content_sample_bytes (drop (unat (fid_len i) - content_sample_bytes) (take (unat (fid_len i)) old)) \<and>
    (policy = StrictFullContent \<longrightarrow> new = old) \<and> fh_pos fh3 = off"
proof -
  note o = from_open_file_result [OF old opened]
  obtain fh4 fh5 where "content_fingerprints_match hash env' i policy fh4 = Some (Inr True, fh5)"
    using validate_result(1) [OF valid] by blast
  note v = content_match_result [OF new this, simplified]
  have header: "take off new = take off old" and sample: "sample_input old (unat (fid_len i)) = sample_input new (unat (fid_len i))"
    using v(1) o hash by (simp_all add: distinguishes_def)
  have full: "policy = StrictFullContent \<longrightarrow> new = old"
    using v(1) o(6) hash by (auto simp: distinguishes_def)
  have cut: "take content_sample_bytes (drop (n - content_sample_bytes) (take n c)) =
      take (n - (n - content_sample_bytes)) (drop (n - content_sample_bytes) c)" for n and c :: string
    by (simp add: drop_take min_def)
  show ?thesis
    using header sample_input_eq [OF sample o(3) v(3)] full validate_result(2) [OF valid] o(1)
    by (simp add: cut)
qed

theorem identity_detects_changes_witness:
  "\<exists>i fh1 fh3. from_open_file id (constant_file \<lparr>md_len = 8, md_modified = None, md_device = 1, md_inode = 2\<rparr> ''head#1 1'')
       (take 4 ''head#1 1'') 4 StrictFullContent \<lparr>fh_tick = 0, fh_pos = 0\<rparr> = Some (Inr i, fh1) \<and>
     validate_open_file id (constant_file \<lparr>md_len = 8, md_modified = None, md_device = 1, md_inode = 2\<rparr> ''head#1 1'')
       i StrictFullContent \<lparr>fh_tick = 0, fh_pos = 0\<rparr> = Some (Inr (), fh3) \<and> fh_pos fh3 = 4"
proof -
  let ?m = "\<lparr>md_len = 8, md_modified = None, md_device = 1, md_inode = 2\<rparr>" and ?c = "''head#1 1''"
  have env: "steady (constant_file ?m ?c) ?m ?c" by (rule steady_constant) simp
  have "4 \<le> length ?c" by simp
  from unchanged_validates [OF env env this, of id StrictFullContent "\<lparr>fh_tick = 0, fh_pos = 0\<rparr>" "\<lparr>fh_tick = 0, fh_pos = 0\<rparr>"]
  obtain i fh1 fh3 where o: "from_open_file id (constant_file ?m ?c) (take 4 ?c) 4 StrictFullContent
        \<lparr>fh_tick = 0, fh_pos = 0\<rparr> = Some (Inr i, fh1)"
      and v: "validate_open_file id (constant_file ?m ?c) i StrictFullContent \<lparr>fh_tick = 0, fh_pos = 0\<rparr> = Some (Inr (), fh3)"
    by blast
  have "distinguishes id ?c ?c 4 (unat (fid_len i))" by (simp add: distinguishes_def)
  from identity_detects_changes [OF steady_serves [OF env] o steady_serves [OF env] v this] o v
  show ?thesis by blast
qed

end
