(* ===== verification/Header.thy ===== *)
theory Header
  imports Identity Json Catalog
begin

text \<open>
  Reading the header of a VCD file, src/header.rs: the repair of scope names, the header region of a
  file up to the line of \<^verbatim>\<open>$enddefinitions\<close>, and the identified header of one open handle.

  The file and its failures are the \<open>file_env\<close> of theory \<open>Identity\<close>; the \<^verbatim>\<open>vcd\<close> crate's header
  parser is the parameter \<open>parse\<close>, which gives its error text or the timescale and the item tree.
\<close>

subsection \<open>Standard library: lossy decoding and words\<close>

text \<open>
  \<^verbatim>\<open>String::from_utf8_lossy\<close>: after the lead byte \<open>c\<close>, how many bytes belong to the sequence and
  whether it is a character. A sequence that breaks off is replaced by U+FFFD.
\<close>

definition three_lead :: "char \<Rightarrow> char \<Rightarrow> bool" where
  "three_lead c d \<longleftrightarrow>
     byte c = 224 \<and> in_range 160 191 d \<or> in_range 225 236 c \<and> cont d \<or>
     byte c = 237 \<and> in_range 128 159 d \<or> in_range 238 239 c \<and> cont d"

definition four_lead :: "char \<Rightarrow> char \<Rightarrow> bool" where
  "four_lead c d \<longleftrightarrow>
     byte c = 240 \<and> in_range 144 191 d \<or> in_range 241 243 c \<and> cont d \<or>
     byte c = 244 \<and> in_range 128 143 d"

definition utf8_step :: "char \<Rightarrow> string \<Rightarrow> nat \<times> bool" where
  "utf8_step c s =
     (let at = (\<lambda>i p. i < length s \<and> p (s ! i)) in
      if byte c < 128 then (0, True)
      else if in_range 194 223 c then (if at 0 cont then (1, True) else (0, False))
      else if in_range 224 239 c then
        (if \<not> at 0 (three_lead c) then (0, False)
         else if \<not> at 1 cont then (1, False) else (2, True))
      else if in_range 240 244 c then
        (if \<not> at 0 (four_lead c) then (0, False)
         else if \<not> at 1 cont then (1, False)
         else if \<not> at 2 cont then (2, False) else (3, True))
      else (0, False))"

definition replacement :: string where
  "replacement = [char_of (239 :: nat), char_of (191 :: nat), char_of (189 :: nat)]"

function from_utf8_lossy :: "string \<Rightarrow> string" where
  "from_utf8_lossy [] = []"
| "from_utf8_lossy (c # s) =
     (case utf8_step c s of (n, ok) \<Rightarrow>
        (if ok then c # take n s else replacement) @ from_utf8_lossy (drop n s))"
  by pat_completeness auto
termination
  by (relation "measure length") auto

text \<open>\<^verbatim>\<open>str::split_whitespace\<close>: \<open>acc\<close> is the word being read.\<close>

function words_from :: "string \<Rightarrow> string \<Rightarrow> string list" where
  "words_from acc [] = (if acc = [] then [] else [acc])"
| "words_from acc (c # s) =
     (case strip_white (c # s) of
        Some r \<Rightarrow> (if acc = [] then words_from [] r else acc # words_from [] r)
      | None \<Rightarrow> words_from (acc @ [c]) s)"
  by pat_completeness auto
termination
  by (relation "measure (\<lambda>(acc, s). length s)") (auto simp del: strip_white.simps dest: strip_white_shorter)

definition split_whitespace :: "string \<Rightarrow> string list" where
  "split_whitespace s = words_from [] s"

subsection \<open>Repairing scope names\<close>

definition is_ascii_alphabetic :: "char \<Rightarrow> bool" where
  "is_ascii_alphabetic c \<longleftrightarrow> in_range 65 90 c \<or> in_range 97 122 c"

definition allowed_chars :: string where
  "allowed_chars = ''abcdefghijklmnopqrstuvwxyzABCDEFGHIJKLMNOPQRSTUVWXYZ0123456789_$().''"

definition needs_escape :: "string \<Rightarrow> bool" where
  "needs_escape ident =
     (if starts_with ident [CHR 0x5C] \<or> ident = [] then False
      else if \<not> (is_ascii_alphabetic (hd ident) \<or> hd ident = CHR ''_'') then True
      else \<not> list_all (\<lambda>ch. ch \<in> set allowed_chars) ident)"

definition fixed_ident :: "string \<Rightarrow> string" where
  "fixed_ident ident =
     (if needs_escape ident
      then (if starts_with ident [CHR 0x5C] then ident else CHR 0x5C # ident)
      else ident)"

definition rewritten :: "string \<Rightarrow> bool" where
  "rewritten line \<longleftrightarrow>
     starts_with (trim_start line) ''$scope '' \<and>
     4 \<le> length (split_whitespace (trim_start line)) \<and> split_whitespace (trim_start line) ! 0 = ''$scope''"

definition sanitize_line :: "string \<Rightarrow> string" where
  "sanitize_line line =
     (let trimmed = trim_start line; parts = split_whitespace trimmed in
      if rewritten line
      then (let newline = (if line \<noteq> [] \<and> last line = CHR 0x0A then [CHR 0x0A] else []);
                indent = take (length line - length trimmed) line
            in indent @ ''$scope '' @ parts ! 1 @ '' '' @ fixed_ident (parts ! 2) @ '' $end'' @ newline)
      else line)"

definition header_lines :: "string \<Rightarrow> string list" where
  "header_lines header = split_inclusive (\<lambda>c. c = CHR 0x0A \<or> c = CHR 0x0D) (from_utf8_lossy header)"

definition sanitize_header :: "string \<Rightarrow> string" where
  "sanitize_header header = concat (map sanitize_line (header_lines header))"

subsection \<open>Reading the header region\<close>

text \<open>
  \<^verbatim>\<open>BufReader::read_until(b'\n')\<close>: \<open>buf\<close> is what the reader has buffered and not given out, and
  \<open>acc\<close> the line so far.
\<close>

definition buffer_capacity :: nat where "buffer_capacity = 8192"

definition end_marker :: string where "end_marker = ''$enddefinitions''"

definition upto_newline :: "string \<Rightarrow> string \<times> string" where
  "upto_newline b = (let line = takeWhile (\<lambda>c. c \<noteq> CHR 0x0A) b in
     (line @ [CHR 0x0A], drop (length line + 1) b))"

partial_function (option) read_until ::
    "file_env \<Rightarrow> string \<Rightarrow> string \<Rightarrow> (string \<times> string) file_op" where
  "read_until env acc buf fh =
     (if buf = [] then
        (case read_some env buffer_capacity fh of
           Some (Inr bytes, fh') \<Rightarrow>
             if bytes = [] then Some (Inr (acc, []), fh') else read_until env acc bytes fh'
         | Some (Inl e, fh') \<Rightarrow> Some (Inl e, fh')
         | None \<Rightarrow> None)
      else if CHR 0x0A \<in> set buf
      then (case upto_newline buf of (line, rest) \<Rightarrow> Some (Inr (acc @ line, rest), fh))
      else read_until env (acc @ buf) [] fh)"

partial_function (option) header_loop ::
    "file_env \<Rightarrow> string \<Rightarrow> string \<Rightarrow> (string \<times> string) file_op" where
  "header_loop env header buf fh =
     (case read_until env [] buf fh of
        Some (Inr (line, buf'), fh') \<Rightarrow>
          if line = [] then Some (Inl MissingEndDefinitions, fh')
          else if contains_str line end_marker then Some (Inr (header @ line, buf'), fh')
          else header_loop env (header @ line) buf' fh'
      | Some (Inl e, fh') \<Rightarrow> Some (Inl e, fh')
      | None \<Rightarrow> None)"

text \<open>\<^verbatim>\<open>BufReader::stream_position\<close>: the handle's position less what is buffered.\<close>

definition stream_position :: "file_env \<Rightarrow> string \<Rightarrow> nat file_op" where
  "stream_position env buf fh =
     (case fe_seek env (fh_tick fh) (fh_pos fh) of
        Inl e \<Rightarrow> Some (Inl (Io e), fh\<lparr>fh_tick := fh_tick fh + 1\<rparr>)
      | Inr _ \<Rightarrow> Some (Inr (fh_pos fh - length buf), fh\<lparr>fh_tick := fh_tick fh + 1\<rparr>))"

definition read_header_bytes_from_file :: "file_env \<Rightarrow> (string \<times> nat) file_op" where
  "read_header_bytes_from_file env =
     fop_bind (seek_start env 0) (\<lambda>_.
     fop_bind (header_loop env [] []) (\<lambda>(header_bytes, buf).
     fop_bind (stream_position env buf) (\<lambda>body_offset.
     fop_bind (seek_start env body_offset) (\<lambda>_.
       fop_lift (Inr (header_bytes, body_offset))))))"

subsection \<open>The parsed header\<close>

type_synonym header_parser = "string \<Rightarrow> string + (timescale option \<times> scope_item list)"

record compact_header =
  ch_catalog :: catalog
  ch_timescale :: "timescale option"
  ch_body_offset :: nat

record identified_header =
  ih_header :: compact_header
  ih_identity :: file_identity

definition parse_compact_header :: "header_parser \<Rightarrow> string \<Rightarrow> nat \<Rightarrow> vcd_error + compact_header" where
  "parse_compact_header parse bytes body_offset =
     and_then (map_err Parse (parse (sanitize_header bytes))) (\<lambda>(ts, items).
     and_then (from_scope_items items) (\<lambda>c.
       Inr \<lparr>ch_catalog = c, ch_timescale = ts, ch_body_offset = body_offset\<rparr>))"

text \<open>\<open>open\<close> is the answer to opening the path: a file that answers as \<open>env\<close>, or an error.\<close>

definition read_compact_header :: "header_parser \<Rightarrow> io_error + file_env \<Rightarrow> compact_header file_op" where
  "read_compact_header parse opened =
     (case opened of
        Inl e \<Rightarrow> fop_lift (Inl (Io e))
      | Inr env \<Rightarrow>
          fop_bind (read_header_bytes_from_file env) (\<lambda>(header_bytes, body_offset).
            fop_lift (parse_compact_header parse header_bytes body_offset)))"

definition read_identified_compact_header ::
    "(string \<Rightarrow> string) \<Rightarrow> header_parser \<Rightarrow> io_error + file_env \<Rightarrow> fingerprint_policy \<Rightarrow> identified_header file_op" where
  "read_identified_compact_header hash parse opened policy =
     (case opened of
        Inl e \<Rightarrow> fop_lift (Inl (Io e))
      | Inr env \<Rightarrow>
          fop_bind (ask_metadata env) (\<lambda>metadata_before_header.
          fop_bind (read_header_bytes_from_file env) (\<lambda>(header_bytes, body_offset).
          fop_bind (from_open_file hash env header_bytes body_offset policy) (\<lambda>i.
          if \<not> matches_metadata i metadata_before_header
          then fop_lift (Inl (Io (io_new OtherKind ''VCD changed while reading its header'')))
          else fop_lift (and_then (parse_compact_header parse header_bytes body_offset) (\<lambda>h.
            Inr \<lparr>ih_header = h, ih_identity = i\<rparr>))))))"

subsection \<open>Decoding\<close>

text \<open>Valid text is decoded to itself, and what decoding gives is valid whatever the bytes.\<close>



declare strip_white.simps [simp del]

text \<open>Valid text is decoded to itself, and what decoding gives is valid whatever the bytes.\<close>

lemma utf8_step_ascii: "byte c < 128 \<Longrightarrow> utf8_step c s = (0, True)"
  by (simp add: utf8_step_def)

lemma utf8_step_two: "utf8_two c d \<Longrightarrow> utf8_step c (d # s) = (1, True)"
  by (simp add: utf8_step_def utf8_two_def in_range_def)

lemma utf8_step_three: "utf8_three c d e \<Longrightarrow> utf8_step c (d # e # s) = (2, True)"
  by (auto simp: utf8_step_def utf8_three_def three_lead_def in_range_def cont_def)

lemma utf8_step_four: "utf8_four c d e f \<Longrightarrow> utf8_step c (d # e # f # s) = (3, True)"
  by (auto simp: utf8_step_def utf8_four_def four_lead_def in_range_def cont_def numeral_2_eq_2)

lemma lossy_valid: "utf8_valid s \<Longrightarrow> from_utf8_lossy s = s"
proof (induction s rule: utf8_valid.induct)
  case (2 c s)
  from 2(5) [unfolded utf8_valid.simps(2)] consider "byte c < 128" "utf8_valid s"
    | d s1 where "\<not> byte c < 128" "s = d # s1" "utf8_two c d" "utf8_valid s1"
    | d e s2 where "\<not> byte c < 128" "s = d # e # s2" "\<not> utf8_two c d" "utf8_three c d e" "utf8_valid s2"
    | d e f s3 where "\<not> byte c < 128" "s = d # e # f # s3" "\<not> utf8_two c d" "\<not> utf8_three c d e"
        "utf8_four c d e f" "utf8_valid s3"
    by (auto simp del: utf8_valid.simps split: if_splits list.splits)
  then show ?case
    using 2(1-4) by cases (simp_all del: utf8_valid.simps add: utf8_step_ascii utf8_step_two utf8_step_three utf8_step_four numeral_3_eq_3)
qed simp

lemma utf8_step_char:
  assumes "utf8_step c s = (n, True)"
  obtains "n = 0" "byte c < 128"
    | d r where "n = 1" "s = d # r" "utf8_two c d"
    | d e r where "n = 2" "s = d # e # r" "utf8_three c d e"
    | d e f r where "n = 3" "s = d # e # f # r" "utf8_four c d e f"
proof -
  consider "s = []" | d where "s = [d]" | d e where "s = [d, e]" | d e f r where "s = d # e # f # r"
    by (metis list.exhaust)
  then show ?thesis
    using assms that
    by cases (simp_all add: utf8_step_def utf8_two_def utf8_three_def utf8_four_def three_lead_def four_lead_def
      cont_def in_range_def numeral_2_eq_2 numeral_3_eq_3 split: if_splits, linarith+)
qed

lemma utf8_chars:
  "byte c < 128 \<Longrightarrow> utf8_valid [c]" "utf8_two c d \<Longrightarrow> utf8_valid [c, d]"
  "utf8_three c d e \<Longrightarrow> utf8_valid [c, d, e]" "utf8_four c d e f \<Longrightarrow> utf8_valid [c, d, e, f]"
  by (auto simp: utf8_two_def utf8_three_def utf8_four_def cont_def in_range_def)

lemma valid_lossy: "utf8_valid (from_utf8_lossy s)"
proof (induction s rule: from_utf8_lossy.induct)
  case (2 c s)
  have r: "utf8_valid replacement"
    by (simp add: replacement_def byte_char_of utf8_two_def utf8_three_def cont_def in_range_def)
  obtain n ok where step: "utf8_step c s = (n, ok)" by (cases "utf8_step c s")
  then have IH: "utf8_valid (from_utf8_lossy (drop n s))" using 2 by simp
  show ?case
  proof (cases ok)
    case True
    have "utf8_step c s = (n, True)" using step True by simp
    then have "utf8_valid (c # take n s)" by (rule utf8_step_char) (simp_all add: utf8_chars numeral_3_eq_3 numeral_2_eq_2 del: utf8_valid.simps(2))
    then have "utf8_valid ((c # take n s) @ from_utf8_lossy (drop n s))" using IH by (rule utf8_valid_append)
    then show ?thesis using step True by (simp del: utf8_valid.simps)
  next
    case False
    then show ?thesis using step IH r by (simp add: utf8_valid_append)
  qed
qed simp


subsection \<open>Words\<close>

lemma strip_white_append: "strip_white s = Some r \<Longrightarrow> strip_white (s @ t) = Some (r @ t)"
  by (cases s) (auto simp: strip_white.simps split: if_splits list.splits)

lemma strip_white_parts: "strip_white s = Some r \<Longrightarrow> \<exists>q. q \<noteq> [] \<and> s = q @ r \<and> (\<forall>z. strip_white (q @ z) = Some z)"
proof -
  assume s: "strip_white s = Some r"
  then consider c where "s = c # r" "white1 c" | c d where "s = c # d # r" "\<not> white1 c" "white2 c d"
    | c d e where "s = c # d # e # r" "\<not> white1 c" "\<not> white2 c d" "white3 c d e"
    by (cases s) (auto simp: strip_white.simps split: if_splits list.splits)
  then show ?thesis
  proof cases
    case 1 then show ?thesis by (intro exI [of _ "[c]"]) (simp add: strip_white.simps)
  next
    case 2 then show ?thesis by (intro exI [of _ "[c, d]"]) (simp add: strip_white.simps)
  next
    case 3 then show ?thesis by (intro exI [of _ "[c, d, e]"]) (simp add: strip_white.simps)
  qed
qed

text \<open>A one-byte space never completes a longer one.\<close>

lemma white1_separates:
  assumes "white1 w"
  shows "\<not> white2 c w" and "\<not> white3 c w e" and "\<not> white3 c d w"
  using assms by (auto simp: white1_def white2_def white3_def)

lemma strip_white_before:
  assumes "white1 w" and "strip_white (c # s) = None"
  shows "strip_white (c # s @ w # t) = None"
  using assms(2) white1_separates [OF assms(1)]
  by (auto simp: strip_white.simps split: if_splits list.splits)

lemma strip_white_space: "white1 w \<Longrightarrow> strip_white (w # t) = Some t"
  by (simp add: strip_white.simps)

lemma words_from_append:
  assumes "white1 w"
  shows "words_from acc (s @ w # t) = words_from acc s @ words_from [] t"
proof (induction acc s rule: words_from.induct)
  case (1 acc)
  then show ?case using assms by (simp add: strip_white_space)
next
  case (2 acc c s)
  show ?case
  proof (cases "strip_white (c # s)")
    case None
    then show ?thesis using 2(1) [OF None] strip_white_before [OF assms None] by simp
  next
    case (Some r)
    then have "strip_white (c # s @ w # t) = Some (r @ w # t)"
      using strip_white_append [OF Some, of "w # t"] by simp
    with Some 2(2,3) [OF Some] show ?thesis by auto
  qed
qed

lemma words_append: "white1 w \<Longrightarrow> split_whitespace (s @ w # t) = split_whitespace s @ split_whitespace t"
  by (simp add: split_whitespace_def words_from_append)

lemma words_Nil [simp]: "split_whitespace [] = []"
  by (simp add: split_whitespace_def)

lemma words_strip: "strip_white s = Some r \<Longrightarrow> split_whitespace s = split_whitespace r"
  by (cases s) (auto simp: split_whitespace_def strip_white.simps(2))

lemma trim_start_parts: "\<exists>p. s = p @ trim_start s \<and> (\<forall>z. split_whitespace (p @ z) = split_whitespace z)"
proof (induction s rule: trim_start.induct)
  case (1 s)
  show ?case
  proof (cases "strip_white s")
    case None
    then show ?thesis by (intro exI [of _ "[]"]) (simp add: trim_start.simps [of s])
  next
    case (Some r)
    obtain q where q: "s = q @ r" "\<forall>z. strip_white (q @ z) = Some z" using strip_white_parts [OF Some] by blast
    obtain p where p: "r = p @ trim_start r" "\<forall>z. split_whitespace (p @ z) = split_whitespace z"
      using 1 [OF Some] by blast
    have "trim_start s = trim_start r" using Some by (simp add: trim_start.simps [of s])
    then have "s = (q @ p) @ trim_start s" using q(1) p(1) by simp
    moreover have "split_whitespace ((q @ p) @ z) = split_whitespace z" for z
      using words_strip [OF spec [OF q(2)], of "p @ z"] p(2) by simp
    ultimately show ?thesis by blast
  qed
qed

text \<open>No white space starts inside \<open>w\<close>.\<close>

definition solid :: "string \<Rightarrow> bool" where
  "solid w \<longleftrightarrow> (\<forall>j < length w. strip_white (drop j w) = None)"

lemma words_from_solid: "solid w \<Longrightarrow> words_from acc w = (if acc @ w = [] then [] else [acc @ w])"
proof (induction w arbitrary: acc)
  case (Cons c w)
  have "strip_white (c # w) = None" using Cons.prems by (force simp: solid_def)
  moreover have "solid w" using Cons.prems by (force simp: solid_def)
  ultimately show ?case using Cons.IH by simp
qed simp

lemma words_from_are_solid:
  assumes "\<forall>j < length acc. strip_white (drop j acc @ s) = None" and "w \<in> set (words_from acc s)"
  shows "solid w \<and> w \<noteq> []"
  using assms
proof (induction acc s rule: words_from.induct)
  case (1 acc)
  then show ?case by (auto simp: solid_def split: if_splits)
next
  case (2 acc c s)
  have acc_solid: "solid acc"
    unfolding solid_def
  proof (intro allI impI)
    fix j assume "j < length acc"
    then have none: "strip_white (drop j acc @ c # s) = None" using 2(4) by blast
    show "strip_white (drop j acc) = None"
      using none strip_white_append [of "drop j acc" _ "c # s"] by (cases "strip_white (drop j acc)") simp_all
  qed
  show ?case
  proof (cases "strip_white (c # s)")
    case None
    have "\<forall>j < length (acc @ [c]). strip_white (drop j (acc @ [c]) @ s) = None"
      using 2(4) None by (auto simp: less_Suc_eq)
    then show ?thesis using 2(1) [OF None] 2(5) None by simp
  next
    case (Some r)
    then show ?thesis using 2(2) [OF Some] 2(3) [OF Some] 2(5) acc_solid by (auto split: if_splits)
  qed
qed

lemma word_of_words: "w \<in> set (split_whitespace s) \<Longrightarrow> solid w \<and> w \<noteq> []"
  unfolding split_whitespace_def by (rule words_from_are_solid) simp_all

lemma words_solid: "solid w \<Longrightarrow> w \<noteq> [] \<Longrightarrow> split_whitespace w = [w]"
  by (simp add: split_whitespace_def words_from_solid)


subsection \<open>What sanitising keeps\<close>

definition line_words :: "string \<Rightarrow> string list" where
  "line_words line = (let ws = split_whitespace line in
     if rewritten line then [''$scope'', ws ! 1, fixed_ident (ws ! 2), ''$end''] else ws)"

text \<open>A rewritten line that loses its carriage return is followed by white space.\<close>

fun separated :: "string list \<Rightarrow> bool" where
  "separated (l # l' # ls) \<longleftrightarrow>
     (if rewritten l \<and> last l \<noteq> CHR 0x0A then l' \<noteq> [] \<and> white1 (hd l') else True) \<and> separated (l' # ls)"
| "separated _ \<longleftrightarrow> True"

lemma words_trim_start: "split_whitespace (trim_start s) = split_whitespace s"
  using trim_start_parts [of s] by metis

lemma white1_constants: "white1 CHR '' ''" "white1 CHR 0x0A" "white1 CHR 0x0D"
  by (simp_all add: white1_def byte_def)

lemma fixed_ident_word:
  assumes "solid w" and "w \<noteq> []"
  shows "split_whitespace (fixed_ident w) = [fixed_ident w]"
proof -
  have "solid (CHR 0x5C # w)"
    unfolding solid_def
  proof (intro allI impI)
    fix j assume "j < length (CHR 0x5C # w)"
    with assms show "strip_white (drop j (CHR 0x5C # w)) = None"
      by (cases j) (auto simp: solid_def strip_white.simps white1_def white2_def white3_def byte_def split: list.splits)
  qed
  with assms show ?thesis by (auto simp: fixed_ident_def words_solid)
qed

lemma keyword_words: "split_whitespace ''$scope'' = [''$scope'']" "split_whitespace ''$end'' = [''$end'']"
  by (rule words_solid, simp_all add: solid_def nth_Cons' numeral_eq_Suc less_Suc_eq strip_white.simps white1_def white2_def white3_def byte_def)+

lemma sanitize_line_words: "split_whitespace (sanitize_line l) = line_words l"
proof (cases "rewritten l")
  case False
  then show ?thesis by (simp add: sanitize_line_def line_words_def Let_def)
next
  case True
  let ?ws = "split_whitespace l"
  let ?nl = "if l \<noteq> [] \<and> last l = CHR 0x0A then [CHR 0x0A] else []"
  obtain p where p: "l = p @ trim_start l" "\<forall>z. split_whitespace (p @ z) = split_whitespace z"
    using trim_start_parts [of l] by blast
  have indent: "take (length l - length (trim_start l)) l = p"
    using p(1) by (metis append_eq_conv_conj length_append add_diff_cancel_right')
  have four: "4 \<le> length ?ws" using True by (simp add: rewritten_def words_trim_start)
  have in_ws: "?ws ! 1 \<in> set ?ws" "?ws ! 2 \<in> set ?ws" using four by (simp_all add: nth_mem)
  have kind: "solid (?ws ! 1)" "?ws ! 1 \<noteq> []" and ident: "solid (?ws ! 2)" "?ws ! 2 \<noteq> []"
    using word_of_words [OF in_ws(1)] word_of_words [OF in_ws(2)] by blast+
  have line: "sanitize_line l = p @ ''$scope'' @ CHR '' '' # ?ws ! 1 @ CHR '' '' #
      fixed_ident (?ws ! 2) @ CHR '' '' # ''$end'' @ ?nl"
    using True by (simp add: sanitize_line_def Let_def indent words_trim_start)
  have tail: "split_whitespace (''$end'' @ ?nl) = [''$end'']"
    using words_append [OF white1_constants(2), of "''$end''" "[]"] keyword_words(2) by simp
  have "split_whitespace (sanitize_line l) = split_whitespace ''$scope'' @ split_whitespace (?ws ! 1) @
      split_whitespace (fixed_ident (?ws ! 2)) @ split_whitespace (''$end'' @ ?nl)"
    unfolding line p(2) [rule_format] words_append [OF white1_constants(1)] by simp
  then show ?thesis
    using True tail keyword_words(1) words_solid [OF kind] fixed_ident_word [OF ident]
    by (simp add: line_words_def Let_def)
qed

text \<open>Lines that white space separates.\<close>

fun chained :: "string list \<Rightarrow> bool" where
  "chained (l # l' # ls) \<longleftrightarrow>
     (l \<noteq> [] \<and> white1 (last l) \<or> l' \<noteq> [] \<and> white1 (hd l')) \<and> chained (l' # ls)"
| "chained _ \<longleftrightarrow> True"

lemma words_concat: "chained ls \<Longrightarrow> split_whitespace (concat ls) = concat (map split_whitespace ls)"
proof (induction ls rule: chained.induct)
  case (1 l l' ls)
  have IH: "split_whitespace (concat (l' # ls)) = concat (map split_whitespace (l' # ls))"
    using 1 by simp
  have "split_whitespace (l @ concat (l' # ls)) = split_whitespace l @ split_whitespace (concat (l' # ls))"
  proof (cases "l \<noteq> [] \<and> white1 (last l)")
    case True
    then obtain l0 w where l: "l = l0 @ [w]" "white1 w" by (metis append_butlast_last_id)
    then show ?thesis
      using words_append [OF l(2), of l0 "concat (l' # ls)"] words_append [OF l(2), of l0 "[]"] by simp
  next
    case False
    then obtain w t where l': "l' = w # t" "white1 w" using 1(2) by (cases l') auto
    then show ?thesis
      using words_append [OF l'(2), of l "t @ concat ls"] words_append [OF l'(2), of "[]" "t @ concat ls"] by simp
  qed
  with IH show ?case by simp
qed simp_all

lemma split_inclusive_lines:
  "\<forall>l \<in> set (split_inclusive P s). l \<noteq> []"
  "\<forall>l \<in> set (butlast (split_inclusive P s)). P (last l)"
proof (induction s)
  case (Cons c s)
  { case 1 then show ?case using Cons by (auto split: list.splits) }
  { case 2 then show ?case using Cons by (cases "split_inclusive P s") auto }
qed simp_all

lemma sanitize_line_last:
  assumes "l \<noteq> []" and "white1 (last l)" and "rewritten l \<longrightarrow> last l = CHR 0x0A"
  shows "sanitize_line l \<noteq> [] \<and> white1 (last (sanitize_line l))"
  using assms by (auto simp: sanitize_line_def Let_def white1_constants)

lemma sanitize_line_head:
  assumes "l \<noteq> []" and "white1 (hd l)"
  shows "sanitize_line l \<noteq> [] \<and> white1 (hd (sanitize_line l))"
proof (cases "rewritten l")
  case False
  then show ?thesis using assms by (simp add: sanitize_line_def Let_def)
next
  case True
  have "strip_white l = Some (tl l)" using assms strip_white_space [of "hd l" "tl l"] by simp
  then have "length (trim_start l) < length l"
    using length_trim_start [of "tl l"] assms(1) by (cases l) (auto simp: trim_start.simps [of "_ # _"])
  then have "take (length l - length (trim_start l)) l \<noteq> []" "hd (take (length l - length (trim_start l)) l) = hd l"
    using assms(1) by (auto simp: hd_take)
  with True assms show ?thesis by (simp add: sanitize_line_def Let_def)
qed

lemma chained_sanitized:
  assumes "\<forall>l \<in> set ls. l \<noteq> []" and "\<forall>l \<in> set (butlast ls). white1 (last l)" and "separated ls"
  shows "chained (map sanitize_line ls)"
  using assms
proof (induction ls rule: separated.induct)
  case (1 l l' ls)
  have "chained (map sanitize_line (l' # ls))" using 1 by simp
  moreover have "sanitize_line l \<noteq> [] \<and> white1 (last (sanitize_line l)) \<or>
      sanitize_line l' \<noteq> [] \<and> white1 (hd (sanitize_line l'))"
  proof (cases "rewritten l \<and> last l \<noteq> CHR 0x0A")
    case True
    then show ?thesis using sanitize_line_head [of l'] 1(4) by simp
  next
    case False
    then show ?thesis using sanitize_line_last [of l] 1(2,3) by auto
  qed
  ultimately show ?case by simp
qed simp_all

lemma sanitized_words:
  assumes "separated (header_lines h)"
  shows "split_whitespace (sanitize_header h) = concat (map line_words (header_lines h))"
proof -
  have "\<forall>l \<in> set (header_lines h). l \<noteq> []"
    unfolding header_lines_def by (rule split_inclusive_lines)
  moreover have "\<forall>l \<in> set (butlast (header_lines h)). white1 (last l)"
    using split_inclusive_lines(2) [of "\<lambda>c. c = CHR 0x0A \<or> c = CHR 0x0D"] white1_constants
    unfolding header_lines_def by metis
  ultimately have "chained (map sanitize_line (header_lines h))"
    using assms by (rule chained_sanitized)
  from words_concat [OF this] show ?thesis
    by (simp add: sanitize_header_def sanitize_line_words [abs_def] comp_def)
qed


subsection \<open>What the header region is\<close>

definition first_line :: "string \<Rightarrow> string" where
  "first_line s = (if CHR 0x0A \<in> set s then takeWhile (\<lambda>c. c \<noteq> CHR 0x0A) s @ [CHR 0x0A] else s)"

lemma first_line_nonempty: "first_line s = [] \<longleftrightarrow> s = []"
  by (auto simp: first_line_def)

lemma first_line_prefix: "first_line s @ drop (length (first_line s)) s = s"
proof (cases "CHR 0x0A \<in> set s")
  case True
  then obtain xs ys where s: "s = xs @ CHR 0x0A # ys" and xs: "CHR 0x0A \<notin> set xs"
    using split_list_first by metis
  have "takeWhile (\<lambda>c. c \<noteq> CHR 0x0A) s = xs" using s xs by (simp add: takeWhile_tail)
      (metis (mono_tags, lifting) append.right_neutral takeWhile.simps(2) takeWhile_append2)
  then show ?thesis using True s by (simp add: first_line_def)
qed (simp add: first_line_def)

text \<open>The lines up to the first that holds the marker; \<open>None\<close> when no line does.\<close>

function header_region :: "string \<Rightarrow> string option" where
  "header_region s =
     (if s = [] then None
      else if contains_str (first_line s) end_marker then Some (first_line s)
      else map_option (\<lambda>r. first_line s @ r) (header_region (drop (length (first_line s)) s)))"
  by pat_completeness auto
termination
  by (relation "measure length") (auto simp: first_line_nonempty)

declare header_region.simps [simp del]

lemma header_region_prefix: "header_region s = Some r \<Longrightarrow> take (length r) s = r"
proof (induction s arbitrary: r rule: header_region.induct)
  case (1 s)
  show ?case
  proof (cases "contains_str (first_line s) end_marker")
    case True
    then have "r = first_line s" using 1(2) by (auto simp: header_region.simps [of s] split: if_splits)
    then show ?thesis using first_line_prefix [of s] by (metis append_eq_conv_conj)
  next
    case False
    then obtain r' where r': "header_region (drop (length (first_line s)) s) = Some r'" "r = first_line s @ r'"
        and s: "s \<noteq> []"
      using 1(2) by (auto simp: header_region.simps [of s] split: if_splits)
    have "take (length r') (drop (length (first_line s)) s) = r'" by (rule 1(1) [OF s False r'(1)])
    moreover have "take (length (first_line s)) s = first_line s"
      using first_line_prefix [of s] by (metis append_eq_conv_conj)
    ultimately show ?thesis using r'(2) by (simp add: take_add)
  qed
qed

subsection \<open>Reading it\<close>

definition unread :: "string \<Rightarrow> string \<Rightarrow> file_handle \<Rightarrow> string" where
  "unread content buf fh = buf @ drop (fh_pos fh) content"

definition synced :: "string \<Rightarrow> string \<Rightarrow> file_handle \<Rightarrow> bool" where
  "synced content buf fh \<longleftrightarrow> fh_pos fh \<le> length content \<and> length buf \<le> fh_pos fh \<and>
     unread content buf fh = drop (fh_pos fh - length buf) content"

lemma synced_position:
  "synced content buf fh \<Longrightarrow> length (unread content buf fh) = length content - (fh_pos fh - length buf)"
  by (simp add: synced_def)

lemma first_line_append:
  "first_line (b @ s) = (if CHR 0x0A \<in> set b then first_line b else b @ first_line s)"
proof (cases "CHR 0x0A \<in> set b")
  case True
  then have "takeWhile (\<lambda>c. c \<noteq> CHR 0x0A) (b @ s) = takeWhile (\<lambda>c. c \<noteq> CHR 0x0A) b"
    by (intro takeWhile_append1) auto
  with True show ?thesis by (simp add: first_line_def)
next
  case False
  then have "takeWhile (\<lambda>c. c \<noteq> CHR 0x0A) (b @ s) = b @ takeWhile (\<lambda>c. c \<noteq> CHR 0x0A) s"
    by (intro takeWhile_append2) auto
  with False show ?thesis by (simp add: first_line_def)
qed

lemma length_first_line: "length (first_line s) \<le> length s"
  using first_line_prefix [of s] by (metis le_add1 length_append)

lemma steady_read_until:
  assumes env: "steady env m content" and sync: "synced content buf fh"
  shows "\<exists>buf' fh'. read_until env acc buf fh = Some (Inr (acc @ first_line (unread content buf fh), buf'), fh') \<and>
    synced content buf' fh' \<and>
    unread content buf' fh' = drop (length (first_line (unread content buf fh))) (unread content buf fh)"
  using sync
proof (induction "2 * (length content - fh_pos fh) + (if buf = [] then 0 else 1)" arbitrary: acc buf fh rule: less_induct)
  case less
  show ?case
  proof (cases "buf = []")
    case True
    have k: "0 < buffer_capacity" by (simp add: buffer_capacity_def)
    obtain bytes fh1 where r: "read_some env buffer_capacity fh = Some (Inr bytes, fh1)"
        "fh_pos fh1 = fh_pos fh + length bytes" "length bytes \<le> buffer_capacity"
        "length bytes \<le> length content - fh_pos fh" "fh_pos fh < length content \<Longrightarrow> bytes \<noteq> []"
      by (rule steady_read [OF env k, of fh]) (rule that)
    have b: "bytes = take (length bytes) (drop (fh_pos fh) content)"
      using read_some_Inr [OF steady_serves [OF env] k r(1)] by blast
    have same: "unread content bytes fh1 = unread content [] fh"
      using b r(2) by (simp add: unread_def) (metis append_take_drop_id drop_drop add.commute)
    have sync1: "synced content bytes fh1"
      using less.prems r(2,4) same by (auto simp: synced_def unread_def)
    show ?thesis
    proof (cases "bytes = []")
      case empty: True
      have "length content \<le> fh_pos fh" using r(5) empty by (meson not_le)
      then have "unread content buf fh = []" by (simp add: unread_def True)
      moreover have "read_until env acc buf fh = Some (Inr (acc, []), fh1)"
        using r(1) empty True by (simp add: read_until.simps [of env acc "[]" fh])
      ultimately show ?thesis using sync1 same empty True by (auto simp: first_line_def)
    next
      case False
      then have "0 < length bytes" by simp
      then have "length content - fh_pos fh1 < length content - fh_pos fh" using r(2,4) by linarith
      then have "2 * (length content - fh_pos fh1) + (if bytes = [] then 0 else 1) <
          2 * (length content - fh_pos fh) + (if buf = [] then 0 else 1)"
        using True False by simp
      from less.hyps [OF this sync1, of acc] show ?thesis
        using r(1) False True same by (simp add: read_until.simps [of env acc "[]" fh])
    qed
  next
    case False
    show ?thesis
    proof (cases "CHR 0x0A \<in> set buf")
      case True
      let ?line = "first_line buf"
      have l: "upto_newline buf = (?line, drop (length ?line) buf)"
        using True by (simp add: upto_newline_def first_line_def Let_def)
      have len: "length ?line \<le> length buf" by (rule length_first_line)
      have rest: "unread content (drop (length ?line) buf) fh = drop (length ?line) (unread content buf fh)"
        using len by (simp add: unread_def)
      have "synced content (drop (length ?line) buf) fh"
        using less.prems len rest by (auto simp: synced_def drop_drop add.commute Nat.diff_diff_right)
      moreover have "first_line (unread content buf fh) = ?line"
        using True by (simp add: unread_def first_line_append)
      ultimately show ?thesis
        using False True rest l by (simp add: read_until.simps [of env acc buf fh])
    next
      case no_newline: False
      have sync1: "synced content [] fh" using less.prems by (simp add: synced_def unread_def)
      have "2 * (length content - fh_pos fh) + (if [] = ([] :: string) then 0 else 1) <
          2 * (length content - fh_pos fh) + (if buf = [] then 0 else 1)"
        using False by simp
      from less.hyps [OF this sync1, of "acc @ buf"] show ?thesis
        using False no_newline
        by (simp add: read_until.simps [of env acc buf fh] unread_def first_line_append)
    qed
  qed
qed

lemma steady_header_loop:
  assumes env: "steady env m content" and sync: "synced content buf fh"
  shows "\<exists>buf' fh'. header_loop env header buf fh =
      Some (case header_region (unread content buf fh) of
        None \<Rightarrow> Inl MissingEndDefinitions | Some r \<Rightarrow> Inr (header @ r, buf'), fh') \<and>
    (\<forall>r. header_region (unread content buf fh) = Some r \<longrightarrow>
      synced content buf' fh' \<and> unread content buf' fh' = drop (length r) (unread content buf fh))"
  using sync
proof (induction "unread content buf fh" arbitrary: header buf fh rule: header_region.induct)
  case 1
  let ?s = "unread content buf fh"
  obtain buf1 fh1 where r: "read_until env [] buf fh = Some (Inr (first_line ?s, buf1), fh1)"
      and sync1: "synced content buf1 fh1" and rest: "unread content buf1 fh1 = drop (length (first_line ?s)) ?s"
    using steady_read_until [OF env 1(2), of "[]"] by auto
  show ?case
  proof (cases "?s = []")
    case True
    then show ?thesis using r by (simp add: header_loop.simps [of env header buf fh] first_line_def header_region.simps)
  next
    case nonempty: False
    then have line: "first_line ?s \<noteq> []" by (simp add: first_line_nonempty)
    show ?thesis
    proof (cases "contains_str (first_line ?s) end_marker")
      case True
      then show ?thesis
        using r sync1 rest line nonempty
        by (simp add: header_loop.simps [of env header buf fh] header_region.simps [of ?s])
    next
      case False
      have step: "header_loop env header buf fh = header_loop env (header @ first_line ?s) buf1 fh1"
        using r line False by (simp add: header_loop.simps [of env header buf fh])
      from 1(1) [OF nonempty False rest [symmetric] sync1, of "header @ first_line ?s"]
      obtain buf' fh' where IH: "header_loop env (header @ first_line ?s) buf1 fh1 =
          Some (case header_region (drop (length (first_line ?s)) ?s) of
            None \<Rightarrow> Inl MissingEndDefinitions | Some r \<Rightarrow> Inr ((header @ first_line ?s) @ r, buf'), fh')"
        "\<forall>r. header_region (drop (length (first_line ?s)) ?s) = Some r \<longrightarrow>
          synced content buf' fh' \<and> unread content buf' fh' = drop (length r) (drop (length (first_line ?s)) ?s)"
        unfolding rest by blast
      have region: "header_region ?s =
          map_option (\<lambda>r. first_line ?s @ r) (header_region (drop (length (first_line ?s)) ?s))"
        using nonempty False by (simp add: header_region.simps [of ?s])
      show ?thesis
        unfolding step region
        by (intro exI [of _ buf'] exI [of _ fh'])
          (use IH in \<open>auto split: option.splits simp: drop_drop add.commute\<close>)
    qed
  qed
qed

lemma steady_header_bytes:
  assumes env: "steady env m content"
  shows "\<exists>fh'. read_header_bytes_from_file env fh =
      Some (case header_region content of
        None \<Rightarrow> Inl MissingEndDefinitions | Some r \<Rightarrow> Inr (r, length r), fh') \<and>
    (\<forall>r. header_region content = Some r \<longrightarrow> fh_pos fh' = length r)"
proof -
  let ?fh0 = "\<lparr>fh_tick = fh_tick fh + 1, fh_pos = 0\<rparr>"
  have sync: "synced content [] ?fh0" by (simp add: synced_def unread_def)
  have u: "unread content [] ?fh0 = content" by (simp add: unread_def)
  obtain buf' fh' where l: "header_loop env [] [] ?fh0 =
      Some (case header_region content of
        None \<Rightarrow> Inl MissingEndDefinitions | Some r \<Rightarrow> Inr (r, buf'), fh')"
    "\<forall>r. header_region content = Some r \<longrightarrow>
      synced content buf' fh' \<and> unread content buf' fh' = drop (length r) content"
    using steady_header_loop [OF env sync, of "[]", unfolded u append_Nil] by blast
  show ?thesis
  proof (cases "header_region content")
    case None
    then show ?thesis
      using l(1) by (simp add: read_header_bytes_from_file_def fop_bind_def steady_seek [OF env])
  next
    case (Some r)
    with l(2) have s: "synced content buf' fh'" "unread content buf' fh' = drop (length r) content" by blast+
    have "length r \<le> length content" using header_region_prefix [OF Some] by (metis length_take min.cobounded1)
    moreover have "length content - (fh_pos fh' - length buf') = length content - length r"
      using synced_position [OF s(1)] s(2) by simp
    ultimately have "fh_pos fh' - length buf' = length r" using s(1) by (auto simp: synced_def)
    then show ?thesis
      using l(1) Some env
      by (simp add: read_header_bytes_from_file_def fop_bind_def fop_lift_def stream_position_def
        steady_seek [OF env] steady_def)
  qed
qed


text \<open>
  C35. Sanitising a header changes nothing but scope names and what follows them on their line.
  The words of the sanitised text are, line by line, the words of the decoded text; a line that
  starts with \<^verbatim>\<open>$scope\<close>, a space and at least three more words becomes the four words of a scope
  declaration, its name with a backslash in front when it is not a plain identifier. So a
  declaration that is alone on its line keeps its words, and everything after the third word of
  its line is lost otherwise. The lines must stay apart: a rewritten line that ended with a
  carriage return is followed by white space.
\<close>

theorem sanitize_keeps_words:
  assumes "separated (header_lines h)"
  shows "split_whitespace (sanitize_header h) =
    concat (map (\<lambda>line. let ws = split_whitespace line in
      if rewritten line then [''$scope'', ws ! 1, fixed_ident (ws ! 2), ''$end''] else ws) (header_lines h))"
  using sanitized_words [OF assms] by (simp add: line_words_def [abs_def])

theorem sanitize_keeps_words_witness:
  "split_whitespace (sanitize_header (''$scope module top-x $end'' @ [CHR 0x0D, CHR 0x0A] @ ''$upscope $end'')) =
    [''$scope'', ''module'', CHR 0x5C # ''top-x'', ''$end'', ''$upscope'', ''$end'']"
proof -
  let ?h = "''$scope module top-x $end'' @ [CHR 0x0D, CHR 0x0A] @ ''$upscope $end''"
  have "separated (header_lines ?h)" by code_simp
  from sanitize_keeps_words [OF this] show ?thesis by (rule trans) code_simp
qed

text \<open>
  A header may be written with several declarations on a line: then all but the first word of the
  scope's name is lost, here a variable.
\<close>

lemma one_line_declarations_are_lost:
  "sanitize_header (''$scope module top $end $var wire 1 ! clk $end'' @ [CHR 0x0A]) =
    ''$scope module top $end'' @ [CHR 0x0A]"
  by code_simp

lemma identified_header_run:
  assumes env: "steady env m content" and region: "header_region content = Some r"
  shows "\<exists>i fh'. read_identified_compact_header hash parse (Inr env) policy fh =
      Some (and_then (parse_compact_header parse r (length r)) (\<lambda>h. Inr \<lparr>ih_header = h, ih_identity = i\<rparr>), fh') \<and>
    fh_pos fh' = length r \<and> fid_body_offset i = length r \<and>
    (\<forall>env' fh2. steady env' m content \<longrightarrow>
      (\<exists>fh3. validate_open_file hash env' i policy fh2 = Some (Inr (), fh3) \<and> fh_pos fh3 = length r))"
proof -
  let ?fh0 = "fh\<lparr>fh_tick := fh_tick fh + 1\<rparr>"
  obtain fh1 where bytes: "read_header_bytes_from_file env ?fh0 = Some (Inr (r, length r), fh1)"
    using steady_header_bytes [OF env, of ?fh0] region by auto
  have header: "take (length r) content = r" by (rule header_region_prefix [OF region])
  then have off: "length r \<le> length content" by (metis length_take min.cobounded1)
  obtain i fh4 where opened: "from_open_file hash env r (length r) policy fh1 = Some (Inr i, fh4)"
      and meta: "matches_metadata i m"
    using steady_open [OF env off] by blast
  note facts = from_open_file_result [OF steady_serves [OF env] opened]
  have valid: "\<exists>fh3. validate_open_file hash env' i policy fh2 = Some (Inr (), fh3) \<and> fh_pos fh3 = length r"
    if "steady env' m content" for env' fh2
    using unchanged_validates [OF env that off, of hash policy fh1 fh2, unfolded header] opened by auto
  have "read_identified_compact_header hash parse (Inr env) policy fh =
      Some (and_then (parse_compact_header parse r (length r)) (\<lambda>h. Inr \<lparr>ih_header = h, ih_identity = i\<rparr>), fh4)"
    using bytes opened meta
    by (simp add: read_identified_compact_header_def fop_bind_def fop_lift_def steady_metadata [OF env])
  with facts(1,7) valid show ?thesis by blast
qed

lemma parsed_body_offset: "parse_compact_header parse r n = Inr h \<Longrightarrow> ch_body_offset h = n"
  by (auto simp: parse_compact_header_def and_then_def split: sum.splits prod.splits)

text \<open>
  C36. Opening a file identifies one header and one body. Over a file that keeps its content, and
  however short the reads are, \<^verbatim>\<open>read_identified_compact_header\<close> returns; the header region is the
  lines up to the first that holds \<^verbatim>\<open>$enddefinitions\<close>; without such a line the result is
  \<^verbatim>\<open>MissingEndDefinitions\<close>, with one it is what the parser and the catalog builder make of
  the sanitised region, with an identity of the same body offset, the handle is left at the body,
  and a new handle on the file validates against the identity.
\<close>

theorem identified_header_correct:
  assumes env: "steady env m content" and again: "steady env' m content"
  shows "\<exists>res fh'. read_identified_compact_header hash parse (Inr env) policy fh = Some (res, fh') \<and>
    (case header_region content of
       None \<Rightarrow> res = Inl MissingEndDefinitions
     | Some r \<Rightarrow> take (length r) content = r \<and> fh_pos fh' = length r \<and>
         (case parse_compact_header parse r (length r) of
            Inl e \<Rightarrow> res = Inl e
          | Inr h \<Rightarrow> \<exists>i. res = Inr \<lparr>ih_header = h, ih_identity = i\<rparr> \<and>
              ch_body_offset h = length r \<and> fid_body_offset i = length r \<and>
              (\<exists>fh3. validate_open_file hash env' i policy fh2 = Some (Inr (), fh3) \<and> fh_pos fh3 = length r)))"
proof (cases "header_region content")
  case None
  obtain fh1 where "read_header_bytes_from_file env (fh\<lparr>fh_tick := fh_tick fh + 1\<rparr>) =
      Some (Inl MissingEndDefinitions, fh1)"
    using steady_header_bytes [OF env, of "fh\<lparr>fh_tick := fh_tick fh + 1\<rparr>"] None by auto
  with None show ?thesis
    by (simp add: read_identified_compact_header_def fop_bind_def steady_metadata [OF env])
next
  case (Some r)
  from identified_header_run [OF env Some, of hash parse policy fh] again header_region_prefix [OF Some] Some
  show ?thesis
    by (cases "parse_compact_header parse r (length r)") (auto dest: parsed_body_offset)
qed

definition sample_text :: string where
  "sample_text = ''$var wire 1 ! a $end'' @ [CHR 0x0A] @ ''$enddefinitions $end'' @ [CHR 0x0A] @ ''#0'' @ [CHR 0x0A]"

lemma sample_region:
  "header_region sample_text =
    Some (''$var wire 1 ! a $end'' @ [CHR 0x0A] @ ''$enddefinitions $end'' @ [CHR 0x0A])"
  by code_simp

definition sample_parse :: header_parser where
  "sample_parse text = (if text = [] then Inl ''empty'' else Inr (None, []))"

theorem identified_header_correct_witness:
  "\<exists>h i fh' fh3. read_identified_compact_header id sample_parse
       (Inr (constant_file \<lparr>md_len = 45, md_modified = None, md_device = 1, md_inode = 2\<rparr> sample_text))
       MetadataAndSamples \<lparr>fh_tick = 0, fh_pos = 0\<rparr> = Some (Inr \<lparr>ih_header = h, ih_identity = i\<rparr>, fh') \<and>
     fid_body_offset i = 42 \<and> fh_pos fh' = 42 \<and>
     validate_open_file id (constant_file \<lparr>md_len = 45, md_modified = None, md_device = 1, md_inode = 2\<rparr> sample_text)
       i MetadataAndSamples \<lparr>fh_tick = 0, fh_pos = 5\<rparr> = Some (Inr (), fh3)"
proof -
  let ?m = "\<lparr>md_len = 45, md_modified = None, md_device = 1, md_inode = 2\<rparr>"
  let ?r = "''$var wire 1 ! a $end'' @ [CHR 0x0A] @ ''$enddefinitions $end'' @ [CHR 0x0A]"
  have env: "steady (constant_file ?m sample_text) ?m sample_text"
    by (rule steady_constant) (simp add: sample_text_def)
  have len: "length ?r = 42" by simp
  have nonempty: "sanitize_header ?r \<noteq> []" by code_simp
  have "\<exists>h. parse_compact_header sample_parse ?r 42 = Inr h"
    unfolding parse_compact_header_def sample_parse_def using nonempty
    by (simp add: from_scope_items_def)
  then obtain h where h: "parse_compact_header sample_parse ?r 42 = Inr h" by blast
  from identified_header_correct [OF env env, of id sample_parse MetadataAndSamples "\<lparr>fh_tick = 0, fh_pos = 0\<rparr>"
      "\<lparr>fh_tick = 0, fh_pos = 5\<rparr>", unfolded sample_region option.case len h sum.case]
  show ?thesis by blast
qed

end
