(* ===== verification/Opened.thy ===== *)
theory Opened
  imports Header
begin

text \<open>
  Opening a VCD and reading its body, src/opened/mod.rs: the configured path, the identified header
  and the generation of an opened source, independent readers that are validated against it, their
  cursor, and the validation at the end of a query.

  The file system is a \<open>path_system\<close>: what the working directory, opening a path and canonicalising
  it answer at the moment of the call. Every opened file is a \<open>file_env\<close> of theory \<open>Identity\<close>, with
  a handle of its own. \<open>None\<close>: the call does not return, because the counter of generations is
  exhausted (a panic) or because a file that is hashed completely keeps growing.
\<close>

subsection \<open>Paths\<close>

record path_system =
  ps_cwd :: "io_error + string"
  ps_open :: "string \<Rightarrow> io_error + file_env"
  ps_canonical :: "string \<Rightarrow> io_error + string"

definition is_absolute :: "string \<Rightarrow> bool" where
  "is_absolute p = starts_with p ''/''"

text \<open>\<^verbatim>\<open>Path::join\<close> with a relative path.\<close>

definition join_path :: "string \<Rightarrow> string \<Rightarrow> string" where
  "join_path base p = base @ (if base = [] \<or> last base = CHR ''/'' then [] else ''/'') @ p"

definition configured_path :: "path_system \<Rightarrow> string \<Rightarrow> vcd_error + string" where
  "configured_path sys display =
     (if is_absolute display then Inr display
      else and_then (map_err Io (ps_cwd sys)) (\<lambda>cwd. Inr (join_path cwd display)))"

subsection \<open>Opening\<close>

record opened_source =
  os_display :: string
  os_configured :: string
  os_canonical :: string
  os_generation :: u64
  os_identity :: file_identity
  os_header :: compact_header
  os_policy :: fingerprint_policy

definition new_handle :: file_handle where
  "new_handle = \<lparr>fh_tick = 0, fh_pos = 0\<rparr>"

definition open_with_options ::
    "(string \<Rightarrow> string) \<Rightarrow> header_parser \<Rightarrow> path_system \<Rightarrow> u64 \<Rightarrow> string \<Rightarrow> fingerprint_policy
      \<Rightarrow> ((vcd_error + opened_source) \<times> u64) option" where
  "open_with_options hash parse sys counter path policy =
     (case configured_path sys path of
        Inl e \<Rightarrow> Some (Inl e, counter)
      | Inr configured \<Rightarrow>
          (case read_identified_compact_header hash parse (ps_open sys configured) policy new_handle of
             None \<Rightarrow> None
           | Some (Inl e, _) \<Rightarrow> Some (Inl e, counter)
           | Some (Inr identified, _) \<Rightarrow>
               (case ps_canonical sys configured of
                  Inl e \<Rightarrow> Some (Inl (Io e), counter)
                | Inr canonical \<Rightarrow>
                    (case generation_fresh counter of
                       (None, _) \<Rightarrow> None
                     | (Some generation, counter') \<Rightarrow>
                         Some (Inr \<lparr>os_display = path, os_configured = configured, os_canonical = canonical,
                           os_generation = generation, os_identity = ih_identity identified,
                           os_header = ih_header identified, os_policy = policy\<rparr>, counter')))))"

subsection \<open>Body readers\<close>

record body_reader =
  br_env :: file_env
  br_handle :: file_handle
  br_buffer :: string

text \<open>Opening the configured path and validating what is there now.\<close>

definition open_validated ::
    "(string \<Rightarrow> string) \<Rightarrow> path_system \<Rightarrow> opened_source \<Rightarrow> (vcd_error + body_reader) option" where
  "open_validated hash sys src =
     (case ps_open sys (os_configured src) of
        Inl e \<Rightarrow> Some (Inl (Io e))
      | Inr env \<Rightarrow>
          (case validate_open_file hash env (os_identity src) (os_policy src) new_handle of
             None \<Rightarrow> None
           | Some (Inl e, _) \<Rightarrow> Some (Inl e)
           | Some (Inr _, fh) \<Rightarrow> Some (Inr \<lparr>br_env = env, br_handle = fh, br_buffer = []\<rparr>)))"

definition open_body_reader ::
    "(string \<Rightarrow> string) \<Rightarrow> path_system \<Rightarrow> opened_source \<Rightarrow> (vcd_error + body_reader) option" where
  "open_body_reader hash sys src = open_validated hash sys src"

definition validate_source ::
    "(string \<Rightarrow> string) \<Rightarrow> path_system \<Rightarrow> opened_source \<Rightarrow> (vcd_error + unit) option" where
  "validate_source hash sys src = map_option (map_sum id (\<lambda>_. ())) (open_validated hash sys src)"

text \<open>The buffered reader: \<^verbatim>\<open>fill_buf\<close> reads when nothing is buffered, \<^verbatim>\<open>consume\<close> gives bytes out.\<close>

definition fill_buf :: "body_reader \<Rightarrow> (vcd_error + string) \<times> body_reader" where
  "fill_buf br =
     (if br_buffer br \<noteq> [] then (Inr (br_buffer br), br)
      else case read_some (br_env br) buffer_capacity (br_handle br) of
          Some (Inr bytes, fh) \<Rightarrow> (Inr bytes, br\<lparr>br_handle := fh, br_buffer := bytes\<rparr>)
        | Some (Inl e, fh) \<Rightarrow> (Inl e, br\<lparr>br_handle := fh\<rparr>)
        | None \<Rightarrow> (Inr [], br))"

definition consume :: "nat \<Rightarrow> body_reader \<Rightarrow> body_reader" where
  "consume amount br = br\<lparr>br_buffer := drop amount (br_buffer br)\<rparr>"

definition validate_complete ::
    "(string \<Rightarrow> string) \<Rightarrow> path_system \<Rightarrow> opened_source \<Rightarrow> body_reader
      \<Rightarrow> ((vcd_error + unit) \<times> body_reader) option" where
  "validate_complete hash sys src br =
     (case stream_position (br_env br) (br_buffer br) (br_handle br) of
        None \<Rightarrow> None
      | Some (Inl e, fh) \<Rightarrow> Some (Inl e, br\<lparr>br_handle := fh\<rparr>)
      | Some (Inr position, fh) \<Rightarrow>
          (case validate_open_file hash (br_env br) (os_identity src) (os_policy src) fh of
             None \<Rightarrow> None
           | Some (validated, fh1) \<Rightarrow>
               (case seek_start (br_env br) position fh1 of
                  None \<Rightarrow> None
                | Some (restored, fh2) \<Rightarrow>
                    let br' = (case restored of
                        Inl _ \<Rightarrow> br\<lparr>br_handle := fh2\<rparr>
                      | Inr _ \<Rightarrow> br\<lparr>br_handle := fh2, br_buffer := []\<rparr>) in
                    case and_then validated (\<lambda>_. restored) of
                      Inl e \<Rightarrow> Some (Inl e, br')
                    | Inr _ \<Rightarrow> map_option (\<lambda>r. (r, br')) (validate_source hash sys src))))"

text \<open>What a reader is asked for, as its user the parser asks.\<close>

datatype reader_step = Fill | Consume nat

fun reader_do :: "reader_step \<Rightarrow> body_reader \<Rightarrow> body_reader" where
  "reader_do Fill br = snd (fill_buf br)"
| "reader_do (Consume k) br = consume (min k (length (br_buffer br))) br"

definition reader_position :: "body_reader \<Rightarrow> nat" where
  "reader_position br = fh_pos (br_handle br) - length (br_buffer br)"

text \<open>What the reader has given out between two positions of a content.\<close>

definition reader_synced :: "file_metadata \<Rightarrow> string \<Rightarrow> body_reader \<Rightarrow> bool" where
  "reader_synced m content br \<longleftrightarrow>
     steady (br_env br) m content \<and> synced content (br_buffer br) (br_handle br)"

subsection \<open>Cursors\<close>

lemma synced_consume:
  assumes "synced content buf fh" and "k \<le> length buf"
  shows "synced content (drop k buf) fh" and "fh_pos fh - length (drop k buf) = fh_pos fh - length buf + k"
proof -
  have "length buf \<le> fh_pos fh" using assms(1) by (simp add: synced_def)
  then show pos: "fh_pos fh - length (drop k buf) = fh_pos fh - length buf + k" using assms(2) by simp
  have "unread content (drop k buf) fh = drop k (unread content buf fh)"
    using assms(2) by (simp add: unread_def)
  also have "\<dots> = drop (fh_pos fh - length buf + k) content"
    using assms(1) by (simp add: synced_def add.commute)
  finally have "unread content (drop k buf) fh = drop (fh_pos fh - length (drop k buf)) content"
    by (simp only: pos)
  moreover have "length (drop k buf) \<le> fh_pos fh" using \<open>length buf \<le> fh_pos fh\<close> by simp
  ultimately show "synced content (drop k buf) fh" using assms(1) by (simp only: synced_def)
qed

lemma steady_fill:
  assumes env: "steady env m content" and sync: "synced content [] fh"
    and read: "read_some env buffer_capacity fh = Some (Inr bytes, fh')"
  shows "synced content bytes fh' \<and> fh_pos fh' - length bytes = fh_pos fh"
proof -
  have k: "0 < buffer_capacity" by (simp add: buffer_capacity_def)
  note b = read_some_Inr [OF steady_serves [OF env] k read]
  have same: "unread content bytes fh' = drop (fh_pos fh) content"
    using b by (simp add: unread_def) (metis append_take_drop_id drop_drop add.commute)
  have "length bytes \<le> length (drop (fh_pos fh) content)" using b by (metis length_take min.cobounded1)
  with b same sync show ?thesis by (auto simp: synced_def)
qed


lemma reader_do_synced:
  assumes "reader_synced m content br"
  shows "reader_synced m content (reader_do step br)" and "br_env (reader_do step br) = br_env br"
    and "reader_position (reader_do step br) =
      reader_position br + (case step of Fill \<Rightarrow> 0 | Consume k \<Rightarrow> min k (length (br_buffer br)))"
proof (atomize (full), cases step)
  case (Consume k)
  let ?k = "min k (length (br_buffer br))"
  have k: "?k \<le> length (br_buffer br)" by simp
  have s: "synced content (br_buffer br) (br_handle br)" using assms by (simp add: reader_synced_def)
  show "reader_synced m content (reader_do step br) \<and> br_env (reader_do step br) = br_env br \<and>
    reader_position (reader_do step br) =
      reader_position br + (case step of Fill \<Rightarrow> 0 | Consume k \<Rightarrow> min k (length (br_buffer br)))"
    using assms synced_consume [OF s k] Consume
    by (simp add: reader_synced_def reader_position_def consume_def)
next
  case Fill
  have env: "steady (br_env br) m content" and s: "synced content (br_buffer br) (br_handle br)"
    using assms by (simp_all add: reader_synced_def)
  show "reader_synced m content (reader_do step br) \<and> br_env (reader_do step br) = br_env br \<and>
    reader_position (reader_do step br) =
      reader_position br + (case step of Fill \<Rightarrow> 0 | Consume k \<Rightarrow> min k (length (br_buffer br)))"
  proof (cases "br_buffer br = []")
    case False
    then show ?thesis using assms Fill by (simp add: fill_buf_def)
  next
    case True
    have k: "0 < buffer_capacity" by (simp add: buffer_capacity_def)
    obtain bytes fh1 where r: "read_some (br_env br) buffer_capacity (br_handle br) = Some (Inr bytes, fh1)"
        "fh_pos fh1 = fh_pos (br_handle br) + length bytes" "length bytes \<le> buffer_capacity"
        "length bytes \<le> length content - fh_pos (br_handle br)"
        "fh_pos (br_handle br) < length content \<Longrightarrow> bytes \<noteq> []"
      by (rule steady_read [OF env k, of "br_handle br"]) (rule that)
    have "synced content [] (br_handle br)" using s True by simp
    from steady_fill [OF env this r(1)] show ?thesis
      using env True Fill r(1) by (simp add: fill_buf_def reader_synced_def reader_position_def)
  qed
qed

lemma fill_steady:
  assumes sync: "reader_synced m content br" and fill: "fill_buf br = (r, br1)"
  shows "\<exists>bytes. r = Inr bytes \<and> br_buffer br1 = bytes \<and> (bytes = [] \<longrightarrow> length content \<le> reader_position br)"
proof (cases "br_buffer br = []")
  case False
  then show ?thesis using fill by (auto simp: fill_buf_def)
next
  case True
  have env: "steady (br_env br) m content" using sync by (simp add: reader_synced_def)
  have k: "0 < buffer_capacity" by (simp add: buffer_capacity_def)
  obtain bytes fh1 where "read_some (br_env br) buffer_capacity (br_handle br) = Some (Inr bytes, fh1)"
      "fh_pos (br_handle br) < length content \<Longrightarrow> bytes \<noteq> []"
    by (rule steady_read [OF env k, of "br_handle br"]) (rule that)
  moreover from this(2) have "bytes = [] \<longrightarrow> length content \<le> fh_pos (br_handle br)" by (metis not_less)
  ultimately show ?thesis using fill True by (auto simp: fill_buf_def reader_position_def)
qed

lemma reader_run_synced:
  assumes "reader_synced m content br"
  shows "reader_synced m content (fold reader_do steps br) \<and> reader_position br \<le> reader_position (fold reader_do steps br)"
  using assms
proof (induction steps arbitrary: br)
  case (Cons step steps)
  then show ?case
    using reader_do_synced [OF Cons.prems, of step] Cons.IH [of "reader_do step br"] by simp
qed simp

lemma reader_unread:
  "reader_synced m content br \<Longrightarrow> unread content (br_buffer br) (br_handle br) = drop (reader_position br) content"
  by (simp add: reader_synced_def synced_def reader_position_def)

subsection \<open>Validated readers of an unchanged source\<close>

text \<open>The identity is one that opening a file with the content \<open>content\<close> gave.\<close>

definition identifies :: "(string \<Rightarrow> string) \<Rightarrow> file_metadata \<Rightarrow> string \<Rightarrow> opened_source \<Rightarrow> bool" where
  "identifies hash m content src \<longleftrightarrow>
     fid_body_offset (os_identity src) \<le> length content \<and>
     (\<forall>env fh. steady env m content \<longrightarrow>
       (\<exists>fh'. validate_open_file hash env (os_identity src) (os_policy src) fh = Some (Inr (), fh') \<and>
         fh_pos fh' = fid_body_offset (os_identity src)))"

lemma open_identifies:
  assumes env: "steady env m content" and region: "header_region content = Some r"
    and sys: "configured_path sys path = Inr configured" "ps_open sys configured = Inr env"
    and run: "open_with_options hash parse sys counter path policy = Some (Inr src, counter')"
  shows "identifies hash m content src" and "os_configured src = configured"
    and "fid_body_offset (os_identity src) = length r" and "ch_body_offset (os_header src) = length r"
    and "parse_compact_header parse r (length r) = Inr (os_header src)"
proof -
  have find: "\<exists>fh'. read_identified_compact_header hash parse (Inr env) policy new_handle =
      Some (Inr \<lparr>ih_header = os_header src, ih_identity = os_identity src\<rparr>, fh')"
    and src: "os_configured src = configured" "os_policy src = policy"
    using run sys
    by (auto simp: open_with_options_def split: option.splits prod.splits sum.splits)
  show "os_configured src = configured" by (rule src)
  note one = identified_header_run [OF env region, of hash parse policy new_handle]
  from one find obtain i where i: "and_then (parse_compact_header parse r (length r)) (\<lambda>h. Inr \<lparr>ih_header = h, ih_identity = i\<rparr>) =
        Inr \<lparr>ih_header = os_header src, ih_identity = os_identity src\<rparr>" "fid_body_offset i = length r"
      "\<forall>env' fh2. steady env' m content \<longrightarrow>
        (\<exists>fh3. validate_open_file hash env' i policy fh2 = Some (Inr (), fh3) \<and> fh_pos fh3 = length r)"
    by (auto simp del: and_then_simps)
  have same: "parse_compact_header parse r (length r) = Inr (os_header src)" "i = os_identity src"
    using i(1) by (auto simp: and_then_def split: sum.splits)
  then show "parse_compact_header parse r (length r) = Inr (os_header src)"
    "ch_body_offset (os_header src) = length r" "fid_body_offset (os_identity src) = length r"
    using i(2) parsed_body_offset by auto
  have "length r \<le> length content"
    using header_region_prefix [OF region] by (metis length_take min.cobounded1)
  with i(2,3) same(2) src(2) show "identifies hash m content src" by (auto simp: identifies_def)
qed

lemma open_has_region:
  assumes env: "steady env m content"
    and sys: "configured_path sys path = Inr configured" "ps_open sys configured = Inr env"
    and run: "open_with_options hash parse sys counter path policy = Some (Inr src, counter')"
  shows "\<exists>r. header_region content = Some r"
proof (rule ccontr)
  assume "\<nexists>r. header_region content = Some r"
  then have none: "header_region content = None" by (cases "header_region content") auto
  obtain fh1 where "read_header_bytes_from_file env (new_handle\<lparr>fh_tick := fh_tick new_handle + 1\<rparr>) =
      Some (Inl MissingEndDefinitions, fh1)"
    using steady_header_bytes [OF env, of "new_handle\<lparr>fh_tick := fh_tick new_handle + 1\<rparr>"] none by auto
  then have "read_identified_compact_header hash parse (Inr env) policy new_handle = Some (Inl MissingEndDefinitions, fh1)"
    by (simp add: read_identified_compact_header_def fop_bind_def steady_metadata [OF env])
  then show False using run sys by (simp add: open_with_options_def)
qed

lemma identified_reader:
  assumes i: "identifies hash m content src" and env: "ps_open sys (os_configured src) = Inr env" "steady env m content"
  shows "\<exists>br. open_validated hash sys src = Some (Inr br) \<and> reader_synced m content br \<and>
    reader_position br = fid_body_offset (os_identity src)"
proof -
  obtain fh where v: "validate_open_file hash env (os_identity src) (os_policy src) new_handle = Some (Inr (), fh)"
      "fh_pos fh = fid_body_offset (os_identity src)"
    using i env(2) by (auto simp: identifies_def)
  with i env show ?thesis
    by (simp add: open_validated_def reader_synced_def reader_position_def synced_def unread_def identifies_def)
qed

lemma identified_complete:
  assumes i: "identifies hash m content src" and env: "ps_open sys (os_configured src) = Inr env" "steady env m content"
    and br: "reader_synced m content br"
  shows "\<exists>br'. validate_complete hash sys src br = Some (Inr (), br') \<and>
    unread content (br_buffer br') (br_handle br') = unread content (br_buffer br) (br_handle br)"
proof -
  have steady: "steady (br_env br) m content" using br by (simp add: reader_synced_def)
  let ?fh = "(br_handle br)\<lparr>fh_tick := fh_tick (br_handle br) + 1\<rparr>"
  have pos: "stream_position (br_env br) (br_buffer br) (br_handle br) = Some (Inr (reader_position br), ?fh)"
    using steady by (simp add: stream_position_def steady_def reader_position_def)
  obtain fh1 where v: "validate_open_file hash (br_env br) (os_identity src) (os_policy src) ?fh = Some (Inr (), fh1)"
    using i steady by (auto simp: identifies_def)
  have again: "validate_source hash sys src = Some (Inr ())"
    using identified_reader [OF i env] by (auto simp: validate_source_def)
  show ?thesis
    using pos v again reader_unread [OF br]
    by (simp add: validate_complete_def steady_seek [OF steady] unread_def)
qed

text \<open>
  C37. A body reader of an opened source reads its body and nothing else. When a source is opened
  and keeps its content, a reader opened at any later moment is admitted and stands at the
  recorded body offset; whatever sequence of reads and consumptions its user makes, what is still
  to come is the content from its position on and the position never goes back; and at any point
  the validation of completion accepts, leaving exactly the same bytes to be read.
\<close>

theorem body_reader_reads_body:
  assumes at_open: "configured_path sys path = Inr configured" "ps_open sys configured = Inr env" "steady env m content"
    and opened: "open_with_options hash parse sys counter path policy = Some (Inr src, counter')"
    and later: "ps_open sys' configured = Inr env'" "steady env' m content"
    and at_end: "ps_open sys'' configured = Inr env''" "steady env'' m content"
  shows "\<exists>br. open_body_reader hash sys' src = Some (Inr br) \<and>
    reader_position br = ch_body_offset (os_header src) \<and>
    (let br' = fold reader_do steps br in
       reader_position br \<le> reader_position br' \<and>
       unread content (br_buffer br') (br_handle br') = drop (reader_position br') content \<and>
       (\<exists>br''. validate_complete hash sys'' src br' = Some (Inr (), br'') \<and>
         unread content (br_buffer br'') (br_handle br'') = drop (reader_position br') content))"
proof -
  obtain r where region: "header_region content = Some r"
    using open_has_region [OF at_open(3,1,2) opened] by blast
  note o = open_identifies [OF at_open(3) region at_open(1,2) opened]
  obtain br where br: "open_validated hash sys' src = Some (Inr br)" "reader_synced m content br"
      "reader_position br = fid_body_offset (os_identity src)"
    using identified_reader [OF o(1) later(1) [folded o(2)] later(2)] by blast
  note run = reader_run_synced [OF br(2), of steps]
  from identified_complete [OF o(1) at_end(1) [folded o(2)] at_end(2) run [THEN conjunct1]]
  show ?thesis
    using br(1,3) o(3,4) run reader_unread [OF run [THEN conjunct1]]
    by (auto simp: open_body_reader_def Let_def)
qed

definition sample_files :: path_system where
  "sample_files = \<lparr>ps_cwd = Inr ''/w'',
     ps_open = \<lambda>p. if p = ''/w/a.vcd''
       then Inr (constant_file \<lparr>md_len = 45, md_modified = None, md_device = 1, md_inode = 2\<rparr> sample_text)
       else Inl (io_new NotFound ''no such file''),
     ps_canonical = \<lambda>p. Inr p\<rparr>"

lemma sample_source_opens:
  "\<exists>src. open_with_options id sample_parse sample_files 1 ''a.vcd'' MetadataAndSamples = Some (Inr src, 2)"
proof -
  let ?r = "''$var wire 1 ! a $end'' @ [CHR 0x0A] @ ''$enddefinitions $end'' @ [CHR 0x0A]"
  let ?m = "\<lparr>md_len = 45, md_modified = None, md_device = 1, md_inode = 2\<rparr>"
  have env: "steady (constant_file ?m sample_text) ?m sample_text"
    by (rule steady_constant) (simp add: sample_text_def)
  have nonempty: "sanitize_header ?r \<noteq> []" by code_simp
  then have "\<exists>h. parse_compact_header sample_parse ?r (length ?r) = Inr h"
    unfolding parse_compact_header_def sample_parse_def by (simp add: from_scope_items_def)
  then obtain h where h: "parse_compact_header sample_parse ?r (length ?r) = Inr h" by blast
  from identified_header_run [OF env sample_region, of id sample_parse MetadataAndSamples new_handle] h
  obtain i fh' where "read_identified_compact_header id sample_parse (Inr (constant_file ?m sample_text))
      MetadataAndSamples new_handle = Some (Inr \<lparr>ih_header = h, ih_identity = i\<rparr>, fh')"
    by auto
  then show ?thesis
    by (simp add: open_with_options_def configured_path_def sample_files_def is_absolute_def starts_with_def
        join_path_def generation_fresh_def)
qed

theorem body_reader_reads_body_witness:
  "\<exists>src br br''. open_with_options id sample_parse sample_files 1 ''a.vcd'' MetadataAndSamples = Some (Inr src, 2) \<and>
     open_body_reader id sample_files src = Some (Inr br) \<and>
     validate_complete id sample_files src (fold reader_do [Fill, Consume 2] br) = Some (Inr (), br'')"
proof -
  let ?m = "\<lparr>md_len = 45, md_modified = None, md_device = 1, md_inode = 2\<rparr>"
  have env: "steady (constant_file ?m sample_text) ?m sample_text"
    by (rule steady_constant) (simp add: sample_text_def)
  have conf: "configured_path sample_files ''a.vcd'' = Inr ''/w/a.vcd''"
    by (simp add: configured_path_def sample_files_def is_absolute_def starts_with_def join_path_def)
  have there: "ps_open sample_files ''/w/a.vcd'' = Inr (constant_file ?m sample_text)"
    by (simp add: sample_files_def)
  obtain src where src: "open_with_options id sample_parse sample_files 1 ''a.vcd'' MetadataAndSamples = Some (Inr src, 2)"
    using sample_source_opens by blast
  from body_reader_reads_body [OF conf there env src there env there env, of "[Fill, Consume 2]"] src
  show ?thesis by (auto simp: Let_def)
qed

end
