(* ===== verification/Listener.thy ===== *)
theory Listener
  imports Opened
begin

text \<open>
  Binding the server's Unix socket, src/server/listener.rs: the checks before a stale socket is
  removed, the private temporary socket that is published by a hard link, and the guard that
  removes what was created and nothing else.

  The file system is a map from paths to entries. System calls happen one after the other; before
  each, other processes may change the file system (\<open>ev_world\<close>), and each may fail without effect
  (\<open>ev_fault\<close>). The paths the program itself changed are recorded in \<open>lw_touched\<close>, and what its calls
  saw and did in \<open>lw_log\<close>, the latest first: neither has an effect.
\<close>

subsection \<open>The file system\<close>

datatype entry_kind = SocketEntry | DirectoryEntry | OtherEntry

record fs_entry =
  en_kind :: entry_kind
  en_device :: u64
  en_inode :: u64
  en_uid :: u32
  en_mode :: u32
  en_live :: bool \<comment> \<open>a socket with a listener\<close>

type_synonym file_system = "string \<rightharpoonup> fs_entry"

record listener_env =
  ev_world :: "nat \<Rightarrow> file_system \<Rightarrow> file_system"
  ev_fault :: "nat \<Rightarrow> io_error option"
  ev_follow :: "file_system \<Rightarrow> string \<Rightarrow> fs_entry option" \<comment> \<open>metadata through symbolic links\<close>
  ev_uid :: u32
  ev_pid :: u32
  ev_new_entry :: "nat \<Rightarrow> u64 \<times> u64 \<times> u32" \<comment> \<open>device, inode and mode of a new socket\<close>

datatype fs_call =
    Saw string fs_entry \<comment> \<open>\<^verbatim>\<open>symlink_metadata\<close> found this entry\<close>
  | Refused string \<comment> \<open>\<^verbatim>\<open>connect\<close> was refused\<close>
  | Removed string fs_entry
  | Bound string fs_entry
  | Chmodded string
  | Linked string string

record listener_world =
  lw_tick :: nat
  lw_fs :: file_system
  lw_touched :: "string list"
  lw_log :: "fs_call list"

type_synonym 'a lop = "listener_world \<Rightarrow> (io_error + 'a) \<times> listener_world"

definition lop_return :: "io_error + 'a \<Rightarrow> 'a lop" where
  "lop_return r w = (r, w)"

definition lop_bind :: "'a lop \<Rightarrow> ('a \<Rightarrow> 'b lop) \<Rightarrow> 'b lop" where
  "lop_bind m k w = (case m w of (Inl e, w') \<Rightarrow> (Inl e, w') | (Inr x, w') \<Rightarrow> k x w')"

definition syscall :: "listener_env \<Rightarrow> 'a lop \<Rightarrow> 'a lop" where
  "syscall env effect w =
     (let w1 = w\<lparr>lw_tick := lw_tick w + 1, lw_fs := ev_world env (lw_tick w) (lw_fs w)\<rparr> in
      case ev_fault env (lw_tick w) of Some e \<Rightarrow> (Inl e, w1) | None \<Rightarrow> effect w1)"

definition noted :: "fs_call \<Rightarrow> listener_world \<Rightarrow> listener_world" where
  "noted c w = w\<lparr>lw_log := c # lw_log w\<rparr>"

definition change :: "string \<Rightarrow> fs_entry option \<Rightarrow> listener_world \<Rightarrow> listener_world" where
  "change p e w = w\<lparr>lw_fs := (lw_fs w)(p := e), lw_touched := p # lw_touched w\<rparr>"

definition not_found :: io_error where "not_found = io_new NotFound ''No such file or directory''"

definition sys_lstat :: "listener_env \<Rightarrow> string \<Rightarrow> fs_entry lop" where
  "sys_lstat env p = syscall env (\<lambda>w.
     case lw_fs w p of None \<Rightarrow> (Inl not_found, w) | Some e \<Rightarrow> (Inr e, noted (Saw p e) w))"

definition sys_stat :: "listener_env \<Rightarrow> string \<Rightarrow> fs_entry lop" where
  "sys_stat env p = syscall env (\<lambda>w.
     (case ev_follow env (lw_fs w) p of None \<Rightarrow> Inl not_found | Some e \<Rightarrow> Inr e, w))"

definition sys_connect :: "listener_env \<Rightarrow> string \<Rightarrow> unit lop" where
  "sys_connect env p w =
     (case syscall env (\<lambda>w.
        (case lw_fs w p of
           None \<Rightarrow> Inl not_found
         | Some e \<Rightarrow> if en_kind e = SocketEntry \<and> en_live e then Inr ()
             else Inl (io_new ConnectionRefused ''Connection refused''), w)) w of
        (Inr u, w') \<Rightarrow> (Inr u, w')
      | (Inl e, w') \<Rightarrow> (Inl e, if io_kind_of e = ConnectionRefused then noted (Refused p) w' else w'))"

definition sys_unlink :: "listener_env \<Rightarrow> string \<Rightarrow> unit lop" where
  "sys_unlink env p = syscall env (\<lambda>w.
     case lw_fs w p of
       None \<Rightarrow> (Inl not_found, w)
     | Some e \<Rightarrow> (Inr (), noted (Removed p e) (change p None w)))"

definition sys_bind :: "listener_env \<Rightarrow> string \<Rightarrow> fs_entry lop" where
  "sys_bind env p = syscall env (\<lambda>w.
     if lw_fs w p \<noteq> None then (Inl (io_new AddrInUse ''Address already in use''), w)
     else (case ev_new_entry env (lw_tick w) of (dev, ino, mode) \<Rightarrow>
       let e = \<lparr>en_kind = SocketEntry, en_device = dev, en_inode = ino, en_uid = ev_uid env,
            en_mode = mode, en_live = True\<rparr>
       in (Inr e, noted (Bound p e) (change p (Some e) w))))"

definition sys_chmod :: "listener_env \<Rightarrow> string \<Rightarrow> u32 \<Rightarrow> unit lop" where
  "sys_chmod env p mode = syscall env (\<lambda>w.
     case lw_fs w p of
       None \<Rightarrow> (Inl not_found, w)
     | Some e \<Rightarrow> (Inr (), noted (Chmodded p) (change p (Some (e\<lparr>en_mode := mode\<rparr>)) w)))"

definition sys_link :: "listener_env \<Rightarrow> string \<Rightarrow> string \<Rightarrow> unit lop" where
  "sys_link env p q = syscall env (\<lambda>w.
     case lw_fs w p of
       None \<Rightarrow> (Inl not_found, w)
     | Some e \<Rightarrow> if lw_fs w q \<noteq> None then (Inl (io_new AlreadyExists ''File exists''), w)
         else (Inr (), noted (Linked p q) (change q (Some e) w)))"

subsection \<open>The guard of what was created\<close>

record socket_guard =
  sg_path :: string
  sg_published :: "string option"
  sg_identity :: "(u64 \<times> u64) option"
  sg_armed :: bool

definition guard_new :: "string \<Rightarrow> socket_guard" where
  "guard_new p = \<lparr>sg_path = p, sg_published = None, sg_identity = None, sg_armed = True\<rparr>"

definition identity_of :: "fs_entry \<Rightarrow> u64 \<times> u64" where
  "identity_of e = (en_device e, en_inode e)"

definition identity_matches :: "u64 \<times> u64 \<Rightarrow> fs_entry \<Rightarrow> bool" where
  "identity_matches i e \<longleftrightarrow> en_kind e = SocketEntry \<and> en_device e = fst i \<and> en_inode e = snd i"

definition remove_if_owned :: "listener_env \<Rightarrow> socket_guard \<Rightarrow> string \<Rightarrow> unit lop" where
  "remove_if_owned env g p w =
     (case sys_lstat env p w of
        (Inr e, w') \<Rightarrow>
          if (case sg_identity g of None \<Rightarrow> en_kind e = SocketEntry | Some i \<Rightarrow> identity_matches i e)
          then sys_unlink env p w' else (Inr (), w')
      | (Inl e, w') \<Rightarrow> if io_kind_of e = NotFound then (Inr (), w') else (Inl e, w'))"

definition cleanup :: "listener_env \<Rightarrow> socket_guard \<Rightarrow> listener_world \<Rightarrow> (io_error + unit) \<times> socket_guard \<times> listener_world" where
  "cleanup env g w =
     (if \<not> sg_armed g then (Inr (), g, w)
      else (let g' = g\<lparr>sg_armed := False, sg_published := None\<rparr> in
        case lop_bind (remove_if_owned env g' (sg_path g)) (\<lambda>_.
            case sg_published g of
              Some p \<Rightarrow> if p \<noteq> sg_path g then remove_if_owned env g' p else lop_return (Inr ())
            | None \<Rightarrow> lop_return (Inr ())) w of
          (r, w') \<Rightarrow> (r, g', w')))"

definition capture_identity :: "listener_env \<Rightarrow> socket_guard \<Rightarrow> ((u64 \<times> u64) \<times> socket_guard) lop" where
  "capture_identity env g =
     lop_bind (sys_lstat env (sg_path g)) (\<lambda>e.
       if en_kind e \<noteq> SocketEntry
       then lop_return (Inl (io_new InvalidData ''created Unix socket path is not a socket''))
       else lop_return (Inr (identity_of e, g\<lparr>sg_identity := Some (identity_of e)\<rparr>)))"

text \<open>The guard is kept whatever the outcome: it says what has been published.\<close>

definition publish_no_replace ::
    "listener_env \<Rightarrow> socket_guard \<Rightarrow> string \<Rightarrow> listener_world \<Rightarrow> (io_error + unit) \<times> socket_guard \<times> listener_world" where
  "publish_no_replace env g destination w =
     (case sys_link env (sg_path g) destination w of
        (Inl e, w1) \<Rightarrow> (Inl e, g, w1)
      | (Inr _, w1) \<Rightarrow>
          (let g1 = g\<lparr>sg_published := Some destination\<rparr> in
           case sys_unlink env (sg_path g) w1 of
             (Inl e, w2) \<Rightarrow> (Inl e, g1, w2)
           | (Inr _, w2) \<Rightarrow> (Inr (), g1\<lparr>sg_path := destination, sg_published := None\<rparr>, w2)))"

subsection \<open>Binding\<close>

text \<open>\<^verbatim>\<open>Path::parent\<close> of an absolute path: the text before its last component.\<close>

fun strip_separators :: "string \<Rightarrow> string" where
  "strip_separators (c # s) =
     (if c = CHR ''/'' then strip_separators s
      else if c = CHR ''.'' \<and> s \<noteq> [] \<and> hd s = CHR ''/'' then strip_separators s
      else c # s)"
| "strip_separators [] = []"

definition path_parent :: "string \<Rightarrow> string option" where
  "path_parent p =
     (let r = strip_separators (rev p) in
      if r = [] then None
      else (let d = strip_separators (dropWhile (\<lambda>c. c \<noteq> CHR ''/'') r) in
        Some (if d = [] then ''/'' else rev d)))"

definition temporary_path :: "listener_env \<Rightarrow> string \<Rightarrow> nat \<Rightarrow> string" where
  "temporary_path env parent n =
     join_path parent (''.vcd-tools-'' @ decimal (unat (ev_pid env)) @ ''-'' @ decimal n @ ''.sock'')"

definition refuse :: "io_kind \<Rightarrow> string \<Rightarrow> 'a lop" where
  "refuse k message = lop_return (Inl (io_new k message))"

text \<open>The checks on the parent directory.\<close>

definition check_parent :: "listener_env \<Rightarrow> string \<Rightarrow> unit lop" where
  "check_parent env parent =
     lop_bind (sys_stat env parent) (\<lambda>m.
       if en_kind m \<noteq> DirectoryEntry then refuse InvalidInput ''Unix socket parent is not a directory''
       else if en_uid m \<noteq> ev_uid env \<or> and (en_mode m) 0x3F \<noteq> 0
       then refuse PermissionDenied ''Unix socket parent must be owner-only (0700-style) and owned by the current user''
       else lop_return (Inr ()))"

text \<open>What is at the path already: only a dead socket of the same user is removed.\<close>

definition clear_stale :: "listener_env \<Rightarrow> string \<Rightarrow> unit lop" where
  "clear_stale env p w =
     (case sys_lstat env p w of
        (Inl _, w1) \<Rightarrow> (Inr (), w1)
      | (Inr existing, w1) \<Rightarrow>
          if en_kind existing \<noteq> SocketEntry
          then refuse AlreadyExists ''refusing to unlink a non-socket path'' w1
          else (case sys_connect env p w1 of
              (Inr _, w2) \<Rightarrow> refuse AddrInUse ''Unix socket already has a live listener'' w2
            | (Inl e, w2) \<Rightarrow>
                if io_kind_of e \<noteq> ConnectionRefused
                then refuse AddrInUse ''Unix socket liveness is uncertain; refusing to unlink'' w2
                else if en_uid existing \<noteq> ev_uid env
                then refuse PermissionDenied ''stale Unix socket is not owned by the current user'' w2
                else lop_bind (sys_lstat env p) (\<lambda>current.
                  if en_kind current \<noteq> SocketEntry \<or> en_device current \<noteq> en_device existing \<or>
                    en_inode current \<noteq> en_inode existing
                  then refuse AlreadyExists ''Unix socket path changed during stale-socket validation''
                  else sys_unlink env p) w2))"

text \<open>From the bound temporary socket to the published one; the guard is given back in any case.\<close>

definition create_socket ::
    "listener_env \<Rightarrow> string \<Rightarrow> socket_guard \<Rightarrow> listener_world \<Rightarrow> (io_error + unit) \<times> socket_guard \<times> listener_world" where
  "create_socket env p g w =
     (case capture_identity env g w of
        (Inl e, w1) \<Rightarrow> (Inl e, g, w1)
      | (Inr (i, g1), w1) \<Rightarrow>
          (case lop_bind (sys_chmod env (sg_path g1) 0x180) (\<lambda>_.
                lop_bind (sys_lstat env (sg_path g1)) (\<lambda>m.
                  if \<not> identity_matches i m
                  then refuse AlreadyExists ''Unix socket temporary path changed during creation''
                  else lop_return (Inr ()))) w1 of
             (Inl e, w2) \<Rightarrow> (Inl e, g1, w2)
           | (Inr _, w2) \<Rightarrow>
               (case publish_no_replace env g1 p w2 of
                  (Inl e, g2, w3) \<Rightarrow> (Inl e, g2, w3)
                | (Inr _, g2, w3) \<Rightarrow>
                    (case sys_lstat env p w3 of
                       (Inl e, w4) \<Rightarrow> (Inl e, g2, w4)
                     | (Inr m, w4) \<Rightarrow>
                         if \<not> identity_matches i m
                         then (Inl (io_new AlreadyExists ''Unix socket path changed during creation''), g2, w4)
                         else (Inr (), g2, w4)))))"

text \<open>\<open>n\<close> is the counter of temporary sockets. The guard cleans up when an error leaves the function.\<close>

definition bind_listener :: "listener_env \<Rightarrow> string \<Rightarrow> nat \<Rightarrow> socket_guard lop" where
  "bind_listener env p n =
     (if \<not> is_absolute p then refuse InvalidInput ''Unix socket path must be absolute''
      else case path_parent p of
        None \<Rightarrow> refuse InvalidInput ''Unix socket path has no parent''
      | Some parent \<Rightarrow>
          lop_bind (check_parent env parent) (\<lambda>_.
          lop_bind (clear_stale env p) (\<lambda>_.
          lop_bind (sys_bind env (temporary_path env parent n)) (\<lambda>_ w.
            case create_socket env p (guard_new (temporary_path env parent n)) w of
              (Inr _, g, w') \<Rightarrow> (Inr g, w')
            | (Inl e, g, w') \<Rightarrow> (case cleanup env g w' of (_, _, w'') \<Rightarrow> (Inl e, w''))))))"

subsection \<open>System calls when nobody else uses the two paths\<close>

definition polite :: "listener_env \<Rightarrow> string \<Rightarrow> string \<Rightarrow> bool" where
  "polite env p t \<longleftrightarrow> (\<forall>n fs. ev_world env n fs p = fs p \<and> ev_world env n fs t = fs t) \<and> p \<noteq> t"

text \<open>A failing \<^verbatim>\<open>connect\<close> on a live socket is not reported as a refusal.\<close>

definition honest :: "listener_env \<Rightarrow> bool" where
  "honest env \<longleftrightarrow> (\<forall>n e. ev_fault env n = Some e \<longrightarrow> io_kind_of e \<noteq> ConnectionRefused \<and> io_kind_of e \<noteq> NotFound)"

definition faulty :: "listener_env \<Rightarrow> listener_world \<Rightarrow> listener_world \<Rightarrow> bool" where
  "faulty env w w' \<longleftrightarrow> (\<exists>n. lw_tick w \<le> n \<and> n < lw_tick w' \<and> ev_fault env n \<noteq> None)"

text \<open>Between two states: time passes, and only the two paths are touched.\<close>

definition later :: "string \<Rightarrow> string \<Rightarrow> listener_world \<Rightarrow> listener_world \<Rightarrow> bool" where
  "later p t w w' \<longleftrightarrow> lw_tick w \<le> lw_tick w' \<and> set (lw_touched w') \<subseteq> set (lw_touched w) \<union> {p, t}"

definition same_at :: "string \<Rightarrow> string \<Rightarrow> listener_world \<Rightarrow> listener_world \<Rightarrow> bool" where
  "same_at p t w w' \<longleftrightarrow> lw_fs w' p = lw_fs w p \<and> lw_fs w' t = lw_fs w t"

lemma noted_simps [simp]:
  "lw_tick (noted c w) = lw_tick w" "lw_fs (noted c w) = lw_fs w" "lw_touched (noted c w) = lw_touched w"
  "lw_log (noted c w) = c # lw_log w"
  by (simp_all add: noted_def)

lemma later_trans: "later p t w w1 \<Longrightarrow> later p t w1 w2 \<Longrightarrow> later p t w w2"
  by (auto simp: later_def)

lemma later_refl [simp]: "later p t w w" "same_at p t w w"
  by (auto simp: later_def same_at_def)

lemma faulty_mono:
  "faulty env w1 w2 \<Longrightarrow> lw_tick w \<le> lw_tick w1 \<Longrightarrow> lw_tick w2 \<le> lw_tick w3 \<Longrightarrow> faulty env w w3"
  unfolding faulty_def by (meson le_trans less_le_trans)

lemma lstat_spec:
  assumes "polite env p t" and "sys_lstat env q w = (r, w')" and "q = p \<or> q = t"
  shows "later p t w w' \<and> same_at p t w w' \<and>
    (case r of Inr e \<Rightarrow> lw_fs w q = Some e | Inl e \<Rightarrow> lw_fs w q = None \<or> faulty env w w') \<and>
    (honest env \<longrightarrow> r = Inl e \<longrightarrow> io_kind_of e = NotFound \<longrightarrow> lw_fs w q = None)"
  using assms
  by (auto simp: sys_lstat_def syscall_def Let_def polite_def later_def same_at_def faulty_def honest_def
      split: option.splits)

lemma connect_spec:
  assumes "polite env p t" and "honest env" and "sys_connect env p w = (r, w')"
  shows "later p t w w' \<and> same_at p t w w' \<and>
    (\<forall>e x. r = Inl x \<longrightarrow> io_kind_of x = ConnectionRefused \<longrightarrow> lw_fs w p = Some e \<longrightarrow> en_kind e = SocketEntry \<longrightarrow> \<not> en_live e)"
  using assms
  by (auto simp: sys_connect_def syscall_def Let_def polite_def later_def same_at_def honest_def not_found_def io_new_def
      split: option.splits if_splits)

lemma unlink_spec:
  assumes "polite env p t" and "sys_unlink env q w = (r, w')" and "q = p \<or> q = t"
  shows "later p t w w' \<and>
    (case r of
       Inr _ \<Rightarrow> lw_fs w' q = None \<and> (\<forall>x. x = p \<or> x = t \<longrightarrow> x \<noteq> q \<longrightarrow> lw_fs w' x = lw_fs w x)
     | Inl _ \<Rightarrow> same_at p t w w' \<and> (lw_fs w q = None \<or> faulty env w w'))"
  using assms
  by (auto simp: sys_unlink_def syscall_def Let_def polite_def later_def same_at_def faulty_def change_def
      split: option.splits if_splits)

lemma bind_spec:
  assumes "polite env p t" and "sys_bind env t w = (r, w')"
  shows "later p t w w' \<and> lw_fs w' p = lw_fs w p \<and>
    (case r of
       Inr e \<Rightarrow> lw_fs w t = None \<and> lw_fs w' t = Some e \<and> en_kind e = SocketEntry \<and> en_uid e = ev_uid env \<and> en_live e
     | Inl _ \<Rightarrow> lw_fs w' t = lw_fs w t)"
  using assms
  by (auto simp: sys_bind_def syscall_def Let_def polite_def later_def change_def
      split: option.splits if_splits prod.splits)

lemma chmod_spec:
  assumes "polite env p t" and "sys_chmod env t mode w = (r, w')"
  shows "later p t w w' \<and> lw_fs w' p = lw_fs w p \<and>
    (case r of
       Inr _ \<Rightarrow> \<exists>e. lw_fs w t = Some e \<and> lw_fs w' t = Some (e\<lparr>en_mode := mode\<rparr>)
     | Inl _ \<Rightarrow> lw_fs w' t = lw_fs w t \<and> (lw_fs w t = None \<or> faulty env w w'))"
  using assms
  by (auto simp: sys_chmod_def syscall_def Let_def polite_def later_def change_def faulty_def
      split: option.splits)

lemma link_spec:
  assumes "polite env p t" and "sys_link env t p w = (r, w')"
  shows "later p t w w' \<and> lw_fs w' t = lw_fs w t \<and>
    (case r of
       Inr _ \<Rightarrow> lw_fs w p = None \<and> lw_fs w' p = lw_fs w t
     | Inl _ \<Rightarrow> lw_fs w' p = lw_fs w p \<and> (lw_fs w t = None \<or> lw_fs w p \<noteq> None \<or> faulty env w w'))"
  using assms
  by (auto simp: sys_link_def syscall_def Let_def polite_def later_def change_def faulty_def
      split: option.splits if_splits)

text \<open>Checking the parent changes nothing.\<close>

lemma check_parent_spec:
  assumes "polite env p t" and "check_parent env parent w = (r, w')"
  shows "later p t w w' \<and> same_at p t w w'"
  using assms
  by (auto simp: check_parent_def sys_stat_def syscall_def lop_bind_def lop_return_def refuse_def Let_def polite_def
      later_def same_at_def split: option.splits if_splits prod.splits sum.splits)

definition stale_socket :: "listener_env \<Rightarrow> fs_entry \<Rightarrow> bool" where
  "stale_socket env e \<longleftrightarrow> en_kind e = SocketEntry \<and> \<not> en_live e \<and> en_uid e = ev_uid env"

lemma clear_stale_spec:
  assumes "polite env p t" and "honest env" and "clear_stale env p w = (r, w')"
  shows "later p t w w' \<and> lw_fs w' t = lw_fs w t \<and>
    (lw_fs w' p = lw_fs w p \<or> (\<exists>e. lw_fs w p = Some e \<and> stale_socket env e \<and> lw_fs w' p = None)) \<and>
    (r = Inr () \<longrightarrow> lw_fs w' p = None \<or> faulty env w w')"
proof -
  obtain r1 w1 where l: "sys_lstat env p w = (r1, w1)" by (cases "sys_lstat env p w")
  note s1 = lstat_spec [OF assms(1) l, simplified]
  show ?thesis
  proof (cases r1)
    case (Inl x)
    then show ?thesis
      using assms(3) l s1 by (auto simp: clear_stale_def same_at_def)
  next
    case (Inr existing)
    then have here: "lw_fs w p = Some existing" "lw_fs w1 p = Some existing" "later p t w w1" "same_at p t w w1"
      using s1 by (auto simp: same_at_def)
    show ?thesis
    proof (cases "en_kind existing = SocketEntry")
      case False
      then show ?thesis
        using assms(3) l Inr here by (auto simp: clear_stale_def refuse_def lop_return_def same_at_def)
    next
      case True
      obtain r2 w2 where c: "sys_connect env p w1 = (r2, w2)" by (cases "sys_connect env p w1")
      note s2 = connect_spec [OF assms(1,2) c]
      have w2: "later p t w w2" "same_at p t w w2" "lw_fs w2 p = Some existing"
        using s2 here later_trans by (auto simp: same_at_def)
      show ?thesis
      proof (cases "\<exists>x. r2 = Inl x \<and> io_kind_of x = ConnectionRefused \<and> en_uid existing = ev_uid env")
        case False
        then show ?thesis
          using assms(3) l Inr True c w2
          by (auto simp: clear_stale_def refuse_def lop_return_def same_at_def split: sum.splits if_splits)
      next
        case refused: True
        then obtain x where x: "r2 = Inl x" "io_kind_of x = ConnectionRefused" "en_uid existing = ev_uid env" by blast
        have stale: "stale_socket env existing"
          using s2 x here(2) True by (auto simp: stale_socket_def)
        obtain r3 w3 where l3: "sys_lstat env p w2 = (r3, w3)" by (cases "sys_lstat env p w2")
        note s3 = lstat_spec [OF assms(1) l3, simplified]
        have w3: "later p t w w3" "same_at p t w w3"
          using s3 w2 later_trans by (auto simp: same_at_def)
        show ?thesis
        proof (cases "\<exists>current. r3 = Inr current \<and> en_kind current = SocketEntry \<and>
            en_device current = en_device existing \<and> en_inode current = en_inode existing")
          case False
          then show ?thesis
            using assms(3) l Inr True c x l3 w3
            by (auto simp: clear_stale_def refuse_def lop_return_def lop_bind_def same_at_def split: sum.splits if_splits)
        next
          case True2: True
          then obtain current where "r3 = Inr current" "en_kind current = SocketEntry"
              "en_device current = en_device existing" "en_inode current = en_inode existing" by blast
          then have "clear_stale env p w = sys_unlink env p w3"
            using l Inr True c x l3 by (simp add: clear_stale_def lop_bind_def)
          then have u: "sys_unlink env p w3 = (r, w')" using assms(3) by simp
          note s4 = unlink_spec [OF assms(1) u, simplified]
          have "later p t w w'" using s4 w3 later_trans by blast
          moreover have "p \<noteq> t" using assms(1) by (simp add: polite_def)
          ultimately show ?thesis
            using s4 w3 here(1) stale by (auto simp: same_at_def split: sum.splits)
        qed
      qed
    qed
  qed
qed

subsection \<open>Creating and cleaning up\<close>

text \<open>
  Removing what is owned: the entry is only removed when it is the guard's socket, and it is
  removed when no call fails.
\<close>

definition owned_by :: "socket_guard \<Rightarrow> fs_entry \<Rightarrow> bool" where
  "owned_by g e \<longleftrightarrow> (case sg_identity g of None \<Rightarrow> en_kind e = SocketEntry | Some i \<Rightarrow> identity_matches i e)"

lemma remove_if_owned_spec:
  assumes "polite env p t" and "remove_if_owned env g q w = (r, w')" and "q = p \<or> q = t"
  shows "later p t w w' \<and> (\<forall>x. x = p \<or> x = t \<longrightarrow> x \<noteq> q \<longrightarrow> lw_fs w' x = lw_fs w x) \<and>
    (lw_fs w' q = lw_fs w q \<or> lw_fs w' q = None \<and> (\<exists>e. lw_fs w q = Some e \<and> owned_by g e)) \<and>
    (\<not> faulty env w w' \<longrightarrow> (\<forall>e. lw_fs w q = Some e \<longrightarrow> owned_by g e \<longrightarrow> lw_fs w' q = None)) \<and>
    (\<not> faulty env w w' \<longrightarrow> r = Inr ())"
proof -
  obtain r1 w1 where l: "sys_lstat env q w = (r1, w1)" by (cases "sys_lstat env q w")
  note s1 = lstat_spec [OF assms(1) l assms(3)]
  show ?thesis
  proof (cases r1)
    case (Inl x)
    have "lw_fs w q = None \<Longrightarrow> \<not> faulty env w w1 \<Longrightarrow> io_kind_of x = NotFound"
      using l Inl assms(1,3)
      by (auto simp: sys_lstat_def syscall_def Let_def polite_def faulty_def not_found_def io_new_def split: option.splits)
    with Inl show ?thesis
      using assms(2,3) l s1 by (auto simp: remove_if_owned_def same_at_def split: if_splits)
  next
    case (Inr e)
    have o: "owned_by g e \<longleftrightarrow> (case sg_identity g of None \<Rightarrow> en_kind e = SocketEntry | Some i \<Rightarrow> identity_matches i e)"
      by (simp add: owned_by_def)
    show ?thesis
    proof (cases "owned_by g e")
      case False
      then show ?thesis
        using assms(2,3) l Inr s1 o by (auto simp: remove_if_owned_def same_at_def)
    next
      case True
      then have u: "sys_unlink env q w1 = (r, w')" using assms(2) l Inr o by (simp add: remove_if_owned_def)
      note s2 = unlink_spec [OF assms(1) u assms(3)]
      have f: "faulty env w w'" if "faulty env w1 w'" using faulty_mono [OF that] s1 by (auto simp: later_def)
      show ?thesis
        using s1 s2 Inr True f assms(3) later_trans
        by (cases r) (auto simp: same_at_def)
    qed
  qed
qed

definition guard_for :: "string \<Rightarrow> string \<Rightarrow> socket_guard \<Rightarrow> bool" where
  "guard_for p t g \<longleftrightarrow> sg_armed g \<and>
     (sg_path g = t \<and> (sg_published g = None \<or> sg_published g = Some p) \<or> sg_path g = p \<and> sg_published g = None)"

definition guards :: "socket_guard \<Rightarrow> string \<Rightarrow> bool" where
  "guards g x \<longleftrightarrow> sg_path g = x \<or> sg_published g = Some x"

lemma owned_by_disarmed [simp]:
  "owned_by (g\<lparr>sg_armed := a, sg_published := b\<rparr>) e = owned_by g e"
  by (simp add: owned_by_def)

lemma cleanup_spec:
  assumes "polite env p t" and "guard_for p t g" and "cleanup env g w = (r, g', w')"
  shows "later p t w w' \<and>
    (\<forall>x. x = p \<or> x = t \<longrightarrow> lw_fs w' x = lw_fs w x \<or> guards g x \<and> lw_fs w' x = None \<and> (\<exists>e. lw_fs w x = Some e \<and> owned_by g e)) \<and>
    (\<not> faulty env w w' \<longrightarrow> (\<forall>x e. x = p \<or> x = t \<longrightarrow> guards g x \<longrightarrow> lw_fs w x = Some e \<longrightarrow> owned_by g e \<longrightarrow> lw_fs w' x = None))"
proof -
  let ?g = "g\<lparr>sg_armed := False, sg_published := None\<rparr>"
  have pt: "p \<noteq> t" and armed: "sg_armed g" using assms(1,2) by (simp_all add: polite_def guard_for_def)
  obtain r1 w1 where one: "remove_if_owned env ?g (sg_path g) w = (r1, w1)" by (cases "remove_if_owned env ?g (sg_path g) w")
  have at: "sg_path g = p \<or> sg_path g = t" using assms(2) by (auto simp: guard_for_def)
  note s1 = remove_if_owned_spec [OF assms(1) one at]
  show ?thesis
  proof (cases "sg_published g = Some p \<and> r1 = Inr ()")
    case False
    have "w' = w1"
      using assms(2,3) armed one False
      by (cases "sg_published g"; cases r1)
        (auto simp: cleanup_def Let_def lop_bind_def lop_return_def guard_for_def)
    moreover have "sg_published g = Some p \<Longrightarrow> faulty env w w1" using s1 False by auto
    ultimately show ?thesis
      using s1 at pt assms(2) by (auto simp: guards_def guard_for_def)
  next
    case True
    then have path: "sg_path g = t" using assms(2) by (auto simp: guard_for_def)
    obtain r2 where two: "remove_if_owned env ?g p w1 = (r2, w')"
      using assms(3) armed one True pt path
      by (cases "remove_if_owned env ?g p w1") (auto simp: cleanup_def Let_def lop_bind_def)
    note s2 = remove_if_owned_spec [OF assms(1) two, simplified]
    have l1: "later p t w w1" and l2: "later p t w1 w'" using s1 s2 by blast+
    have l: "later p t w w'" by (rule later_trans [OF l1 l2])
    have f: "faulty env w w'" if "faulty env w w1 \<or> faulty env w1 w'"
      using that l1 l2 faulty_mono [of env w w1 w w'] faulty_mono [of env w1 w' w w'] by (auto simp: later_def)
    have at_t: "lw_fs w' t = lw_fs w1 t" using s2 pt by blast
    have at_p: "lw_fs w1 p = lw_fs w p" using s1 pt path by blast
    have gone_t: "lw_fs w1 t = lw_fs w t \<or> lw_fs w1 t = None \<and> (\<exists>e. lw_fs w t = Some e \<and> owned_by g e)"
      and free_t: "\<not> faulty env w w1 \<longrightarrow> (\<forall>e. lw_fs w t = Some e \<longrightarrow> owned_by g e \<longrightarrow> lw_fs w1 t = None)"
      using s1 unfolding path by simp_all
    have gone_p: "lw_fs w' p = lw_fs w p \<or> lw_fs w' p = None \<and> (\<exists>e. lw_fs w p = Some e \<and> owned_by g e)"
      and free_p: "\<not> faulty env w1 w' \<longrightarrow> (\<forall>e. lw_fs w p = Some e \<longrightarrow> owned_by g e \<longrightarrow> lw_fs w' p = None)"
      using s2 unfolding at_p by simp_all
    have guarded: "guards g p" "guards g t" using path True by (simp_all add: guards_def)
    show ?thesis
    proof (intro conjI allI impI)
      show "later p t w w'" by (rule l)
      show "lw_fs w' x = lw_fs w x \<or> guards g x \<and> lw_fs w' x = None \<and> (\<exists>e. lw_fs w x = Some e \<and> owned_by g e)"
        if "x = p \<or> x = t" for x
        using that gone_t gone_p guarded at_t by auto
      show "lw_fs w' x = None" if "\<not> faulty env w w'" "x = p \<or> x = t" "guards g x" "lw_fs w x = Some e" "owned_by g e" for x e
      proof -
        have "\<not> faulty env w w1" "\<not> faulty env w1 w'" using that(1) f by blast+
        then show ?thesis using that(2,4,5) free_t free_p at_t by auto
      qed
    qed
  qed
qed

lemma capture_spec:
  assumes "polite env p t" and "lw_fs w t = Some e" "en_kind e = SocketEntry"
    and "capture_identity env (guard_new t) w = (r, w')"
  shows "later p t w w' \<and> same_at p t w w' \<and>
    (r = Inr (identity_of e, (guard_new t)\<lparr>sg_identity := Some (identity_of e)\<rparr>) \<or> (\<exists>x. r = Inl x) \<and> faulty env w w')"
proof -
  obtain r1 w1 where l: "sys_lstat env t w = (r1, w1)" by (cases "sys_lstat env t w")
  note s = lstat_spec [OF assms(1) l, simplified]
  show ?thesis
    using assms(2-4) l s
    by (cases r1) (auto simp: capture_identity_def lop_bind_def lop_return_def guard_new_def)
qed

definition prepare :: "listener_env \<Rightarrow> string \<Rightarrow> u64 \<times> u64 \<Rightarrow> unit lop" where
  "prepare env q i = lop_bind (sys_chmod env q 0x180) (\<lambda>_.
     lop_bind (sys_lstat env q) (\<lambda>m.
       if \<not> identity_matches i m
       then refuse AlreadyExists ''Unix socket temporary path changed during creation''
       else lop_return (Inr ())))"

lemma prepare_spec:
  assumes "polite env p t" and "lw_fs w t = Some e" "en_kind e = SocketEntry"
    and "prepare env t (identity_of e) w = (r, w')"
  shows "later p t w w' \<and> lw_fs w' p = lw_fs w p \<and>
    (r = Inr () \<and> lw_fs w' t = Some (e\<lparr>en_mode := 0x180\<rparr>) \<or>
     (\<exists>x. r = Inl x) \<and> faulty env w w' \<and> (\<exists>mode. lw_fs w' t = Some (e\<lparr>en_mode := mode\<rparr>)))"
proof -
  obtain r1 w1 where c: "sys_chmod env t 0x180 w = (r1, w1)" by (cases "sys_chmod env t 0x180 w")
  note s1 = chmod_spec [OF assms(1) c]
  have keep: "e = e\<lparr>en_mode := en_mode e\<rparr>" by simp
  show ?thesis
  proof (cases r1)
    case (Inl x)
    have "r = Inl x" "w' = w1" using assms(4) c Inl by (simp_all add: prepare_def lop_bind_def)
    moreover have "\<exists>mode. lw_fs w1 t = Some (e\<lparr>en_mode := mode\<rparr>)"
      by (rule exI [of _ "en_mode e"]) (use s1 Inl assms(2) in simp)
    moreover have "later p t w w1" "lw_fs w1 p = lw_fs w p" "faulty env w w1" using s1 Inl assms(2) by auto
    ultimately show ?thesis by simp
  next
    case (Inr u)
    obtain r2 w2 where l: "sys_lstat env t w1 = (r2, w2)" by (cases "sys_lstat env t w1")
    note s2 = lstat_spec [OF assms(1) l, simplified]
    have mid: "lw_fs w1 t = Some (e\<lparr>en_mode := 0x180\<rparr>)" "later p t w w1" "lw_fs w1 p = lw_fs w p"
      using s1 Inr assms(2) by auto
    have "later p t w w2" using mid(2) s2 later_trans by blast
    moreover have "faulty env w w2" if "faulty env w1 w2"
      using faulty_mono [OF that] mid(2) by (simp add: later_def)
    ultimately show ?thesis
      using assms(3,4) c Inr l s2 mid
      by (cases r2)
        (auto simp: prepare_def lop_bind_def lop_return_def refuse_def identity_matches_def identity_of_def same_at_def)
  qed
qed

lemma publish_spec:
  assumes "polite env p t" and "lw_fs w t = Some e"
    and g: "sg_armed g" "sg_path g = t" "sg_published g = None"
    and "publish_no_replace env g p w = (r, g', w')"
  shows "later p t w w' \<and>
    ((\<exists>x. r = Inl x) \<and> g' = g \<and> same_at p t w w' \<and> (lw_fs w p \<noteq> None \<or> faulty env w w') \<or>
     (\<exists>x. r = Inl x) \<and> g' = g\<lparr>sg_published := Some p\<rparr> \<and> lw_fs w p = None \<and> lw_fs w' p = Some e \<and> lw_fs w' t = Some e \<and> faulty env w w' \<or>
     r = Inr () \<and> g' = g\<lparr>sg_path := p\<rparr> \<and> lw_fs w p = None \<and> lw_fs w' p = Some e \<and> lw_fs w' t = None)"
proof -
  have pt: "p \<noteq> t" using assms(1) by (simp add: polite_def)
  obtain r1 w1 where l: "sys_link env t p w = (r1, w1)" by (cases "sys_link env t p w")
  note s1 = link_spec [OF assms(1) l]
  show ?thesis
  proof (cases r1)
    case (Inl x)
    then show ?thesis
      using assms(2,6) g l s1 by (auto simp: publish_no_replace_def same_at_def)
  next
    case (Inr u)
    obtain r2 w2 where k: "sys_unlink env t w1 = (r2, w2)" by (cases "sys_unlink env t w1")
    note s2 = unlink_spec [OF assms(1) k, simplified]
    have mid: "lw_fs w p = None" "lw_fs w1 p = Some e" "lw_fs w1 t = Some e" "later p t w w1"
      using s1 Inr assms(2) by auto
    have later2: "later p t w w2" using mid(4) s2 later_trans by blast
    have f: "faulty env w w2" if "faulty env w1 w2"
      using faulty_mono [OF that] mid(4) by (simp add: later_def)
    show ?thesis
    proof (cases r2)
      case (Inl x)
      then have "r = Inl x" "g' = g\<lparr>sg_published := Some p\<rparr>" "w' = w2"
        using assms(6) g l Inr k by (simp_all add: publish_no_replace_def Let_def)
      then show ?thesis using s2 Inl mid later2 f by (auto simp: same_at_def)
    next
      case (Inr v)
      then have out: "r = Inr ()" "g' = g\<lparr>sg_path := p, sg_published := None\<rparr>" "w' = w2"
        using assms(6) g l \<open>r1 = Inr u\<close> k by (simp_all add: publish_no_replace_def Let_def)
      have "g\<lparr>sg_path := p, sg_published := None\<rparr> = g\<lparr>sg_path := p\<rparr>" using g(3) by (cases g) simp
      with out(2) have "g' = g\<lparr>sg_path := p\<rparr>" by (rule trans)
      with out(1,3) show ?thesis using s2 Inr mid later2 pt by auto
    qed
  qed
qed

text \<open>
  From a bound temporary socket: the path is only ever given the socket when it was free, the guard
  covers what was created, and without a failing call the only way out with an error is that the
  path was taken.
\<close>

definition created :: "listener_env \<Rightarrow> string \<Rightarrow> string \<Rightarrow> fs_entry \<Rightarrow> listener_world \<Rightarrow> io_error + unit \<Rightarrow> socket_guard \<Rightarrow> listener_world \<Rightarrow> bool" where
  "created env p t e w r g w' \<longleftrightarrow> later p t w w' \<and> guard_for p t g \<and>
    (lw_fs w p \<noteq> None \<longrightarrow> lw_fs w' p = lw_fs w p \<and> r \<noteq> Inr () \<and> \<not> guards g p) \<and>
    (lw_fs w p = None \<longrightarrow> lw_fs w' p = None \<or> guards g p \<and> (\<exists>m. lw_fs w' p = Some m \<and> owned_by g m)) \<and>
    (lw_fs w' t = None \<or> guards g t \<and> (\<exists>m. lw_fs w' t = Some m \<and> owned_by g m)) \<and>
    (r = Inr () \<longrightarrow> sg_path g = p \<and> sg_published g = None \<and> sg_identity g = Some (identity_of e) \<and>
       lw_fs w' p = Some (e\<lparr>en_mode := 0x180\<rparr>) \<and> lw_fs w' t = None) \<and>
    (\<not> faulty env w w' \<longrightarrow> lw_fs w p = None \<longrightarrow> r = Inr ())"

lemma create_socket_spec:
  assumes pol: "polite env p t" and e: "lw_fs w t = Some e" "en_kind e = SocketEntry"
    and run: "create_socket env p (guard_new t) w = (r, g, w')"
  shows "created env p t e w r g w'"
proof -
  have pt: "p \<noteq> t" using pol by (simp add: polite_def)
  let ?g1 = "(guard_new t)\<lparr>sg_identity := Some (identity_of e)\<rparr>"
  have owned: "owned_by ?g1 (e\<lparr>en_mode := mode\<rparr>)" for mode
    using e(2) by (simp add: owned_by_def identity_matches_def identity_of_def)
  obtain r1 w1 where one: "capture_identity env (guard_new t) w = (r1, w1)" by (cases "capture_identity env (guard_new t) w")
  note s1 = capture_spec [OF pol e one]
  show ?thesis
  proof (cases "\<exists>x. r1 = Inl x")
    case True
    then obtain x where "r1 = Inl x" by blast
    then have "r = Inl x" "g = guard_new t" "w' = w1" using run one by (simp_all add: create_socket_def)
    then show ?thesis
      using s1 e pt True
      by (auto simp: created_def guard_for_def guard_new_def guards_def owned_by_def same_at_def)
  next
    case False
    then have r1: "r1 = Inr (identity_of e, ?g1)" and l1: "later p t w w1" and same1: "same_at p t w w1"
      using s1 by blast+
    have e1: "lw_fs w1 t = Some e" using e same1 by (simp add: same_at_def)
    obtain r2 w2 where two: "prepare env t (identity_of e) w1 = (r2, w2)" by (cases "prepare env t (identity_of e) w1")
    note s2 = prepare_spec [OF pol e1 e(2) two]
    have l2: "later p t w w2" using l1 s2 later_trans by blast
    have p2: "lw_fs w2 p = lw_fs w p" using s2 same1 by (simp add: same_at_def)
    have f2: "faulty env w w2" if "faulty env w1 w2" using faulty_mono [OF that] l1 by (simp add: later_def)
    have run2: "create_socket env p (guard_new t) w = (case r2 of
        Inl x \<Rightarrow> (Inl x, ?g1, w2)
      | Inr _ \<Rightarrow> (case publish_no_replace env ?g1 p w2 of
            (Inl x, g2, w3) \<Rightarrow> (Inl x, g2, w3)
          | (Inr _, g2, w3) \<Rightarrow> (case sys_lstat env p w3 of
              (Inl x, w4) \<Rightarrow> (Inl x, g2, w4)
            | (Inr m, w4) \<Rightarrow> if \<not> identity_matches (identity_of e) m
                then (Inl (io_new AlreadyExists ''Unix socket path changed during creation''), g2, w4)
                else (Inr (), g2, w4))))"
      using one r1 two by (simp add: create_socket_def prepare_def [symmetric] guard_new_def split: sum.splits)
    show ?thesis
    proof (cases "\<exists>x. r2 = Inl x")
      case True
      then obtain x mode where x: "r2 = Inl x" "faulty env w1 w2" "lw_fs w2 t = Some (e\<lparr>en_mode := mode\<rparr>)" using s2 by auto
      then have "r = Inl x" "g = ?g1" "w' = w2" using run run2 by simp_all
      then show ?thesis
        using l2 p2 f2 x pt owned by (auto simp: created_def guard_for_def guard_new_def guards_def)
    next
      case False
      then have r2: "r2 = Inr ()" and e2: "lw_fs w2 t = Some (e\<lparr>en_mode := 0x180\<rparr>)" using s2 by blast+
      obtain r3 g3 w3 where three: "publish_no_replace env ?g1 p w2 = (r3, g3, w3)"
        by (cases "publish_no_replace env ?g1 p w2")
      note s3 = publish_spec [OF pol e2 _ _ _ three, unfolded guard_new_def, simplified]
      have l3: "later p t w w3" using l2 s3 later_trans by blast
      have f3: "faulty env w w3" if "faulty env w2 w3" using faulty_mono [OF that] l2 by (simp add: later_def)
      show ?thesis
      proof (cases "\<exists>x. r3 = Inl x")
        case True
        then obtain x where x: "r3 = Inl x" by blast
        then have out: "r = Inl x" "g = g3" "w' = w3" using run run2 r2 three by simp_all
        from s3 x have "g3 = ?g1 \<and> same_at p t w2 w3 \<and> (lw_fs w2 p \<noteq> None \<or> faulty env w2 w3) \<or>
            g3 = ?g1\<lparr>sg_published := Some p\<rparr> \<and> lw_fs w2 p = None \<and> lw_fs w3 p = Some (e\<lparr>en_mode := 0x180\<rparr>) \<and>
            lw_fs w3 t = Some (e\<lparr>en_mode := 0x180\<rparr>) \<and> faulty env w2 w3"
          by (auto simp: guard_new_def)
        then show ?thesis
        proof
          assume "g3 = ?g1 \<and> same_at p t w2 w3 \<and> (lw_fs w2 p \<noteq> None \<or> faulty env w2 w3)"
          then show ?thesis
            using out l3 p2 f3 e2 owned pt
            by (auto simp: created_def guard_for_def guard_new_def guards_def same_at_def)
        next
          assume "g3 = ?g1\<lparr>sg_published := Some p\<rparr> \<and> lw_fs w2 p = None \<and> lw_fs w3 p = Some (e\<lparr>en_mode := 0x180\<rparr>) \<and>
            lw_fs w3 t = Some (e\<lparr>en_mode := 0x180\<rparr>) \<and> faulty env w2 w3"
          then show ?thesis
            using out l3 p2 f3 owned pt
            by (auto simp: created_def guard_for_def guard_new_def guards_def owned_by_def)
        qed
      next
        case False
        then have r3: "r3 = Inr ()" and g3: "g3 = ?g1\<lparr>sg_path := p\<rparr>" and w3: "lw_fs w2 p = None"
            "lw_fs w3 p = Some (e\<lparr>en_mode := 0x180\<rparr>)" "lw_fs w3 t = None"
          using s3 by (auto simp: guard_new_def)
        obtain r4 w4 where four: "sys_lstat env p w3 = (r4, w4)" by (cases "sys_lstat env p w3")
        note s4 = lstat_spec [OF pol four, simplified]
        have l4: "later p t w w4" using l3 s4 later_trans by blast
        have f4: "faulty env w w4" if "faulty env w3 w4" using faulty_mono [OF that] l3 by (simp add: later_def)
        have at4: "lw_fs w4 p = Some (e\<lparr>en_mode := 0x180\<rparr>)" "lw_fs w4 t = None" using s4 w3 by (simp_all add: same_at_def)
        have own: "owned_by g3 (e\<lparr>en_mode := 0x180\<rparr>)" using owned g3 by (simp add: owned_by_def)
        have "(\<exists>x. r4 = Inl x) \<and> faulty env w3 w4 \<or> r4 = Inr (e\<lparr>en_mode := 0x180\<rparr>)"
          using s4 w3 by (cases r4) auto
        then show ?thesis
        proof
          assume a: "(\<exists>x. r4 = Inl x) \<and> faulty env w3 w4"
          then obtain x where "r = Inl x" "g = g3" "w' = w4" using run run2 r2 three r3 four by auto
          then show ?thesis
            using a l4 f4 at4 own g3 p2 w3 pt by (auto simp: created_def guard_for_def guard_new_def guards_def)
        next
          assume "r4 = Inr (e\<lparr>en_mode := 0x180\<rparr>)"
          then have "r = Inr ()" "g = g3" "w' = w4"
            using run run2 r2 three r3 four e(2) by (simp_all add: identity_matches_def identity_of_def)
          then show ?thesis
            using l4 at4 own g3 p2 w3 pt by (auto simp: created_def guard_for_def guard_new_def guards_def)
        qed
      qed
    qed
  qed
qed

subsection \<open>The whole of binding\<close>

text \<open>At most one call of the run fails.\<close>

definition one_fault :: "listener_env \<Rightarrow> bool" where
  "one_fault env \<longleftrightarrow> (\<exists>k. \<forall>n. n \<noteq> k \<longrightarrow> ev_fault env n = None)"

lemma one_fault_once:
  "one_fault env \<Longrightarrow> faulty env w w1 \<Longrightarrow> lw_tick w1 \<le> lw_tick w2 \<Longrightarrow> \<not> faulty env w2 w3"
  unfolding one_fault_def faulty_def by (metis le_trans not_less)

definition bind_outcome :: "listener_env \<Rightarrow> string \<Rightarrow> string \<Rightarrow> listener_world \<Rightarrow> io_error + socket_guard \<Rightarrow> listener_world \<Rightarrow> bool" where
  "bind_outcome env p t w r w' \<longleftrightarrow>
     set (lw_touched w') \<subseteq> set (lw_touched w) \<union> {p, t} \<and>
     (\<forall>e. lw_fs w p = Some e \<longrightarrow> \<not> stale_socket env e \<longrightarrow> lw_fs w' p = Some e \<and> (\<exists>x. r = Inl x)) \<and>
     (\<forall>g. r = Inr g \<longrightarrow> sg_armed g \<and> sg_path g = p \<and> sg_published g = None \<and> lw_fs w' t = None \<and>
        (\<exists>e. lw_fs w' p = Some e \<and> sg_identity g = Some (identity_of e) \<and> en_kind e = SocketEntry \<and>
           en_uid e = ev_uid env \<and> en_mode e = 0x180 \<and> en_live e)) \<and>
     (\<forall>x. r = Inl x \<longrightarrow> one_fault env \<longrightarrow> lw_fs w t = None \<longrightarrow>
        lw_fs w' t = None \<and>
        (lw_fs w' p = lw_fs w p \<or> lw_fs w' p = None \<and> (\<exists>e. lw_fs w p = Some e \<and> stale_socket env e)))"

text \<open>Leaving before the temporary socket exists.\<close>

lemma early_outcome:
  assumes "later p t w w'" and "lw_fs w' t = lw_fs w t"
    and "lw_fs w' p = lw_fs w p \<or> (\<exists>e. lw_fs w p = Some e \<and> stale_socket env e \<and> lw_fs w' p = None)"
  shows "bind_outcome env p t w (Inl x) w'"
  using assms by (auto simp: bind_outcome_def later_def)

text \<open>Leaving after it, with the guard's cleanup.\<close>

lemma created_outcome:
  assumes pol: "polite env p t"
    and cleared: "later p t w w1" "lw_fs w1 t = lw_fs w t"
      "lw_fs w1 p = lw_fs w p \<or> (\<exists>e. lw_fs w p = Some e \<and> stale_socket env e \<and> lw_fs w1 p = None)"
      "lw_fs w1 p = None \<or> faulty env w w1"
    and bound: "later p t w1 w2" "lw_fs w2 p = lw_fs w1 p"
    and c: "created env p t e w2 (Inl x) g w3"
    and clean: "cleanup env g w3 = (r, g', w')"
  shows "bind_outcome env p t w (Inl x) w'"
proof -
  have c': "later p t w2 w3" "guard_for p t g" using c by (simp_all add: created_def)
  have taken: "lw_fs w2 p \<noteq> None \<Longrightarrow> lw_fs w3 p = lw_fs w2 p \<and> \<not> guards g p"
    and free: "lw_fs w2 p = None \<Longrightarrow> lw_fs w3 p = None \<or> guards g p \<and> (\<exists>m. lw_fs w3 p = Some m \<and> owned_by g m)"
    and temporary: "lw_fs w3 t = None \<or> guards g t \<and> (\<exists>m. lw_fs w3 t = Some m \<and> owned_by g m)"
    and fault: "lw_fs w2 p = None \<Longrightarrow> faulty env w2 w3"
    using c by (simp_all add: created_def)
  note k = cleanup_spec [OF pol c'(2) clean]
  have left: "later p t w3 w'" by (rule conjunct1 [OF k])
  have only: "lw_fs w' x = lw_fs w3 x \<or> guards g x \<and> lw_fs w' x = None" if "x = p \<or> x = t" for x
    using conjunct1 [OF conjunct2 [OF k], rule_format, OF that] by (elim disjE conjE) simp_all
  have removed: "lw_fs w' x = None"
    if "\<not> faulty env w3 w'" "x = p \<or> x = t" "guards g x" "lw_fs w3 x = Some y" "owned_by g y" for x y
    by (rule conjunct2 [OF conjunct2 [OF k], rule_format, OF that])
  have l: "later p t w w'"
    by (rule later_trans [OF later_trans [OF later_trans [OF cleared(1) bound(1)] c'(1)] left])
  have kept: "lw_fs w' p = lw_fs w1 p" if "lw_fs w1 p \<noteq> None"
  proof -
    have "lw_fs w2 p \<noteq> None" using that bound(2) by simp
    then have "lw_fs w3 p = lw_fs w2 p" "\<not> guards g p" using taken by blast+
    moreover have "lw_fs w' p = lw_fs w3 p \<or> guards g p \<and> lw_fs w' p = None" by (rule only) simp
    ultimately show ?thesis using bound(2) by simp
  qed
  have out: "lw_fs w' t = None \<and> (lw_fs w1 p = None \<longrightarrow> lw_fs w' p = None)" if one: "one_fault env"
  proof -
    have "faulty env w w3"
    proof (cases "lw_fs w1 p = None")
      case True
      then have "faulty env w2 w3" using fault bound(2) by simp
      then show ?thesis by (rule faulty_mono) (use cleared(1) bound(1) in \<open>simp_all add: later_def\<close>)
    next
      case False
      then have "faulty env w w1" using cleared(4) by metis
      then show ?thesis by (rule faulty_mono) (use bound(1) c'(1) in \<open>simp_all add: later_def\<close>)
    qed
    then have quiet: "\<not> faulty env w3 w'" by (rule one_fault_once [OF one]) simp
    have "lw_fs w' t = None" using temporary removed [OF quiet, of t] only [of t] by metis
    moreover have "lw_fs w' p = None" if "lw_fs w1 p = None"
      using free that bound(2) removed [OF quiet, of p] only [of p] by metis
    ultimately show ?thesis by blast
  qed
  have touched: "set (lw_touched w') \<subseteq> set (lw_touched w) \<union> {p, t}" using l by (simp add: later_def)
  show ?thesis
  proof (cases "lw_fs w1 p")
    case None
    then show ?thesis using touched out cleared(3) by (auto simp: bind_outcome_def)
  next
    case (Some y)
    then have "lw_fs w p = Some y" "lw_fs w' p = Some y" using kept cleared(3) by auto
    then show ?thesis using touched out by (auto simp: bind_outcome_def)
  qed
qed

lemma bound_outcome:
  assumes cleared: "later p t w w1"
      "lw_fs w1 p = lw_fs w p \<or> (\<exists>e. lw_fs w p = Some e \<and> stale_socket env e \<and> lw_fs w1 p = None)"
    and bound: "later p t w1 w2" "lw_fs w2 p = lw_fs w1 p"
    and e: "en_kind e = SocketEntry" "en_uid e = ev_uid env" "en_live e"
    and c: "created env p t e w2 (Inr ()) g w'"
  shows "bind_outcome env p t w (Inr g) w'"
proof -
  have "lw_fs w1 p = None" "later p t w2 w'" "sg_armed g" "sg_path g = p" "sg_published g = None" "lw_fs w' t = None"
      "sg_identity g = Some (identity_of e)" "lw_fs w' p = Some (e\<lparr>en_mode := 0x180\<rparr>)"
    using c bound(2) by (auto simp: created_def guard_for_def)
  moreover from this have "later p t w w'" using cleared(1) bound(1) later_trans by blast
  ultimately show ?thesis
    using e cleared(2) by (auto simp: bind_outcome_def later_def identity_of_def)
qed

lemma bind_listener_outcome:
  assumes pol: "polite env p t" "honest env"
    and path: "is_absolute p" "path_parent p = Some parent" "t = temporary_path env parent n"
    and run: "bind_listener env p n w = (r, w')"
  shows "bind_outcome env p t w r w'"
proof -
  obtain r0 w0 where parent: "check_parent env parent w = (r0, w0)" by (cases "check_parent env parent w")
  obtain r1 w1 where clear: "clear_stale env p w0 = (r1, w1)" by (cases "clear_stale env p w0")
  obtain r2 w2 where bound: "sys_bind env t w1 = (r2, w2)" by (cases "sys_bind env t w1")
  note s0 = check_parent_spec [OF pol(1) parent] and s1 = clear_stale_spec [OF pol clear] and s2 = bind_spec [OF pol(1) bound]
  have l1: "later p t w w1" using s0 s1 later_trans by blast
  have at1: "lw_fs w1 t = lw_fs w t"
      "lw_fs w1 p = lw_fs w p \<or> (\<exists>e. lw_fs w p = Some e \<and> stale_socket env e \<and> lw_fs w1 p = None)"
    using s0 s1 by (auto simp: same_at_def)
  have free1: "lw_fs w1 p = None \<or> faulty env w w1" if "r1 = Inr ()"
    using s0 s1 that faulty_mono [of env w0 w1 w w1] by (auto simp: later_def)
  have model: "(case r0 of Inl x \<Rightarrow> (Inl x, w0) | Inr _ \<Rightarrow> (case r1 of Inl x \<Rightarrow> (Inl x, w1) | Inr _ \<Rightarrow>
      (case r2 of Inl x \<Rightarrow> (Inl x, w2) | Inr _ \<Rightarrow>
        (case create_socket env p (guard_new t) w2 of
           (Inr _, g, w') \<Rightarrow> (Inr g, w')
         | (Inl x, g, w') \<Rightarrow> (case cleanup env g w' of (_, _, w'') \<Rightarrow> (Inl x, w'')))))) = (r, w')"
    using run path parent clear bound
    by (cases r0; cases r1; cases r2) (simp_all add: bind_listener_def lop_bind_def)
  show ?thesis
  proof (cases "r0 = Inr () \<and> r1 = Inr ()")
    case False
    have "bind_outcome env p t w (Inl x) w0" for x
      using s0 by (intro early_outcome) (auto simp: same_at_def)
    moreover have "bind_outcome env p t w (Inl x) w1" for x
      using l1 at1 by (intro early_outcome)
    ultimately show ?thesis using model False by (cases r0; cases r1) auto
  next
    case True
    then have r: "r0 = Inr ()" "r1 = Inr ()" by blast+
    show ?thesis
    proof (cases r2)
      case (Inl x)
      then have s: "later p t w1 w2" "lw_fs w2 t = lw_fs w t" "lw_fs w2 p = lw_fs w1 p" using s2 at1(1) by auto
      moreover have "r = Inl x" "w' = w2" using model r Inl by simp_all
      ultimately show ?thesis using at1(2) early_outcome [OF later_trans [OF l1 s(1)] s(2)] by simp
    next
      case (Inr e)
      then have e: "lw_fs w2 t = Some e" "en_kind e = SocketEntry" "en_uid e = ev_uid env" "en_live e"
          "later p t w1 w2" "lw_fs w2 p = lw_fs w1 p" using s2 by auto
      obtain r3 g w3 where three: "create_socket env p (guard_new t) w2 = (r3, g, w3)"
        by (cases "create_socket env p (guard_new t) w2")
      note s3 = create_socket_spec [OF pol(1) e(1,2) three]
      show ?thesis
      proof (cases r3)
        case out: (Inl x)
        obtain r4 g4 w4 where four: "cleanup env g w3 = (r4, g4, w4)" by (cases "cleanup env g w3")
        have "r = Inl x" "w' = w4" using model r Inr three out four by simp_all
        then show ?thesis
          using created_outcome [OF pol(1) l1 at1 free1 [OF r(2)] e(5,6) _ four] s3 out by simp
      next
        case out: (Inr u)
        then have "r = Inr g" "w' = w3" using model r Inr three out by simp_all
        then show ?thesis using bound_outcome [OF l1 at1(2) e(5,6) e(2-4)] s3 out by simp
      qed
    qed
  qed
qed

text \<open>A run over a dead socket, and one whose \<^verbatim>\<open>chmod\<close> fails.\<close>

definition stale_entry :: fs_entry where
  "stale_entry = \<lparr>en_kind = SocketEntry, en_device = 1, en_inode = 5, en_uid = 1000, en_mode = 0x180, en_live = False\<rparr>"

definition sample_fs :: file_system where
  "sample_fs = [''/run/vcd'' \<mapsto> \<lparr>en_kind = DirectoryEntry, en_device = 1, en_inode = 2, en_uid = 1000, en_mode = 0x1C0, en_live = False\<rparr>,
     ''/run/vcd/s'' \<mapsto> stale_entry]"

definition sample_listener_env :: "nat option \<Rightarrow> listener_env" where
  "sample_listener_env k = \<lparr>ev_world = (\<lambda>_ fs. fs),
     ev_fault = (\<lambda>n. if Some n = k then Some (io_new PermissionDenied ''denied'') else None),
     ev_follow = (\<lambda>fs. fs), ev_uid = 1000, ev_pid = 7, ev_new_entry = (\<lambda>n. (1, word_of_nat n, 0x1ED))\<rparr>"

definition sample_world :: listener_world where
  "sample_world = \<lparr>lw_tick = 0, lw_fs = sample_fs, lw_touched = [], lw_log = []\<rparr>"

lemma sample_temporary: "temporary_path (sample_listener_env k) ''/run/vcd'' 1 = ''/run/vcd/.vcd-tools-7-1.sock''"
  by (simp add: temporary_path_def sample_listener_env_def) code_simp

lemma sample_parent: "path_parent ''/run/vcd/s'' = Some ''/run/vcd''" "is_absolute ''/run/vcd/s''"
  by code_simp+

lemma sample_polite: "polite (sample_listener_env k) ''/run/vcd/s'' ''/run/vcd/.vcd-tools-7-1.sock''"
    "honest (sample_listener_env k)"
  by (auto simp: polite_def honest_def sample_listener_env_def io_new_def split: if_splits)

lemma sample_bound:
  "map_sum (\<lambda>_. ()) (\<lambda>g. (sg_path g, sg_identity g)) (fst (bind_listener (sample_listener_env None) ''/run/vcd/s'' 1 sample_world)) =
     Inr (''/run/vcd/s'', Some (1, 6))"
  by code_simp

lemma sample_failed:
  "map_sum io_kind_of (\<lambda>g. ()) (fst (bind_listener (sample_listener_env (Some 8)) ''/run/vcd/s'' 1 sample_world)) =
     Inl PermissionDenied"
  by code_simp

end
