(* ===== verification/Listener_Race.thy ===== *)
theory Listener_Race
  imports Listener
begin

text \<open>
  Binding the socket while other processes use the same paths: what the checks of
  src/server/listener.rs guarantee in every environment.
\<close>

subsection \<open>Binding among other processes\<close>

text \<open>
  What holds of the log of a run whatever the other processes do, and whatever calls fail. The log
  has the latest call first, so that \<open>past\<close> is what had been seen and done before a call.

  \<open>captured\<close>: the identity that the guard recorded, from the first look at the bound temporary
  socket.
\<close>

fun captured :: "string \<Rightarrow> fs_call list \<Rightarrow> (u64 \<times> u64) option" where
  "captured t [] = None"
| "captured t (c # past) =
     (case (c, past) of
        (Saw q m, Bound q' _ # _) \<Rightarrow>
          if q = t \<and> q' = t \<and> en_kind m = SocketEntry then Some (identity_of m) else captured t past
      | _ \<Rightarrow> captured t past)"

text \<open>
  Just before: a socket of the user was found at the path, refused a connection, and was found there
  again with the same identity.
\<close>

fun dead_socket_seen :: "listener_env \<Rightarrow> string \<Rightarrow> fs_call list \<Rightarrow> bool" where
  "dead_socket_seen env p (Saw a m # Refused b # Saw c e # past) \<longleftrightarrow> a = p \<and> b = p \<and> c = p \<and>
     en_kind e = SocketEntry \<and> en_uid e = ev_uid env \<and> en_kind m = SocketEntry \<and> identity_of m = identity_of e"
| "dead_socket_seen env p _ \<longleftrightarrow> False"

text \<open>
  Just before: the socket with the recorded identity was found there, or, when none is recorded yet,
  a socket at the private temporary path.
\<close>

fun own_socket_seen :: "string \<Rightarrow> string \<Rightarrow> fs_call list \<Rightarrow> bool" where
  "own_socket_seen t x (Saw q m # past) \<longleftrightarrow> q = x \<and> en_kind m = SocketEntry \<and>
     (case captured t past of Some i \<Rightarrow> identity_of m = i | None \<Rightarrow> x = t)"
| "own_socket_seen t x _ \<longleftrightarrow> False"

text \<open>
  What a call that changes something requires. Only the temporary path is bound and given its mode;
  it is linked to the socket path after it was found there with the recorded identity once more, and
  removed after that; every other removal is that of a dead or of the own socket.
\<close>

fun call_guarded :: "listener_env \<Rightarrow> string \<Rightarrow> string \<Rightarrow> fs_call \<Rightarrow> fs_call list \<Rightarrow> bool" where
  "call_guarded env p t (Removed x _) past \<longleftrightarrow>
     x = p \<and> dead_socket_seen env p past \<or>
     x = t \<and> (\<exists>rest. past = Linked t p # rest) \<or>
     (x = p \<or> x = t) \<and> own_socket_seen t x past"
| "call_guarded env p t (Linked x y) past \<longleftrightarrow> x = t \<and> y = p \<and>
     (\<exists>m rest. past = Saw t m # Chmodded t # rest) \<and> own_socket_seen t t past \<and> captured t past \<noteq> None"
| "call_guarded env p t (Bound x _) past \<longleftrightarrow> x = t"
| "call_guarded env p t (Chmodded x) past \<longleftrightarrow> x = t \<and> captured t past \<noteq> None"
| "call_guarded env p t _ past \<longleftrightarrow> True"

fun guarded :: "listener_env \<Rightarrow> string \<Rightarrow> string \<Rightarrow> fs_call list \<Rightarrow> bool" where
  "guarded env p t [] \<longleftrightarrow> True"
| "guarded env p t (c # past) \<longleftrightarrow> call_guarded env p t c past \<and> guarded env p t past"

text \<open>The last thing a successful bind did was to find the socket of the guard at the path.\<close>

fun seen_last :: "string \<Rightarrow> string \<Rightarrow> socket_guard \<Rightarrow> fs_call list \<Rightarrow> bool" where
  "seen_last p t g (Saw q m # past) \<longleftrightarrow> q = p \<and> en_kind m = SocketEntry \<and>
     sg_identity g = Some (identity_of m) \<and> captured t past = Some (identity_of m) \<and>
     Linked t p \<in> set past"
| "seen_last p t g _ \<longleftrightarrow> False"

fun touches :: "fs_call \<Rightarrow> string list" where
  "touches (Removed x _) = [x]"
| "touches (Bound x _) = [x]"
| "touches (Chmodded x) = [x]"
| "touches (Linked _ y) = [y]"
| "touches _ = []"

definition did :: "listener_world \<Rightarrow> fs_call list \<Rightarrow> listener_world \<Rightarrow> bool" where
  "did w cs w' \<longleftrightarrow> lw_log w' = cs @ lw_log w \<and> lw_touched w' = concat (map touches cs) @ lw_touched w"

lemma did_refl [simp]: "did w [] w"
  by (simp add: did_def)

lemma did_trans: "did w a w1 \<Longrightarrow> did w1 b w2 \<Longrightarrow> did w (b @ a) w2"
  by (simp add: did_def)

lemmas sys_defs = sys_lstat_def sys_stat_def sys_connect_def sys_unlink_def sys_bind_def sys_chmod_def sys_link_def

lemma calls_done:
  "sys_lstat env x w = (r, w') \<Longrightarrow> did w (case r of Inr e \<Rightarrow> [Saw x e] | Inl _ \<Rightarrow> []) w'"
  "sys_stat env x w = (r, w') \<Longrightarrow> did w [] w'"
  "sys_connect env x w = (c, w') \<Longrightarrow> did w (case c of Inl e \<Rightarrow> if io_kind_of e = ConnectionRefused then [Refused x] else [] | Inr _ \<Rightarrow> []) w'"
  "sys_unlink env x w = (c, w') \<Longrightarrow> case c of Inr _ \<Rightarrow> \<exists>e. did w [Removed x e] w' | Inl _ \<Rightarrow> did w [] w'"
  "sys_bind env x w = (r, w') \<Longrightarrow> did w (case r of Inr e \<Rightarrow> [Bound x e] | Inl _ \<Rightarrow> []) w'"
  "sys_chmod env x mode w = (c, w') \<Longrightarrow> did w (case c of Inr _ \<Rightarrow> [Chmodded x] | Inl _ \<Rightarrow> []) w'"
  "sys_link env x y w = (c, w') \<Longrightarrow> did w (case c of Inr _ \<Rightarrow> [Linked x y] | Inl _ \<Rightarrow> []) w'"
  by (auto simp: sys_defs syscall_def Let_def did_def change_def
      split: option.splits if_splits sum.splits prod.splits)

lemma guarded_touches: "guarded env p t cs \<Longrightarrow> c \<in> set cs \<Longrightarrow> set (touches c) \<subseteq> {p, t}"
proof (induction cs)
  case (Cons a cs)
  then show ?case by (cases a) auto
qed simp

fun settled :: "fs_call list \<Rightarrow> bool" where
  "settled (Bound _ _ # _) \<longleftrightarrow> False"
| "settled _ \<longleftrightarrow> True"

lemma captured_settled [simp]: "settled past \<Longrightarrow> captured t (c # past) = captured t past"
  by (cases past rule: settled.cases) (auto split: fs_call.splits)

lemma captured_other [simp]:
  "captured t (Refused x # past) = captured t past" "captured t (Removed x e # past) = captured t past"
  "captured t (Bound x e # past) = captured t past" "captured t (Chmodded x # past) = captured t past"
  "captured t (Linked x y # past) = captured t past"
  by simp_all

lemma captured_first:
  "captured t (Saw t m # Bound t e # past) =
     (if en_kind m = SocketEntry then Some (identity_of m) else captured t past)"
  by simp

declare captured.simps(2) [simp del]

text \<open>What the guard knows agrees with the log.\<close>

definition guard_agrees :: "string \<Rightarrow> string \<Rightarrow> socket_guard \<Rightarrow> fs_call list \<Rightarrow> bool" where
  "guard_agrees p t g cs \<longleftrightarrow> captured t cs = sg_identity g \<and>
     (sg_identity g = None \<longrightarrow> sg_path g = t \<and> sg_published g = None) \<and>
     (sg_identity g \<noteq> None \<longrightarrow> settled cs) \<and>
     (sg_path g = t \<or> sg_path g = p) \<and> (sg_published g = None \<or> sg_published g = Some p)"


lemma clear_stale_log:
  assumes run: "clear_stale env p w = (r, w')"
  shows "\<exists>cs. did w cs w' \<and> guarded env p t cs \<and> captured t cs = None"
proof -
  obtain r1 w1 where l: "sys_lstat env p w = (r1, w1)" by (cases "sys_lstat env p w")
  note d1 = calls_done(1) [OF l]
  show ?thesis
  proof (cases r1)
    case (Inl x)
    then have "w' = w1" using run l by (simp add: clear_stale_def)
    with d1 Inl show ?thesis by (intro exI [of _ "[]"]) simp
  next
    case (Inr e)
    obtain c w2 where k: "sys_connect env p w1 = (c, w2)" by (cases "sys_connect env p w1")
    note d2 = calls_done(3) [OF k]
    show ?thesis
    proof (cases "en_kind e = SocketEntry \<and> (\<exists>x. c = Inl x \<and> io_kind_of x = ConnectionRefused \<and> en_uid e = ev_uid env)")
      case False
      then have "w' = w1 \<or> w' = w2"
        using run l Inr k by (auto simp: clear_stale_def refuse_def lop_return_def split: sum.splits if_splits)
      moreover have "did w [Saw p e] w1" using d1 Inr by simp
      moreover have "\<exists>cs. did w cs w2 \<and> (cs = [Saw p e] \<or> cs = [Refused p, Saw p e])"
        using did_trans [OF d1 d2] Inr by (auto split: sum.splits if_splits)
      ultimately show ?thesis by (elim disjE exE conjE) (auto intro!: exI)
    next
      case True
      then obtain x where x: "c = Inl x" "io_kind_of x = ConnectionRefused" by blast
      have d12: "did w [Refused p, Saw p e] w2" using did_trans [OF d1 d2] Inr x by simp
      obtain r3 w3 where l3: "sys_lstat env p w2 = (r3, w3)" by (cases "sys_lstat env p w2")
      note d3 = did_trans [OF d12 calls_done(1) [OF l3]]
      show ?thesis
      proof (cases "\<exists>m. r3 = Inr m \<and> en_kind m = SocketEntry \<and> identity_of m = identity_of e")
        case False
        then have "w' = w3"
          using run l Inr k True x l3
          by (auto simp: clear_stale_def lop_bind_def refuse_def lop_return_def identity_of_def split: sum.splits if_splits)
        with d3 show ?thesis by (cases r3) (auto intro!: exI)
      next
        case same: True
        then obtain m where m: "r3 = Inr m" "en_kind m = SocketEntry" "identity_of m = identity_of e" by blast
        then have "sys_unlink env p w3 = (r, w')"
          using run l Inr k True x l3 by (simp add: clear_stale_def lop_bind_def identity_of_def)
        from calls_done(4) [OF this] obtain d where "did w (d @ [Saw p m, Refused p, Saw p e]) w'" "d = [] \<or> (\<exists>e'. d = [Removed p e'])"
          using did_trans [OF d3] m(1) by (cases r) (auto dest: did_trans [OF d3])
        with m True show ?thesis by (elim disjE exE) (auto intro!: exI)
      qed
    qed
  qed
qed

lemma check_parent_log: "check_parent env parent w = (r, w') \<Longrightarrow> did w [] w'"
  by (auto simp: check_parent_def lop_bind_def lop_return_def refuse_def dest: calls_done(2)
      split: prod.splits sum.splits if_splits)

text \<open>Removing what is owned keeps the discipline, and what was captured.\<close>

lemma remove_log:
  assumes run: "remove_if_owned env g x w = (r, w')" and L: "guarded env p t L"
    and id: "sg_identity g = captured t L" "captured t L = None \<Longrightarrow> x = t" "captured t L \<noteq> None \<Longrightarrow> settled L"
    and x: "x = p \<or> x = t"
  shows "\<exists>cs. did w cs w' \<and> guarded env p t (cs @ L) \<and>
    (captured t L \<noteq> None \<longrightarrow> captured t (cs @ L) = captured t L \<and> settled (cs @ L))"
proof -
  obtain r1 w1 where l: "sys_lstat env x w = (r1, w1)" by (cases "sys_lstat env x w")
  note d1 = calls_done(1) [OF l]
  show ?thesis
  proof (cases r1)
    case (Inl e)
    then have "w' = w1" using run l by (auto simp: remove_if_owned_def split: if_splits)
    with d1 Inl L id show ?thesis by (intro exI [of _ "[]"]) simp
  next
    case (Inr m)
    show ?thesis
    proof (cases "case sg_identity g of None \<Rightarrow> en_kind m = SocketEntry | Some i \<Rightarrow> identity_matches i m")
      case False
      then have "w' = w1" using run l Inr by (simp add: remove_if_owned_def)
      with d1 Inr L id show ?thesis by (intro exI [of _ "[Saw x m]"]) auto
    next
      case True
      then have "sys_unlink env x w1 = (r, w')" using run l Inr by (simp add: remove_if_owned_def)
      from calls_done(4) [OF this] obtain cs where "did w cs w'" "cs = [Saw x m] \<or> (\<exists>e. cs = [Removed x e, Saw x m])"
        using d1 Inr did_trans [of w "[Saw x m]" w1] by (cases r) fastforce+
      moreover have "own_socket_seen t x (Saw x m # L)"
        using True id by (auto simp: identity_matches_def identity_of_def split: option.splits)
      ultimately show ?thesis
        using L id x by (intro exI [of _ cs]) (auto simp del: own_socket_seen.simps)
    qed
  qed
qed

lemma cleanup_log:
  assumes run: "cleanup env g w = (r, g', w')" and L: "guarded env p t L" and g: "guard_agrees p t g L"
  shows "\<exists>cs. did w cs w' \<and> guarded env p t (cs @ L)"
proof (cases "sg_armed g")
  case False
  then have "w' = w" using run by (simp add: cleanup_def)
  then show ?thesis using L by (intro exI [of _ "[]"]) simp
next
  case True
  let ?g = "g\<lparr>sg_armed := False, sg_published := None\<rparr>"
  have agrees: "sg_identity ?g = captured t L" "captured t L = None \<Longrightarrow> sg_path g = t \<and> sg_published g = None"
      "captured t L \<noteq> None \<Longrightarrow> settled L" "sg_path g = p \<or> sg_path g = t" "sg_published g = None \<or> sg_published g = Some p"
    using g by (auto simp: guard_agrees_def)
  obtain r1 w1 where one: "remove_if_owned env ?g (sg_path g) w = (r1, w1)" by (cases "remove_if_owned env ?g (sg_path g) w")
  obtain cs where cs: "did w cs w1" "guarded env p t (cs @ L)"
      "captured t L \<noteq> None \<longrightarrow> captured t (cs @ L) = captured t L \<and> settled (cs @ L)"
    using remove_log [OF one L agrees(1) _ agrees(3,4)] agrees(2) by blast
  show ?thesis
  proof (cases "sg_published g = Some p \<and> sg_path g \<noteq> p \<and> r1 = Inr ()")
    case False
    have "w' = w1"
      using run True one False agrees(5)
      by (cases r1) (auto simp: cleanup_def Let_def lop_bind_def lop_return_def split: option.splits if_splits)
    with cs show ?thesis by blast
  next
    case both: True
    then have some: "captured t L \<noteq> None" using agrees(2) by force
    obtain r2 where two: "remove_if_owned env ?g p w1 = (r2, w')"
      using run True one both by (cases "remove_if_owned env ?g p w1") (auto simp: cleanup_def Let_def lop_bind_def)
    obtain ds where "did w1 ds w'" "guarded env p t (ds @ cs @ L)"
      using remove_log [OF two cs(2)] cs(3) some agrees(1) by auto
    with did_trans [OF cs(1)] show ?thesis by (intro exI [of _ "ds @ cs"]) simp
  qed
qed

text \<open>Leaving with an error, or with the socket in place.\<close>

definition created_log :: "listener_env \<Rightarrow> string \<Rightarrow> string \<Rightarrow> io_error + unit \<Rightarrow> socket_guard \<Rightarrow> fs_call list \<Rightarrow> bool" where
  "created_log env p t r g L \<longleftrightarrow> guarded env p t L \<and> guard_agrees p t g L \<and>
     (r = Inr () \<longrightarrow> sg_armed g \<and> sg_path g = p \<and> sg_published g = None \<and> seen_last p t g L)"

lemma publish_log:
  assumes run: "publish_no_replace env g p w = (r, g', w')" and L: "guarded env p t L" "settled L"
    and id: "captured t L = Some i" "sg_identity g = Some i" "own_socket_seen t t L" "\<exists>m rest. L = Saw t m # Chmodded t # rest"
    and g: "sg_armed g" "sg_path g = t" "sg_published g = None"
  shows "\<exists>cs. did w cs w' \<and> guarded env p t (cs @ L) \<and> guard_agrees p t g' (cs @ L) \<and> captured t (cs @ L) = Some i \<and>
    sg_identity g' = Some i \<and> (r = Inr () \<longrightarrow> sg_armed g' \<and> sg_path g' = p \<and> sg_published g' = None \<and> Linked t p \<in> set cs)"
proof -
  obtain r1 w1 where l: "sys_link env t p w = (r1, w1)" by (cases "sys_link env t p w")
  note d1 = calls_done(7) [OF l]
  show ?thesis
  proof (cases r1)
    case (Inl x)
    then have "r = Inl x" "g' = g" "w' = w1" using run g l by (simp_all add: publish_no_replace_def)
    with d1 Inl L id g show ?thesis by (intro exI [of _ "[]"]) (simp add: guard_agrees_def)
  next
    case (Inr u)
    then have linked: "did w [Linked t p] w1" using d1 by simp
    have ok: "guarded env p t (Linked t p # L)" using L id by simp
    obtain r2 w2 where k: "sys_unlink env t w1 = (r2, w2)" by (cases "sys_unlink env t w1")
    note d2 = calls_done(4) [OF k]
    show ?thesis
    proof (cases r2)
      case (Inl x)
      then have "r = Inl x" "g' = g\<lparr>sg_published := Some p\<rparr>" "w' = w2"
        using run g l Inr k by (simp_all add: publish_no_replace_def Let_def)
      with did_trans [OF linked] d2 Inl ok id g show ?thesis
        by (intro exI [of _ "[Linked t p]"]) (auto simp: guard_agrees_def dest: did_trans [OF linked])
    next
      case (Inr v)
      then have out: "r = Inr ()" "g' = g\<lparr>sg_path := p, sg_published := None\<rparr>" "w' = w2"
        using run g l \<open>r1 = Inr u\<close> k by (simp_all add: publish_no_replace_def Let_def)
      from d2 Inr obtain e where "did w1 [Removed t e] w2" by auto
      from did_trans [OF linked this] have "did w [Removed t e, Linked t p] w'" using out by simp
      with ok out id g show ?thesis
        by (intro exI [of _ "[Removed t e, Linked t p]"]) (simp add: guard_agrees_def)
    qed
  qed
qed

lemma create_socket_log:
  assumes run: "create_socket env p (guard_new t) w = (r, g, w')"
    and L: "guarded env p t L" "captured t L = None" and head: "L = Bound t e # past"
  shows "\<exists>cs. did w cs w' \<and> created_log env p t r g (cs @ L)"
proof -
  obtain r1 w1 where one: "sys_lstat env t w = (r1, w1)" by (cases "sys_lstat env t w")
  note d1 = calls_done(1) [OF one]
  have new: "captured t (Saw t m # L) = (if en_kind m = SocketEntry then Some (identity_of m) else None)" for m
    using L(2) by (simp add: head captured_first)
  show ?thesis
  proof (cases "\<exists>m. r1 = Inr m \<and> en_kind m = SocketEntry")
    case False
    then have out: "\<exists>x. r = Inl x" "g = guard_new t" "w' = w1"
      using run one by (cases r1; auto simp: create_socket_def capture_identity_def lop_bind_def lop_return_def guard_new_def)+
    show ?thesis
    proof (cases r1)
      case (Inl x)
      with d1 L out show ?thesis
        by (intro exI [of _ "[]"]) (auto simp: created_log_def guard_agrees_def guard_new_def)
    next
      case (Inr m)
      with False new [of m] d1 L out show ?thesis
        by (intro exI [of _ "[Saw t m]"]) (auto simp: created_log_def guard_agrees_def guard_new_def)
    qed
  next
    case True
    then obtain m where m: "r1 = Inr m" "en_kind m = SocketEntry" by blast
    let ?i = "identity_of m" and ?L1 = "Saw t m # L"
    let ?g = "(guard_new t)\<lparr>sg_identity := Some ?i\<rparr>"
    have L1: "guarded env p t ?L1" "settled ?L1" "captured t ?L1 = Some ?i" and dm: "did w [Saw t m] w1"
      using L(1) new m d1 by simp_all
    obtain r2 w2 where two: "sys_chmod env t 0x180 w1 = (r2, w2)" by (cases "sys_chmod env t 0x180 w1")
    note d2 = did_trans [OF dm calls_done(6) [OF two]]
    obtain r3 w3 where three: "sys_lstat env t w2 = (r3, w3)" by (cases "sys_lstat env t w2")
    note d3 = calls_done(1) [OF three]
    have agree: "guard_agrees p t ?g cs" if "captured t cs = Some ?i" "settled cs" for cs
      using that by (simp add: guard_agrees_def guard_new_def)
    show ?thesis
    proof (cases "\<exists>m'. r2 = Inr () \<and> r3 = Inr m' \<and> identity_matches ?i m'")
      case False
      have "\<exists>x. r = Inl x" "g = ?g" and w': "w' = w2 \<and> (\<exists>x. r2 = Inl x) \<or> w' = w3 \<and> r2 = Inr ()"
        using run one m two three False
        by (auto simp: create_socket_def capture_identity_def lop_bind_def lop_return_def refuse_def guard_new_def
            split: sum.splits if_splits)
      then show ?thesis
      proof (elim disjE exE conjE)
        fix x assume "w' = w2" "r2 = Inl x"
        with d2 L1 agree \<open>\<exists>x. r = Inl x\<close> \<open>g = ?g\<close> show ?thesis
          by (intro exI [of _ "[Saw t m]"]) (auto simp: created_log_def)
      next
        assume w: "w' = w3" "r2 = Inr ()"
        then have "did w ((case r3 of Inr e \<Rightarrow> [Saw t e] | Inl _ \<Rightarrow> []) @ [Chmodded t, Saw t m]) w'"
          using did_trans [OF d2 d3] by simp
        with L1 agree \<open>\<exists>x. r = Inl x\<close> \<open>g = ?g\<close> show ?thesis
          by (cases r3) (fastforce simp: created_log_def)+
      qed
    next
      case True
      then obtain m' where m': "r2 = Inr ()" "r3 = Inr m'" "identity_matches ?i m'" by blast
      let ?L3 = "Saw t m' # Chmodded t # ?L1"
      have L3: "guarded env p t ?L3" "settled ?L3" "captured t ?L3 = Some ?i" and "own_socket_seen t t ?L3"
        using L1 m' by (auto simp: identity_matches_def identity_of_def)
      have dm3: "did w [Saw t m', Chmodded t, Saw t m] w3" using did_trans [OF d2 d3] m' by simp
      obtain r4 g4 w4 where four: "publish_no_replace env ?g p w3 = (r4, g4, w4)" by (cases "publish_no_replace env ?g p w3")
      obtain cs where cs: "did w3 cs w4" "guarded env p t (cs @ ?L3)" "guard_agrees p t g4 (cs @ ?L3)"
          "captured t (cs @ ?L3) = Some ?i" "sg_identity g4 = Some ?i"
          "r4 = Inr () \<longrightarrow> sg_armed g4 \<and> sg_path g4 = p \<and> sg_published g4 = None \<and> Linked t p \<in> set cs"
        using publish_log [OF four L3(1,2,3) _ \<open>own_socket_seen t t ?L3\<close>] by (auto simp: guard_new_def)
      note d4 = did_trans [OF dm3 cs(1)]
      show ?thesis
      proof (cases r4)
        case (Inl x)
        then have "r = Inl x" "g = g4" "w' = w4"
          using run one m two three m' four
          by (simp_all add: create_socket_def capture_identity_def lop_bind_def lop_return_def guard_new_def)
        with d4 cs show ?thesis by (intro exI [of _ "cs @ [Saw t m', Chmodded t, Saw t m]"]) (simp add: created_log_def)
      next
        case (Inr u)
        obtain r5 w5 where five: "sys_lstat env p w4 = (r5, w5)" by (cases "sys_lstat env p w4")
        note d5 = did_trans [OF d4 calls_done(1) [OF five]]
        have settled: "settled (cs @ ?L3)" using cs(3,5) by (simp add: guard_agrees_def)
        have out: "g = g4" "w' = w5"
            "r = Inr () \<longleftrightarrow> (\<exists>n. r5 = Inr n \<and> identity_matches ?i n)"
          using run one m two three m' four Inr five
          by (auto simp: create_socket_def capture_identity_def lop_bind_def lop_return_def guard_new_def
              split: sum.splits if_splits)
        show ?thesis
        proof (cases r5)
          case (Inl x)
          then have "r \<noteq> Inr ()" using out by simp
          with d5 cs out Inl show ?thesis
            by (intro exI [of _ "cs @ [Saw t m', Chmodded t, Saw t m]"]) (simp add: created_log_def)
        next
          case (Inr n)
          have "guard_agrees p t g4 (Saw p n # cs @ ?L3)"
            using cs(3) settled by (simp add: guard_agrees_def)
          moreover have "seen_last p t g4 (Saw p n # cs @ ?L3)" if "identity_matches ?i n" "r4 = Inr ()"
            using that cs(4-6) by (auto simp: identity_matches_def identity_of_def)
          ultimately show ?thesis
            using d5 cs out Inr \<open>r4 = Inr u\<close>
            by (intro exI [of _ "Saw p n # cs @ [Saw t m', Chmodded t, Saw t m]"]) (auto simp: created_log_def)
        qed
      qed
    qed
  qed
qed

subsection \<open>The whole of binding\<close>

definition bind_guarded :: "listener_env \<Rightarrow> string \<Rightarrow> string \<Rightarrow> listener_world \<Rightarrow> io_error + socket_guard \<Rightarrow> listener_world \<Rightarrow> bool" where
  "bind_guarded env p t w r w' \<longleftrightarrow> set (lw_touched w') \<subseteq> set (lw_touched w) \<union> {p, t} \<and>
     (\<exists>L. lw_log w' = L @ lw_log w \<and> guarded env p t L \<and>
        (\<forall>g. r = Inr g \<longrightarrow> sg_armed g \<and> sg_path g = p \<and> sg_published g = None \<and> seen_last p t g L))"

lemma bind_guardedI:
  assumes "did w L w'" and "guarded env p t L"
    and "\<And>g. r = Inr g \<Longrightarrow> sg_armed g \<and> sg_path g = p \<and> sg_published g = None \<and> seen_last p t g L"
  shows "bind_guarded env p t w r w'"
  using assms guarded_touches [OF assms(2)] by (auto simp: bind_guarded_def did_def)

lemma bind_listener_log:
  assumes path: "is_absolute p" "path_parent p = Some parent" "t = temporary_path env parent n"
    and run: "bind_listener env p n w = (r, w')"
  shows "bind_guarded env p t w r w'"
proof -
  obtain r0 w0 where parent: "check_parent env parent w = (r0, w0)" by (cases "check_parent env parent w")
  obtain r1 w1 where clear: "clear_stale env p w0 = (r1, w1)" by (cases "clear_stale env p w0")
  obtain r2 w2 where bound: "sys_bind env t w1 = (r2, w2)" by (cases "sys_bind env t w1")
  have d0: "did w [] w0" by (rule check_parent_log [OF parent])
  obtain L where L: "did w0 L w1" "guarded env p t L" "captured t L = None"
    using clear_stale_log [OF clear] by blast
  have dL: "did w L w1" using did_trans [OF d0 L(1)] by simp
  note d2 = did_trans [OF dL calls_done(5) [OF bound]]
  have model: "(case r0 of Inl x \<Rightarrow> (Inl x, w0) | Inr _ \<Rightarrow> (case r1 of Inl x \<Rightarrow> (Inl x, w1) | Inr _ \<Rightarrow>
      (case r2 of Inl x \<Rightarrow> (Inl x, w2) | Inr _ \<Rightarrow>
        (case create_socket env p (guard_new t) w2 of
           (Inr _, g, w') \<Rightarrow> (Inr g, w')
         | (Inl x, g, w') \<Rightarrow> (case cleanup env g w' of (_, _, w'') \<Rightarrow> (Inl x, w'')))))) = (r, w')"
    using run path parent clear bound
    by (cases r0; cases r1; cases r2) (simp_all add: bind_listener_def lop_bind_def)
  consider (parent) x where "r0 = Inl x" | (stale) x where "r0 = Inr ()" "r1 = Inl x"
    | (unbound) x where "r0 = Inr ()" "r1 = Inr ()" "r2 = Inl x" | (bound) e where "r0 = Inr ()" "r1 = Inr ()" "r2 = Inr e"
    by (cases r0; cases r1; cases r2) auto
  then show ?thesis
  proof cases
    case parent
    then show ?thesis using model d0 by (intro bind_guardedI [of _ "[]"]) auto
  next
    case stale
    then show ?thesis using model dL L(2) by (intro bind_guardedI) auto
  next
    case unbound
    then show ?thesis using model d2 L(2) by (intro bind_guardedI) auto
  next
    case (bound e)
    let ?L = "Bound t e # L"
    have Lb: "did w ?L w2" "guarded env p t ?L" "captured t ?L = None" using d2 L bound by simp_all
    obtain r3 g w3 where three: "create_socket env p (guard_new t) w2 = (r3, g, w3)"
      by (cases "create_socket env p (guard_new t) w2")
    obtain cs where cs: "did w2 cs w3" "created_log env p t r3 g (cs @ ?L)"
      using create_socket_log [OF three Lb(2,3) refl] by blast
    note d3 = did_trans [OF Lb(1) cs(1)]
    show ?thesis
    proof (cases r3)
      case (Inr u)
      then have "r = Inr g" "w' = w3" using model bound three by simp_all
      with cs(2) d3 Inr show ?thesis by (intro bind_guardedI) (auto simp: created_log_def)
    next
      case (Inl x)
      obtain r4 g4 w4 where four: "cleanup env g w3 = (r4, g4, w4)" by (cases "cleanup env g w3")
      have "r = Inl x" "w' = w4" using model bound three Inl four by simp_all
      moreover obtain ds where "did w3 ds w4" "guarded env p t (ds @ cs @ ?L)"
        using cleanup_log [OF four, of p t "cs @ ?L"] cs(2) by (auto simp: created_log_def)
      ultimately show ?thesis using did_trans [OF d3] by (intro bind_guardedI) auto
    qed
  qed
qed

text \<open>
  What a removal takes away, when nobody replaced the entry between the check and the removal: a dead
  socket of the user, or the socket that was created.
\<close>

lemma removed_identity:
  assumes "guarded env p t (newer @ Removed p e # Saw p m # past)" and "identity_of e = identity_of m" and "p \<noteq> t"
  shows "(\<exists>d older. past = Refused p # Saw p d # older \<and> en_kind d = SocketEntry \<and> en_uid d = ev_uid env \<and>
      identity_of e = identity_of d) \<or> captured t past = Some (identity_of e)"
proof -
  have "guarded env p t (Removed p e # Saw p m # past)" using assms(1) by (induction newer) auto
  then consider (dead) "dead_socket_seen env p (Saw p m # past)" | (own) "own_socket_seen t p (Saw p m # past)"
    using assms(3) by auto
  then show ?thesis
  proof cases
    case dead
    then show ?thesis using assms(2)
      by (cases "(env, p, Saw p m # past)" rule: dead_socket_seen.cases) auto
  next
    case own
    then show ?thesis using assms(2,3) by (auto split: option.splits)
  qed
qed

text \<open>
  C32. \<^verbatim>\<open>BoundUnixListener::bind\<close>, whatever other processes do to the two paths at any moment and
  whatever calls fail: it changes no path but the socket path and its own temporary one. It removes
  an entry of the socket path only right after it found there either the same socket of the user,
  before and after a refused connection, or the socket with the identity it recorded for its own; it
  removes one of the temporary path only after the link, or right after it found its own socket
  there. It links only what it found again, with that identity, after it set the mode. When it
  succeeds, its last call found its socket at the path, and the guard knows it. When nobody else
  uses the two paths and errors are reported as what they are, more holds: an entry that is not a
  dead socket of the same user stays and binding fails; after a success the path is the new live
  socket with mode 0600 and the temporary one is gone; after a failure with at most one failing call
  nothing is left behind.
\<close>

theorem listener_bind_safe:
  assumes path: "is_absolute p" "path_parent p = Some parent" "t = temporary_path env parent n"
    and run: "bind_listener env p n w = (r, w')"
  shows "bind_guarded env p t w r w' \<and> (polite env p t \<and> honest env \<longrightarrow> bind_outcome env p t w r w')"
  using bind_listener_log [OF assms] bind_listener_outcome [OF _ _ assms] by blast

text \<open>Another server publishes its socket at the path just before the link.\<close>

definition other_socket :: fs_entry where
  "other_socket = \<lparr>en_kind = SocketEntry, en_device = 1, en_inode = 77, en_uid = 1000, en_mode = 0x180, en_live = True\<rparr>"

definition racing_env :: listener_env where
  "racing_env = (sample_listener_env None)\<lparr>ev_world := (\<lambda>n fs. if n = 9 then fs(''/run/vcd/s'' \<mapsto> other_socket) else fs)\<rparr>"

lemma racing_temporary: "temporary_path racing_env ''/run/vcd'' 1 = ''/run/vcd/.vcd-tools-7-1.sock''"
  by (simp add: temporary_path_def racing_env_def sample_listener_env_def) code_simp

lemma racing_run:
  "(case bind_listener racing_env ''/run/vcd/s'' 1 sample_world of (r, w) \<Rightarrow>
     (map_sum io_kind_of (\<lambda>_. ()) r, lw_fs w ''/run/vcd/s'', lw_fs w ''/run/vcd/.vcd-tools-7-1.sock'')) =
   (Inl AlreadyExists, Some other_socket, None)"
  by code_simp

theorem listener_bind_safe_witness:
  "bind_guarded racing_env ''/run/vcd/s'' ''/run/vcd/.vcd-tools-7-1.sock'' sample_world
     (fst (bind_listener racing_env ''/run/vcd/s'' 1 sample_world)) (snd (bind_listener racing_env ''/run/vcd/s'' 1 sample_world)) \<and>
   bind_outcome (sample_listener_env None) ''/run/vcd/s'' ''/run/vcd/.vcd-tools-7-1.sock'' sample_world
     (fst (bind_listener (sample_listener_env None) ''/run/vcd/s'' 1 sample_world))
     (snd (bind_listener (sample_listener_env None) ''/run/vcd/s'' 1 sample_world))"
proof
  show "bind_guarded racing_env ''/run/vcd/s'' ''/run/vcd/.vcd-tools-7-1.sock'' sample_world
     (fst (bind_listener racing_env ''/run/vcd/s'' 1 sample_world)) (snd (bind_listener racing_env ''/run/vcd/s'' 1 sample_world))"
    using listener_bind_safe [OF sample_parent(2,1) racing_temporary [symmetric]] by simp
  show "bind_outcome (sample_listener_env None) ''/run/vcd/s'' ''/run/vcd/.vcd-tools-7-1.sock'' sample_world
     (fst (bind_listener (sample_listener_env None) ''/run/vcd/s'' 1 sample_world))
     (snd (bind_listener (sample_listener_env None) ''/run/vcd/s'' 1 sample_world))"
    using listener_bind_safe [OF sample_parent(2,1) sample_temporary [symmetric]] sample_polite by simp
qed

end
