(* ===== verification/Connection.thy ===== *)
theory Connection
  imports Service
begin

text \<open>
  The connection runtime of src/server/runtime.rs around the jobs: the table of active requests of a
  connection, the bounded queue and the workers of the scheduler, the scan permit, the connection
  limit, and the reader loop of \<^verbatim>\<open>serve_connection_with_shutdown\<close> with what it does for each line.

  The threads are events on one \<open>runtime\<close> state. A line is handled in one event: meanwhile the other
  threads only take jobs from the queue and remove ids from the table, which is the same as doing so
  before or after. What a job sends is the theory of the output sink. A cancellation token is a
  number; \<open>cs_cancelled\<close> holds the tokens that were cancelled.
\<close>

subsection \<open>The active requests of a connection\<close>

record connection_state =
  cs_active :: "(string \<times> nat) list"
  cs_cancelled :: "nat set"
  cs_next :: nat
  cs_disconnected :: bool
  cs_max :: nat

definition new_connection_state :: "nat \<Rightarrow> connection_state" where
  "new_connection_state max_active = \<lparr>cs_active = [], cs_cancelled = {}, cs_next = 0,
     cs_disconnected = False, cs_max = max_active\<rparr>"

definition is_active :: "connection_state \<Rightarrow> string \<Rightarrow> bool" where
  "is_active st i \<longleftrightarrow> map_of (cs_active st) i \<noteq> None"

definition active_count :: "connection_state \<Rightarrow> nat" where
  "active_count st = length (cs_active st)"

definition conn_register :: "connection_state \<Rightarrow> string \<Rightarrow> (protocol_error + nat) \<times> connection_state" where
  "conn_register st i =
     (if is_active st i then (Inl (duplicate_request_id i), st)
      else if active_count st \<ge> cs_max st
      then (Inl (protocol_error_new ELimitExceeded ''active requests per connection limit exceeded''
        (json_obj [(''kind'', JString ''active_requests''), (''limit'', JString (decimal (cs_max st))),
          (''actual'', JString (decimal (active_count st + 1)))]) False), st)
      else (Inr (cs_next st), st\<lparr>cs_active := (i, cs_next st) # cs_active st, cs_next := cs_next st + 1\<rparr>))"

definition conn_cancel :: "connection_state \<Rightarrow> string \<Rightarrow> bool \<times> connection_state" where
  "conn_cancel st i =
     (case map_of (cs_active st) i of
        Some token \<Rightarrow> (True, st\<lparr>cs_cancelled := insert token (cs_cancelled st)\<rparr>)
      | None \<Rightarrow> (False, st))"

definition conn_remove :: "connection_state \<Rightarrow> string \<Rightarrow> connection_state" where
  "conn_remove st i = st\<lparr>cs_active := filter (\<lambda>(k, _). k \<noteq> i) (cs_active st)\<rparr>"

definition conn_disconnect :: "connection_state \<Rightarrow> connection_state" where
  "conn_disconnect st = st\<lparr>cs_disconnected := True,
     cs_cancelled := cs_cancelled st \<union> set (map snd (cs_active st))\<rparr>"

subsection \<open>The scheduler\<close>

record job =
  jb_conn :: nat
  jb_request :: request
  jb_token :: nat
  jb_deadline :: nat
  jb_max_bytes :: nat

text \<open>The gauges of blocked output and of the largest frame buffer are left out.\<close>

record runtime_stats =
  rs_queued :: nat
  rs_active :: nat
  rs_completed :: nat
  rs_rejected :: nat
  rs_panicked :: nat
  rs_connections :: nat
  rs_forced :: nat

record scheduler =
  sd_queue :: "job list"
  sd_depth :: nat
  sd_stats :: runtime_stats

definition submit :: "job \<Rightarrow> scheduler \<Rightarrow> bool \<times> scheduler" where
  "submit job sd =
     (let stats = (sd_stats sd)\<lparr>rs_queued := rs_queued (sd_stats sd) + 1\<rparr> in
      if length (sd_queue sd) < sd_depth sd
      then (True, sd\<lparr>sd_queue := sd_queue sd @ [job], sd_stats := stats\<rparr>)
      else (False, sd\<lparr>sd_stats := stats\<lparr>rs_queued := rs_queued stats - 1, rs_rejected := rs_rejected stats + 1\<rparr>\<rparr>))"

text \<open>\<^verbatim>\<open>force_disconnect\<close>: the count is in the statistics.\<close>

definition count_forced :: "connection_state \<Rightarrow> scheduler \<Rightarrow> scheduler" where
  "count_forced st sd =
     (if cs_disconnected st then sd
      else sd\<lparr>sd_stats := (sd_stats sd)\<lparr>rs_forced := rs_forced (sd_stats sd) + 1\<rparr>\<rparr>)"

subsection \<open>One line of a connection\<close>

text \<open>
  The JSON text parser with the text of its errors, whether a control frame can be encoded and put
  into the output channel within 100 ms, and the moment that lies so many milliseconds ahead if the
  clock has it.
\<close>

record line_env =
  le_parse :: "string \<Rightarrow> raw_json \<times> string option"
  le_disp :: "json_error \<Rightarrow> string"
  le_sent :: "response_frame \<Rightarrow> bool"
  le_deadline :: "u64 \<Rightarrow> nat option"

fun request_timeout_ms :: "request_method \<Rightarrow> u64 option" where
  "request_timeout_ms (MList p) = lp_timeout_ms p"
| "request_timeout_ms (MMetadata p) = mp_timeout_ms p"
| "request_timeout_ms (MExtract p) = ep_timeout_ms p"
| "request_timeout_ms (MFind p) = fp_timeout_ms p"
| "request_timeout_ms (MToggles p) = tp_timeout_ms p"
| "request_timeout_ms _ = None"

definition effective_timeout_ms :: "request_method \<Rightarrow> u64 \<Rightarrow> protocol_error + u64" where
  "effective_timeout_ms m configured =
     (let requested = (case request_timeout_ms m of Some t \<Rightarrow> t | None \<Rightarrow> configured) in
      if requested > configured then Inl (bad_request ''timeout_ms may only lower the configured maximum'')
      else Inr requested)"

text \<open>The outcome of a line: whether the reader goes on, and the control frames that were sent.\<close>

type_synonym line_outcome = "bool \<times> response_frame list \<times> connection_state \<times> scheduler"

definition close_after :: "line_env \<Rightarrow> protocol_error \<Rightarrow> connection_state \<Rightarrow> scheduler \<Rightarrow> line_outcome" where
  "close_after env e st sd =
     (let f = frame_error None 0 e in
      (False, if le_sent env f then [f] else [], conn_disconnect st, count_forced st sd))"

definition reply :: "line_env \<Rightarrow> response_frame \<Rightarrow> connection_state \<Rightarrow> scheduler \<Rightarrow> line_outcome" where
  "reply env f st sd =
     (if le_sent env f then (True, [f], st, sd) else (False, [], conn_disconnect st, count_forced st sd))"

definition submit_request ::
    "runtime_config \<Rightarrow> line_env \<Rightarrow> nat \<Rightarrow> request \<Rightarrow> u64 \<Rightarrow> connection_state \<Rightarrow> scheduler \<Rightarrow> line_outcome" where
  "submit_request cfg env c req timeout st sd =
     (case conn_register st (req_id req) of
        (Inl e, st1) \<Rightarrow> close_after env e st1 sd
      | (Inr token, st1) \<Rightarrow>
          (case le_deadline env timeout of
             None \<Rightarrow> reply env (frame_error (Some (req_id req)) 0 (bad_request ''timeout_ms overflows deadline''))
                 (conn_remove st1 (req_id req)) sd
           | Some d \<Rightarrow>
               (case submit \<lparr>jb_conn = c, jb_request = req, jb_token = token, jb_deadline = d,
                       jb_max_bytes = rc_max_frame_bytes cfg\<rparr> sd of
                  (True, sd') \<Rightarrow> (True, [], st1, sd')
                | (False, sd') \<Rightarrow>
                    reply env (frame_error (Some (req_id req)) 0
                        (protocol_error_new EQueueFull ''query queue is full'' (json_obj []) True))
                      (conn_remove st1 (req_id req)) sd')))"

definition handle_line ::
    "runtime_config \<Rightarrow> line_env \<Rightarrow> nat \<Rightarrow> string \<Rightarrow> connection_state \<Rightarrow> scheduler \<Rightarrow> line_outcome" where
  "handle_line cfg env c line st sd =
     (case le_parse env line of (doc, trailing) \<Rightarrow>
      case decode_request_with_active (le_disp env) doc trailing (is_active st) of
        Inl e \<Rightarrow> close_after env e st sd
      | Inr req \<Rightarrow>
          (case req_method req of
             MCancel target \<Rightarrow>
               (case conn_cancel st target of (found, st') \<Rightarrow>
                  reply env (frame_result (req_id req) (json_obj [(''found'', JBool found)])) st' sd)
           | m \<Rightarrow>
               (case effective_timeout_ms m (rc_max_timeout_ms cfg) of
                  Inl e \<Rightarrow> reply env (frame_error (Some (req_id req)) 0 e) st sd
                | Inr timeout \<Rightarrow> submit_request cfg env c req timeout st sd)))"

subsection \<open>The reader and the writer of a connection\<close>

record connection =
  cn_state :: connection_state
  cn_acc :: accumulator
  cn_lines :: "string list"
  cn_open :: bool \<comment> \<open>the reader loop runs\<close>
  cn_released :: bool \<comment> \<open>the connection's guards are dropped\<close>
  cn_control :: "response_frame list"

definition new_connection :: "runtime_config \<Rightarrow> connection" where
  "new_connection cfg = \<lparr>cn_state = new_connection_state (rc_max_active cfg),
     cn_acc = \<lparr>acc_buffer = [], acc_max = rc_request_line_bytes cfg, acc_poisoned = False\<rparr>, cn_lines = [],
     cn_open = True, cn_released = False, cn_control = []\<rparr>"

text \<open>\<open>ReadAgain\<close>: no bytes within 10 ms; \<open>ReadGone\<close>: reset, broken pipe or unexpected end.\<close>

datatype read_result = ReadEof | ReadBytes string | ReadAgain | ReadGone | ReadFailed io_error

definition stop_reading :: "connection \<Rightarrow> connection" where
  "stop_reading cn = cn\<lparr>cn_open := False, cn_lines := [], cn_state := conn_disconnect (cn_state cn)\<rparr>"

text \<open>One turn of the reader loop: the bytes become lines, or the loop ends.\<close>

fun on_read ::
    "line_env \<Rightarrow> bool \<Rightarrow> read_result \<Rightarrow> connection \<Rightarrow> scheduler \<Rightarrow> connection \<times> scheduler" where
  "on_read env shutdown ReadAgain cn sd =
     (if cs_disconnected (cn_state cn) \<or> shutdown then (stop_reading cn, sd) else (cn, sd))"
| "on_read env shutdown (ReadBytes bytes) cn sd =
     (case push (cn_acc cn) bytes of
        (acc, Inr frames) \<Rightarrow> (cn\<lparr>cn_acc := acc, cn_lines := frames\<rparr>, sd)
      | (acc, Inl e) \<Rightarrow>
          (case close_after env e (cn_state cn) sd of
             (_, fs, st, sd') \<Rightarrow>
               (stop_reading (cn\<lparr>cn_acc := acc, cn_control := cn_control cn @ fs, cn_state := st\<rparr>), sd')))"
| "on_read env shutdown _ cn sd = (stop_reading cn, sd)"

definition on_line ::
    "runtime_config \<Rightarrow> line_env \<Rightarrow> nat \<Rightarrow> connection \<Rightarrow> scheduler \<Rightarrow> connection \<times> scheduler" where
  "on_line cfg env c cn sd =
     (case cn_lines cn of
        [] \<Rightarrow> (cn, sd)
      | line # lines \<Rightarrow>
          (case handle_line cfg env c line (cn_state cn) sd of
             (goes_on, fs, st, sd') \<Rightarrow>
               let cn' = cn\<lparr>cn_lines := lines, cn_control := cn_control cn @ fs, cn_state := st\<rparr> in
               (if goes_on then cn' else stop_reading cn', sd')))"

text \<open>
  The writer thread on one chunk of output: what the socket took, and whether it disconnects. The
  moments are its attempts; \<open>None\<close>: it does not end.
\<close>

datatype write_result = Wrote nat | WriteAgain | WriteFailed

partial_function (option) write_chunk ::
    "(nat \<Rightarrow> write_result) \<Rightarrow> (nat \<Rightarrow> bool) \<Rightarrow> nat \<Rightarrow> string \<Rightarrow> string \<Rightarrow> (string \<times> bool) option" where
  "write_chunk socket gone n written rest =
     (if rest = [] \<or> gone n then Some (written, False)
      else (case socket n of
          Wrote k \<Rightarrow>
            if k = 0 then Some (written, True)
            else write_chunk socket gone (n + 1) (written @ take k rest) (drop k rest)
        | WriteAgain \<Rightarrow> write_chunk socket gone (n + 1) written rest
        | WriteFailed \<Rightarrow> Some (written, True)))"

subsection \<open>The runtime\<close>

record runtime =
  rt_config :: runtime_config
  rt_conns :: "connection list"
  rt_sched :: scheduler
  rt_workers :: "job option list"
  rt_holder :: "nat option" \<comment> \<open>the worker that holds the scan permit\<close>
  rt_permits :: nat

definition new_runtime :: "runtime_config \<Rightarrow> runtime" where
  "new_runtime cfg = \<lparr>rt_config = cfg, rt_conns = [],
     rt_sched = \<lparr>sd_queue = [], sd_depth = rc_queue_depth cfg,
       sd_stats = \<lparr>rs_queued = 0, rs_active = 0, rs_completed = 0, rs_rejected = 0, rs_panicked = 0,
         rs_connections = 0, rs_forced = 0\<rparr>\<rparr>,
     rt_workers = replicate (rc_workers cfg) None, rt_holder = None, rt_permits = 0\<rparr>"

definition set_stats :: "(runtime_stats \<Rightarrow> runtime_stats) \<Rightarrow> runtime \<Rightarrow> runtime" where
  "set_stats f rt = rt\<lparr>rt_sched := (rt_sched rt)\<lparr>sd_stats := f (sd_stats (rt_sched rt))\<rparr>\<rparr>"

definition set_conn :: "nat \<Rightarrow> connection \<Rightarrow> runtime \<Rightarrow> runtime" where
  "set_conn c cn rt = rt\<lparr>rt_conns := (rt_conns rt)[c := cn]\<rparr>"

definition busy_jobs :: "job option list \<Rightarrow> job list" where
  "busy_jobs ws = concat (map (\<lambda>w. case w of Some j \<Rightarrow> [j] | None \<Rightarrow> []) ws)"

definition live_jobs :: "runtime \<Rightarrow> job list" where
  "live_jobs rt = sd_queue (rt_sched rt) @ busy_jobs (rt_workers rt)"

text \<open>
  Events: a connection is accepted; a turn of its reader; a line of it; its writer or a sink sees
  that the peer is gone, as a forced disconnect or not; it is closed; a worker takes a job, acquires
  and releases the scan permit, and finishes its job, normally or after a panic.
\<close>

datatype event =
    Accept
  | Read nat line_env bool read_result
  | Line nat line_env
  | Drop nat bool
  | Close nat
  | Start nat
  | Acquire nat
  | Release nat
  | Finish nat bool

text \<open>\<^verbatim>\<open>ConnectionLimiter::try_acquire\<close>, and the guards of the connection.\<close>

definition accept_connection :: "runtime \<Rightarrow> runtime option" where
  "accept_connection rt =
     (if rt_permits rt < rc_max_connections (rt_config rt)
      then Some (set_stats (\<lambda>s. s\<lparr>rs_connections := rs_connections s + 1\<rparr>)
        (rt\<lparr>rt_permits := rt_permits rt + 1, rt_conns := rt_conns rt @ [new_connection (rt_config rt)]\<rparr>))
      else None)"

text \<open>The writer thread ends when all output senders are dropped, those of the jobs too.\<close>

definition close_connection :: "nat \<Rightarrow> runtime \<Rightarrow> runtime option" where
  "close_connection c rt =
     (if c < length (rt_conns rt) \<and> \<not> cn_open (rt_conns rt ! c) \<and> \<not> cn_released (rt_conns rt ! c) \<and>
         (\<forall>j \<in> set (live_jobs rt). jb_conn j \<noteq> c)
      then Some (set_stats (\<lambda>s. s\<lparr>rs_connections := rs_connections s - 1\<rparr>)
        (set_conn c ((rt_conns rt ! c)\<lparr>cn_released := True\<rparr>) (rt\<lparr>rt_permits := rt_permits rt - 1\<rparr>)))
      else None)"

definition drop_connection :: "nat \<Rightarrow> bool \<Rightarrow> runtime \<Rightarrow> runtime option" where
  "drop_connection c forced rt =
     (if c < length (rt_conns rt) \<and> \<not> cn_released (rt_conns rt ! c)
      then (let cn = rt_conns rt ! c;
                sd = (if forced then count_forced (cn_state cn) (rt_sched rt) else rt_sched rt) in
            Some (set_conn c (cn\<lparr>cn_state := conn_disconnect (cn_state cn)\<rparr>) (rt\<lparr>rt_sched := sd\<rparr>)))
      else None)"

definition reader_turn ::
    "(connection \<Rightarrow> scheduler \<Rightarrow> connection \<times> scheduler) \<Rightarrow> bool \<Rightarrow> nat \<Rightarrow> runtime \<Rightarrow> runtime option" where
  "reader_turn turn waiting c rt =
     (if c < length (rt_conns rt) \<and> cn_open (rt_conns rt ! c) \<and> (cn_lines (rt_conns rt ! c) = []) = waiting
      then (case turn (rt_conns rt ! c) (rt_sched rt) of (cn, sd) \<Rightarrow> Some (set_conn c cn (rt\<lparr>rt_sched := sd\<rparr>)))
      else None)"

definition start_job :: "nat \<Rightarrow> runtime \<Rightarrow> runtime option" where
  "start_job w rt =
     (if w < length (rt_workers rt) \<and> rt_workers rt ! w = None
      then (case sd_queue (rt_sched rt) of
          [] \<Rightarrow> None
        | j # js \<Rightarrow> Some (set_stats (\<lambda>s. s\<lparr>rs_queued := rs_queued s - 1, rs_active := rs_active s + 1\<rparr>)
            (rt\<lparr>rt_sched := (rt_sched rt)\<lparr>sd_queue := js\<rparr>, rt_workers := (rt_workers rt)[w := Some j]\<rparr>)))
      else None)"

definition acquire_permit :: "nat \<Rightarrow> runtime \<Rightarrow> runtime option" where
  "acquire_permit w rt =
     (if w < length (rt_workers rt) \<and> rt_workers rt ! w \<noteq> None \<and> rt_holder rt = None
      then Some (rt\<lparr>rt_holder := Some w\<rparr>) else None)"

definition release_permit :: "nat \<Rightarrow> runtime \<Rightarrow> runtime option" where
  "release_permit w rt = (if rt_holder rt = Some w then Some (rt\<lparr>rt_holder := None\<rparr>) else None)"

text \<open>The guard of a job; the scan guard was dropped before it.\<close>

definition finish_job :: "nat \<Rightarrow> bool \<Rightarrow> runtime \<Rightarrow> runtime option" where
  "finish_job w panicked rt =
     (if w < length (rt_workers rt) \<and> rt_holder rt \<noteq> Some w
      then (case rt_workers rt ! w of
          None \<Rightarrow> None
        | Some j \<Rightarrow>
            let cn = rt_conns rt ! jb_conn j in
            Some (set_stats (\<lambda>s. s\<lparr>rs_active := rs_active s - 1, rs_completed := rs_completed s + 1,
                rs_panicked := (if panicked then rs_panicked s + 1 else rs_panicked s)\<rparr>)
              (set_conn (jb_conn j) (cn\<lparr>cn_state := conn_remove (cn_state cn) (req_id (jb_request j))\<rparr>)
                (rt\<lparr>rt_workers := (rt_workers rt)[w := None]\<rparr>))))
      else None)"

fun runtime_next :: "event \<Rightarrow> runtime \<Rightarrow> runtime option" where
  "runtime_next Accept rt = accept_connection rt"
| "runtime_next (Read c env shutdown r) rt = reader_turn (on_read env shutdown r) True c rt"
| "runtime_next (Line c env) rt = reader_turn (on_line (rt_config rt) env c) False c rt"
| "runtime_next (Drop c forced) rt = drop_connection c forced rt"
| "runtime_next (Close c) rt = close_connection c rt"
| "runtime_next (Start w) rt = start_job w rt"
| "runtime_next (Acquire w) rt = acquire_permit w rt"
| "runtime_next (Release w) rt = release_permit w rt"
| "runtime_next (Finish w panicked) rt = finish_job w panicked rt"

inductive reachable :: "runtime_config \<Rightarrow> runtime \<Rightarrow> bool" for cfg where
  reachable_new: "reachable cfg (new_runtime cfg)"
| reachable_next: "reachable cfg rt \<Longrightarrow> runtime_next ev rt = Some rt' \<Longrightarrow> reachable cfg rt'"

fun run_events :: "event list \<Rightarrow> runtime \<Rightarrow> runtime option" where
  "run_events [] rt = Some rt"
| "run_events (ev # evs) rt = Option.bind (runtime_next ev rt) (run_events evs)"

lemma reachable_run: "run_events evs rt = Some rt' \<Longrightarrow> reachable cfg rt \<Longrightarrow> reachable cfg rt'"
  by (induction evs arbitrary: rt) (auto intro: reachable_next split: bind_splits)

end
