(* ===== verification/Connection_Invariant.thy ===== *)
theory Connection_Invariant
  imports Connection "HOL-Library.Multiset"
begin

text \<open>
  The invariant of the connection runtime, for every interleaving of its events, and its refinement
  of a registry of live and cancelled requests.
\<close>

subsection \<open>The table of active requests\<close>

definition ids :: "connection_state \<Rightarrow> string set" where
  "ids st = fst ` set (cs_active st)"

definition doomed :: "connection_state \<Rightarrow> string set" where
  "doomed st = {i. \<exists>t. (i, t) \<in> set (cs_active st) \<and> t \<in> cs_cancelled st}"

text \<open>The table holds the ids and tokens \<open>keys\<close>; tokens are not used twice.\<close>

definition table_ok :: "connection_state \<Rightarrow> (string \<times> nat) multiset \<Rightarrow> bool" where
  "table_ok st keys \<longleftrightarrow>
     mset (cs_active st) = keys \<and> distinct (map fst (cs_active st)) \<and> distinct (map snd (cs_active st)) \<and>
     (\<forall>t \<in> snd ` set (cs_active st) \<union> cs_cancelled st. t < cs_next st) \<and>
     length (cs_active st) \<le> cs_max st"

text \<open>What may happen to the live and the cancelled requests of a connection.\<close>

inductive registry_op :: "nat \<Rightarrow> string set \<times> string set \<Rightarrow> string set \<times> string set \<Rightarrow> bool" for max_active where
  op_same: "registry_op max_active r r"
| op_start: "i \<notin> L \<Longrightarrow> card L < max_active \<Longrightarrow> registry_op max_active (L, D) (insert i L, D)"
| op_cancel: "i \<in> L \<Longrightarrow> registry_op max_active (L, D) (L, insert i D)"
| op_drop: "registry_op max_active (L, D) (L, L)"
| op_finish: "i \<in> L \<Longrightarrow> registry_op max_active (L, D) (L - {i}, D - {i})"

definition requests_of :: "connection_state \<Rightarrow> string set \<times> string set" where
  "requests_of st = (ids st, doomed st)"

lemma is_active_ids: "is_active st i \<longleftrightarrow> i \<in> ids st"
  by (auto simp: is_active_def ids_def map_of_eq_None_iff)

lemma card_ids: "table_ok st keys \<Longrightarrow> card (ids st) = active_count st"
  using distinct_card [of "map fst (cs_active st)"] by (simp add: table_ok_def ids_def active_count_def)

lemma register_ok:
  assumes "table_ok st keys" and "conn_register st i = (Inr t, st')"
  shows "table_ok st' (add_mset (i, t) keys) \<and> registry_op (cs_max st) (requests_of st) (requests_of st') \<and>
    cs_max st' = cs_max st \<and> conn_remove st' i = st\<lparr>cs_next := cs_next st + 1\<rparr> \<and>
    cs_disconnected st' = cs_disconnected st"
proof -
  have i: "i \<notin> ids st" and room: "active_count st < cs_max st" and t: "t = cs_next st"
    and st': "st' = st\<lparr>cs_active := (i, t) # cs_active st, cs_next := cs_next st + 1\<rparr>"
    using assms(2) by (auto simp: conn_register_def is_active_ids split: if_splits)
  have fresh: "t \<notin> snd ` set (cs_active st)" "t \<notin> cs_cancelled st"
    using assms(1) t by (auto simp: table_ok_def)
  have "requests_of st' = (insert i (ids st), doomed st)"
    using fresh i by (auto simp: requests_of_def ids_def doomed_def st')
  moreover have "registry_op (cs_max st) (ids st, doomed st) (insert i (ids st), doomed st)"
    using i room card_ids [OF assms(1)] by (intro op_start) simp_all
  moreover have "table_ok st' (add_mset (i, t) keys)"
    using assms(1) i fresh room t by (auto simp: table_ok_def st' ids_def active_count_def less_SucI)
  moreover have "conn_remove st' i = st\<lparr>cs_next := cs_next st + 1\<rparr>"
  proof -
    have "filter (\<lambda>(k, _). k \<noteq> i) (cs_active st) = cs_active st"
      using i by (intro filter_True) (force simp: ids_def)
    then show ?thesis by (simp add: conn_remove_def st')
  qed
  ultimately show ?thesis by (simp add: requests_of_def st')
qed

lemma skip_token_ok:
  "table_ok st keys \<Longrightarrow> table_ok (st\<lparr>cs_next := cs_next st + 1\<rparr>) keys"
  "requests_of (st\<lparr>cs_next := cs_next st + 1\<rparr>) = requests_of st"
  by (auto simp: table_ok_def requests_of_def ids_def doomed_def less_SucI)

lemma cancel_ok:
  assumes "table_ok st keys" and "conn_cancel st i = (found, st')"
  shows "table_ok st' keys \<and> cs_max st' = cs_max st \<and> found = (i \<in> ids st) \<and>
    requests_of st' = (ids st, doomed st \<union> {i} \<inter> ids st)"
proof (cases "map_of (cs_active st) i")
  case None
  with assms show ?thesis
    by (auto simp: conn_cancel_def requests_of_def ids_def map_of_eq_None_iff)
next
  case (Some t)
  have dist: "distinct (map snd (cs_active st))" "distinct (map fst (cs_active st))"
    using assms(1) by (simp_all add: table_ok_def)
  have mem: "(i, t) \<in> set (cs_active st)" using Some by (rule map_of_SomeD)
  have only: "j = i" if "(j, t) \<in> set (cs_active st)" for j
    using dist(1) mem that by (metis distinct_map inj_on_def prod.inject snd_conv)
  have st': "st' = st\<lparr>cs_cancelled := insert t (cs_cancelled st)\<rparr>" "found"
    using assms(2) Some by (auto simp: conn_cancel_def)
  have "doomed st' = insert i (doomed st)"
  proof (intro set_eqI iffI)
    fix j
    assume "j \<in> doomed st'"
    then obtain t' where "(j, t') \<in> set (cs_active st)" "t' = t \<or> t' \<in> cs_cancelled st"
      by (auto simp: doomed_def st'(1))
    with only [of j] show "j \<in> insert i (doomed st)" by (auto simp: doomed_def)
  next
    fix j
    assume "j \<in> insert i (doomed st)"
    with mem show "j \<in> doomed st'" by (auto simp: doomed_def st'(1))
  qed
  moreover have "i \<in> ids st" using mem by (force simp: ids_def)
  moreover have "t < cs_next st" using assms(1) mem by (force simp: table_ok_def)
  then have "table_ok st' keys" using assms(1) by (auto simp: table_ok_def st'(1))
  moreover have "ids st' = ids st" "cs_max st' = cs_max st" by (simp_all add: ids_def st'(1))
  ultimately show ?thesis using st'(2) by (simp add: requests_of_def)
qed

lemma disconnect_ok:
  assumes "table_ok st keys"
  shows "table_ok (conn_disconnect st) keys" and "requests_of (conn_disconnect st) = (ids st, ids st)"
    and "cs_max (conn_disconnect st) = cs_max st"
    and "snd ` set (cs_active (conn_disconnect st)) \<subseteq> cs_cancelled (conn_disconnect st)"
    and "cs_disconnected (conn_disconnect st)"
proof -
  show "table_ok (conn_disconnect st) keys"
    using assms by (auto simp: conn_disconnect_def table_ok_def)
  have "doomed (conn_disconnect st) = ids st"
    by (force simp: conn_disconnect_def ids_def doomed_def)
  then show "requests_of (conn_disconnect st) = (ids st, ids st)"
    by (simp add: requests_of_def) (simp add: conn_disconnect_def ids_def)
qed (auto simp: conn_disconnect_def)

lemma remove_ok:
  assumes "table_ok st (add_mset (i, t) keys)"
  shows "table_ok (conn_remove st i) keys \<and> cs_max (conn_remove st i) = cs_max st \<and>
    cs_disconnected (conn_remove st i) = cs_disconnected st \<and>
    cs_cancelled (conn_remove st i) = cs_cancelled st \<and> i \<in> ids st \<and>
    requests_of (conn_remove st i) = (ids st - {i}, doomed st - {i})"
proof -
  let ?P = "\<lambda>(k, _ :: nat). k \<noteq> i"
  have keys: "mset (cs_active st) = add_mset (i, t) keys" and dist: "distinct (map fst (cs_active st))"
    using assms by (simp_all add: table_ok_def)
  then have "mset (map fst (cs_active st)) = add_mset i (image_mset fst keys)" by simp
  with dist have "count (add_mset i (image_mset fst keys)) i = 1"
    unfolding distinct_count_atmost_1 by (metis set_mset_mset union_single_eq_member add_mset_add_single)
  then have notin: "i \<notin># image_mset fst keys" unfolding not_in_iff by simp
  have "filter_mset ?P keys = keys"
  proof (rule filter_mset_eq_conv [THEN iffD2], intro conjI)
    show "\<forall>x \<in># keys. ?P x" using notin by force
  qed simp_all
  then have "mset (filter ?P (cs_active st)) = keys" using keys by simp
  moreover have "i \<in> ids st"
  proof -
    have "(i, t) \<in># mset (cs_active st)" using keys by simp
    then show ?thesis by (force simp: ids_def)
  qed
  moreover have "distinct (map fst (filter ?P (cs_active st)))" "distinct (map snd (filter ?P (cs_active st)))"
    using assms by (simp_all add: table_ok_def distinct_map_filter)
  moreover have "length (filter ?P (cs_active st)) \<le> cs_max st"
    using assms by (intro order_trans [OF length_filter_le]) (simp add: table_ok_def)
  ultimately show ?thesis
    using assms by (auto simp: table_ok_def conn_remove_def requests_of_def ids_def doomed_def)
qed

subsection \<open>What a line does\<close>

definition job_key :: "job \<Rightarrow> string \<times> nat" where
  "job_key j = (req_id (jb_request j), jb_token j)"

definition same_sched :: "scheduler \<Rightarrow> scheduler \<Rightarrow> bool" where
  "same_sched sd sd' \<longleftrightarrow> sd_queue sd' = sd_queue sd \<and> sd_depth sd' = sd_depth sd \<and>
     rs_queued (sd_stats sd') = rs_queued (sd_stats sd) \<and> rs_active (sd_stats sd') = rs_active (sd_stats sd) \<and>
     rs_connections (sd_stats sd') = rs_connections (sd_stats sd)"

text \<open>It submits the jobs \<open>js\<close> (one or none) and performs one registry operation.\<close>

definition handled ::
    "nat \<Rightarrow> (string \<times> nat) multiset \<Rightarrow> connection_state \<Rightarrow> scheduler \<Rightarrow> connection_state \<Rightarrow> scheduler \<Rightarrow> job list \<Rightarrow> bool" where
  "handled c keys st sd st' sd' js \<longleftrightarrow>
     sd_queue sd' = sd_queue sd @ js \<and> sd_depth sd' = sd_depth sd \<and>
     (js = [] \<or> length (sd_queue sd') \<le> sd_depth sd) \<and> (\<forall>j \<in> set js. jb_conn j = c) \<and>
     rs_queued (sd_stats sd') = rs_queued (sd_stats sd) + length js \<and>
     rs_active (sd_stats sd') = rs_active (sd_stats sd) \<and>
     rs_connections (sd_stats sd') = rs_connections (sd_stats sd) \<and>
     table_ok st' (keys + image_mset job_key (mset js)) \<and> cs_max st' = cs_max st \<and>
     registry_op (cs_max st) (requests_of st) (requests_of st')"

lemma same_sched_forced [simp]: "same_sched sd (count_forced st sd)"
  by (simp add: same_sched_def count_forced_def)

lemma same_sched_refl [simp]: "same_sched sd sd"
  by (simp add: same_sched_def)

lemma same_sched_trans: "same_sched a b \<Longrightarrow> same_sched b c \<Longrightarrow> same_sched a c"
  by (simp add: same_sched_def)

lemma handled_nothing:
  "table_ok st1 keys \<Longrightarrow> cs_max st1 = cs_max st \<Longrightarrow> registry_op (cs_max st) (requests_of st) (requests_of st1) \<Longrightarrow>
     same_sched sd sd1 \<Longrightarrow> handled c keys st sd st1 sd1 []"
  by (simp add: handled_def same_sched_def)

lemma handled_drop:
  assumes "table_ok st1 keys" and "cs_max st1 = cs_max st" and "ids st1 = ids st" and "same_sched sd sd1"
  shows "handled c keys st sd (conn_disconnect st1) sd1 []"
  using disconnect_ok [OF assms(1)] assms
  by (intro handled_nothing) (simp_all add: requests_of_def op_drop)

lemma handled_reply:
  assumes "table_ok st1 keys" and "cs_max st1 = cs_max st" and "ids st1 = ids st"
    and "registry_op (cs_max st) (requests_of st) (requests_of st1)" and "same_sched sd sd1"
    and "reply env f st1 sd1 = (goes_on, fs, st', sd')"
  shows "\<exists>js. handled c keys st sd st' sd' js"
proof (cases "le_sent env f")
  case True
  with assms show ?thesis by (intro exI [of _ "[]"] handled_nothing) (simp_all add: reply_def)
next
  case False
  then have "st' = conn_disconnect st1" "sd' = count_forced st1 sd1" using assms(6) by (simp_all add: reply_def)
  with handled_drop [OF assms(1,2,3) same_sched_trans [OF assms(5) same_sched_forced]] show ?thesis by auto
qed

lemma handled_close:
  "table_ok st keys \<Longrightarrow> close_after env e st sd = (goes_on, fs, st', sd') \<Longrightarrow> \<exists>js. handled c keys st sd st' sd' js"
  using handled_drop [of st keys st sd "count_forced st sd" c] by (auto simp: close_after_def Let_def)

lemma submit_effect:
  "submit j sd = (True, sd') \<Longrightarrow> length (sd_queue sd) < sd_depth sd \<and> sd_queue sd' = sd_queue sd @ [j] \<and>
     sd_depth sd' = sd_depth sd \<and> rs_queued (sd_stats sd') = rs_queued (sd_stats sd) + 1 \<and>
     rs_active (sd_stats sd') = rs_active (sd_stats sd) \<and> rs_connections (sd_stats sd') = rs_connections (sd_stats sd)"
  "submit j sd = (False, sd') \<Longrightarrow> same_sched sd sd'"
  by (auto simp: submit_def Let_def same_sched_def split: if_splits)

lemma submit_request_effect:
  assumes "table_ok st keys" and "submit_request cfg env c req timeout st sd = (goes_on, fs, st', sd')"
  shows "\<exists>js. handled c keys st sd st' sd' js"
proof (cases "conn_register st (req_id req)")
  case (Pair r st1)
  show ?thesis
  proof (cases r)
    case (Inl e)
    then have "st1 = st" using Pair by (auto simp: conn_register_def split: if_splits)
    with Inl Pair assms handled_close [OF assms(1)] show ?thesis by (auto simp: submit_request_def)
  next
    case (Inr token)
    note reg = register_ok [OF assms(1) Pair [unfolded Inr]]
    let ?skip = "st\<lparr>cs_next := cs_next st + 1\<rparr>"
    have skip: "table_ok ?skip keys" "ids ?skip = ids st"
        "registry_op (cs_max st) (requests_of st) (requests_of ?skip)"
      using skip_token_ok(1) [OF assms(1)] skip_token_ok(2) [of st] by (simp_all add: op_same ids_def)
    have removed: "conn_remove st1 (req_id req) = ?skip" using reg by simp
    show ?thesis
    proof (cases "le_deadline env timeout")
      case None
      then have "reply env (frame_error (Some (req_id req)) 0 (bad_request ''timeout_ms overflows deadline'')) ?skip sd =
          (goes_on, fs, st', sd')"
        using assms(2) Pair Inr removed by (simp add: submit_request_def)
      from handled_reply [OF skip(1) _ skip(2,3) same_sched_refl this] show ?thesis by auto
    next
      case (Some d)
      let ?j = "\<lparr>jb_conn = c, jb_request = req, jb_token = token, jb_deadline = d, jb_max_bytes = rc_max_frame_bytes cfg\<rparr>"
      obtain ok sd1 where sub: "submit ?j sd = (ok, sd1)" by (cases "submit ?j sd")
      show ?thesis
      proof (cases ok)
        case True
        then have "st' = st1" "sd' = sd1"
          using assms(2) Pair Inr Some sub by (simp_all add: submit_request_def)
        with submit_effect(1) [of ?j sd sd1] sub True reg have "handled c keys st sd st' sd' [?j]"
          by (simp add: handled_def job_key_def)
        then show ?thesis by blast
      next
        case False
        then have "reply env (frame_error (Some (req_id req)) 0
            (protocol_error_new EQueueFull ''query queue is full'' (json_obj []) True)) ?skip sd1 = (goes_on, fs, st', sd')"
          using assms(2) Pair Inr Some sub removed by (simp add: submit_request_def)
        moreover have "same_sched sd sd1" using submit_effect(2) [of ?j sd sd1] sub False by simp
        ultimately show ?thesis using handled_reply [OF skip(1) _ skip(2,3)] by simp
      qed
    qed
  qed
qed

lemma handle_line_effect:
  assumes "table_ok st keys" and "handle_line cfg env c line st sd = (goes_on, fs, st', sd')"
  shows "\<exists>js. handled c keys st sd st' sd' js"
proof -
  obtain doc trailing where doc: "le_parse env line = (doc, trailing)" by (cases "le_parse env line")
  show ?thesis
  proof (cases "decode_request_with_active (le_disp env) doc trailing (is_active st)")
    case (Inl e)
    with assms(2) doc handled_close [OF assms(1)] show ?thesis by (auto simp: handle_line_def)
  next
    case (Inr req)
    show ?thesis
    proof (cases "\<exists>target. req_method req = MCancel target")
      case True
      then obtain target where target: "req_method req = MCancel target" by blast
      obtain found st1 where can: "conn_cancel st target = (found, st1)" by (cases "conn_cancel st target")
      note c1 = cancel_ok [OF assms(1) can]
      have op: "registry_op (cs_max st) (requests_of st) (requests_of st1)"
        using c1 op_cancel [of target "ids st"] op_same
        by (cases "target \<in> ids st") (simp_all add: requests_of_def insert_commute)
      have "reply env (frame_result (req_id req) (json_obj [(''found'', JBool found)])) st1 sd = (goes_on, fs, st', sd')"
        using assms(2) doc Inr target can by (simp add: handle_line_def)
      from handled_reply [OF _ _ _ op same_sched_refl this] c1 show ?thesis by (auto simp: requests_of_def)
    next
      case False
      then have run: "(case effective_timeout_ms (req_method req) (rc_max_timeout_ms cfg) of
          Inl e \<Rightarrow> reply env (frame_error (Some (req_id req)) 0 e) st sd
        | Inr timeout \<Rightarrow> submit_request cfg env c req timeout st sd) = (goes_on, fs, st', sd')"
        using assms(2) doc Inr by (cases "req_method req") (simp_all add: handle_line_def)
      show ?thesis
      proof (cases "effective_timeout_ms (req_method req) (rc_max_timeout_ms cfg)")
        case (Inl e)
        with run handled_reply [OF assms(1) refl refl op_same same_sched_refl] show ?thesis by auto
      next
        case (Inr timeout)
        with run submit_request_effect [OF assms(1)] show ?thesis by auto
      qed
    qed
  qed
qed

lemma disconnect_twice [simp]: "conn_disconnect (conn_disconnect st) = conn_disconnect st"
  by (simp add: conn_disconnect_def)

lemma handle_line_stops:
  assumes "handle_line cfg env c line st sd = (False, fs, st', sd')"
  shows "conn_disconnect st' = st'"
proof -
  have submitted: "conn_disconnect st' = st'"
    if "submit_request cfg env c req timeout st sd = (False, fs, st', sd')" for req timeout
    using that by (auto simp: submit_request_def reply_def close_after_def Let_def
        split: prod.splits sum.splits option.splits bool.splits if_splits)
  with assms show ?thesis
    by (auto simp: handle_line_def reply_def close_after_def Let_def
        split: prod.splits sum.splits request_method.splits if_splits)
qed

subsection \<open>The invariant of the runtime\<close>

definition conn_ok :: "nat \<Rightarrow> connection \<Rightarrow> (string \<times> nat) multiset \<Rightarrow> bool" where
  "conn_ok max_active cn keys \<longleftrightarrow>
     table_ok (cn_state cn) keys \<and> cs_max (cn_state cn) = max_active \<and>
     (\<not> cn_open cn \<longrightarrow> cn_lines cn = [] \<and> snd ` set (cs_active (cn_state cn)) \<subseteq> cs_cancelled (cn_state cn)) \<and>
     (cn_released cn \<longrightarrow> \<not> cn_open cn \<and> keys = {#})"

definition conn_keys :: "nat \<Rightarrow> runtime \<Rightarrow> (string \<times> nat) multiset" where
  "conn_keys c rt = image_mset job_key {#j \<in># mset (live_jobs rt). jb_conn j = c#}"

definition unreleased :: "runtime \<Rightarrow> nat" where
  "unreleased rt = length (filter Not (map cn_released (rt_conns rt)))"

definition sched_ok :: "runtime_config \<Rightarrow> runtime \<Rightarrow> bool" where
  "sched_ok cfg rt \<longleftrightarrow>
     rt_config rt = cfg \<and> sd_depth (rt_sched rt) = rc_queue_depth cfg \<and>
     length (sd_queue (rt_sched rt)) \<le> rc_queue_depth cfg \<and> length (rt_workers rt) = rc_workers cfg \<and>
     (\<forall>w. rt_holder rt = Some w \<longrightarrow> w < length (rt_workers rt) \<and> rt_workers rt ! w \<noteq> None) \<and>
     rs_queued (sd_stats (rt_sched rt)) = length (sd_queue (rt_sched rt)) \<and>
     rs_active (sd_stats (rt_sched rt)) = length (busy_jobs (rt_workers rt)) \<and>
     rs_connections (sd_stats (rt_sched rt)) = unreleased rt \<and> rt_permits rt = unreleased rt \<and>
     unreleased rt \<le> rc_max_connections cfg"

definition runtime_ok :: "runtime_config \<Rightarrow> runtime \<Rightarrow> bool" where
  "runtime_ok cfg rt \<longleftrightarrow> sched_ok cfg rt \<and>
     (\<forall>j \<in> set (live_jobs rt). jb_conn j < length (rt_conns rt)) \<and>
     (\<forall>c < length (rt_conns rt). conn_ok (rc_max_active cfg) (rt_conns rt ! c) (conn_keys c rt))"

text \<open>The live and the cancelled requests of a connection of the runtime.\<close>

definition registry :: "runtime \<Rightarrow> nat \<Rightarrow> string set \<times> string set" where
  "registry rt c = (if c < length (rt_conns rt) then requests_of (cn_state (rt_conns rt ! c)) else ({}, {}))"

definition registry_step :: "runtime_config \<Rightarrow> nat \<Rightarrow> runtime \<Rightarrow> runtime \<Rightarrow> bool" where
  "registry_step cfg c rt rt' \<longleftrightarrow>
     registry_op (rc_max_active cfg) (registry rt c) (registry rt' c) \<and>
     (\<forall>d. d \<noteq> c \<longrightarrow> registry rt' d = registry rt d)"

lemma stop_reading_ok:
  assumes "handled c keys (cn_state cn) sd st' sd' js" and "conn_disconnect st' = st'"
    and "\<not> cn_released cn" and "cs_max (cn_state cn) = m" and "cn' = stop_reading (cn1\<lparr>cn_state := st'\<rparr>)"
    and "cn_released cn1 = cn_released cn"
  shows "handled c keys (cn_state cn) sd (cn_state cn') sd' js \<and>
    conn_ok m cn' (keys + image_mset job_key (mset js)) \<and> cn_released cn' = cn_released cn"
proof -
  have st': "table_ok st' (keys + image_mset job_key (mset js))" "cs_max st' = m"
    using assms(1,4) by (simp_all add: handled_def)
  have "snd ` set (cs_active st') \<subseteq> cs_cancelled st'"
    using disconnect_ok(4) [OF st'(1)] assms(2) by simp
  with st' assms show ?thesis by (simp add: conn_ok_def stop_reading_def)
qed

lemma on_read_ok:
  assumes ok: "conn_ok m cn keys" "\<not> cn_released cn" "cn_open cn"
    and run: "on_read env shutdown r cn sd = (cn', sd')"
  shows "\<exists>js. handled c keys (cn_state cn) sd (cn_state cn') sd' js \<and>
    conn_ok m cn' (keys + image_mset job_key (mset js)) \<and> cn_released cn' = cn_released cn"
proof -
  have table: "table_ok (cn_state cn) keys" "cs_max (cn_state cn) = m" using ok(1) by (simp_all add: conn_ok_def)
  have same: "handled c keys (cn_state cn) sd (cn_state cn) sd []"
    using table by (intro handled_nothing) (simp_all add: op_same)
  have drop: "handled c keys (cn_state cn) sd (conn_disconnect (cn_state cn)) sd1 []" if "same_sched sd sd1" for sd1
    using table that by (intro handled_drop) simp_all
  have stop: ?thesis if "cn' = stop_reading cn" "sd' = sd"
    using stop_reading_ok [OF drop [OF same_sched_refl] _ ok(2) table(2), of cn' cn] that
    by (intro exI [of _ "[]"]) (simp add: stop_reading_def)
  have kept: ?thesis if "cn_state cn' = cn_state cn" "cn_open cn'" "cn_released cn' = cn_released cn" "sd' = sd"
    using that ok same by (intro exI [of _ "[]"]) (simp add: conn_ok_def)
  show ?thesis
  proof (cases r)
    case (ReadBytes bytes)
    show ?thesis
    proof (cases "push (cn_acc cn) bytes")
      case (Pair acc res)
      show ?thesis
      proof (cases res)
        case (Inl e)
        obtain on fs st sd1 where cl: "close_after env e (cn_state cn) sd = (on, fs, st, sd1)"
          by (cases "close_after env e (cn_state cn) sd") auto
        then have st: "st = conn_disconnect (cn_state cn)" "sd1 = count_forced (cn_state cn) sd"
          by (simp_all add: close_after_def Let_def)
        from run ReadBytes Pair Inl cl have "cn' = stop_reading (cn\<lparr>cn_acc := acc, cn_control := cn_control cn @ fs\<rparr>
            \<lparr>cn_state := st\<rparr>)" "sd' = sd1" by simp_all
        with stop_reading_ok [OF drop [of sd1] _ ok(2) table(2), of cn' "cn\<lparr>cn_acc := acc, cn_control := cn_control cn @ fs\<rparr>"] st
        show ?thesis by (intro exI [of _ "[]"]) simp
      next
        case (Inr frames)
        with run ReadBytes Pair ok show ?thesis by (intro kept) auto
      qed
    qed
  next
    case ReadAgain
    with run ok stop kept show ?thesis by (auto split: if_splits)
  qed (use run stop in simp_all)
qed

lemma on_line_ok:
  assumes ok: "conn_ok m cn keys" "\<not> cn_released cn" "cn_open cn"
    and run: "on_line cfg env c cn sd = (cn', sd')"
  shows "\<exists>js. handled c keys (cn_state cn) sd (cn_state cn') sd' js \<and>
    conn_ok m cn' (keys + image_mset job_key (mset js)) \<and> cn_released cn' = cn_released cn"
proof -
  have table: "table_ok (cn_state cn) keys" "cs_max (cn_state cn) = m" using ok(1) by (simp_all add: conn_ok_def)
  show ?thesis
  proof (cases "cn_lines cn")
    case Nil
    have "handled c keys (cn_state cn) sd (cn_state cn) sd []"
      using table by (intro handled_nothing) (simp_all add: op_same)
    with Nil run ok show ?thesis by (intro exI [of _ "[]"]) (auto simp: on_line_def)
  next
    case (Cons line lines)
    obtain on fs st sd1 where h: "handle_line cfg env c line (cn_state cn) sd = (on, fs, st, sd1)"
      by (cases "handle_line cfg env c line (cn_state cn) sd") auto
    then obtain js where js: "handled c keys (cn_state cn) sd st sd1 js"
      using handle_line_effect [OF table(1)] by blast
    let ?cn = "cn\<lparr>cn_lines := lines, cn_control := cn_control cn @ fs\<rparr>"
    show ?thesis
    proof (cases on)
      case True
      with run Cons h have "cn' = ?cn\<lparr>cn_state := st\<rparr>" "sd' = sd1" by (simp_all add: on_line_def Let_def)
      with js ok show ?thesis by (intro exI [of _ js]) (auto simp: conn_ok_def handled_def)
    next
      case False
      with run Cons h have "cn' = stop_reading (?cn\<lparr>cn_state := st\<rparr>)" "sd' = sd1"
        by (simp_all add: on_line_def Let_def)
      moreover have stops: "conn_disconnect st = st" using handle_line_stops [of cfg env c line _ sd fs st sd1] h False by simp
      ultimately show ?thesis
        using stop_reading_ok [OF js stops ok(2) table(2), of cn' ?cn] by (intro exI [of _ js]) auto
    qed
  qed
qed

lemma busy_jobs_nil [simp]: "busy_jobs [] = []"
  by (simp add: busy_jobs_def)

lemma busy_jobs_cons [simp]:
  "busy_jobs (None # ws) = busy_jobs ws" "busy_jobs (Some j # ws) = j # busy_jobs ws"
  by (simp_all add: busy_jobs_def)

lemma busy_jobs_start:
  "w < length ws \<Longrightarrow> ws ! w = None \<Longrightarrow>
     mset (busy_jobs (ws[w := Some j])) = add_mset j (mset (busy_jobs ws)) \<and>
     length (busy_jobs (ws[w := Some j])) = length (busy_jobs ws) + 1"
proof (induction ws arbitrary: w)
  case (Cons x ws)
  then show ?case by (cases w; cases x) auto
qed simp

lemma busy_jobs_finish:
  "w < length ws \<Longrightarrow> ws ! w = Some j \<Longrightarrow>
     add_mset j (mset (busy_jobs (ws[w := None]))) = mset (busy_jobs ws) \<and>
     length (busy_jobs ws) = length (busy_jobs (ws[w := None])) + 1"
proof (induction ws arbitrary: w)
  case (Cons x ws)
  then show ?case by (cases w; cases x) auto
qed simp

lemma filter_not_update:
  "c < length xs \<Longrightarrow> \<not> xs ! c \<Longrightarrow> length (filter Not xs) = Suc (length (filter Not (xs[c := True])))"
proof (induction xs arbitrary: c)
  case (Cons x xs)
  then show ?case by (cases c) auto
qed simp

lemma unreleased_update:
  assumes "rt_conns rt' = (rt_conns rt)[c := cn]" and "c < length (rt_conns rt)"
    and "cn_released cn = cn_released (rt_conns rt ! c)"
  shows "unreleased rt' = unreleased rt"
proof -
  have "map cn_released (rt_conns rt') = map cn_released (rt_conns rt)"
    using assms by (simp add: map_update list_update_same_conv)
  then show ?thesis by (simp only: unreleased_def)
qed

lemma update_conn:
  assumes ok: "runtime_ok cfg rt" and c: "c < length (rt_conns rt)"
    and conns: "rt_conns rt' = (rt_conns rt)[c := cn']"
    and cn: "conn_ok (rc_max_active cfg) cn' (conn_keys c rt')"
    and keys: "\<And>d. d \<noteq> c \<Longrightarrow> conn_keys d rt' = conn_keys d rt"
    and jobs: "\<forall>j \<in> set (live_jobs rt'). jb_conn j < length (rt_conns rt)"
    and op: "registry_op (rc_max_active cfg) (requests_of (cn_state (rt_conns rt ! c))) (requests_of (cn_state cn'))"
    and sched: "sched_ok cfg rt'"
  shows "runtime_ok cfg rt' \<and> registry_step cfg c rt rt'"
proof -
  have "conn_ok (rc_max_active cfg) (rt_conns rt' ! d) (conn_keys d rt')" if "d < length (rt_conns rt')" for d
    using that ok cn keys [of d] conns c by (cases "d = c") (auto simp: runtime_ok_def)
  moreover have "registry_step cfg c rt rt'"
    using op c conns by (simp add: registry_step_def registry_def)
  ultimately show ?thesis using jobs sched conns by (simp add: runtime_ok_def)
qed

text \<open>Steps that change neither the connections nor the set of live jobs.\<close>

lemma same_conns:
  assumes ok: "runtime_ok cfg rt" and conns: "rt_conns rt' = rt_conns rt"
    and jobs: "mset (live_jobs rt') = mset (live_jobs rt)" and sched: "sched_ok cfg rt'"
  shows "runtime_ok cfg rt' \<and> registry_step cfg c rt rt'"
proof -
  have "set (live_jobs rt') = set (live_jobs rt)" using jobs by (metis set_mset_mset)
  moreover have "conn_keys d rt' = conn_keys d rt" for d using jobs by (simp add: conn_keys_def)
  moreover have "registry rt' d = registry rt d" for d using conns by (simp add: registry_def)
  ultimately show ?thesis
    using ok conns sched by (simp add: runtime_ok_def registry_step_def op_same)
qed

lemma reader_turn_ok:
  assumes ok: "runtime_ok cfg rt" and run: "reader_turn turn waiting c rt = Some rt'"
    and turn: "\<And>cn cn' sd' keys. conn_ok (rc_max_active cfg) cn keys \<Longrightarrow> \<not> cn_released cn \<Longrightarrow> cn_open cn \<Longrightarrow>
      turn cn (rt_sched rt) = (cn', sd') \<Longrightarrow>
      \<exists>js. handled c keys (cn_state cn) (rt_sched rt) (cn_state cn') sd' js \<and>
        conn_ok (rc_max_active cfg) cn' (keys + image_mset job_key (mset js)) \<and> cn_released cn' = cn_released cn"
  shows "runtime_ok cfg rt' \<and> registry_step cfg c rt rt'"
proof -
  let ?cn = "rt_conns rt ! c" and ?keys = "conn_keys c rt" and ?sd = "rt_sched rt"
  have c: "c < length (rt_conns rt)" "cn_open ?cn" using run by (auto simp: reader_turn_def split: if_splits)
  obtain cn' sd' where t: "turn ?cn ?sd = (cn', sd')" by (cases "turn ?cn ?sd")
  then have rt': "rt' = set_conn c cn' (rt\<lparr>rt_sched := sd'\<rparr>)"
    using run by (auto simp: reader_turn_def split: if_splits)
  have cn: "conn_ok (rc_max_active cfg) ?cn ?keys" using ok c(1) by (simp add: runtime_ok_def)
  then have open_cn: "\<not> cn_released ?cn" using c(2) by (auto simp: conn_ok_def)
  obtain js where js: "handled c ?keys (cn_state ?cn) ?sd (cn_state cn') sd' js"
      "conn_ok (rc_max_active cfg) cn' (?keys + image_mset job_key (mset js))" "cn_released cn' = cn_released ?cn"
    using turn [OF cn open_cn c(2) t] by blast
  have live: "mset (live_jobs rt') = mset (live_jobs rt) + mset js"
    using js(1) by (simp add: live_jobs_def rt' set_conn_def handled_def)
  have mine: "\<forall>j \<in> set js. jb_conn j = c" using js(1) by (simp add: handled_def)
  then have "filter (\<lambda>j. jb_conn j = d) js = (if d = c then js else [])" for d
    by (auto simp: filter_id_conv filter_empty_conv)
  then have mine': "filter_mset (\<lambda>j. jb_conn j = d) (mset js) = (if d = c then mset js else {#})" for d
    by (metis mset.simps(1) mset_filter)
  have keys: "conn_keys d rt' = conn_keys d rt + (if d = c then image_mset job_key (mset js) else {#})" for d
    by (simp add: conn_keys_def live mine')
  have jobs: "set (live_jobs rt') = set (live_jobs rt) \<union> set js"
    using live by (metis set_mset_mset set_mset_union)
  have unrel: "unreleased rt' = unreleased rt"
    using js(3) c(1) by (intro unreleased_update [of _ _ c cn']) (simp_all add: rt' set_conn_def)
  have "sched_ok cfg rt'"
    using ok js(1) unrel by (auto simp: runtime_ok_def sched_ok_def handled_def rt' set_conn_def)
  moreover have "registry_op (rc_max_active cfg) (requests_of (cn_state ?cn)) (requests_of (cn_state cn'))"
    using js(1) cn by (simp add: handled_def conn_ok_def)
  ultimately show ?thesis
    using ok c(1) js(2) keys jobs mine
    by (intro update_conn [where cn' = cn']) (auto simp: rt' set_conn_def runtime_ok_def)
qed

lemma accept_ok:
  assumes ok: "runtime_ok cfg rt" and run: "accept_connection rt = Some rt'"
  shows "runtime_ok cfg rt' \<and> registry_step cfg c rt rt'"
proof -
  let ?cn = "new_connection cfg"
  have room: "rt_permits rt < rc_max_connections cfg"
    using ok run by (auto simp: accept_connection_def runtime_ok_def sched_ok_def split: if_splits)
  then have rt': "rt' = set_stats (\<lambda>s. s\<lparr>rs_connections := rs_connections s + 1\<rparr>)
      (rt\<lparr>rt_permits := rt_permits rt + 1, rt_conns := rt_conns rt @ [?cn]\<rparr>)"
    using ok run by (auto simp: accept_connection_def runtime_ok_def sched_ok_def split: if_splits)
  have live: "live_jobs rt' = live_jobs rt" by (simp add: live_jobs_def rt' set_stats_def)
  then have keys: "conn_keys d rt' = conn_keys d rt" for d by (simp add: conn_keys_def)
  have jobs: "\<forall>j \<in> set (live_jobs rt). jb_conn j < length (rt_conns rt)" using ok by (simp add: runtime_ok_def)
  then have none: "conn_keys (length (rt_conns rt)) rt = {#}"
    by (fastforce simp: conn_keys_def filter_empty_conv simp flip: mset_filter)
  have new: "conn_ok (rc_max_active cfg) ?cn {#}"
    by (simp add: conn_ok_def new_connection_def new_connection_state_def table_ok_def)
  have conns: "rt_conns rt' = rt_conns rt @ [?cn]" by (simp add: rt' set_stats_def)
  have "conn_ok (rc_max_active cfg) (rt_conns rt' ! d) (conn_keys d rt')" if "d < length (rt_conns rt')" for d
    using that ok new none keys conns by (cases "d < length (rt_conns rt)") (auto simp: runtime_ok_def nth_append less_Suc_eq)
  moreover have "sched_ok cfg rt'"
  proof -
    have "unreleased rt' = unreleased rt + 1" by (simp add: unreleased_def conns new_connection_def)
    with ok room show ?thesis by (auto simp: runtime_ok_def sched_ok_def rt' set_stats_def)
  qed
  moreover have "registry rt' d = registry rt d" for d
    by (auto simp: registry_def conns nth_append less_Suc_eq new_connection_def requests_of_def ids_def
        doomed_def new_connection_state_def)
  ultimately show ?thesis
    using jobs live conns by (auto simp: runtime_ok_def registry_step_def op_same)
qed

lemma drop_ok:
  assumes ok: "runtime_ok cfg rt" and run: "drop_connection c forced rt = Some rt'"
  shows "runtime_ok cfg rt' \<and> registry_step cfg c rt rt'"
proof -
  let ?cn = "rt_conns rt ! c" and ?keys = "conn_keys c rt"
  let ?cn' = "?cn\<lparr>cn_state := conn_disconnect (cn_state ?cn)\<rparr>"
  let ?sd = "if forced then count_forced (cn_state ?cn) (rt_sched rt) else rt_sched rt"
  have c: "c < length (rt_conns rt)" "\<not> cn_released ?cn" and rt': "rt' = set_conn c ?cn' (rt\<lparr>rt_sched := ?sd\<rparr>)"
    using run by (auto simp: drop_connection_def Let_def split: if_splits)
  have same: "same_sched (rt_sched rt) ?sd" by simp
  have live: "live_jobs rt' = live_jobs rt" using same by (simp add: live_jobs_def rt' set_conn_def same_sched_def)
  have cn: "conn_ok (rc_max_active cfg) ?cn ?keys" using ok c(1) by (simp add: runtime_ok_def)
  then have "table_ok (cn_state ?cn) ?keys" by (simp add: conn_ok_def)
  note dis = disconnect_ok [OF this]
  have "unreleased rt' = unreleased rt"
    using c(1) by (intro unreleased_update [of _ _ c ?cn']) (simp_all add: rt' set_conn_def)
  then have "sched_ok cfg rt'"
    using ok same by (auto simp: runtime_ok_def sched_ok_def rt' set_conn_def same_sched_def)
  moreover have "conn_ok (rc_max_active cfg) ?cn' (conn_keys c rt')"
    using cn dis by (simp add: conn_ok_def conn_keys_def live)
  moreover have "registry_op (rc_max_active cfg) (requests_of (cn_state ?cn)) (requests_of (cn_state ?cn'))"
    using dis(2) by (simp add: requests_of_def op_drop)
  ultimately show ?thesis
    using ok c(1) live by (intro update_conn [where cn' = ?cn']) (auto simp: rt' set_conn_def runtime_ok_def conn_keys_def live)
qed

lemma close_ok:
  assumes ok: "runtime_ok cfg rt" and run: "close_connection c rt = Some rt'"
  shows "runtime_ok cfg rt' \<and> registry_step cfg c rt rt'"
proof -
  let ?cn = "rt_conns rt ! c" and ?cn' = "(rt_conns rt ! c)\<lparr>cn_released := True\<rparr>"
  have c: "c < length (rt_conns rt)" "\<not> cn_open ?cn" "\<not> cn_released ?cn"
    and idle: "\<forall>j \<in> set (live_jobs rt). jb_conn j \<noteq> c"
    and rt': "rt' = set_stats (\<lambda>s. s\<lparr>rs_connections := rs_connections s - 1\<rparr>)
      (set_conn c ?cn' (rt\<lparr>rt_permits := rt_permits rt - 1\<rparr>))"
    using run by (auto simp: close_connection_def split: if_splits)
  have live: "live_jobs rt' = live_jobs rt" by (simp add: live_jobs_def rt' set_conn_def set_stats_def)
  have none: "conn_keys c rt = {#}"
    using idle by (fastforce simp: conn_keys_def filter_empty_conv simp flip: mset_filter)
  have "conn_ok (rc_max_active cfg) ?cn (conn_keys c rt)" using ok c(1) by (simp add: runtime_ok_def)
  then have "conn_ok (rc_max_active cfg) ?cn' (conn_keys c rt')"
    using c(2) none by (simp add: conn_ok_def conn_keys_def live)
  moreover have "sched_ok cfg rt'"
  proof -
    have "Suc (unreleased rt') = unreleased rt"
      using filter_not_update [of c "map cn_released (rt_conns rt)"] c
      by (simp add: unreleased_def rt' set_conn_def set_stats_def map_update)
    with ok show ?thesis by (auto simp: runtime_ok_def sched_ok_def rt' set_conn_def set_stats_def)
  qed
  ultimately show ?thesis
    using ok c(1) live
    by (intro update_conn [where cn' = ?cn']) (auto simp: rt' set_conn_def set_stats_def runtime_ok_def conn_keys_def live op_same)
qed

lemma start_ok:
  assumes ok: "runtime_ok cfg rt" and run: "start_job w rt = Some rt'"
  shows "runtime_ok cfg rt' \<and> registry_step cfg c rt rt'"
proof -
  have w: "w < length (rt_workers rt)" "rt_workers rt ! w = None" using run by (auto simp: start_job_def split: if_splits)
  obtain j js where q: "sd_queue (rt_sched rt) = j # js"
    and rt': "rt' = set_stats (\<lambda>s. s\<lparr>rs_queued := rs_queued s - 1, rs_active := rs_active s + 1\<rparr>)
      (rt\<lparr>rt_sched := (rt_sched rt)\<lparr>sd_queue := js\<rparr>, rt_workers := (rt_workers rt)[w := Some j]\<rparr>)"
    using run by (auto simp: start_job_def split: if_splits list.splits)
  have "unreleased rt' = unreleased rt" by (simp add: unreleased_def rt' set_stats_def)
  then have "sched_ok cfg rt'"
    using ok q busy_jobs_start [OF w, of j] w
    by (auto simp: runtime_ok_def sched_ok_def rt' set_stats_def nth_list_update)
  moreover have "mset (live_jobs rt') = mset (live_jobs rt)"
    using q busy_jobs_start [OF w, of j] by (simp add: live_jobs_def rt' set_stats_def)
  ultimately show ?thesis using ok by (intro same_conns) (simp_all add: rt' set_stats_def)
qed

lemma permit_ok:
  assumes ok: "runtime_ok cfg rt" and run: "acquire_permit w rt = Some rt' \<or> release_permit w rt = Some rt'"
  shows "runtime_ok cfg rt' \<and> registry_step cfg c rt rt'"
proof -
  obtain h where rt': "rt' = rt\<lparr>rt_holder := h\<rparr>"
    and h: "h = None \<or> h = Some w \<and> w < length (rt_workers rt) \<and> rt_workers rt ! w \<noteq> None"
    using run by (auto simp: acquire_permit_def release_permit_def split: if_splits)
  have "sched_ok cfg rt'" using ok h by (auto simp: runtime_ok_def sched_ok_def rt' unreleased_def)
  then show ?thesis using ok by (intro same_conns) (simp_all add: rt' live_jobs_def)
qed

lemma finish_ok:
  assumes ok: "runtime_ok cfg rt" and run: "finish_job w panicked rt = Some rt'"
  shows "\<exists>j. rt_workers rt ! w = Some j \<and> runtime_ok cfg rt' \<and> registry_step cfg (jb_conn j) rt rt'"
proof -
  have w: "w < length (rt_workers rt)" "rt_holder rt \<noteq> Some w" using run by (auto simp: finish_job_def split: if_splits)
  obtain j where j: "rt_workers rt ! w = Some j" using run by (auto simp: finish_job_def split: if_splits option.splits)
  let ?c = "jb_conn j" and ?i = "req_id (jb_request j)"
  let ?cn = "rt_conns rt ! ?c"
  let ?cn' = "?cn\<lparr>cn_state := conn_remove (cn_state ?cn) ?i\<rparr>"
  have rt': "rt' = set_stats (\<lambda>s. s\<lparr>rs_active := rs_active s - 1, rs_completed := rs_completed s + 1,
        rs_panicked := (if panicked then rs_panicked s + 1 else rs_panicked s)\<rparr>)
      (set_conn ?c ?cn' (rt\<lparr>rt_workers := (rt_workers rt)[w := None]\<rparr>))"
    using run j w by (simp add: finish_job_def Let_def)
  note busy = busy_jobs_finish [OF w(1) j]
  have live: "mset (live_jobs rt) = add_mset j (mset (live_jobs rt'))"
    using busy by (simp add: live_jobs_def rt' set_conn_def set_stats_def flip: busy)
  have jobs: "set (live_jobs rt) = insert j (set (live_jobs rt'))"
    using live by (metis set_mset_add_mset_insert set_mset_mset)
  have c: "?c < length (rt_conns rt)" using ok jobs by (simp add: runtime_ok_def)
  have keys: "conn_keys d rt = (if d = ?c then add_mset (job_key j) (conn_keys d rt') else conn_keys d rt')" for d
    by (auto simp: conn_keys_def live)
  have cn: "conn_ok (rc_max_active cfg) ?cn (conn_keys ?c rt)" using ok c by (simp add: runtime_ok_def)
  then have "table_ok (cn_state ?cn) (add_mset (?i, jb_token j) (conn_keys ?c rt'))"
    using keys [of ?c] by (simp add: conn_ok_def job_key_def)
  note rem = remove_ok [OF this]
  have unrel: "unreleased rt' = unreleased rt"
    using c by (intro unreleased_update [of _ _ ?c ?cn']) (simp_all add: rt' set_conn_def set_stats_def)
  have "sched_ok cfg rt'"
    using ok busy w j unrel by (auto simp: runtime_ok_def sched_ok_def rt' set_conn_def set_stats_def nth_list_update)
  moreover have "conn_ok (rc_max_active cfg) ?cn' (conn_keys ?c rt')"
    using cn rem keys [of ?c] by (auto simp: conn_ok_def conn_remove_def)
  moreover have "registry_op (rc_max_active cfg) (requests_of (cn_state ?cn)) (requests_of (cn_state ?cn'))"
    using rem by (simp add: requests_of_def op_finish)
  ultimately have "runtime_ok cfg rt' \<and> registry_step cfg ?c rt rt'"
    using ok c jobs keys
    by (intro update_conn [where cn' = ?cn']) (auto simp: rt' set_conn_def set_stats_def runtime_ok_def)
  with j show ?thesis by blast
qed

lemma reader_ok:
  assumes "runtime_ok cfg rt"
    and "runtime_next (Read c env shutdown r) rt = Some rt' \<or> runtime_next (Line c env) rt = Some rt'"
  shows "runtime_ok cfg rt' \<and> registry_step cfg c rt rt'"
  using assms(2)
proof
  assume "runtime_next (Read c env shutdown r) rt = Some rt'"
  then have "reader_turn (on_read env shutdown r) True c rt = Some rt'" by simp
  then show ?thesis by (rule reader_turn_ok [OF assms(1)]) (rule on_read_ok)
next
  assume "runtime_next (Line c env) rt = Some rt'"
  then have "reader_turn (on_line (rt_config rt) env c) False c rt = Some rt'" by simp
  then show ?thesis by (rule reader_turn_ok [OF assms(1)]) (rule on_line_ok)
qed

lemma step_ok:
  assumes "runtime_ok cfg rt" and "runtime_next ev rt = Some rt'"
  shows "runtime_ok cfg rt'"
proof (cases ev)
  case Accept
  with assms accept_ok [of cfg rt rt' 0] show ?thesis by simp
next
  case (Read c env shutdown r)
  with assms reader_ok show ?thesis by blast
next
  case (Line c env)
  with assms reader_ok show ?thesis by blast
next
  case (Finish w panicked)
  with assms finish_ok show ?thesis by fastforce
next
  case (Drop c forced)
  with assms drop_ok show ?thesis by fastforce
next
  case (Close c)
  with assms close_ok show ?thesis by fastforce
next
  case (Start w)
  with assms start_ok [of cfg rt w rt' 0] show ?thesis by simp
next
  case (Acquire w)
  with assms permit_ok [of cfg rt w rt' 0] show ?thesis by simp
next
  case (Release w)
  with assms permit_ok [of cfg rt w rt' 0] show ?thesis by simp
qed

lemma busy_jobs_idle [simp]: "busy_jobs (replicate n None) = []"
  by (induction n) simp_all

lemma busy_jobs_length: "length (busy_jobs ws) \<le> length ws"
proof (induction ws)
  case (Cons w ws)
  then show ?case by (cases w) simp_all
qed simp

lemma reachable_ok: "reachable cfg rt \<Longrightarrow> runtime_ok cfg rt"
proof (induction rule: reachable.induct)
  case reachable_new
  show ?case
    by (simp add: runtime_ok_def sched_ok_def new_runtime_def unreleased_def live_jobs_def)
qed (rule step_ok)

lemma live_ids:
  assumes "runtime_ok cfg rt" and "c < length (rt_conns rt)"
  shows "mset (map job_key (filter (\<lambda>j. jb_conn j = c) (live_jobs rt))) = mset (cs_active (cn_state (rt_conns rt ! c)))"
  using assms by (auto simp: runtime_ok_def conn_ok_def table_ok_def conn_keys_def)

text \<open>How each event changes the registry.\<close>

lemma registry_simps [simp]:
  "c < length (rt_conns rt) \<Longrightarrow> registry (set_conn c cn rt) = (registry rt)(c := requests_of (cn_state cn))"
  "registry (set_stats f rt) = registry rt"
  "registry (rt\<lparr>rt_sched := sd\<rparr>) = registry rt" "registry (rt\<lparr>rt_workers := ws\<rparr>) = registry rt"
  "registry (rt\<lparr>rt_holder := h\<rparr>) = registry rt" "registry (rt\<lparr>rt_permits := k\<rparr>) = registry rt"
  by (auto simp: registry_def set_conn_def set_stats_def fun_eq_iff)

lemma registry_new [simp]: "registry (new_runtime cfg) = (\<lambda>_. ({}, {}))"
  by (simp add: registry_def new_runtime_def fun_eq_iff)

text \<open>The jobs of a connection and its table.\<close>

lemma live_table:
  assumes ok: "runtime_ok cfg rt" and c: "c < length (rt_conns rt)"
    and jobs: "jobs = filter (\<lambda>j. jb_conn j = c) (live_jobs rt)" and st: "st = cn_state (rt_conns rt ! c)"
  shows "distinct (map (\<lambda>j. req_id (jb_request j)) jobs) \<and> length jobs \<le> rc_max_active cfg \<and>
    set (map (\<lambda>j. req_id (jb_request j)) jobs) = {i. is_active st i} \<and>
    (if cn_released (rt_conns rt ! c) then jobs = [] else True) \<and>
    (if cn_open (rt_conns rt ! c) then True else jb_token ` set jobs \<subseteq> cs_cancelled st)"
proof -
  have keys: "mset (map job_key jobs) = mset (cs_active st)" unfolding jobs st by (rule live_ids [OF ok c])
  have cn: "conn_ok (rc_max_active cfg) (rt_conns rt ! c) (mset (map job_key jobs))"
    using ok c by (simp add: runtime_ok_def conn_keys_def jobs)
  have "mset (map (\<lambda>j. req_id (jb_request j)) jobs) = mset (map fst (map job_key jobs))"
    by (simp only: map_map comp_def job_key_def fst_conv)
  also have "\<dots> = mset (map fst (cs_active st))"
    using keys by (metis mset_map)
  finally have names: "mset (map (\<lambda>j. req_id (jb_request j)) jobs) = mset (map fst (cs_active st))" .
  have "distinct (map fst (cs_active st))" using cn by (simp add: conn_ok_def table_ok_def st)
  then have "distinct (map (\<lambda>j. req_id (jb_request j)) jobs)"
    using names by (metis mset_eq_imp_distinct_iff)
  moreover have "set (map (\<lambda>j. req_id (jb_request j)) jobs) = set (map fst (cs_active st))"
    using names by (rule mset_eq_setD)
  moreover have "length jobs \<le> rc_max_active cfg"
    using cn keys unfolding st by (metis conn_ok_def length_map mset_eq_length table_ok_def)
  moreover have "set (cs_active st) = job_key ` set jobs"
    using mset_eq_setD [OF keys] by simp
  then have "jb_token ` set jobs = snd ` set (cs_active st)" by (simp add: image_image job_key_def)
  moreover have "jobs = []" if "cn_released (rt_conns rt ! c)"
    using cn that by (simp add: conn_ok_def)
  ultimately show ?thesis using cn by (auto simp: is_active_ids ids_def conn_ok_def st)
qed

lemma drop_registry:
  assumes ok: "runtime_ok cfg rt" and run: "drop_connection c forced rt = Some rt'"
  shows "registry rt' = (registry rt)(c := (fst (registry rt c), fst (registry rt c)))"
proof -
  have c: "c < length (rt_conns rt)" using run by (simp add: drop_connection_def split: if_splits)
  with ok have "table_ok (cn_state (rt_conns rt ! c)) (conn_keys c rt)" by (simp add: runtime_ok_def conn_ok_def)
  from disconnect_ok(2) [OF this] run c show ?thesis
    by (auto simp: drop_connection_def Let_def registry_def [of rt c] requests_of_def split: if_splits)
qed

lemma finish_registry:
  assumes ok: "runtime_ok cfg rt" and run: "finish_job w panicked rt = Some rt'"
  shows "case rt_workers rt ! w of
      Some j \<Rightarrow> (let c = jb_conn j; i = req_id (jb_request j) in
        i \<in> fst (registry rt c) \<and>
        registry rt' = (registry rt)(c := (fst (registry rt c) - {i}, snd (registry rt c) - {i})))
    | None \<Rightarrow> False"
proof -
  obtain j where j: "rt_workers rt ! w = Some j" "w < length (rt_workers rt)" "rt_holder rt \<noteq> Some w"
    using run by (auto simp: finish_job_def split: if_splits option.splits)
  then have live: "j \<in> set (live_jobs rt)"
    using busy_jobs_finish [OF j(2,1)] by (metis live_jobs_def UnCI set_append set_mset_mset union_single_eq_member)
  then have c: "jb_conn j < length (rt_conns rt)" using ok by (simp add: runtime_ok_def)
  have "job_key j \<in># conn_keys (jb_conn j) rt" using live by (auto simp: conn_keys_def)
  then obtain M where M: "conn_keys (jb_conn j) rt = add_mset (job_key j) M" by (meson multi_member_split)
  with ok c have "table_ok (cn_state (rt_conns rt ! jb_conn j)) (add_mset (req_id (jb_request j), jb_token j) M)"
    by (auto simp: runtime_ok_def conn_ok_def job_key_def)
  from remove_ok [OF this] run c j show ?thesis
    by (auto simp: finish_job_def Let_def registry_def [of rt "jb_conn j"] requests_of_def)
qed

subsection \<open>Properties\<close>

text \<open>
  C29. In every reachable state of the runtime: the queue, the busy workers, the connections and the
  active requests of each connection are within their configured bounds; only a worker with a job
  holds the scan permit; the counters of queued and active jobs and of connections are exact; on
  each connection the live jobs have different ids, which are exactly the active ids of its table; a
  released connection has no live jobs; and once its reader has stopped, all its live jobs are
  cancelled.
\<close>

theorem runtime_invariant:
  assumes "reachable cfg rt"
  shows "length (sd_queue (rt_sched rt)) \<le> rc_queue_depth cfg \<and>
    length (busy_jobs (rt_workers rt)) \<le> rc_workers cfg \<and>
    unreleased rt \<le> rc_max_connections cfg \<and>
    (case rt_holder rt of Some w \<Rightarrow> w < rc_workers cfg \<and> rt_workers rt ! w \<noteq> None | None \<Rightarrow> True) \<and>
    rs_queued (sd_stats (rt_sched rt)) = length (sd_queue (rt_sched rt)) \<and>
    rs_active (sd_stats (rt_sched rt)) = length (busy_jobs (rt_workers rt)) \<and>
    rs_connections (sd_stats (rt_sched rt)) = unreleased rt \<and>
    (let jobs = filter (\<lambda>j. jb_conn j = c) (live_jobs rt); names = map (\<lambda>j. req_id (jb_request j)) jobs in
       if c < length (rt_conns rt) then
         distinct names \<and> length jobs \<le> rc_max_active cfg \<and>
         set names = {i. is_active (cn_state (rt_conns rt ! c)) i} \<and>
         (if cn_released (rt_conns rt ! c) then jobs = [] else True) \<and>
         (if cn_open (rt_conns rt ! c) then True
          else jb_token ` set jobs \<subseteq> cs_cancelled (cn_state (rt_conns rt ! c)))
       else jobs = [])"
proof -
  let ?jobs = "filter (\<lambda>j. jb_conn j = c) (live_jobs rt)" and ?st = "cn_state (rt_conns rt ! c)"
  have ok: "runtime_ok cfg rt" using assms by (rule reachable_ok)
  then have sched: "sched_ok cfg rt" by (simp add: runtime_ok_def)
  note table = live_table [OF ok _ refl refl]
  have none: "?jobs = []" if "\<not> c < length (rt_conns rt)"
    using ok that by (auto simp: runtime_ok_def filter_empty_conv)
  have holder: "case rt_holder rt of Some w \<Rightarrow> w < rc_workers cfg \<and> rt_workers rt ! w \<noteq> None | None \<Rightarrow> True"
    using sched by (auto simp: sched_ok_def split: option.split)
  have busy: "length (busy_jobs (rt_workers rt)) \<le> rc_workers cfg"
    using sched busy_jobs_length [of "rt_workers rt"] by (simp add: sched_ok_def)
  have last: "if c < length (rt_conns rt) then
      distinct (map (\<lambda>j. req_id (jb_request j)) ?jobs) \<and> length ?jobs \<le> rc_max_active cfg \<and>
      set (map (\<lambda>j. req_id (jb_request j)) ?jobs) = {i. is_active ?st i} \<and>
      (if cn_released (rt_conns rt ! c) then ?jobs = [] else True) \<and>
      (if cn_open (rt_conns rt ! c) then True else jb_token ` set ?jobs \<subseteq> cs_cancelled ?st)
    else ?jobs = []"
    using table none by (rule if_split [THEN iffD2, OF conjI, OF impI impI])
  show ?thesis
    unfolding Let_def
    by (intro conjI; (rule busy | rule holder | rule last | use sched in \<open>simp add: sched_ok_def\<close>))
qed

text \<open>
  C30. The runtime refines a registry of live and cancelled request ids per connection: a reader turn
  performs one operation of the registry on its connection (nothing, one fresh id within the limit,
  one cancellation of a live id, or the cancellation of all), a drop cancels the live ids of its
  connection, a finished job removes its id and nothing else, and no other event changes it.
\<close>

theorem registry_refinement:
  assumes "reachable cfg rt" and "runtime_next ev rt = Some rt'"
  shows "case ev of
      Read c _ _ _ \<Rightarrow> registry_step cfg c rt rt'
    | Line c _ \<Rightarrow> registry_step cfg c rt rt'
    | Drop c _ \<Rightarrow> registry rt' = (registry rt)(c := (fst (registry rt c), fst (registry rt c)))
    | Finish w _ \<Rightarrow> (case rt_workers rt ! w of
        Some j \<Rightarrow> (let c = jb_conn j; i = req_id (jb_request j) in
          i \<in> fst (registry rt c) \<and>
          registry rt' = (registry rt)(c := (fst (registry rt c) - {i}, snd (registry rt c) - {i})))
      | None \<Rightarrow> False)
    | _ \<Rightarrow> registry rt' = registry rt"
proof -
  have ok: "runtime_ok cfg rt" using assms(1) by (rule reachable_ok)
  have same: "registry rt' = registry rt" if "\<And>c. registry_step cfg c rt rt'"
  proof
    fix d
    from that [of "Suc d"] show "registry rt' d = registry rt d" by (simp add: registry_step_def)
  qed
  show ?thesis
  proof (cases ev)
    case (Drop c forced)
    with assms(2) drop_registry [OF ok] show ?thesis by simp
  next
    case (Finish w panicked)
    with assms(2) finish_registry [OF ok, of w panicked rt'] show ?thesis by simp
  next
    case Accept
    with assms(2) accept_ok [OF ok] show ?thesis by (auto intro: same)
  next
    case (Close c)
    with assms(2) have "registry rt' = (registry rt)(c := requests_of (cn_state (rt_conns rt ! c)))"
        "c < length (rt_conns rt)"
      by (auto simp: close_connection_def split: if_splits)
    with Close show ?thesis by (auto simp: registry_def)
  next
    case (Start w)
    with assms(2) start_ok [OF ok] show ?thesis by (auto intro: same)
  next
    case (Acquire w)
    with assms(2) permit_ok [OF ok] show ?thesis by (auto intro: same)
  next
    case (Release w)
    with assms(2) permit_ok [OF ok] show ?thesis by (auto intro: same)
  next
    case (Read c env shutdown r)
    with assms(2) reader_ok [OF ok, of c env shutdown r rt'] show ?thesis by simp
  next
    case (Line c env)
    with assms(2) reader_ok [OF ok, of c env _ _ rt'] show ?thesis by simp
  qed
qed

subsection \<open>A run\<close>

definition sample_ping :: request where
  "sample_ping = \<lparr>req_id = ''r1'', req_method = MPing\<rparr>"

definition sample_line_env :: line_env where
  "sample_line_env = \<lparr>le_parse = (\<lambda>_. (request_doc sample_ping, None)), le_disp = (\<lambda>_. []),
     le_sent = (\<lambda>_. True), le_deadline = (\<lambda>_. Some 100)\<rparr>"

definition sample_events :: "event list" where
  "sample_events = [Accept, Read 0 sample_line_env False (ReadBytes [CHR ''x'', newline]), Line 0 sample_line_env]"

lemma sample_decoded:
  "decode_request_with_active disp (request_doc sample_ping) None (is_active (new_connection_state n)) =
     Inr sample_ping"
proof -
  have "request_ok sample_ping"
    by (simp add: request_ok_def sample_ping_def id_ok_def max_request_id_bytes_def)
  from read_request [OF this] show ?thesis
    by (simp add: decode_request_with_active_def validate_inactive_def is_active_def new_connection_state_def)
qed

lemma sample_run:
  "\<exists>rt. run_events sample_events (new_runtime default_runtime) = Some rt \<and> length (sd_queue (rt_sched rt)) = 1 \<and>
     length (rt_conns rt) = 1 \<and> \<not> cn_released (rt_conns rt ! 0) \<and> fst (registry rt 0) = {''r1''}"
  by (simp add: sample_events_def new_runtime_def accept_connection_def reader_turn_def set_conn_def set_stats_def
      default_runtime_def new_connection_def push_def newline_def max_request_line_bytes_def byte_def
      on_line_def handle_line_def sample_decoded sample_line_env_def)
    (simp add: sample_ping_def effective_timeout_ms_def submit_request_def conn_register_def submit_def
      new_connection_state_def is_active_def active_count_def Let_def registry_def requests_of_def ids_def)

lemma sample_reachable:
  obtains rt where "reachable default_runtime rt" and "length (sd_queue (rt_sched rt)) = 1"
    and "length (rt_conns rt) = 1" and "\<not> cn_released (rt_conns rt ! 0)" and "fst (registry rt 0) = {''r1''}"
proof -
  obtain rt where rt: "run_events sample_events (new_runtime default_runtime) = Some rt"
      "length (sd_queue (rt_sched rt)) = 1" "length (rt_conns rt) = 1" "\<not> cn_released (rt_conns rt ! 0)"
      "fst (registry rt 0) = {''r1''}"
    using sample_run by (elim exE conjE)
  show thesis by (rule that [OF reachable_run [OF rt(1) reachable_new] rt(2-5)])
qed

lemma runtime_invariant_witness:
  "\<exists>rt. reachable default_runtime rt \<and> length (sd_queue (rt_sched rt)) = 1 \<and>
     rs_queued (sd_stats (rt_sched rt)) = 1 \<and> unreleased rt \<le> 32"
proof -
  obtain rt where rt: "reachable default_runtime rt" "length (sd_queue (rt_sched rt)) = 1"
    by (rule sample_reachable)
  from runtime_invariant [OF rt(1), of 0] have "rs_queued (sd_stats (rt_sched rt)) = length (sd_queue (rt_sched rt))"
      and "unreleased rt \<le> rc_max_connections default_runtime"
    by blast+
  with rt show ?thesis by (auto simp: default_runtime_def)
qed

text \<open>Dropping the connection of that run cancels its request.\<close>

lemma registry_refinement_witness:
  "\<exists>rt rt'. reachable default_runtime rt \<and> runtime_next (Drop 0 True) rt = Some rt' \<and>
     registry rt' = (registry rt)(0 := ({''r1''}, {''r1''}))"
proof -
  obtain rt where rt: "reachable default_runtime rt" "length (rt_conns rt) = 1" "\<not> cn_released (rt_conns rt ! 0)"
      "fst (registry rt 0) = {''r1''}"
    by (rule sample_reachable)
  obtain rt' where drop: "runtime_next (Drop 0 True) rt = Some rt'"
    using rt by (simp add: drop_connection_def Let_def)
  from registry_refinement [OF rt(1) drop] have "registry rt' = (registry rt)(0 := ({''r1''}, {''r1''}))"
    using rt(4) by (simp del: registry_simps)
  with rt drop show ?thesis by blast
qed

end
