(* ===== verification/Server_App.thy ===== *)
theory Server_App
  imports Listener Connection_Invariant
begin

text \<open>
  The assembly of the server, src/server/app.rs: the accept loop over the runtime of Connection and
  the bound socket of Listener, and the one teardown path behind it.

  The loop runs beside the connections and the workers: before its n-th moment they take the steps
  \<open>ap_events n\<close> (accepting is the loop's own step). A moment is one turn of the loop or one wait for
  a thread. \<open>ap_finished\<close>: the thread of a connection that has given back its permit has ended.
\<close>

subsection \<open>The state of the server\<close>

datatype server_event = ConnectionAccepted | ConnectionRejected | ConnectionFinished

record app_env =
  ap_listener :: listener_env
  ap_representable :: "u64 \<Rightarrow> bool"
  ap_spawn :: "io_error option"
  ap_nonblocking :: "io_error option"
  ap_events :: "nat \<Rightarrow> event list"
  ap_shutdown :: "nat \<Rightarrow> bool"
  ap_hook :: "nat \<Rightarrow> io_error option"
  ap_accept :: "nat \<Rightarrow> io_error + unit"
  ap_finished :: "nat \<Rightarrow> nat \<Rightarrow> bool"

record app_state =
  as_runtime :: runtime
  as_threads :: "nat list" \<comment> \<open>the connections whose threads have not been joined\<close>
  as_log :: "server_event list"

definition background_step :: "event \<Rightarrow> runtime \<Rightarrow> runtime" where
  "background_step ev rt =
     (if ev = Accept then rt else case runtime_next ev rt of Some rt' \<Rightarrow> rt' | None \<Rightarrow> rt)"

definition background :: "event list \<Rightarrow> runtime \<Rightarrow> runtime" where
  "background evs rt = fold background_step evs rt"

definition is_finished :: "app_env \<Rightarrow> nat \<Rightarrow> runtime \<Rightarrow> nat \<Rightarrow> bool" where
  "is_finished env n rt c \<longleftrightarrow> cn_released (rt_conns rt ! c) \<and> ap_finished env n c"

definition reap_finished :: "app_env \<Rightarrow> nat \<Rightarrow> app_state \<Rightarrow> app_state" where
  "reap_finished env n st =
     st\<lparr>as_threads := filter (\<lambda>c. \<not> is_finished env n (as_runtime st) c) (as_threads st)\<rparr>"

subsection \<open>The accept loop\<close>

text \<open>A connection is accepted: with a permit it gets a thread, without one it is dropped.\<close>

definition admit_connection :: "app_state \<Rightarrow> app_state" where
  "admit_connection st =
     (case accept_connection (as_runtime st) of
        None \<Rightarrow> st\<lparr>as_log := as_log st @ [ConnectionRejected]\<rparr>
      | Some rt \<Rightarrow> st\<lparr>as_runtime := rt, as_threads := as_threads st @ [length (rt_conns (as_runtime st))],
          as_log := as_log st @ [ConnectionAccepted]\<rparr>)"

text \<open>One turn; \<open>Some\<close>: the loop is left with this result.\<close>

definition accept_turn :: "app_env \<Rightarrow> nat \<Rightarrow> app_state \<Rightarrow> (io_error + unit) option \<times> app_state" where
  "accept_turn env n st0 =
     (let st = st0\<lparr>as_runtime := background (ap_events env n) (as_runtime st0)\<rparr> in
      if ap_shutdown env n then (Some (Inr ()), st)
      else (let st1 = reap_finished env n st in
        case ap_hook env n of
          Some e \<Rightarrow> (Some (Inl e), st1)
        | None \<Rightarrow>
            (case ap_accept env n of
               Inr _ \<Rightarrow> (None, admit_connection st1)
             | Inl e \<Rightarrow> if io_kind_of e = WouldBlock then (None, st1) else (Some (Inl e), st1))))"

partial_function (option) accept_loop ::
    "app_env \<Rightarrow> nat \<Rightarrow> app_state \<Rightarrow> ((io_error + unit) \<times> nat \<times> app_state) option" where
  "accept_loop env n st =
     (case accept_turn env n st of
        (Some r, st') \<Rightarrow> Some (r, n + 1, st')
      | (None, st') \<Rightarrow> accept_loop env (n + 1) st')"

subsection \<open>Teardown\<close>

partial_function (option) join_thread :: "app_env \<Rightarrow> nat \<Rightarrow> nat \<Rightarrow> runtime \<Rightarrow> (nat \<times> runtime) option" where
  "join_thread env c n rt =
     (let rt' = background (ap_events env n) rt in
      if is_finished env n rt' c then Some (n + 1, rt') else join_thread env c (n + 1) rt')"

fun join_all :: "app_env \<Rightarrow> nat list \<Rightarrow> nat \<Rightarrow> runtime \<Rightarrow> (nat \<times> runtime) option" where
  "join_all env [] n rt = Some (n, rt)"
| "join_all env (c # cs) n rt =
     Option.bind (join_thread env c n rt) (\<lambda>(n', rt'). join_all env cs n' rt')"

definition scheduler_new :: "app_env \<Rightarrow> runtime_config \<Rightarrow> io_error + runtime" where
  "scheduler_new env cfg =
     and_then (runtime_validate (ap_representable env) cfg) (\<lambda>_.
       case ap_spawn env of Some e \<Rightarrow> Inl e | None \<Rightarrow> Inr (new_runtime cfg))"

text \<open>
  The result with the runtime and the file system it leaves. \<open>k\<close> is the counter of temporary
  sockets; \<open>None\<close>: the server does not return.
\<close>

definition run_server_with_dispatcher ::
    "app_env \<Rightarrow> runtime_config \<Rightarrow> string \<Rightarrow> nat \<Rightarrow> listener_world
      \<Rightarrow> ((io_error + unit) \<times> runtime \<times> listener_world) option" where
  "run_server_with_dispatcher env cfg p k w =
     (case and_then (runtime_validate (ap_representable env) cfg) (\<lambda>_. scheduler_new env cfg) of
        Inl e \<Rightarrow> Some (Inl e, new_runtime cfg, w)
      | Inr rt \<Rightarrow>
          (case bind_listener (ap_listener env) p k w of
             (Inl e, w1) \<Rightarrow> Some (Inl e, rt, w1)
           | (Inr g, w1) \<Rightarrow>
               (case ap_nonblocking env of
                  Some e \<Rightarrow> Some (Inl e, rt, snd (snd (cleanup (ap_listener env) g w1)))
                | None \<Rightarrow>
                    Option.bind (accept_loop env 0 \<lparr>as_runtime = rt, as_threads = [], as_log = []\<rparr>) (\<lambda>(r, n, st).
                    Option.bind (join_all env (as_threads st) n (as_runtime st)) (\<lambda>(_, rt').
                      case cleanup (ap_listener env) g w1 of
                        (cleaned, _, w2) \<Rightarrow> Some (and_then r (\<lambda>_. cleaned), rt', w2))))))"

text \<open>\<open>e_text\<close> is the text of a service error, \<open>handler\<close> what installing the signal handler answers.\<close>

definition run_server ::
    "app_env \<Rightarrow> (protocol_error \<Rightarrow> string) \<Rightarrow> runtime_config \<Rightarrow> service_config \<Rightarrow> protocol_error + service
      \<Rightarrow> string \<Rightarrow> nat \<Rightarrow> listener_world \<Rightarrow> ((io_error + unit) \<times> runtime \<times> listener_world) option" where
  "run_server env e_text cfg limits created_service p k w =
     (case and_then (runtime_validate (ap_representable env) cfg) (\<lambda>_.
        and_then (service_validate limits) (\<lambda>_.
        map_err (\<lambda>e. io_new OtherKind (e_text e)) created_service)) of
        Inl e \<Rightarrow> Some (Inl e, new_runtime cfg, w)
      | Inr _ \<Rightarrow> run_server_with_dispatcher env cfg p k w)"

definition run_server_until_signal ::
    "app_env \<Rightarrow> string + unit \<Rightarrow> (protocol_error \<Rightarrow> string) \<Rightarrow> runtime_config \<Rightarrow> service_config
      \<Rightarrow> protocol_error + service \<Rightarrow> string \<Rightarrow> nat \<Rightarrow> listener_world
      \<Rightarrow> ((io_error + unit) \<times> runtime \<times> listener_world) option" where
  "run_server_until_signal env handler e_text cfg limits created_service p k w =
     (case handler of
        Inl e \<Rightarrow> Some (Inl (io_new OtherKind (''failed to install signal handler: '' @ e)), new_runtime cfg, w)
      | Inr _ \<Rightarrow> run_server env e_text cfg limits created_service p k w)"

subsection \<open>The steps of the others\<close>

lemma background_simps [simp]:
  "background [] rt = rt"
  "background (ev # evs) rt = background evs (background_step ev rt)"
  by (simp_all add: background_def)

text \<open>They add no connection and take no permit back.\<close>

definition keeps_released :: "runtime \<Rightarrow> runtime \<Rightarrow> bool" where
  "keeps_released rt rt' \<longleftrightarrow> length (rt_conns rt') = length (rt_conns rt) \<and>
     (\<forall>c < length (rt_conns rt). cn_released (rt_conns rt ! c) \<longrightarrow> cn_released (rt_conns rt' ! c))"

lemma keeps_released_refl [simp]: "keeps_released rt rt"
  by (simp add: keeps_released_def)

lemma keeps_released_trans:
  "keeps_released rt rt1 \<Longrightarrow> keeps_released rt1 rt2 \<Longrightarrow> keeps_released rt rt2"
  by (simp add: keeps_released_def)

lemma reader_turn_keeps:
  assumes "runtime_ok cfg rt" and "reader_turn turn waiting c rt = Some rt'"
  shows "keeps_released rt rt'"
proof -
  have "c < length (rt_conns rt)" "cn_open (rt_conns rt ! c)"
    using assms(2) by (auto simp: reader_turn_def split: if_splits)
  moreover from this have "\<not> cn_released (rt_conns rt ! c)"
    using assms(1) by (auto simp: runtime_ok_def conn_ok_def)
  ultimately show ?thesis
    using assms(2) by (auto simp: reader_turn_def keeps_released_def set_conn_def nth_list_update split: prod.splits if_splits)
qed

lemma next_keeps:
  assumes ok: "runtime_ok cfg rt" and "ev \<noteq> Accept" and run: "runtime_next ev rt = Some rt'"
  shows "keeps_released rt rt'"
proof (cases ev)
  case (Read c env shutdown r)
  with run reader_turn_keeps [OF ok] show ?thesis by simp
next
  case (Line c env)
  with run reader_turn_keeps [OF ok] show ?thesis by simp
next
  case (Drop c forced)
  with run show ?thesis
    by (auto simp: drop_connection_def keeps_released_def set_conn_def nth_list_update Let_def split: if_splits)
next
  case (Close c)
  with run show ?thesis
    by (auto simp: close_connection_def keeps_released_def set_conn_def set_stats_def nth_list_update split: if_splits)
next
  case (Start w)
  with run show ?thesis
    by (auto simp: start_job_def keeps_released_def set_stats_def split: if_splits list.splits)
next
  case (Acquire w)
  with run show ?thesis by (auto simp: acquire_permit_def keeps_released_def split: if_splits)
next
  case (Release w)
  with run show ?thesis by (auto simp: release_permit_def keeps_released_def split: if_splits)
next
  case (Finish w panicked)
  have update: "cn_released (cns[i := cn] ! c)"
    if "cn_released (cns ! c)" "cn_released cn = cn_released (cns ! i)" "c < length cns" for cns cn i c
    using that by (cases "i = c") simp_all
  from Finish run show ?thesis
    by (auto simp: finish_job_def keeps_released_def set_stats_def set_conn_def Let_def
        split: if_splits option.splits intro!: update)
qed (use assms(2) in simp)

lemma background_keeps:
  "reachable cfg rt \<Longrightarrow> reachable cfg (background evs rt) \<and> keeps_released rt (background evs rt)"
proof (induction evs arbitrary: rt)
  case (Cons ev evs)
  have "reachable cfg (background_step ev rt) \<and> keeps_released rt (background_step ev rt)"
    using Cons.prems reachable_next next_keeps [OF reachable_ok [OF Cons.prems]]
    by (auto simp: background_step_def split: option.splits)
  with Cons.IH [of "background_step ev rt"] keeps_released_trans show ?case by auto
qed simp

subsection \<open>The invariant of the accept loop\<close>

text \<open>The runtime is in a reachable state, and every connection with a permit has a thread to join.\<close>

definition app_ok :: "runtime_config \<Rightarrow> app_state \<Rightarrow> bool" where
  "app_ok cfg st \<longleftrightarrow> reachable cfg (as_runtime st) \<and>
     (\<forall>c < length (rt_conns (as_runtime st)). \<not> cn_released (rt_conns (as_runtime st) ! c) \<longrightarrow> c \<in> set (as_threads st)) \<and>
     set (as_threads st) \<subseteq> {..<length (rt_conns (as_runtime st))}"

lemma app_ok_background:
  assumes "app_ok cfg st"
  shows "app_ok cfg (st\<lparr>as_runtime := background evs (as_runtime st)\<rparr>)"
  using assms background_keeps [of cfg "as_runtime st" evs] by (auto simp: app_ok_def keeps_released_def)

lemma app_ok_reap: "app_ok cfg st \<Longrightarrow> app_ok cfg (reap_finished env n st)"
  by (auto simp: app_ok_def reap_finished_def is_finished_def)

lemma app_ok_admit:
  assumes "app_ok cfg st"
  shows "app_ok cfg (admit_connection st)"
proof (cases "accept_connection (as_runtime st)")
  case None
  then show ?thesis using assms by (simp add: admit_connection_def app_ok_def)
next
  case (Some rt)
  then have "reachable cfg rt" using assms reachable_next [of cfg "as_runtime st" Accept rt] by (simp add: app_ok_def)
  moreover have "rt_conns rt = rt_conns (as_runtime st) @ [new_connection (rt_config (as_runtime st))]"
    using Some by (auto simp: accept_connection_def set_stats_def split: if_splits)
  ultimately show ?thesis
    using assms Some by (auto simp: admit_connection_def app_ok_def nth_append less_Suc_eq)
qed

lemma app_ok_turn:
  assumes "app_ok cfg st" and "accept_turn env n st = (r, st')"
  shows "app_ok cfg st'"
  using assms(2) app_ok_background [OF assms(1), of "ap_events env n"]
  by (auto simp: accept_turn_def Let_def intro: app_ok_reap app_ok_admit split: if_splits option.splits sum.splits)

lemma app_ok_loop:
  assumes run: "accept_loop env n st = Some (r, n', st')" and ok: "app_ok cfg st"
  shows "app_ok cfg st'"
proof -
  have "app_ok cfg st \<longrightarrow> app_ok cfg (snd (snd (r, n', st')))"
  proof (rule accept_loop.raw_induct [of "\<lambda>_ _ st out. app_ok cfg st \<longrightarrow> app_ok cfg (snd (snd out))", OF _ run], rule impI)
    fix loop env n st out
    assume hyp: "\<And>env n st out. loop env n st = Some out \<Longrightarrow> app_ok cfg st \<longrightarrow> app_ok cfg (snd (snd out))"
      and run: "(case accept_turn env n st of
          (Some r, st') \<Rightarrow> Some (r, n + 1, st') | (None, st') \<Rightarrow> loop env (n + 1) st') = Some out"
      and ok: "app_ok cfg st"
    obtain r1 st1 where turn: "accept_turn env n st = (r1, st1)" by (cases "accept_turn env n st")
    have "app_ok cfg st1" by (rule app_ok_turn [OF ok turn])
    then show "app_ok cfg (snd (snd out))" using hyp run turn by (cases r1) auto
  qed
  with ok show ?thesis by simp
qed

lemma app_ok_start: "app_ok cfg \<lparr>as_runtime = new_runtime cfg, as_threads = [], as_log = []\<rparr>"
  by (simp add: app_ok_def reachable_new) (simp add: new_runtime_def)

subsection \<open>Joining\<close>

lemma join_thread_result:
  assumes run: "join_thread env c n rt = Some (n', rt')" and ok: "reachable cfg rt"
  shows "reachable cfg rt' \<and> keeps_released rt rt' \<and> cn_released (rt_conns rt' ! c)"
proof -
  let ?P = "\<lambda>c rt rt'. reachable cfg rt \<longrightarrow> reachable cfg rt' \<and> keeps_released rt rt' \<and> cn_released (rt_conns rt' ! c)"
  have "?P c rt (snd (n', rt'))"
  proof (rule join_thread.raw_induct [of "\<lambda>_ c _ rt out. ?P c rt (snd out)", OF _ run], rule impI)
    fix join env c n rt out
    assume hyp: "\<And>env c n rt out. join env c n rt = Some out \<Longrightarrow> ?P c rt (snd out)"
      and run: "(let rt' = background (ap_events env n) rt in
          if is_finished env n rt' c then Some (n + 1, rt') else join env c (n + 1) rt') = Some out"
      and ok: "reachable cfg rt"
    note b = background_keeps [OF ok, of "ap_events env n"]
    show "reachable cfg (snd out) \<and> keeps_released rt (snd out) \<and> cn_released (rt_conns (snd out) ! c)"
    proof (cases "is_finished env n (background (ap_events env n) rt) c")
      case True
      then show ?thesis using run b by (auto simp: is_finished_def)
    next
      case False
      then have "join env c (n + 1) (background (ap_events env n) rt) = Some out" using run by (simp add: Let_def)
      from hyp [OF this] b keeps_released_trans show ?thesis by blast
    qed
  qed
  with ok show ?thesis by simp
qed

lemma join_all_result:
  "join_all env cs n rt = Some (n', rt') \<Longrightarrow> reachable cfg rt \<Longrightarrow> set cs \<subseteq> {..<length (rt_conns rt)} \<Longrightarrow>
     reachable cfg rt' \<and> keeps_released rt rt' \<and> (\<forall>c \<in> set cs. cn_released (rt_conns rt' ! c))"
proof (induction cs arbitrary: n rt)
  case (Cons c cs)
  then obtain n1 rt1 where one: "join_thread env c n rt = Some (n1, rt1)" and rest: "join_all env cs n1 rt1 = Some (n', rt')"
    by (auto split: bind_splits)
  note j = join_thread_result [OF one Cons.prems(2)]
  then have "set cs \<subseteq> {..<length (rt_conns rt1)}" using Cons.prems(3) by (simp add: keeps_released_def)
  with Cons.IH [OF rest] j have "reachable cfg rt'" "keeps_released rt1 rt'" "\<forall>c \<in> set cs. cn_released (rt_conns rt' ! c)"
    by blast+
  moreover from this j Cons.prems(3) have "cn_released (rt_conns rt' ! c)" "keeps_released rt rt'"
    by (auto simp: keeps_released_def)
  ultimately show ?case by simp
qed simp

text \<open>When all permits are back there is nothing left to do.\<close>

lemma drained:
  assumes "reachable cfg rt" and "\<forall>c < length (rt_conns rt). cn_released (rt_conns rt ! c)"
  shows "rt_permits rt = 0 \<and> rs_connections (sd_stats (rt_sched rt)) = 0 \<and> live_jobs rt = []"
proof -
  have ok: "runtime_ok cfg rt" using assms(1) by (rule reachable_ok)
  have "unreleased rt = 0" using assms(2) by (auto simp: unreleased_def filter_empty_conv in_set_conv_nth)
  moreover have "live_jobs rt = []"
  proof (rule ccontr)
    assume "live_jobs rt \<noteq> []"
    then obtain j where j: "j \<in> set (live_jobs rt)" by (cases "live_jobs rt") auto
    with ok have "jb_conn j < length (rt_conns rt)" by (auto simp: runtime_ok_def)
    with ok assms(2) have "conn_keys (jb_conn j) rt = {#}" by (auto simp: runtime_ok_def conn_ok_def)
    with j show False by (auto simp: conn_keys_def mset_filter [symmetric] filter_empty_conv simp del: mset_filter)
  qed
  ultimately show ?thesis using ok by (simp add: runtime_ok_def sched_ok_def)
qed

subsection \<open>The whole run\<close>

text \<open>A cleanup that reports no error has removed the guard's socket.\<close>

lemma clean_exit:
  assumes pol: "polite env p t" "honest env" and g: "sg_armed g" "sg_path g = p" "sg_published g = None"
    and e: "lw_fs w p = Some e" "owned_by g e" and run: "cleanup env g w = (Inr (), g', w')"
  shows "lw_fs w' p = None"
proof -
  let ?g = "g\<lparr>sg_armed := False, sg_published := None\<rparr>"
  have rem: "remove_if_owned env ?g p w = (Inr (), w')"
    using run g by (cases "remove_if_owned env ?g p w"; cases "fst (remove_if_owned env ?g p w)")
      (auto simp: cleanup_def Let_def lop_bind_def lop_return_def)
  obtain r1 w1 where l: "sys_lstat env p w = (r1, w1)" by (cases "sys_lstat env p w")
  note s = lstat_spec [OF pol(1) l, simplified]
  show ?thesis
  proof (cases r1)
    case (Inl x)
    then show ?thesis using rem l s e(1) pol(2) by (auto simp: remove_if_owned_def split: if_splits)
  next
    case (Inr m)
    then have "m = e" using s e(1) by simp
    with e(2) have "owned_by g m" by simp
    then have "case sg_identity ?g of None \<Rightarrow> en_kind m = SocketEntry | Some i \<Rightarrow> identity_matches i m"
      by (simp add: owned_by_def)
    then have "sys_unlink env p w1 = (Inr (), w')" using rem l Inr by (simp add: remove_if_owned_def)
    from unlink_spec [OF pol(1) this] show ?thesis by simp
  qed
qed

text \<open>Cleaning up behind a bound socket.\<close>

lemma cleanup_after_bind:
  assumes pol: "polite env p t" "honest env" and bound: "bind_outcome env p t w (Inr g) w1"
    and run: "cleanup env g w1 = (r, g', w')"
  shows "set (lw_touched w') \<subseteq> set (lw_touched w) \<union> {p, t} \<and> (r = Inr () \<longrightarrow> lw_fs w' p = None \<and> lw_fs w' t = None)"
proof -
  obtain e where e: "lw_fs w1 p = Some e" "sg_identity g = Some (identity_of e)" "en_kind e = SocketEntry"
    and g: "sg_armed g" "sg_path g = p" "lw_fs w1 t = None" and pub: "sg_published g = None" and touched: "set (lw_touched w1) \<subseteq> set (lw_touched w) \<union> {p, t}"
    using bound by (auto simp: bind_outcome_def)
  have guard: "guard_for p t g" using g pub by (simp add: guard_for_def)
  have "owned_by g e" using e by (simp add: owned_by_def identity_matches_def identity_of_def)
  note k = cleanup_spec [OF pol(1) guard run]
  have "lw_fs w' p = None" if "r = Inr ()"
    using clean_exit [OF pol g(1,2) pub e(1) \<open>owned_by g e\<close>] run that by simp
  moreover have "lw_fs w' t = None" using conjunct1 [OF conjunct2 [OF k]] g(3) by auto
  moreover have "set (lw_touched w') \<subseteq> set (lw_touched w) \<union> {p, t}"
    using conjunct1 [OF k] touched by (auto simp: later_def)
  ultimately show ?thesis by blast
qed

text \<open>What a run has left when it returns.\<close>

definition server_outcome ::
    "app_env \<Rightarrow> string \<Rightarrow> string \<Rightarrow> listener_world \<Rightarrow> io_error + unit \<Rightarrow> runtime \<Rightarrow> listener_world \<Rightarrow> bool" where
  "server_outcome env p t w r rt w' \<longleftrightarrow>
     rt_permits rt = 0 \<and> rs_connections (sd_stats (rt_sched rt)) = 0 \<and> live_jobs rt = [] \<and>
     set (lw_touched w') \<subseteq> set (lw_touched w) \<union> {p, t} \<and>
     (\<forall>e. lw_fs w p = Some e \<longrightarrow> \<not> stale_socket (ap_listener env) e \<longrightarrow> lw_fs w' p = Some e \<and> (\<exists>x. r = Inl x)) \<and>
     (r = Inr () \<longrightarrow> lw_fs w' p = None \<and> lw_fs w' t = None)"

lemma idle_runtime: "rt_permits (new_runtime cfg) = 0 \<and> rs_connections (sd_stats (rt_sched (new_runtime cfg))) = 0 \<and>
    live_jobs (new_runtime cfg) = []"
  by (simp add: new_runtime_def live_jobs_def)

lemma unbound_outcome:
  "bind_outcome (ap_listener env) p t w (Inl x) w1 \<Longrightarrow> server_outcome env p t w (Inl x) (new_runtime cfg) w1"
  using idle_runtime by (auto simp: server_outcome_def bind_outcome_def)

lemma bound_outcome_run:
  assumes pol: "polite (ap_listener env) p t" "honest (ap_listener env)"
    and bound: "bind_outcome (ap_listener env) p t w (Inr g) w1"
    and clean: "cleanup (ap_listener env) g w1 = (cleaned, g', w')"
    and rt: "rt_permits rt = 0 \<and> rs_connections (sd_stats (rt_sched rt)) = 0 \<and> live_jobs rt = []"
    and r: "r = Inr () \<Longrightarrow> cleaned = Inr ()"
  shows "server_outcome env p t w r rt w'"
proof -
  have "\<not> (lw_fs w p = Some e \<and> \<not> stale_socket (ap_listener env) e)" for e
    using bound by (auto simp: bind_outcome_def)
  with cleanup_after_bind [OF pol bound clean] rt r show ?thesis by (auto simp: server_outcome_def)
qed

text \<open>The accept loop and the joins, from an idle runtime.\<close>

lemma served:
  assumes "accept_loop env 0 \<lparr>as_runtime = new_runtime cfg, as_threads = [], as_log = []\<rparr> = Some (r, n, st)"
    and "join_all env (as_threads st) n (as_runtime st) = Some (n', rt')"
  shows "rt_permits rt' = 0 \<and> rs_connections (sd_stats (rt_sched rt')) = 0 \<and> live_jobs rt' = []"
proof -
  have st: "app_ok cfg st" by (rule app_ok_loop [OF assms(1) app_ok_start])
  then have "reachable cfg rt'" "keeps_released (as_runtime st) rt'" "\<forall>c \<in> set (as_threads st). cn_released (rt_conns rt' ! c)"
    using join_all_result [OF assms(2)] by (auto simp: app_ok_def)
  moreover from this st have "\<forall>c < length (rt_conns rt'). cn_released (rt_conns rt' ! c)"
    by (auto simp: app_ok_def keeps_released_def)
  ultimately show ?thesis by (intro drained)
qed

text \<open>
  C33. Whenever \<^verbatim>\<open>run_server_with_dispatcher\<close> returns, by a shutdown, by a fatal accept error or
  before it served anything, when no other process uses its two paths (\<open>polite\<close>) and the system
  calls report errors as what they are (\<open>honest\<close>): all connections have given back their permits and no job is queued or
  running; only the socket path and the private temporary path were touched, an entry that is not a
  dead socket of the user was left as it was; and a result without error means that both paths are
  free again.
\<close>

theorem server_returns_clean:
  assumes pol: "polite (ap_listener env) p t" "honest (ap_listener env)"
    and path: "is_absolute p" "path_parent p = Some parent" "t = temporary_path (ap_listener env) parent k"
    and run: "run_server_with_dispatcher env cfg p k w = Some (r, rt, w')"
  shows "server_outcome env p t w r rt w'"
proof (cases "and_then (runtime_validate (ap_representable env) cfg) (\<lambda>_. scheduler_new env cfg)")
  case (Inl e)
  with run idle_runtime [of cfg] show ?thesis by (auto simp: run_server_with_dispatcher_def server_outcome_def)
next
  case (Inr rt0)
  then have rt0: "rt0 = new_runtime cfg" by (auto simp: scheduler_new_def and_then_eq_Inr split: option.splits)
  obtain b w1 where bind: "bind_listener (ap_listener env) p k w = (b, w1)" by (cases "bind_listener (ap_listener env) p k w")
  note bound = bind_listener_outcome [OF pol path bind]
  show ?thesis
  proof (cases b)
    case failed: (Inl e)
    then have "r = Inl e" "rt = new_runtime cfg" "w' = w1" using run Inr rt0 bind by (simp_all add: run_server_with_dispatcher_def)
    with bound failed show ?thesis by (simp add: unbound_outcome)
  next
    case ok: (Inr g)
    obtain cleaned g' w2 where clean: "cleanup (ap_listener env) g w1 = (cleaned, g', w2)"
      by (cases "cleanup (ap_listener env) g w1")
    note out = bound_outcome_run [OF pol bound [unfolded ok] clean]
    show ?thesis
    proof (cases "ap_nonblocking env")
      case (Some e)
      then have "r = Inl e" "rt = new_runtime cfg" "w' = w2"
        using run Inr rt0 bind ok clean by (simp_all add: run_server_with_dispatcher_def)
      with out [OF idle_runtime, of "Inl e"] show ?thesis by simp
    next
      case None
      then obtain r1 n st n' where loop: "accept_loop env 0 \<lparr>as_runtime = new_runtime cfg, as_threads = [], as_log = []\<rparr> = Some (r1, n, st)"
          and join: "join_all env (as_threads st) n (as_runtime st) = Some (n', rt)"
          and finish: "r = and_then r1 (\<lambda>_. cleaned)" "w' = w2"
        using run Inr rt0 bind ok clean by (auto simp: run_server_with_dispatcher_def split: bind_splits)
      show ?thesis unfolding finish(2)
        by (rule out [OF served [OF loop join]]) (use finish(1) in \<open>auto simp: and_then_eq_Inr\<close>)
    qed
  qed
qed

subsection \<open>That it returns\<close>

text \<open>Once the flag is seen the loop ends; a join ends when its thread does.\<close>

lemma accept_loop_ends:
  "ap_shutdown env m \<Longrightarrow> n \<le> m \<Longrightarrow> \<exists>out. accept_loop env n st = Some out"
proof (induction "m - n" arbitrary: n st)
  case 0
  then have "m = n" by simp
  with 0 have "accept_turn env n st = (Some (Inr ()), st\<lparr>as_runtime := background (ap_events env n) (as_runtime st)\<rparr>)"
    by (simp add: accept_turn_def)
  then show ?case by (subst accept_loop.simps) simp
next
  case (Suc d)
  obtain r st' where turn: "accept_turn env n st = (r, st')" by (cases "accept_turn env n st")
  show ?case
  proof (cases r)
    case None
    have "d = m - (n + 1)" "n + 1 \<le> m" using Suc.hyps(2) by simp_all
    with Suc.hyps(1) [of "n + 1" st'] Suc.prems(1) turn None show ?thesis by (subst accept_loop.simps) simp
  next
    case (Some x)
    with turn show ?thesis by (subst accept_loop.simps) simp
  qed
qed

definition runtime_at :: "app_env \<Rightarrow> nat \<Rightarrow> nat \<Rightarrow> runtime \<Rightarrow> runtime" where
  "runtime_at env n m rt = fold (\<lambda>i. background (ap_events env i)) [n..<Suc m] rt"

lemma join_thread_ends:
  "is_finished env m (runtime_at env n m rt) c \<Longrightarrow> n \<le> m \<Longrightarrow> \<exists>out. join_thread env c n rt = Some out"
proof (induction "m - n" arbitrary: n rt)
  case 0
  then have "m = n" by simp
  with 0 show ?case by (subst join_thread.simps) (simp add: runtime_at_def Let_def)
next
  case (Suc d)
  let ?rt = "background (ap_events env n) rt"
  have n: "d = m - (n + 1)" "n + 1 \<le> m" using Suc.hyps(2) by simp_all
  have "[n..<Suc m] = n # [n + 1..<Suc m]" using Suc.prems(2) upt_conv_Cons [of n "Suc m"] by simp
  then have "runtime_at env n m rt = runtime_at env (n + 1) m ?rt" by (simp add: runtime_at_def)
  with Suc.hyps(1) [OF n(1) _ n(2), of ?rt] Suc.prems(1) show ?case
    by (subst join_thread.simps) (simp add: Let_def)
qed

text \<open>
  The reader of a connection looks at the flag only when a read finds nothing for 10 ms: with a peer
  that keeps sending, its thread runs on after the shutdown, and the join waits for it.
\<close>

lemma busy_reader_ignores_shutdown:
  "on_read env True (ReadBytes bytes) cn sd = on_read env False (ReadBytes bytes) cn sd"
  by simp

text \<open>
  A run: at the first turn a client connects, before the second it hangs up, and at the third the
  flag is seen.
\<close>

definition sample_app_env :: app_env where
  "sample_app_env = \<lparr>ap_listener = sample_listener_env None, ap_representable = (\<lambda>_. True), ap_spawn = None,
     ap_nonblocking = None,
     ap_events = (\<lambda>n. if n = 1 then [Read 0 sample_line_env False ReadEof, Close 0] else []),
     ap_shutdown = (\<lambda>n. n = 2), ap_hook = (\<lambda>_. None),
     ap_accept = (\<lambda>n. if n = 0 then Inr () else Inl (io_new WouldBlock ''no connection'')),
     ap_finished = (\<lambda>n c. 3 \<le> n)\<rparr>"

lemma sample_cycle:
  "(case bind_listener (sample_listener_env None) ''/run/vcd/s'' 1 sample_world of
      (Inr g, w1) \<Rightarrow> (case cleanup (sample_listener_env None) g w1 of (c, _, w2) \<Rightarrow> (c = Inr (), lw_fs w2 ''/run/vcd/s''))
    | (Inl _, _) \<Rightarrow> (False, None)) = (True, None)"
  by code_simp

lemma sample_checked: "and_then (runtime_validate (ap_representable sample_app_env) default_runtime)
    (\<lambda>_. scheduler_new sample_app_env default_runtime) = Inr (new_runtime default_runtime)"
  by (simp add: scheduler_new_def sample_app_env_def and_then_def runtime_validate_def default_runtime_def max_request_line_bytes_def chunk_bytes_def terminal_frame_reserve_bytes_def)

lemma sample_app:
  "ap_listener sample_app_env = sample_listener_env None" "ap_nonblocking sample_app_env = None"
  "ap_events sample_app_env n = (if n = 1 then [Read 0 sample_line_env False ReadEof, Close 0] else [])"
  "ap_shutdown sample_app_env n = (n = 2)" "ap_hook sample_app_env n = None"
  "ap_accept sample_app_env n = (if n = 0 then Inr () else Inl (io_new WouldBlock ''no connection''))"
  "ap_finished sample_app_env n c = (3 \<le> n)"
  by (simp_all add: sample_app_env_def)

lemma sample_accepts:
  "\<exists>st. accept_loop sample_app_env 0 \<lparr>as_runtime = new_runtime default_runtime, as_threads = [], as_log = []\<rparr> = Some (Inr (), 3, st) \<and>
    as_threads st = [0] \<and> length (rt_conns (as_runtime st)) = 1 \<and> cn_released (rt_conns (as_runtime st) ! 0)"
  by (simp add: accept_loop.simps [of sample_app_env 0] accept_loop.simps [of sample_app_env "Suc 0"]
     accept_loop.simps [of sample_app_env 2] accept_loop.simps [of sample_app_env "Suc (Suc 0)"] sample_app
     accept_turn_def Let_def admit_connection_def reap_finished_def is_finished_def background_step_def
     new_runtime_def default_runtime_def accept_connection_def set_stats_def new_connection_def reader_turn_def stop_reading_def
     set_conn_def close_connection_def live_jobs_def io_new_def)

lemma sample_join:
  "cn_released (rt_conns rt ! 0) \<Longrightarrow> join_all sample_app_env [0] 3 rt = Some (4, rt)"
  by (simp add: join_thread.simps [of sample_app_env 0] is_finished_def Let_def sample_app)

lemma sample_server_run:
  "\<exists>rt w'. run_server_with_dispatcher sample_app_env default_runtime ''/run/vcd/s'' 1 sample_world = Some (Inr (), rt, w') \<and>
     length (rt_conns rt) = 1"
proof -
  obtain st where st: "accept_loop sample_app_env 0 \<lparr>as_runtime = new_runtime default_runtime, as_threads = [], as_log = []\<rparr> = Some (Inr (), 3, st)"
      "as_threads st = [0]" "length (rt_conns (as_runtime st)) = 1" "cn_released (rt_conns (as_runtime st) ! 0)"
    using sample_accepts by blast
  show ?thesis
    using sample_cycle st sample_join [OF st(4)]
    by (simp add: run_server_with_dispatcher_def sample_checked sample_app del: join_all.simps split: sum.splits prod.splits)
qed

lemma server_returns_clean_witness:
  "\<exists>rt w'. run_server_with_dispatcher sample_app_env default_runtime ''/run/vcd/s'' 1 sample_world = Some (Inr (), rt, w') \<and>
     length (rt_conns rt) = 1 \<and>
     server_outcome sample_app_env ''/run/vcd/s'' ''/run/vcd/.vcd-tools-7-1.sock'' sample_world (Inr ()) rt w'"
proof -
  obtain rt w' where run: "run_server_with_dispatcher sample_app_env default_runtime ''/run/vcd/s'' 1 sample_world = Some (Inr (), rt, w')"
      "length (rt_conns rt) = 1"
    using sample_server_run by blast
  have "server_outcome sample_app_env ''/run/vcd/s'' ''/run/vcd/.vcd-tools-7-1.sock'' sample_world (Inr ()) rt w'"
    by (rule server_returns_clean [OF _ _ sample_parent(2,1) _ run(1)])
      (simp_all only: sample_app sample_polite sample_temporary)
  with run show ?thesis by blast
qed

end
