(* ===== verification/Scheduler_Stop.thy ===== *)
theory Scheduler_Stop
  imports Connection_Invariant
begin

text \<open>
  Dropping the scheduler, src/server/runtime.rs: one stop message per worker is sent through the bounded
  queue, behind the jobs that are still in it, and the workers are joined in order. The steps of the
  dropping thread and of the workers interleave freely.

  The general argument, that a machine with an invariant, a measure and progress always comes to rest in
  a final state, is the locale \<open>ending_machine\<close>.
\<close>

subsection \<open>Machines that come to rest\<close>

fun machine_run :: "('e \<Rightarrow> 's \<Rightarrow> 's option) \<Rightarrow> 'e list \<Rightarrow> 's \<Rightarrow> 's option" where
  "machine_run nxt [] s = Some s"
| "machine_run nxt (ev # evs) s = Option.bind (nxt ev s) (machine_run nxt evs)"

locale ending_machine =
  fixes nxt :: "'e \<Rightarrow> 's \<Rightarrow> 's option"
    and inv :: "'s \<Rightarrow> bool"
    and measure_of :: "'s \<Rightarrow> nat"
    and final :: "'s \<Rightarrow> bool"
  assumes inv_kept: "inv s \<Longrightarrow> nxt ev s = Some s' \<Longrightarrow> inv s'"
    and measure_falls: "inv s \<Longrightarrow> nxt ev s = Some s' \<Longrightarrow> measure_of s' < measure_of s"
    and progress: "inv s \<Longrightarrow> \<not> final s \<Longrightarrow> \<exists>ev s'. nxt ev s = Some s'"
begin

lemma run_inv: "machine_run nxt evs s = Some s' \<Longrightarrow> inv s \<Longrightarrow> inv s'"
  by (induction evs arbitrary: s) (auto intro: inv_kept split: bind_splits)

lemma run_bounded: "machine_run nxt evs s = Some s' \<Longrightarrow> inv s \<Longrightarrow> length evs + measure_of s' \<le> measure_of s"
proof (induction evs arbitrary: s)
  case (Cons ev evs)
  then obtain s1 where one: "nxt ev s = Some s1" and rest: "machine_run nxt evs s1 = Some s'" by (auto split: bind_splits)
  from Cons.IH [OF rest inv_kept [OF Cons.prems(2) one]] measure_falls [OF Cons.prems(2) one] show ?case by simp
qed simp

lemma rest_is_final:
  "machine_run nxt evs s = Some s' \<Longrightarrow> inv s \<Longrightarrow> (\<And>ev. nxt ev s' = None) \<Longrightarrow> final s'"
  using progress [OF run_inv] by fastforce

lemma run_extends:
  "inv s \<Longrightarrow> \<exists>evs s'. machine_run nxt evs s = Some s' \<and> final s'"
proof (induction "measure_of s" arbitrary: s rule: less_induct)
  case less
  show ?case
  proof (cases "final s")
    case True
    then show ?thesis by (intro exI [of _ "[]"]) simp
  next
    case False
    then obtain ev s1 where one: "nxt ev s = Some s1" using progress [OF less.prems] by blast
    obtain evs s' where "machine_run nxt evs s1 = Some s'" "final s'"
      using less.hyps [OF measure_falls [OF less.prems one] inv_kept [OF less.prems one]] by blast
    with one show ?thesis by (intro exI [of _ "ev # evs"]) auto
  qed
qed

end

subsection \<open>The scheduler while it is dropped\<close>

datatype work = WorkJob job | WorkStop

datatype worker_state = Waiting | Working job | Ended

record stop_state =
  ss_left :: nat \<comment> \<open>stop messages still to be sent\<close>
  ss_queue :: "work list"
  ss_workers :: "worker_state list"
  ss_joined :: nat
  ss_finished :: "job list"

datatype stop_event = SendStop | SendFails | Take nat | FinishWork nat | Join

text \<open>One turn of a worker: a job is worked on, a stop message ends the thread.\<close>

definition take_work :: "nat \<Rightarrow> stop_state \<Rightarrow> stop_state option" where
  "take_work w s =
     (if w < length (ss_workers s) \<and> ss_workers s ! w = Waiting
      then (case ss_queue s of
          [] \<Rightarrow> None
        | WorkJob j # q \<Rightarrow> Some (s\<lparr>ss_queue := q, ss_workers := (ss_workers s)[w := Working j]\<rparr>)
        | WorkStop # q \<Rightarrow> Some (s\<lparr>ss_queue := q, ss_workers := (ss_workers s)[w := Ended]\<rparr>))
      else None)"

definition finish_work :: "nat \<Rightarrow> stop_state \<Rightarrow> stop_state option" where
  "finish_work w s =
     (if w < length (ss_workers s)
      then (case ss_workers s ! w of
          Working j \<Rightarrow> Some (s\<lparr>ss_workers := (ss_workers s)[w := Waiting], ss_finished := j # ss_finished s\<rparr>)
        | _ \<Rightarrow> None)
      else None)"

text \<open>
  Sending waits for room in the queue; it fails only when all receivers are gone. Joining comes after
  all the messages.
\<close>

definition send_stop :: "nat \<Rightarrow> stop_state \<Rightarrow> stop_state option" where
  "send_stop depth s =
     (if 0 < ss_left s \<and> length (ss_queue s) < depth
      then Some (s\<lparr>ss_left := ss_left s - 1, ss_queue := ss_queue s @ [WorkStop]\<rparr>) else None)"

definition send_fails :: "stop_state \<Rightarrow> stop_state option" where
  "send_fails s =
     (if 0 < ss_left s \<and> set (ss_workers s) \<subseteq> {Ended} then Some (s\<lparr>ss_left := ss_left s - 1\<rparr>) else None)"

definition join_worker :: "stop_state \<Rightarrow> stop_state option" where
  "join_worker s =
     (if ss_left s = 0 \<and> ss_joined s < length (ss_workers s) \<and> ss_workers s ! ss_joined s = Ended
      then Some (s\<lparr>ss_joined := ss_joined s + 1\<rparr>) else None)"

fun stop_next :: "nat \<Rightarrow> stop_event \<Rightarrow> stop_state \<Rightarrow> stop_state option" where
  "stop_next depth SendStop s = send_stop depth s"
| "stop_next depth SendFails s = send_fails s"
| "stop_next depth (Take w) s = take_work w s"
| "stop_next depth (FinishWork w) s = finish_work w s"
| "stop_next depth Join s = join_worker s"

text \<open>The scheduler of a runtime when it is dropped.\<close>

definition drop_scheduler :: "runtime \<Rightarrow> stop_state" where
  "drop_scheduler rt = \<lparr>ss_left = length (rt_workers rt), ss_queue = map WorkJob (sd_queue (rt_sched rt)),
     ss_workers = map (\<lambda>w. case w of None \<Rightarrow> Waiting | Some j \<Rightarrow> Working j) (rt_workers rt),
     ss_joined = 0, ss_finished = []\<rparr>"

subsection \<open>Invariant and measure\<close>

definition ended :: "stop_state \<Rightarrow> nat" where
  "ended s = length (filter (\<lambda>w. w = Ended) (ss_workers s))"

fun working_jobs :: "worker_state list \<Rightarrow> job multiset" where
  "working_jobs [] = {#}"
| "working_jobs (Working j # ws) = add_mset j (working_jobs ws)"
| "working_jobs (w # ws) = working_jobs ws"

text \<open>
  The jobs of the queue come before its stop messages, so none is left when a worker has ended; each
  worker has its message, and no job is lost.
\<close>

definition stop_ok :: "job multiset \<Rightarrow> nat \<Rightarrow> stop_state \<Rightarrow> bool" where
  "stop_ok jobs n s \<longleftrightarrow> (\<exists>js k. ss_queue s = map WorkJob js @ replicate k WorkStop \<and>
     ss_left s + k + ended s = n \<and> 0 < n \<and> (0 < ended s \<longrightarrow> js = []) \<and> length (ss_workers s) = n \<and> ss_joined s \<le> n \<and>
     (\<forall>w < ss_joined s. ss_workers s ! w = Ended) \<and> (0 < ss_joined s \<longrightarrow> ss_left s = 0) \<and>
     mset js + working_jobs (ss_workers s) + mset (ss_finished s) = jobs)"

fun work_weight :: "work \<Rightarrow> nat" where
  "work_weight (WorkJob j) = 3"
| "work_weight WorkStop = 1"

fun worker_weight :: "worker_state \<Rightarrow> nat" where
  "worker_weight (Working j) = 1"
| "worker_weight w = 0"

definition stop_measure :: "stop_state \<Rightarrow> nat" where
  "stop_measure s = 2 * ss_left s + sum_list (map work_weight (ss_queue s)) +
     sum_list (map worker_weight (ss_workers s)) + (length (ss_workers s) - ss_joined s)"

definition stopped :: "stop_state \<Rightarrow> bool" where
  "stopped s \<longleftrightarrow> ss_left s = 0 \<and> ss_queue s = [] \<and> set (ss_workers s) \<subseteq> {Ended} \<and> ss_joined s = length (ss_workers s)"

text \<open>Replacing the state of one worker.\<close>

lemma working_jobs_append: "working_jobs (us @ vs) = working_jobs us + working_jobs vs"
  by (induction us rule: working_jobs.induct) auto

lemma worker_update:
  assumes "w < length ws"
  obtains us vs where "ws = us @ (ws ! w) # vs" and "\<And>x. ws[w := x] = us @ x # vs"
  using assms that [of "take w ws" "drop (Suc w) ws"] id_take_nth_drop [OF assms] by (simp add: upd_conv_take_nth_drop)

lemma ended_append [simp]:
  "length (filter (\<lambda>w. w = Ended) (us @ x # vs)) =
     length (filter (\<lambda>w. w = Ended) us) + (if x = Ended then 1 else 0) + length (filter (\<lambda>w. w = Ended) vs)"
  by simp

lemma all_ended: "set ws \<subseteq> {Ended} \<Longrightarrow> length (filter (\<lambda>w. w = Ended) ws) = length ws"
  by (induction ws) auto

lemma queue_front:
  assumes "map WorkJob js @ replicate k WorkStop = WorkJob j # q"
  obtains js' where "js = j # js'" and "q = map WorkJob js' @ replicate k WorkStop"
  using assms that by (cases js; cases k) auto

lemma queue_stop:
  assumes "map WorkJob js @ replicate k WorkStop = WorkStop # q"
  obtains k' where "js = []" and "k = Suc k'" and "q = replicate k' WorkStop"
  using assms that by (cases js; cases k) auto

text \<open>What a step of a worker does to its place.\<close>

lemma take_work_Some:
  assumes "take_work w s = Some s'"
  obtains us vs q x j where "ss_workers s = us @ Waiting # vs" and "w = length us"
    and "ss_queue s = WorkJob j # q \<and> x = Working j \<or> ss_queue s = WorkStop # q \<and> x = Ended"
    and "s' = s\<lparr>ss_queue := q, ss_workers := us @ x # vs\<rparr>"
proof -
  have w: "w < length (ss_workers s)" "ss_workers s ! w = Waiting"
    using assms by (auto simp: take_work_def split: if_splits)
  let ?us = "take w (ss_workers s)" and ?vs = "drop (Suc w) (ss_workers s)"
  have split: "ss_workers s = ?us @ Waiting # ?vs" using id_take_nth_drop [OF w(1)] w(2) by simp
  have upd: "(ss_workers s)[w := x] = ?us @ x # ?vs" for x using w(1) by (simp add: upd_conv_take_nth_drop)
  have len: "w = length ?us" using w(1) by simp
  show thesis
  proof (cases "ss_queue s")
    case Nil
    with assms w show ?thesis by (simp add: take_work_def)
  next
    case (Cons item q)
    show ?thesis
    proof (cases item)
      case (WorkJob j)
      show ?thesis
        by (rule that [OF split len, of j q "Working j"]) (use assms w Cons WorkJob upd in \<open>simp_all add: take_work_def\<close>)
    next
      case WorkStop
      show ?thesis
        by (rule that [OF split len, of undefined q Ended]) (use assms w Cons WorkStop upd in \<open>simp_all add: take_work_def\<close>)
    qed
  qed
qed

lemma finish_work_Some:
  assumes "finish_work w s = Some s'"
  obtains us vs j where "ss_workers s = us @ Working j # vs" and "w = length us"
    and "s' = s\<lparr>ss_workers := us @ Waiting # vs, ss_finished := j # ss_finished s\<rparr>"
proof -
  obtain j where w: "w < length (ss_workers s)" "ss_workers s ! w = Working j"
      "s' = s\<lparr>ss_workers := (ss_workers s)[w := Waiting], ss_finished := j # ss_finished s\<rparr>"
    using assms by (auto simp: finish_work_def split: if_splits worker_state.splits)
  show thesis
    by (rule that [of "take w (ss_workers s)" j "drop (Suc w) (ss_workers s)"])
      (use w id_take_nth_drop [OF w(1)] in \<open>simp_all add: upd_conv_take_nth_drop\<close>)
qed

lemma still_ended:
  assumes "\<forall>w < m. (us @ x # vs) ! w = Ended" and "x \<noteq> Ended"
  shows "\<forall>w < m. (us @ y # vs) ! w = Ended"
proof -
  have "m \<le> length us"
  proof (rule ccontr)
    assume "\<not> m \<le> length us"
    then have "(us @ x # vs) ! length us = Ended" using assms(1) [rule_format, of "length us"] by simp
    with assms(2) show False by simp
  qed
  with assms(1) show ?thesis by (auto simp: nth_append)
qed

lemma stop_ok_kept:
  assumes ok: "stop_ok jobs n s" and run: "stop_next depth ev s = Some s'"
  shows "stop_ok jobs n s'"
proof -
  obtain js k where q: "ss_queue s = map WorkJob js @ replicate k WorkStop"
    and count: "ss_left s + k + ended s = n" "length (ss_workers s) = n" "ss_joined s \<le> n" "0 < n" "0 < ended s \<longrightarrow> js = []"
    and joined: "\<forall>w < ss_joined s. ss_workers s ! w = Ended" "0 < ss_joined s \<longrightarrow> ss_left s = 0"
    and all: "mset js + working_jobs (ss_workers s) + mset (ss_finished s) = jobs"
    using ok by (auto simp: stop_ok_def)
  show ?thesis
  proof (cases ev)
    case SendStop
    then have s': "s' = s\<lparr>ss_left := ss_left s - 1, ss_queue := ss_queue s @ [WorkStop]\<rparr>" "0 < ss_left s"
      using run by (auto simp: send_stop_def split: if_splits)
    have "ss_queue s' = map WorkJob js @ replicate (Suc k) WorkStop"
      using s' q by (simp add: replicate_append_same)
    with s' count joined all show ?thesis unfolding stop_ok_def ended_def
      by (intro exI [of _ js] exI [of _ "Suc k"]) auto
  next
    case SendFails
    then have "set (ss_workers s) \<subseteq> {Ended}" "0 < ss_left s" using run by (auto simp: send_fails_def split: if_splits)
    with all_ended count show ?thesis by (auto simp: ended_def)
  next
    case (Take w)
    then obtain us vs q' x j where t: "ss_workers s = us @ Waiting # vs"
        "ss_queue s = WorkJob j # q' \<and> x = Working j \<or> ss_queue s = WorkStop # q' \<and> x = Ended"
        "s' = s\<lparr>ss_queue := q', ss_workers := us @ x # vs\<rparr>"
      using run by (auto elim: take_work_Some)
    have prior: "\<forall>w < ss_joined s. (us @ x # vs) ! w = Ended" using still_ended joined(1) t(1) by fastforce
    from t(2) show ?thesis
    proof
      assume a: "ss_queue s = WorkJob j # q' \<and> x = Working j"
      then obtain js' where "js = j # js'" "q' = map WorkJob js' @ replicate k WorkStop"
        using queue_front q by metis
      with a t count joined(2) all prior show ?thesis unfolding stop_ok_def ended_def
        by (intro exI [of _ js'] exI [of _ k]) (auto simp: working_jobs_append)
    next
      assume a: "ss_queue s = WorkStop # q' \<and> x = Ended"
      then obtain k' where "js = []" "k = Suc k'" "q' = replicate k' WorkStop" using queue_stop q by metis
      with a t count joined(2) all prior show ?thesis unfolding stop_ok_def ended_def
        by (intro exI [of _ "[]"] exI [of _ k']) (auto simp: working_jobs_append)
    qed
  next
    case (FinishWork w)
    then obtain us vs j where t: "ss_workers s = us @ Working j # vs"
        "s' = s\<lparr>ss_workers := us @ Waiting # vs, ss_finished := j # ss_finished s\<rparr>"
      using run by (auto elim: finish_work_Some)
    have prior: "\<forall>w < ss_joined s. (us @ Waiting # vs) ! w = Ended" using still_ended joined(1) t(1) by fastforce
    with t q count joined(2) all show ?thesis unfolding stop_ok_def ended_def
      by (intro exI [of _ js] exI [of _ k]) (auto simp: working_jobs_append)
  next
    case Join
    then have s': "s' = s\<lparr>ss_joined := ss_joined s + 1\<rparr>" "ss_left s = 0" "ss_joined s < length (ss_workers s)"
        "ss_workers s ! ss_joined s = Ended"
      using run by (auto simp: join_worker_def split: if_splits)
    with q count joined all show ?thesis unfolding stop_ok_def ended_def
      by (intro exI [of _ js] exI [of _ k]) (auto simp: less_Suc_eq)
  qed
qed

lemma stop_measure_falls:
  assumes "stop_next depth ev s = Some s'"
  shows "stop_measure s' < stop_measure s"
proof (cases ev)
  case (Take w)
  then show ?thesis using assms by (auto simp: stop_measure_def elim!: take_work_Some)
next
  case (FinishWork w)
  then show ?thesis using assms by (auto simp: stop_measure_def elim!: finish_work_Some)
qed (use assms in \<open>auto simp: stop_measure_def send_stop_def send_fails_def join_worker_def split: if_splits\<close>)

lemma stop_progress:
  assumes depth: "0 < depth" and ok: "stop_ok jobs n s" and not_yet: "\<not> stopped s"
  shows "\<exists>ev s'. stop_next depth ev s = Some s'"
proof -
  obtain js k where q: "ss_queue s = map WorkJob js @ replicate k WorkStop"
    and count: "ss_left s + k + ended s = n" "length (ss_workers s) = n" "ss_joined s \<le> n" "0 < n" "0 < ended s \<longrightarrow> js = []"
    using ok by (auto simp: stop_ok_def)
  consider (working) w j where "w < n" "ss_workers s ! w = Working j"
    | (waiting) w where "w < n" "ss_workers s ! w = Waiting"
    | (none) "\<forall>w < n. ss_workers s ! w = Ended"
    using worker_state.exhaust by metis
  then show ?thesis
  proof cases
    case working
    then have "finish_work w s \<noteq> None" using count(2) by (simp add: finish_work_def)
    then show ?thesis by (intro exI [of _ "FinishWork w"]) auto
  next
    case waiting
    show ?thesis
    proof (cases "ss_queue s")
      case Nil
      have "ended s < n"
        using length_filter_less [of Waiting "ss_workers s" "\<lambda>w. w = Ended"] waiting count(2) nth_mem [of w "ss_workers s"]
        by (simp add: ended_def)
      then have "0 < ss_left s" using count(1) q Nil by simp
      then have "stop_next depth SendStop s \<noteq> None" using Nil depth by (simp add: send_stop_def)
      then show ?thesis by blast
    next
      case (Cons item rest)
      then have "take_work w s \<noteq> None" using waiting count(2) by (cases item) (simp_all add: take_work_def)
      then show ?thesis by (intro exI [of _ "Take w"]) auto
    qed
  next
    case none
    then have gone: "set (ss_workers s) \<subseteq> {Ended}" using count(2) by (auto simp: in_set_conv_nth)
    then have zero: "ss_left s = 0" "k = 0" using all_ended [OF gone] count by (simp_all add: ended_def)
    show ?thesis
    proof (cases "ss_joined s < n")
      case True
      then have "join_worker s \<noteq> None" using zero none count(2) by (simp add: join_worker_def)
      then show ?thesis by (intro exI [of _ Join]) auto
    next
      case False
      have "0 < ended s" using all_ended [OF gone] count by (simp add: ended_def)
      then have "ss_queue s = []" using q zero count(5) by simp
      then have "stopped s" using False gone zero count by (simp add: stopped_def)
      with not_yet show ?thesis by contradiction
    qed
  qed
qed

interpretation stopping: ending_machine "stop_next (Suc d)" "stop_ok jobs n" stop_measure stopped for d jobs n
  using stop_ok_kept stop_measure_falls stop_progress [of "Suc d"] by unfold_locales auto

subsection \<open>Dropping the scheduler of a runtime\<close>

lemma working_jobs_busy:
  "working_jobs (map (\<lambda>w. case w of None \<Rightarrow> Waiting | Some j \<Rightarrow> Working j) ws) = mset (busy_jobs ws)"
  by (induction ws) (auto split: option.splits)

lemma none_ended: "filter (\<lambda>w. w = Ended) (map (\<lambda>w. case w of None \<Rightarrow> Waiting | Some j \<Rightarrow> Working j) ws) = []"
  by (auto simp: filter_empty_conv split: option.splits)

lemma drop_scheduler_ok:
  assumes "reachable cfg rt" and "0 < rc_workers cfg"
  shows "stop_ok (mset (live_jobs rt)) (rc_workers cfg) (drop_scheduler rt)"
proof -
  have "length (rt_workers rt) = rc_workers cfg" using reachable_ok [OF assms(1)] by (simp add: runtime_ok_def sched_ok_def)
  then show ?thesis
    unfolding stop_ok_def
    by (intro exI [of _ "sd_queue (rt_sched rt)"] exI [of _ 0])
      (use assms(2) in \<open>simp add: drop_scheduler_def ended_def none_ended working_jobs_busy live_jobs_def\<close>)
qed

text \<open>
  C31. Dropping the scheduler of any reachable runtime ends all its workers. However the steps
  interleave, there are at most as many as the measure of its start; it is never stuck before it is
  stopped; and when nothing can happen any more, every stop message was sent and taken, every worker
  ended and was joined, and exactly the jobs that were queued or running have been finished.
\<close>

theorem dropping_ends_the_workers:
  assumes "reachable cfg rt" and "0 < rc_workers cfg" and "0 < rc_queue_depth cfg"
  shows "(\<exists>evs s. machine_run (stop_next (rc_queue_depth cfg)) evs (drop_scheduler rt) = Some s \<and> stopped s) \<and>
    (case machine_run (stop_next (rc_queue_depth cfg)) evs (drop_scheduler rt) of
       None \<Rightarrow> True
     | Some s \<Rightarrow> length evs \<le> stop_measure (drop_scheduler rt) \<and>
         (stopped s \<or> (\<exists>ev. stop_next (rc_queue_depth cfg) ev s \<noteq> None)) \<and>
         (if stopped s then mset (ss_finished s) = mset (live_jobs rt) else True))"
proof -
  obtain d where d: "rc_queue_depth cfg = Suc d" using assms(3) by (cases "rc_queue_depth cfg") simp_all
  note ok = drop_scheduler_ok [OF assms(1,2)]
  have "length evs \<le> stop_measure (drop_scheduler rt)" "stopped s \<or> (\<exists>ev. stop_next (Suc d) ev s \<noteq> None)"
      "stopped s \<Longrightarrow> mset (ss_finished s) = mset (live_jobs rt)"
    if run: "machine_run (stop_next (Suc d)) evs (drop_scheduler rt) = Some s" for s
  proof -
    show "length evs \<le> stop_measure (drop_scheduler rt)" using stopping.run_bounded [OF run ok] by simp
    show "stopped s \<or> (\<exists>ev. stop_next (Suc d) ev s \<noteq> None)" using stopping.rest_is_final [OF run ok] by blast
    assume "stopped s"
    moreover have "working_jobs ws = {#}" if "set ws \<subseteq> {Ended}" for ws using that by (induction ws) auto
    ultimately show "mset (ss_finished s) = mset (live_jobs rt)"
      using stopping.run_inv [OF run ok] by (auto simp: stop_ok_def stopped_def)
  qed
  moreover have "\<exists>evs s. machine_run (stop_next (Suc d)) evs (drop_scheduler rt) = Some s \<and> stopped s"
    by (rule stopping.run_extends [OF ok])
  ultimately show ?thesis unfolding d by (auto split: option.splits)
qed

text \<open>The runtime with one queued request that Connection shows to be reachable.\<close>

lemma dropping_ends_the_workers_witness:
  "\<exists>rt. length (sd_queue (rt_sched rt)) = 1 \<and>
     (\<exists>evs s. machine_run (stop_next 64) evs (drop_scheduler rt) = Some s \<and> stopped s \<and>
        mset (ss_finished s) = mset (live_jobs rt))"
proof -
  obtain rt where rt: "reachable default_runtime rt" "length (sd_queue (rt_sched rt)) = 1" by (rule sample_reachable)
  have bounds: "0 < rc_workers default_runtime" "0 < rc_queue_depth default_runtime" "rc_queue_depth default_runtime = 64"
    by (simp_all add: default_runtime_def)
  note facts = dropping_ends_the_workers [OF rt(1) bounds(1,2), unfolded bounds(3)]
  from facts obtain evs s where run: "machine_run (stop_next 64) evs (drop_scheduler rt) = Some s" "stopped s" by blast
  with facts [of evs] rt(2) show ?thesis by auto
qed

end
