(* ===== verification/Time_Groups.thy ===== *)
theory Time_Groups
  imports Extract
begin

text \<open>
  Extracted rows by time: the groups of consecutive rows of one time, and the last value of each
  signal in a list of rows. The trace writer and the table of the command line work on them.
\<close>

text \<open>The changes of one time, one after the other.\<close>

fun time_groups :: "time_value list \<Rightarrow> time_value list list" where
  "time_groups [] = []"
| "time_groups [e] = [[e]]"
| "time_groups (e # e' # es) =
     (if tv_time e = tv_time e' then (case time_groups (e' # es) of [] \<Rightarrow> [[e]] | g # gs \<Rightarrow> (e # g) # gs)
      else [e] # time_groups (e' # es))"

definition values_after :: "time_value list \<Rightarrow> (string \<rightharpoonup> change_value)" where
  "values_after evts = map_of (rev (map (\<lambda>e. (tv_signal e, tv_value e)) evts))"

lemma values_after_append: "values_after (xs @ ys) = values_after xs ++ values_after ys"
  by (simp add: values_after_def)

lemma values_after_Nil [simp]: "values_after [] = Map.empty"
  by (simp add: values_after_def)

lemma time_groups_empty [simp]: "time_groups evts = [] \<longleftrightarrow> evts = []"
  by (induction evts rule: time_groups.induct) (auto split: list.splits)

lemma concat_time_groups: "concat (time_groups evts) = evts"
  by (induction evts rule: time_groups.induct) (auto split: list.splits)

lemma time_groups_snoc:
  "time_groups (es @ [e]) =
     (if es = [] then [[e]]
      else if tv_time (last es) = tv_time e
        then butlast (time_groups es) @ [last (time_groups es) @ [e]]
        else time_groups es @ [[e]])"
proof (induction es rule: time_groups.induct)
  case (3 a b es)
  have ne: "time_groups (b # es) \<noteq> []" by simp
  then obtain g gs where g: "time_groups (b # es) = g # gs" by (cases "time_groups (b # es)") auto
  show ?case
    using 3 g by (cases "tv_time a = tv_time b"; cases "tv_time (last (b # es)) = tv_time e"; cases gs) auto
qed simp_all

lemma last_in_group: "es \<noteq> [] \<Longrightarrow> last (time_groups es) \<noteq> [] \<and> last (last (time_groups es)) = last es"
proof (induction es rule: rev_induct)
  case (snoc e es)
  then show ?case by (simp add: time_groups_snoc)
qed simp

lemma last_group_time: "es \<noteq> [] \<Longrightarrow> \<forall>e \<in> set (last (time_groups es)). tv_time e = tv_time (last es)"
proof (induction es rule: rev_induct)
  case (snoc e es)
  then show ?case by (auto simp: time_groups_snoc)
qed simp

end
