(* ===== verification/Trace.thy ===== *)
theory Trace
  imports Time_Groups Json
begin

text \<open>
  The architectural trace writer, src/bin/vcd2trace.rs: the signal paths with their overrides, the
  readings of a value, and the loop that groups the changes by time, finds the rising clock edges
  and writes the lines of a cycle.

  Parsing the command line and the overrides file, the log, and the context texts that \<^verbatim>\<open>anyhow\<close>
  puts around errors are left out. The output file is the list of lines written so far; \<open>w n\<close> is
  what writing the line number \<open>n\<close> answers. The maps of the source are only looked up.
\<close>

subsection \<open>Signal paths\<close>

record signal_paths =
  sp_clk :: string
  sp_rst_n :: string
  sp_inst_retired :: string
  sp_instruction :: string
  sp_pc :: string
  sp_rf_we_qual :: string
  sp_rf_we_lsu :: string
  sp_rd_addr :: string
  sp_rd_wdata :: string
  sp_rd_wdata_lsu :: string

record path_overrides =
  po_clk :: "string option"
  po_rst_n :: "string option"
  po_inst_retired :: "string option"
  po_instruction :: "string option"
  po_pc :: "string option"
  po_rf_we_qual :: "string option"
  po_rf_we_lsu :: "string option"
  po_rd_addr :: "string option"
  po_rd_wdata :: "string option"
  po_rd_wdata_lsu :: "string option"

definition default_paths :: signal_paths where
  "default_paths =
     (let cpu = ''tb.U_CHIP.U_TOP_VCORE.U_TOP_CORE.U_TOP_CPU.U_CPU'';
          clk_parent = ''tb.U_CHIP.U_TOP_VCORE.U_TOP_CORE.U_TOP_CPU'';
          rf = ''tb.U_CHIP.U_TOP_VCORE.U_TOP_CORE.U_TOP_CPU.U_CPU.U_RF''
      in \<lparr>sp_clk = clk_parent @ ''.clk_cpu'', sp_rst_n = cpu @ ''.rst_cpu_n'',
          sp_inst_retired = cpu @ ''.inst_retired'', sp_instruction = cpu @ ''.instruction_r[31:0]'',
          sp_pc = cpu @ ''.pc_exe_r[21:0]'', sp_rf_we_qual = rf @ ''.rf_write_enable_qual'',
          sp_rf_we_lsu = rf @ ''.rf_write_enable_lsu'', sp_rd_addr = rf @ ''.rd_addr[4:0]'',
          sp_rd_wdata = rf @ ''.rd_wdata[31:0]'', sp_rd_wdata_lsu = rf @ ''.rd_wdata_lsu[31:0]''\<rparr>)"

text \<open>\<open>loaded\<close> is the file of overrides, when one is given: an error of opening or parsing it, or its fields.\<close>

definition load_paths :: "('e + path_overrides) option \<Rightarrow> 'e + signal_paths" where
  "load_paths loaded =
     (let base = default_paths; pick = (\<lambda>over old. case over of None \<Rightarrow> old | Some v \<Rightarrow> v) in
      case loaded of
        None \<Rightarrow> Inr base
      | Some (Inl e) \<Rightarrow> Inl e
      | Some (Inr ov) \<Rightarrow> Inr
          \<lparr>sp_clk = pick (po_clk ov) (sp_clk base),
           sp_rst_n = pick (po_rst_n ov) (sp_rst_n base),
           sp_inst_retired = pick (po_inst_retired ov) (sp_inst_retired base),
           sp_instruction = pick (po_instruction ov) (sp_instruction base),
           sp_pc = pick (po_pc ov) (sp_pc base),
           sp_rf_we_qual = pick (po_rf_we_qual ov) (sp_rf_we_qual base),
           sp_rf_we_lsu = pick (po_rf_we_lsu ov) (sp_rf_we_lsu base),
           sp_rd_addr = pick (po_rd_addr ov) (sp_rd_addr base),
           sp_rd_wdata = pick (po_rd_wdata ov) (sp_rd_wdata base),
           sp_rd_wdata_lsu = pick (po_rd_wdata_lsu ov) (sp_rd_wdata_lsu base)\<rparr>)"

definition target_names :: "signal_paths \<Rightarrow> string list" where
  "target_names p =
     [sp_clk p, sp_rst_n p, sp_inst_retired p, sp_instruction p, sp_pc p, sp_rf_we_qual p, sp_rf_we_lsu p,
      sp_rd_addr p, sp_rd_wdata p, sp_rd_wdata_lsu p]"

subsection \<open>Readings of a value\<close>

datatype trace_error = TraceVcd vcd_error | TraceIo io_error | TraceMissing string | TracePanic

fun value_to_bool :: "change_value \<Rightarrow> bool option" where
  "value_to_bool (Integer i) = Some (i \<noteq> 0)"
| "value_to_bool (Text t) = (if t = ''0'' then Some False else if t = ''1'' then Some True else None)"
| "value_to_bool (Float _) = None"

definition has_hex_prefix :: "string \<Rightarrow> bool" where
  "has_hex_prefix s \<longleftrightarrow> starts_with s ''0x'' \<or> starts_with s ''0X''"

fun value_to_u64 :: "change_value \<Rightarrow> u64 option" where
  "value_to_u64 (Integer i) = Some (ucast i)"
| "value_to_u64 (Text t) =
     (let s = trim t in
      if has_hex_prefix s then map_option of_nat (from_str_radix 16 u64_max (drop 2 s)) else parse_u64 s)"
| "value_to_u64 (Float _) = None"

text \<open>
  \<^verbatim>\<open>{:0>width$}\<close> fills with zeros up to a number of characters, \<^verbatim>\<open>rchunks(4)\<close> cuts the bytes from
  the end; a chunk that is not valid UTF-8 makes \<^verbatim>\<open>unwrap\<close> panic.
\<close>

definition fill_left :: "nat \<Rightarrow> string \<Rightarrow> string" where
  "fill_left width s = replicate (width - length (filter (\<lambda>c. \<not> cont c) s)) CHR ''0'' @ s"

function rchunks4 :: "string \<Rightarrow> string list" where
  "rchunks4 s = (if s = [] then [] else drop (length s - 4) s # rchunks4 (take (length s - 4) s))"
  by pat_completeness auto
termination
  by (relation "measure length") auto

declare rchunks4.simps [simp del]

definition has_unknown :: "string \<Rightarrow> bool" where
  "has_unknown s \<longleftrightarrow> list_ex (\<lambda>c. c \<in> set ''xXzZ'') s"

text \<open>\<^verbatim>\<open>std::char::from_digit(val, 16)\<close> and \<^verbatim>\<open>to_ascii_uppercase\<close>.\<close>

definition hex_digit_upper :: "nat \<Rightarrow> char" where
  "hex_digit_upper d = char_of (if d < 10 then 48 + d else 55 + d)"

definition nibble_char :: "string \<Rightarrow> trace_error + char" where
  "nibble_char nibble =
     (if \<not> utf8_valid nibble then Inl TracePanic
      else if has_unknown nibble then Inr CHR ''X''
      else (let val = (case from_str_radix 2 255 nibble of Some v \<Rightarrow> v | None \<Rightarrow> 0) in
        if val < 16 then Inr (hex_digit_upper val) else Inl TracePanic))"

fun nibble_chars :: "string list \<Rightarrow> trace_error + string" where
  "nibble_chars [] = Inr []"
| "nibble_chars (n # ns) =
     and_then (nibble_char n) (\<lambda>c. and_then (nibble_chars ns) (\<lambda>cs. Inr (c # cs)))"

definition binary_to_hex_with_x :: "string \<Rightarrow> nat \<Rightarrow> trace_error + string" where
  "binary_to_hex_with_x binary width_bits =
     and_then (nibble_chars (rchunks4 (fill_left width_bits binary))) (\<lambda>cs. Inr (''0x'' @ rev cs))"

fun value_to_hex_string :: "change_value \<Rightarrow> trace_error + string option" where
  "value_to_hex_string (Integer i) = Inr (Some (''0x'' @ hex_pad 8 (unat (ucast i :: u64))))"
| "value_to_hex_string (Text t) =
     (let s = trim t in
      if has_unknown s then and_then (binary_to_hex_with_x s 32) (\<lambda>h. Inr (Some h))
      else if has_hex_prefix s
      then Inr (map_option (\<lambda>v. ''0x'' @ hex_pad 8 v) (from_str_radix 16 u64_max (drop 2 s)))
      else Inr (map_option (\<lambda>v. ''0x'' @ hex_pad 8 v) (from_str_radix 10 u64_max s)))"
| "value_to_hex_string (Float _) = Inr None"

subsection \<open>Cycles\<close>

type_synonym signal_state = "string \<rightharpoonup> change_value"
type_synonym trace_writer = "nat \<Rightarrow> io_error option"

definition write_line :: "trace_writer \<Rightarrow> string \<Rightarrow> string list \<Rightarrow> (trace_error + unit) \<times> string list" where
  "write_line w line out = (case w (length out) of Some e \<Rightarrow> (Inl (TraceIo e), out) | None \<Rightarrow> (Inr (), out @ [line]))"

definition flag :: "signal_state \<Rightarrow> string \<Rightarrow> bool" where
  "flag st name = (Option.bind (st name) value_to_bool = Some True)"

definition write_register ::
    "trace_writer \<Rightarrow> signal_state \<Rightarrow> string \<Rightarrow> string \<Rightarrow> string list \<Rightarrow> (trace_error + unit) \<times> string list" where
  "write_register w st addr_name data_name out =
     (case Option.bind (st addr_name) value_to_u64 of
        addr \<Rightarrow>
          (case (case st data_name of None \<Rightarrow> Inr None | Some v \<Rightarrow> value_to_hex_string v) of
             Inl e \<Rightarrow> (Inl e, out)
           | Inr data \<Rightarrow>
               (case (addr, data) of
                  (Some a, Some d) \<Rightarrow> write_line w (''x'' @ zero_pad 2 (decimal (unat a)) @ '' <= '' @ d) out
                | _ \<Rightarrow> (Inr (), out))))"

definition process_cycle ::
    "trace_writer \<Rightarrow> signal_paths \<Rightarrow> signal_state \<Rightarrow> string list \<Rightarrow> (trace_error + unit) \<times> string list" where
  "process_cycle w p st out =
     (if \<not> flag st (sp_rst_n p) then (Inr (), out)
      else
        (case (if flag st (sp_inst_retired p)
               then (case (Option.bind (st (sp_pc p)) value_to_u64, Option.bind (st (sp_instruction p)) value_to_u64) of
                   (Some pc, Some instr) \<Rightarrow>
                     write_line w (''PC : 0x'' @ hex_pad 8 (unat pc) @ '' I : 0x'' @ hex_pad 8 (unat instr) @ '' '') out
                 | _ \<Rightarrow> (Inr (), out))
               else (Inr (), out)) of
           (Inl e, out') \<Rightarrow> (Inl e, out')
         | (Inr _, out') \<Rightarrow>
             if flag st (sp_rf_we_qual p) then write_register w st (sp_rd_addr p) (sp_rd_wdata p) out'
             else if flag st (sp_rf_we_lsu p) then write_register w st (sp_rd_addr p) (sp_rd_wdata_lsu p) out'
             else (Inr (), out')))"

subsection \<open>The loop over the changes\<close>

record trace_state =
  ts_values :: signal_state
  ts_prev_clk :: "bool option"
  ts_started :: bool
  ts_current :: "u64 option"
  ts_buffer :: "time_value list"
  ts_out :: "string list"

definition new_trace :: trace_state where
  "new_trace = \<lparr>ts_values = Map.empty, ts_prev_clk = None, ts_started = False, ts_current = None,
     ts_buffer = [], ts_out = []\<rparr>"

definition rising_in :: "signal_paths \<Rightarrow> bool option \<Rightarrow> time_value list \<Rightarrow> bool" where
  "rising_in p prev evts \<longleftrightarrow>
     list_ex (\<lambda>evt. tv_signal evt = sp_clk p \<and> prev = Some False \<and> value_to_bool (tv_value evt) = Some True) evts"

fun apply_updates :: "signal_paths \<Rightarrow> time_value list \<Rightarrow> trace_state \<Rightarrow> trace_state" where
  "apply_updates p [] st = st\<lparr>ts_buffer := []\<rparr>"
| "apply_updates p (evt # evts) st =
     (let st' = (if tv_signal evt = sp_clk p then st\<lparr>ts_prev_clk := value_to_bool (tv_value evt)\<rparr> else st)
      in apply_updates p evts (st'\<lparr>ts_values := (ts_values st')(tv_signal evt \<mapsto> tv_value evt)\<rparr>))"

definition process_buffer :: "trace_writer \<Rightarrow> signal_paths \<Rightarrow> trace_state \<Rightarrow> (trace_error + unit) \<times> trace_state" where
  "process_buffer w p st =
     (if rising_in p (ts_prev_clk st) (ts_buffer st)
      then if ts_started st
        then (case process_cycle w p (ts_values st) (ts_out st) of
            (Inl e, out) \<Rightarrow> (Inl e, st\<lparr>ts_out := out\<rparr>)
          | (Inr _, out) \<Rightarrow> (Inr (), apply_updates p (ts_buffer st) (st\<lparr>ts_out := out\<rparr>)))
        else (Inr (), apply_updates p (ts_buffer st) (st\<lparr>ts_started := True\<rparr>))
      else (Inr (), apply_updates p (ts_buffer st) st))"

fun trace_loop ::
    "trace_writer \<Rightarrow> signal_paths \<Rightarrow> (vcd_error + time_value) list \<Rightarrow> trace_state \<Rightarrow> (trace_error + unit) \<times> trace_state" where
  "trace_loop w p [] st = (Inr (), st)"
| "trace_loop w p (Inl e # items) st = (Inl (TraceVcd e), st)"
| "trace_loop w p (Inr evt # items) st =
     (let st1 = (if ts_current st = None then st\<lparr>ts_current := Some (tv_time evt)\<rparr> else st) in
      if Some (tv_time evt) \<noteq> ts_current st1
      then (case process_buffer w p st1 of
          (Inl e, st2) \<Rightarrow> (Inl e, st2)
        | (Inr _, st2) \<Rightarrow>
            trace_loop w p items (st2\<lparr>ts_current := Some (tv_time evt), ts_buffer := ts_buffer st2 @ [evt]\<rparr>))
      else trace_loop w p items (st1\<lparr>ts_buffer := ts_buffer st1 @ [evt]\<rparr>))"

definition trace_run ::
    "trace_writer \<Rightarrow> signal_paths \<Rightarrow> (vcd_error + time_value) list \<Rightarrow> (trace_error + unit) \<times> string list" where
  "trace_run w p items =
     (case trace_loop w p items new_trace of
        (Inl e, st) \<Rightarrow> (Inl e, ts_out st)
      | (Inr _, st) \<Rightarrow>
          (case (if ts_buffer st \<noteq> [] then process_buffer w p st else (Inr (), st)) of
             (Inl e, st') \<Rightarrow> (Inl e, ts_out st')
           | (Inr _, st') \<Rightarrow>
               if ts_started st' then process_cycle w p (ts_values st') (ts_out st') else (Inr (), ts_out st')))"

text \<open>
  The program between its arguments and its output: \<open>header\<close> is the outcome of reading the
  header, \<open>body\<close> that of opening the body, \<open>created\<close> that of creating the output file. \<open>None\<close>:
  it does not end.
\<close>

definition trace_main ::
    "displays \<Rightarrow> trace_writer \<Rightarrow> (trace_error + path_overrides) option \<Rightarrow> vcd_error + signal_index
      \<Rightarrow> vcd_error + (io_error + command) list \<Rightarrow> io_error option \<Rightarrow> ((trace_error + unit) \<times> string list) option" where
  "trace_main D w loaded header body created =
     (case load_paths loaded of
        Inl e \<Rightarrow> Some (Inl e, [])
      | Inr p \<Rightarrow>
          (case header of
             Inl e \<Rightarrow> Some (Inl (TraceVcd e), [])
           | Inr index \<Rightarrow>
               (case build_target_map index (target_names p) of (target_map, missing) \<Rightarrow>
                  if missing \<noteq> [] then Some (Inl (TraceMissing (''signals not found in VCD: '' @ join '', '' missing)), [])
                  else (case body of
                      Inl e \<Rightarrow> Some (Inl (TraceVcd e), [])
                    | Inr parser \<Rightarrow>
                        (case created of
                           Some e \<Rightarrow> Some (Inl (TraceIo e), [])
                         | None \<Rightarrow>
                             map_option (\<lambda>(rows, failed, _).
                                 trace_run w p (map Inr rows @ (case failed of None \<Rightarrow> [] | Some e \<Rightarrow> [Inl e])))
                               (drain (legacy_next D) (legacy_new parser target_map all_time)))))))"

subsection \<open>What the trace is\<close>

definition rises_at :: "signal_paths \<Rightarrow> time_value list list \<Rightarrow> nat \<Rightarrow> bool" where
  "rises_at p gs k \<longleftrightarrow>
     Option.bind (values_after (concat (take k gs)) (sp_clk p)) value_to_bool = Some False \<and>
     (\<exists>e \<in> set (gs ! k). tv_signal e = sp_clk p \<and> value_to_bool (tv_value e) = Some True)"

definition edges :: "signal_paths \<Rightarrow> time_value list list \<Rightarrow> nat list" where
  "edges p gs = filter (rises_at p gs) [0..<length gs]"

fun write_cycles ::
    "trace_writer \<Rightarrow> signal_paths \<Rightarrow> signal_state list \<Rightarrow> string list \<Rightarrow> (trace_error + unit) \<times> string list" where
  "write_cycles w p [] out = (Inr (), out)"
| "write_cycles w p (st # sts) out =
     (case process_cycle w p st out of
        (Inl e, out') \<Rightarrow> (Inl e, out')
      | (Inr _, out') \<Rightarrow> write_cycles w p sts out')"

text \<open>The states in which a cycle is written: before each rising edge but the first, and at the end.\<close>

definition edge_states :: "signal_paths \<Rightarrow> time_value list list \<Rightarrow> signal_state list" where
  "edge_states p gs = map (\<lambda>k. values_after (concat (take k gs))) (tl (edges p gs))"

definition cycle_states :: "signal_paths \<Rightarrow> time_value list \<Rightarrow> signal_state list" where
  "cycle_states p evts = (let gs = time_groups evts in
     edge_states p gs @ (if edges p gs = [] then [] else [values_after evts]))"

lemma rises_at_append: "k < length gs \<Longrightarrow> rises_at p (gs @ hs) k = rises_at p gs k"
  by (simp add: rises_at_def nth_append)

lemma edges_snoc: "edges p (gs @ [g]) = edges p gs @ (if rises_at p (gs @ [g]) (length gs) then [length gs] else [])"
  by (auto simp: edges_def rises_at_append intro!: filter_cong)

lemma edge_bound: "k \<in> set (edges p gs) \<Longrightarrow> k < length gs"
  by (auto simp: edges_def)

lemma edge_states_snoc:
  "edge_states p (gs @ [g]) = edge_states p gs @
     (if rises_at p (gs @ [g]) (length gs) \<and> edges p gs \<noteq> [] then [values_after (concat gs)] else [])"
proof -
  have "\<forall>k \<in> set (tl (edges p gs)). take k (gs @ [g]) = take k gs"
    using edge_bound [of _ p gs] list.set_sel(2) [of "edges p gs"] by (cases "edges p gs") (auto simp: less_imp_le)
  then have "map (\<lambda>k. values_after (concat (take k (gs @ [g])))) (tl (edges p gs)) = edge_states p gs"
    by (simp add: edge_states_def)
  then show ?thesis
    by (cases "edges p gs") (auto simp: edge_states_def edges_snoc)
qed

lemma write_cycles_append:
  "write_cycles w p (xs @ ys) out =
     (case write_cycles w p xs out of (Inl e, out') \<Rightarrow> (Inl e, out') | (Inr _, out') \<Rightarrow> write_cycles w p ys out')"
  by (induction xs arbitrary: out) (auto split: sum.splits prod.splits)

text \<open>The state of the loop between two buffers.\<close>

definition loop_state ::
    "signal_paths \<Rightarrow> time_value list list \<Rightarrow> time_value list \<Rightarrow> u64 option \<Rightarrow> string list \<Rightarrow> trace_state" where
  "loop_state p gs b t out =
     \<lparr>ts_values = values_after (concat gs),
      ts_prev_clk = Option.bind (values_after (concat gs) (sp_clk p)) value_to_bool,
      ts_started = (edges p gs \<noteq> []), ts_current = t, ts_buffer = b, ts_out = out\<rparr>"

lemma apply_updates_result:
  "ts_prev_clk st = Option.bind (ts_values st (sp_clk p)) value_to_bool \<Longrightarrow>
     apply_updates p b st = st\<lparr>ts_values := ts_values st ++ values_after b,
       ts_prev_clk := Option.bind ((ts_values st ++ values_after b) (sp_clk p)) value_to_bool, ts_buffer := []\<rparr>"
proof (induction b arbitrary: st)
  case Nil
  then show ?case by simp
next
  case (Cons e b)
  let ?st = "(if tv_signal e = sp_clk p then st\<lparr>ts_prev_clk := value_to_bool (tv_value e)\<rparr> else st)
    \<lparr>ts_values := (ts_values st)(tv_signal e \<mapsto> tv_value e)\<rparr>"
  have "ts_prev_clk ?st = Option.bind (ts_values ?st (sp_clk p)) value_to_bool"
    using Cons.prems by auto
  note IH = Cons.IH [OF this]
  have vals: "ts_values ?st ++ values_after b = ts_values st ++ values_after (e # b)"
    using values_after_append [of "[e]" b] by (simp add: values_after_def del: fun_upd_apply)
  have "apply_updates p (e # b) st = apply_updates p b ?st" by (simp add: Let_def)
  also note IH [unfolded vals]
  finally show ?case by simp
qed

lemma process_buffer_result:
  "process_buffer w p (loop_state p gs b t out) =
     (case write_cycles w p (if rises_at p (gs @ [b]) (length gs) \<and> edges p gs \<noteq> []
          then [values_after (concat gs)] else []) out of
        (Inl e, out') \<Rightarrow> (Inl e, loop_state p gs b t out')
      | (Inr _, out') \<Rightarrow> (Inr (), loop_state p (gs @ [b]) [] t out'))"
proof -
  let ?st = "loop_state p gs b t out"
  have rising: "rising_in p (ts_prev_clk ?st) b \<longleftrightarrow> rises_at p (gs @ [b]) (length gs)"
    by (auto simp: rising_in_def rises_at_def loop_state_def list_ex_iff)
  have updates: "apply_updates p b (?st\<lparr>ts_out := out', ts_started := s\<rparr>) =
      (loop_state p (gs @ [b]) [] t out')\<lparr>ts_started := s\<rparr>" for out' s
    by (subst apply_updates_result) (simp_all add: loop_state_def values_after_append)
  have same: "?st\<lparr>ts_out := out', ts_started := edges p gs \<noteq> []\<rparr> = ?st\<lparr>ts_out := out'\<rparr>" for out'
    by (simp add: loop_state_def)
  have same': "?st\<lparr>ts_out := out, ts_started := s\<rparr> = ?st\<lparr>ts_started := s\<rparr>" for s
    by (simp add: loop_state_def)
  have start: "(loop_state p (gs @ [b]) [] t out')\<lparr>ts_started := edges p (gs @ [b]) \<noteq> []\<rparr> = loop_state p (gs @ [b]) [] t out'" for out'
    by (simp add: loop_state_def)
  show ?thesis
  proof (cases "rises_at p (gs @ [b]) (length gs)")
    case False
    then have e: "edges p (gs @ [b]) = edges p gs" by (simp add: edges_snoc)
    have "?st = ?st\<lparr>ts_out := out, ts_started := edges p gs \<noteq> []\<rparr>" by (simp add: loop_state_def)
    then have "apply_updates p b ?st = loop_state p (gs @ [b]) [] t out"
      using updates [where out' = out and s = "edges p gs \<noteq> []"] start [of out] e by metis
    then show ?thesis
      using False rising by (simp add: process_buffer_def loop_state_def)
  next
    case True
    then have e: "edges p (gs @ [b]) \<noteq> []" by (simp add: edges_snoc)
    show ?thesis
    proof (cases "edges p gs = []")
      case first: True
      have "apply_updates p b (?st\<lparr>ts_started := True\<rparr>) = loop_state p (gs @ [b]) [] t out"
        using updates [where out' = out and s = True] start [of out] e same' [of True] by simp
      then show ?thesis
        using True rising first by (simp add: process_buffer_def) (simp add: loop_state_def)
    next
      case False
      have after: "apply_updates p b (?st\<lparr>ts_out := out'\<rparr>) = loop_state p (gs @ [b]) [] t out'" for out'
        using updates [where out' = out' and s = True] start [of out'] e False same [of out'] by simp
      show ?thesis
        using True rising False after
        by (auto simp: process_buffer_def loop_state_def split: sum.splits prod.splits)
    qed
  qed
qed

text \<open>The loop after the changes \<open>es\<close>, with all groups but the last one processed.\<close>

definition after_events :: "signal_paths \<Rightarrow> time_value list \<Rightarrow> string list \<Rightarrow> trace_state" where
  "after_events p es out =
     (if es = [] then loop_state p [] [] None out
      else loop_state p (butlast (time_groups es)) (last (time_groups es)) (Some (tv_time (last es))) out)"

definition done_states :: "signal_paths \<Rightarrow> time_value list \<Rightarrow> signal_state list" where
  "done_states p es = edge_states p (butlast (time_groups es))"

definition next_states :: "signal_paths \<Rightarrow> time_value list \<Rightarrow> time_value \<Rightarrow> signal_state list" where
  "next_states p es e =
     (if es = [] \<or> tv_time (last es) = tv_time e then []
      else if rises_at p (time_groups es) (length (time_groups es) - 1) \<and> edges p (butlast (time_groups es)) \<noteq> []
        then [values_after (concat (butlast (time_groups es)))] else [])"

lemma done_states_snoc: "done_states p (es @ [e]) = done_states p es @ next_states p es e"
proof (cases "es = [] \<or> tv_time (last es) = tv_time e")
  case True
  then show ?thesis by (auto simp: done_states_def next_states_def time_groups_snoc)
next
  case False
  then obtain gs g where gs: "time_groups es = gs @ [g]" by (metis append_butlast_last_id time_groups_empty)
  show ?thesis
    using False edge_states_snoc [of p gs g]
    by (simp add: done_states_def next_states_def time_groups_snoc gs butlast_append)
qed

lemma trace_step:
  "\<exists>st. trace_loop w p (Inr e # rest) (after_events p es out) =
     (case write_cycles w p (next_states p es e) out of
        (Inl x, out') \<Rightarrow> (Inl x, st\<lparr>ts_out := out'\<rparr>)
      | (Inr _, out') \<Rightarrow> trace_loop w p rest (after_events p (es @ [e]) out'))"
proof (cases "es = []")
  case True
  then show ?thesis
    by (simp add: after_events_def next_states_def loop_state_def Let_def edges_def time_groups_snoc)
next
  case False
  then obtain gs g where gs: "time_groups es = gs @ [g]" by (metis append_butlast_last_id time_groups_empty)
  show ?thesis
  proof (cases "tv_time (last es) = tv_time e")
    case True
    then show ?thesis
      using False gs
      by (simp add: after_events_def next_states_def loop_state_def Let_def time_groups_snoc)
  next
    case other: False
    let ?st = "loop_state p gs g (Some (tv_time (last es))) out"
    have step: "trace_loop w p (Inr e # rest) (after_events p es out) =
        (case process_buffer w p ?st of
          (Inl x, st2) \<Rightarrow> (Inl x, st2)
        | (Inr _, st2) \<Rightarrow> trace_loop w p rest (st2\<lparr>ts_current := Some (tv_time e), ts_buffer := ts_buffer st2 @ [e]\<rparr>))"
      using False gs other by (simp add: after_events_def Let_def) (simp add: loop_state_def)
    have more: "next_states p es e =
        (if rises_at p (gs @ [g]) (length gs) \<and> edges p gs \<noteq> [] then [values_after (concat gs)] else [])"
      using False other gs by (simp add: next_states_def)
    have new: "(loop_state p (gs @ [g]) [] t out')\<lparr>ts_current := Some (tv_time e), ts_buffer := [e]\<rparr> =
        after_events p (es @ [e]) out'" for t out'
      using False other gs by (simp add: after_events_def time_groups_snoc loop_state_def butlast_append)
    obtain r out' where w: "write_cycles w p (next_states p es e) out = (r, out')"
      by (cases "write_cycles w p (next_states p es e) out")
    note run = step [unfolded process_buffer_result, folded more, unfolded w]
    show ?thesis
    proof (cases r)
      case (Inl x)
      then show ?thesis
        unfolding run w by (intro exI [of _ ?st]) (simp add: loop_state_def)
    next
      case (Inr u)
      have "ts_buffer (loop_state p (gs @ [g]) [] (Some (tv_time (last es))) out') = []" by (simp add: loop_state_def)
      then show ?thesis
        unfolding run w Inr by (simp add: new)
    qed
  qed
qed

lemma trace_events:
  assumes "write_cycles w p (done_states p es) [] = (Inr (), out)"
  shows "case write_cycles w p (done_states p (es @ fs)) [] of
      (Inl x, out') \<Rightarrow> \<exists>st. trace_loop w p (map Inr fs @ rest) (after_events p es out) = (Inl x, st) \<and> ts_out st = out'
    | (Inr _, out') \<Rightarrow> trace_loop w p (map Inr fs @ rest) (after_events p es out) =
        trace_loop w p rest (after_events p (es @ fs) out')"
  using assms
proof (induction fs arbitrary: es out)
  case Nil
  then show ?case by simp
next
  case (Cons e fs)
  obtain st where step: "trace_loop w p (Inr e # map Inr fs @ rest) (after_events p es out) =
     (case write_cycles w p (next_states p es e) out of
        (Inl x, out') \<Rightarrow> (Inl x, st\<lparr>ts_out := out'\<rparr>)
      | (Inr _, out') \<Rightarrow> trace_loop w p (map Inr fs @ rest) (after_events p (es @ [e]) out'))"
    using trace_step by blast
  obtain r out1 where n: "write_cycles w p (next_states p es e) out = (r, out1)"
    by (cases "write_cycles w p (next_states p es e) out")
  have one: "write_cycles w p (done_states p (es @ [e])) [] = (r, out1)"
    using Cons.prems n by (simp add: done_states_snoc write_cycles_append)
  show ?case
  proof (cases r)
    case (Inl x)
    have "\<exists>more. done_states p ((es @ [e]) @ fs) = done_states p (es @ [e]) @ more"
    proof (induction fs rule: rev_induct)
      case (snoc f fs)
      then show ?case using done_states_snoc [of p "(es @ [e]) @ fs" f] by auto
    qed simp
    then have "write_cycles w p (done_states p (es @ e # fs)) [] = (Inl x, out1)"
      using one Inl by (auto simp: write_cycles_append)
    then show ?thesis using step n Inl by (simp del: trace_loop.simps)
  next
    case (Inr u)
    then have "write_cycles w p (done_states p (es @ [e])) [] = (Inr (), out1)" using one by simp
    note IH = Cons.IH [OF this]
    have "trace_loop w p (map Inr (e # fs) @ rest) (after_events p es out) =
        trace_loop w p (map Inr fs @ rest) (after_events p (es @ [e]) out1)"
      using step n Inr by (simp del: trace_loop.simps)
    with IH show ?thesis by (simp only: append_assoc append_Cons append_Nil)
  qed
qed

lemma trace_run_complete: "trace_run w p (map Inr evts) = write_cycles w p (cycle_states p evts) []"
proof -
  have start: "after_events p [] [] = new_trace"
    by (simp add: after_events_def loop_state_def new_trace_def edges_def)
  have "write_cycles w p (done_states p []) [] = (Inr (), [])"
    by (simp add: done_states_def edge_states_def edges_def)
  note run = trace_events [OF this, of evts "[]", unfolded start, simplified]
  show ?thesis
  proof (cases "write_cycles w p (done_states p evts) []")
    case (Pair r out)
    show ?thesis
    proof (cases "evts = []")
      case True
      then show ?thesis
        by (simp add: trace_run_def new_trace_def cycle_states_def edges_def edge_states_def Let_def)
    next
      case False
      then obtain gs g where gs: "time_groups evts = gs @ [g]" by (metis append_butlast_last_id time_groups_empty)
      have g: "g \<noteq> []" using last_in_group [OF False] gs by simp
      have c: "cycle_states p evts = done_states p evts @
          (if rises_at p (gs @ [g]) (length gs) \<and> edges p gs \<noteq> [] then [values_after (concat gs)] else []) @
          (if edges p (gs @ [g]) = [] then [] else [values_after evts])"
        using edge_states_snoc [of p gs g] by (simp add: cycle_states_def done_states_def gs Let_def)
      show ?thesis
      proof (cases r)
        case (Inl x)
        with run Pair c show ?thesis by (auto simp: trace_run_def write_cycles_append)
      next
        case (Inr u)
        have loop: "trace_loop w p (map Inr evts) new_trace =
            (Inr (), loop_state p gs g (Some (tv_time (last evts))) out)"
          using run Pair Inr False gs by (simp add: after_events_def)
        have evts: "concat (gs @ [g]) = evts" using concat_time_groups [of evts] gs by simp
        have buf: "ts_buffer (loop_state p gs g t out) = g" for t by (simp add: loop_state_def)
        let ?t = "Some (tv_time (last evts))"
        have final: "write_cycles w p (if edges p (gs @ [g]) = [] then [] else [values_after evts]) out1 =
            (if edges p (gs @ [g]) \<noteq> [] then process_cycle w p (values_after evts) out1 else (Inr (), out1))" for out1
          by (auto split: sum.splits prod.splits)
        have "trace_run w p (map Inr evts) =
            (case process_buffer w p (loop_state p gs g ?t out) of
               (Inl x, st) \<Rightarrow> (Inl x, ts_out st)
             | (Inr _, st) \<Rightarrow> if ts_started st then process_cycle w p (ts_values st) (ts_out st) else (Inr (), ts_out st))"
          using g by (simp add: trace_run_def loop buf)
        also have "\<dots> = (case write_cycles w p (if rises_at p (gs @ [g]) (length gs) \<and> edges p gs \<noteq> []
              then [values_after (concat gs)] else []) out of
               (Inl x, out1) \<Rightarrow> (Inl x, out1)
             | (Inr _, out1) \<Rightarrow> write_cycles w p (if edges p (gs @ [g]) = [] then [] else [values_after evts]) out1)"
          unfolding process_buffer_result final
          by (cases "write_cycles w p (if rises_at p (gs @ [g]) (length gs) \<and> edges p gs \<noteq> []
              then [values_after (concat gs)] else []) out")
            (simp add: loop_state_def evts [symmetric] split: sum.splits)
        finally show ?thesis
          unfolding c write_cycles_append Pair Inr by simp
      qed
    qed
  qed
qed

lemma trace_run_broken:
  "trace_run w p (map Inr evts @ Inl e # rest) =
     (case write_cycles w p (edge_states p (butlast (time_groups evts))) [] of
        (Inl x, out) \<Rightarrow> (Inl x, out)
      | (Inr _, out) \<Rightarrow> (Inl (TraceVcd e), out))"
proof -
  have start: "after_events p [] [] = new_trace"
    by (simp add: after_events_def loop_state_def new_trace_def edges_def)
  have "write_cycles w p (done_states p []) [] = (Inr (), [])"
    by (simp add: done_states_def edge_states_def edges_def)
  note run = trace_events [OF this, of evts "Inl e # rest", unfolded start append_Nil]
  have out: "ts_out (after_events p evts out) = out" for out
    by (simp add: after_events_def loop_state_def)
  show ?thesis
    using run unfolding done_states_def
    by (auto simp: trace_run_def out split: sum.splits prod.splits)
qed

lemma trace_main_rows:
  assumes "load_paths loaded = Inr p" and "build_target_map idx (target_names p) = (m, [])"
  shows "trace_main D w loaded (Inr idx) (Inr parser) None =
    Some (trace_run w p (map Inr (requested_rows D (entries m) all_time 0 parser) @
      (case scan_error all_time parser of None \<Rightarrow> [] | Some e \<Rightarrow> [Inl (Io e)])))"
proof -
  let ?s = "legacy_new parser m all_time"
  have lv: "legacy_valid ?s"
    by (auto simp: legacy_valid_def legacy_new_def)
  obtain rows r s' where d: "drain (legacy_next D) ?s = Some (rows, r, s')"
    using legacy_iter.drain_returns [OF lv] by blast
  from drain_legacy [OF lv d]
  have "rows = requested_rows D (entries m) all_time 0 parser" "r = map_option Io (scan_error all_time parser)"
    by (simp_all add: legacy_remaining_def legacy_error_def legacy_new_def)
  with assms d show ?thesis by (auto simp: trace_main_def split: option.splits)
qed

text \<open>
  C38. The trace is that of the clock cycles. For every header in which the ten signals are found,
  every body and every behaviour of the output file, the program ends; the lines it writes are
  those of the cycles, one for each rising edge of the clock but the first, with the values all
  signals had before the changes of that time, and one more with the final values when there was
  an edge at all. An edge is a time at which the clock becomes 1 after its last value before that
  time was 0. A write that fails ends the trace there, and a body that fails ends it with that
  error, after the cycles of the times before the last one.
\<close>

theorem trace_is_that_of_the_cycles:
  assumes "load_paths loaded = Inr p" and "build_target_map idx (target_names p) = (m, [])"
  shows "trace_main D w loaded (Inr idx) (Inr parser) None =
    Some (let rows = requested_rows D (entries m) all_time 0 parser in
      case scan_error all_time parser of
        None \<Rightarrow> write_cycles w p (cycle_states p rows) []
      | Some e \<Rightarrow>
          (case write_cycles w p (edge_states p (butlast (time_groups rows))) [] of
             (Inl x, out) \<Rightarrow> (Inl x, out)
           | (Inr _, out) \<Rightarrow> (Inl (TraceVcd (Io e)), out)))"
  by (cases "scan_error all_time parser")
    (simp_all add: trace_main_rows [OF assms] trace_run_complete trace_run_broken Let_def)

definition trace_overrides :: path_overrides where
  "trace_overrides = \<lparr>po_clk = Some ''c'', po_rst_n = Some ''r'', po_inst_retired = Some ''i'',
     po_instruction = Some ''n'', po_pc = Some ''p'', po_rf_we_qual = Some ''q'', po_rf_we_lsu = Some ''l'',
     po_rd_addr = Some ''a'', po_rd_wdata = Some ''d'', po_rd_wdata_lsu = Some ''e''\<rparr>"

definition trace_index :: signal_index where
  "trace_index = \<lparr>by_id = Map.empty, by_name = (\<lambda>n. if length n = 1
     then Some \<lparr>sig_name = n, sig_id = byte (hd n), sig_size = 1, sig_type = 0, sig_scope = []\<rparr> else None)\<rparr>"

definition trace_body :: "(io_error + command) list" where
  "trace_body = map Inr
     [Timestamp 0, ChangeScalar 114 V1, ChangeScalar 99 V0, ChangeScalar 105 V1, ChangeScalar 113 V1,
      ChangeVector 110 [V1, V0, V1, V1], ChangeVector 112 [V1, V0, V0], ChangeVector 97 [V1, V1],
      ChangeVector 100 [V1, VX, V0, V0, V1],
      Timestamp 5, ChangeScalar 99 V1, Timestamp 10, ChangeScalar 99 V0, Timestamp 15, ChangeScalar 113 V0,
      ChangeScalar 99 V1]"

definition trace_paths :: signal_paths where
  "trace_paths = \<lparr>sp_clk = ''c'', sp_rst_n = ''r'', sp_inst_retired = ''i'', sp_instruction = ''n'',
     sp_pc = ''p'', sp_rf_we_qual = ''q'', sp_rf_we_lsu = ''l'', sp_rd_addr = ''a'', sp_rd_wdata = ''d'',
     sp_rd_wdata_lsu = ''e''\<rparr>"

definition trace_target_map :: "id_code \<rightharpoonup> string list" where
  "trace_target_map = fst (build_target_map trace_index (target_names trace_paths))"

lemma trace_targets: "build_target_map trace_index (target_names trace_paths) = (trace_target_map, [])"
  unfolding trace_target_map_def by (rule prod_eqI) (simp, code_simp)

theorem trace_is_that_of_the_cycles_witness:
  "trace_main plain_displays (\<lambda>_. None) (Some (Inr trace_overrides)) (Inr trace_index) (Inr trace_body) None =
    Some (Inr (), [''PC : 0x00000004 I : 0x0000000b '', ''x03 <= 0x0000001X'', ''PC : 0x00000004 I : 0x0000000b ''])"
proof -
  have paths: "load_paths (Some (Inr trace_overrides)) = Inr trace_paths"
    by (simp add: load_paths_def trace_overrides_def trace_paths_def Let_def)
  have unbroken: "scan_error all_time trace_body = None" by code_simp
  have "write_cycles (\<lambda>_. None) trace_paths
      (cycle_states trace_paths (requested_rows plain_displays (entries trace_target_map) all_time 0 trace_body)) [] =
    (Inr (), [''PC : 0x00000004 I : 0x0000000b '', ''x03 <= 0x0000001X'', ''PC : 0x00000004 I : 0x0000000b ''])"
    by code_simp
  with trace_is_that_of_the_cycles [OF paths trace_targets, of plain_displays "\<lambda>_. None" trace_body] unbroken
  show ?thesis by (simp add: Let_def)
qed

text \<open>
  A hexadecimal literal holds an \<^verbatim>\<open>x\<close>, so its own branch is never taken: it is printed as unknown
  bits, although \<^verbatim>\<open>value_to_u64\<close> reads it as the number.
\<close>

lemma hex_literal_is_unknown:
  "has_hex_prefix (trim t) \<Longrightarrow>
     value_to_hex_string (Text t) = and_then (binary_to_hex_with_x (trim t) 32) (\<lambda>h. Inr (Some h))"
  by (auto simp: has_hex_prefix_def has_unknown_def starts_with_prefix prefix_def)

lemma hex_literal_example:
  "value_to_hex_string (Text ''0x1f'') = Inr (Some ''0x0000000X'')"
  by (subst hex_literal_is_unknown, code_simp, code_simp)

end
