(* ===== verification/Cli.thy ===== *)
theory Cli
  imports Waveform Service Time_Groups
begin

text \<open>
  The command line, src/main.rs: the signal names, the tables, and one handler for each command
  over an opened waveform, with the comparison report.

  Parsing the arguments and the logging are external, and so are opening a waveform (theory
  \<open>Waveform\<close>), \<^verbatim>\<open>serde_json\<close>'s pretty printer, the text of a timescale unit and of errors.
  A handler gives the lines it prints, in order, and how it ends; \<open>None\<close>: a query that does not end.
\<close>

datatype cli_error =
    CliMessage string
  | CliIo io_error
  | CliVcd vcd_error
  | CliDetection detection_error
  | CliQuery query_error
  | CliPanic

type_synonym cli_result = "string list \<times> (cli_error + unit)"

subsection \<open>Names and tables\<close>

definition comma_parts :: "string \<Rightarrow> string list" where
  "comma_parts s = filter (\<lambda>p. p \<noteq> []) (map trim (split_on CHR '','' s))"

text \<open>\<open>signals_file\<close> is the content of the file given for more names, or the error of reading it.\<close>

definition collect_signal_names :: "string list \<Rightarrow> (io_error + string) option \<Rightarrow> cli_error + string list" where
  "collect_signal_names signals signals_file =
     (let names = concat (map comma_parts signals) in
      and_then (case signals_file of
          None \<Rightarrow> Inr names
        | Some (Inl e) \<Rightarrow> Inl (CliVcd (Io e))
        | Some (Inr content) \<Rightarrow> Inr (names @ load_signal_list content)) (\<lambda>all.
      if all = [] then Inl (CliMessage ''At least one --signal or --signals-file entry is required'')
      else Inr all))"

text \<open>\<^verbatim>\<open>{:<width$}\<close> counts characters, the widths are byte lengths.\<close>

definition char_count :: "string \<Rightarrow> nat" where
  "char_count s = length (filter (\<lambda>c. \<not> cont c) s)"

definition pad_right :: "nat \<Rightarrow> string \<Rightarrow> string" where
  "pad_right width s = s @ replicate (width - char_count s) CHR '' ''"

fun widen :: "nat list \<Rightarrow> string list \<Rightarrow> nat list" where
  "widen (w # ws) (col # cols) = max w (length col) # widen ws cols"
| "widen ws [] = ws"
| "widen [] cols = []"

definition print_row :: "string list \<Rightarrow> nat list \<Rightarrow> string" where
  "print_row row widths = join '' | '' (map (\<lambda>(col, width). pad_right width col) (zip row widths))"

definition print_table :: "string list \<Rightarrow> string list list \<Rightarrow> string list" where
  "print_table headers rows =
     (let widths = foldl widen (map length headers) rows;
          separator = join ''-+-'' (map (\<lambda>w. replicate w CHR ''-'') widths)
      in print_row headers widths # separator # map (\<lambda>row. print_row row widths) rows)"

definition tab :: string where "tab = [CHR 0x09]"

definition print_signal_list :: "string list \<Rightarrow> bool \<Rightarrow> string list" where
  "print_signal_list names pretty =
     (if pretty then print_table [''Name''] (map (\<lambda>n. [n]) names) else names)"

subsection \<open>Listing and metadata\<close>

text \<open>The names the visitor is given before a check fails.\<close>

fun visited_names :: "environment \<Rightarrow> query_limits \<Rightarrow> nat \<Rightarrow> string list \<Rightarrow> string list" where
  "visited_names env q n [] = []"
| "visited_names env q n (name # names) =
     (case check env q n of Inl _ \<Rightarrow> [] | Inr _ \<Rightarrow> name # visited_names env q (n + 1) names)"

definition handle_list ::
    "environment \<Rightarrow> detection_error + waveform \<Rightarrow> string option \<Rightarrow> bool \<Rightarrow> cli_result" where
  "handle_list env opened flt pretty =
     (case opened of
        Inl e \<Rightarrow> ([], Inl (CliDetection e))
      | Inr w \<Rightarrow>
          if pretty then (print_signal_list (wave_list_signals w flt) True, Inr ())
          else (filter (\<lambda>name. case flt of None \<Rightarrow> True | Some needle \<Rightarrow> contains_str name needle)
                  (visited_names env unlimited 0 (wave_names w)),
                map_err CliQuery (visit_signal_names env unlimited w 0 (\<lambda>_ _. Continue ()) ())))"

definition handle_meta ::
    "environment \<Rightarrow> (timescale_unit \<Rightarrow> string) \<Rightarrow> detection_error + waveform \<Rightarrow> bool \<Rightarrow> cli_result" where
  "handle_meta env unit_text opened pretty =
     (case opened of
        Inl e \<Rightarrow> ([], Inl (CliDetection e))
      | Inr w \<Rightarrow>
          (case wave_metadata env unlimited w 0 of
             Inl e \<Rightarrow> ([], Inl (CliQuery e))
           | Inr (signal_count, ts, start_time, end_time) \<Rightarrow>
               let text = (case ts of
                     Some t \<Rightarrow> decimal (unat (ts_magnitude t)) @ '' '' @ unit_text (ts_unit t)
                   | None \<Rightarrow> ''n/a'');
                   rows = [[''signals'', decimal signal_count], [''timescale'', text],
                     [''start_time'', decimal (unat start_time)], [''end_time'', decimal (unat end_time)]]
               in ((if pretty then print_table [''Field'', ''Value''] rows
                    else map (\<lambda>row. row ! 0 @ tab @ row ! 1) rows), Inr ())))"

subsection \<open>Extraction\<close>

record table_state =
  tb_time :: "u64 option"
  tb_values :: "string \<rightharpoonup> string"
  tb_rows :: "string list list"

text \<open>Every requested name has a value from the start, so that indexing never fails.\<close>

definition emit_row :: "string list \<Rightarrow> u64 \<Rightarrow> table_state \<Rightarrow> table_state" where
  "emit_row names time st = st\<lparr>tb_rows := tb_rows st @ [decimal (unat time) #
     map (\<lambda>n. case tb_values st n of Some v \<Rightarrow> v | None \<Rightarrow> []) names]\<rparr>"

text \<open>The visitor of the rows; looking up the width of a signal that was not requested panics.\<close>

fun table_loop ::
    "displays \<Rightarrow> string list \<Rightarrow> (string \<rightharpoonup> u32) \<Rightarrow> time_value list \<Rightarrow> table_state \<Rightarrow> bool \<times> table_state" where
  "table_loop D names sizes [] st = (True, st)"
| "table_loop D names sizes (event # rest) st =
     (let st1 = (case tb_time st of
            Some time \<Rightarrow> if time \<noteq> tv_time event then emit_row names time st else st
          | None \<Rightarrow> st);
          st2 = st1\<lparr>tb_time := Some (tv_time event)\<rparr> in
      case sizes (tv_signal event) of
        None \<Rightarrow> (False, st2)
      | Some width \<Rightarrow> table_loop D names sizes rest
          (st2\<lparr>tb_values := (tb_values st2)(tv_signal event \<mapsto>
             format_value_for_signal D (tv_value event) width)\<rparr>))"

definition new_table :: "string list \<Rightarrow> table_state" where
  "new_table names = \<lparr>tb_time = None, tb_values = (\<lambda>n. if n \<in> set names then Some [] else None), tb_rows = []\<rparr>"

definition table_lines :: "string list \<Rightarrow> bool \<Rightarrow> bool \<Rightarrow> string list list \<Rightarrow> string list" where
  "table_lines names pretty finished rows =
     (let headers = ''time'' # names in
      if pretty then (if finished then print_table headers rows else [])
      else join tab headers # map (join tab) rows)"

definition handle_extract ::
    "environment \<Rightarrow> displays \<Rightarrow> string list \<Rightarrow> (io_error + string) option \<Rightarrow> time_window \<Rightarrow> bool
      \<Rightarrow> detection_error + waveform \<Rightarrow> cli_result option" where
  "handle_extract env D signals signals_file win pretty opened =
     (case collect_signal_names signals signals_file of
        Inl e \<Rightarrow> Some ([], Inl e)
      | Inr names \<Rightarrow>
          (case opened of
             Inl e \<Rightarrow> Some ([], Inl (CliDetection e))
           | Inr w \<Rightarrow>
               let sizes = (\<lambda>n. if n \<in> set names then wave_width w n else None);
                   count = length (remdups (filter (\<lambda>n. sizes n \<noteq> None) names)) in
               if count \<noteq> length names
               then Some ([], Inl (CliMessage (''Signals not found in '' @
                      (if wave_format w = FormatVcd then ''VCD'' else ''FST'') @ '': '' @
                      join '', '' (filter (\<lambda>n. sizes n = None) names))))
               else (case wave_rows env D unlimited w 0 names win of
                   None \<Rightarrow> None
                 | Some (rows, ended) \<Rightarrow>
                     (case table_loop D names sizes rows (new_table names) of
                        (False, st) \<Rightarrow> Some (table_lines names pretty False (tb_rows st), Inl CliPanic)
                      | (True, st) \<Rightarrow>
                          (case ended of
                             Inl e \<Rightarrow> Some (table_lines names pretty False (tb_rows st), Inl (CliQuery e))
                           | Inr _ \<Rightarrow>
                               let st' = (case tb_time st of Some time \<Rightarrow> emit_row names time st | None \<Rightarrow> st)
                               in Some (table_lines names pretty True (tb_rows st'), Inr ()))))))"

subsection \<open>Toggles and searches\<close>

definition handle_toggle ::
    "environment \<Rightarrow> displays \<Rightarrow> string list \<Rightarrow> (io_error + string) option \<Rightarrow> time_window \<Rightarrow> bool
      \<Rightarrow> detection_error + waveform \<Rightarrow> cli_result option" where
  "handle_toggle env D signals signals_file win pretty opened =
     (case collect_signal_names signals signals_file of
        Inl e \<Rightarrow> Some ([], Inl e)
      | Inr names \<Rightarrow>
          (case opened of
             Inl e \<Rightarrow> Some ([], Inl (CliDetection e))
           | Inr w \<Rightarrow>
               map_option (\<lambda>r. case r of
                   Inl e \<Rightarrow> ([], Inl (CliQuery e))
                 | Inr counts \<Rightarrow>
                     let rows = map (\<lambda>n. [n, decimal (case counts n of Some c \<Rightarrow> c | None \<Rightarrow> 0)]) names in
                     ((if pretty then print_table [''signal'', ''toggles''] rows
                       else (''signal'' @ tab @ ''toggles'') # map (join tab) rows), Inr ()))
                 (wave_toggles env D unlimited w 0 names win)))"

definition handle_find ::
    "environment \<Rightarrow> displays \<Rightarrow> string \<Rightarrow> string \<Rightarrow> nat \<Rightarrow> time_window \<Rightarrow> bool
      \<Rightarrow> detection_error + waveform \<Rightarrow> cli_result option" where
  "handle_find env D sig val occurrence win pretty opened =
     (if length (filter (\<lambda>part. trim part \<noteq> []) (split_on CHR '','' sig)) \<noteq> 1
      then Some ([], Inl (CliMessage ''Provide exactly one signal for find (no comma-separated lists).''))
      else (case opened of
          Inl e \<Rightarrow> Some ([], Inl (CliDetection e))
        | Inr w \<Rightarrow>
            map_option (\<lambda>r. case r of
                Inl e \<Rightarrow> ([], Inl (CliQuery e))
              | Inr (None, _) \<Rightarrow>
                  ([], Inl (CliMessage ''No matching occurrence found in the specified window.''))
              | Inr (Some event, width) \<Rightarrow>
                  let headers = [''time'', sig];
                      row = [decimal (unat (tv_time event)), format_value_for_signal D (tv_value event) width]
                  in ((if pretty then print_table headers [row] else [join tab headers, join tab row]), Inr ()))
              (wave_find env D unlimited w 0 sig (parse_target_value val) occurrence win)))"

subsection \<open>The comparison report\<close>

definition check_mark :: string where "check_mark = [CHR 0xE2, CHR 0x9C, CHR 0x85]"
definition cross_mark :: string where "cross_mark = [CHR 0xE2, CHR 0x9D, CHR 0x8C]"
definition warning_mark :: string where
  "warning_mark = [CHR 0xE2, CHR 0x9A, CHR 0xA0, CHR 0xEF, CHR 0xB8, CHR 0x8F]"

definition compact_line :: "comparison_result \<Rightarrow> string" where
  "compact_line r =
     (if cr_passed r then check_mark @ '' PASS: All '' @ decimal (length (cr_common r)) @ '' signals match''
      else cross_mark @ '' FAIL: '' @ decimal (cr_signals_with r) @ ''/'' @ decimal (length (cr_common r)) @
        '' signals have mismatches ('' @ decimal (cr_total r) @ '' total)'')"

definition only_section :: "string \<Rightarrow> string list \<Rightarrow> string list" where
  "only_section title sigs = (if sigs = [] then [] else title # map (\<lambda>s. ''  - '' @ s) sigs @ [[]])"

definition mismatch_line :: "displays \<Rightarrow> signal_mismatch \<Rightarrow> string" where
  "mismatch_line D mm =
     ''  Time #'' @ decimal (unat (mm_time mm)) @ '': Ref='' @ [CHR 0x27] @ format_change_value D (mm_value1 mm) @
     [CHR 0x27] @ '' | Actual='' @ [CHR 0x27] @ format_change_value D (mm_value2 mm) @ [CHR 0x27] @ '' '' @
     (if mm_unknown mm then ''(one or both unknown)'' else cross_mark @ '' MISMATCH'')"

definition signal_section :: "displays \<Rightarrow> signal_mismatch list \<Rightarrow> string \<Rightarrow> string list" where
  "signal_section D all sig =
     (let mms = filter (\<lambda>mm. mm_signal mm = sig) all in
      (''Signal: '' @ sig) # map (mismatch_line D) (take 10 mms) @
      (if 10 < length mms then [''  ... and '' @ decimal (length mms - 10) @ '' more''] else []) @
      [''  '' @ cross_mark @ '' '' @ decimal (length mms) @ '' mismatches'', []])"

definition rule_line :: string where "rule_line = replicate 42 CHR ''=''"

definition default_report :: "displays \<Rightarrow> comparison_result \<Rightarrow> string list" where
  "default_report D r =
     [rule_line, ''Waveform Comparison Results'', rule_line, [],
      ''Reference: '' @ cr_file1 r, ''Actual:    '' @ cr_file2 r, []] @
     only_section ''Signals only in reference:'' (cr_only1 r) @
     only_section ''Signals only in actual:'' (cr_only2 r) @
     [''Common signals: '' @ decimal (length (cr_common r)), []] @
     (if cr_common r = [] then [warning_mark @ ''  No common signals to compare!'']
      else
        [rule_line, ''Signal Value Comparison'', rule_line, []] @
        (if cr_passed r
         then [''All common signals match ('' @ decimal (length (cr_common r)) @ '' total).'', []]
         else concat (map (signal_section D (cr_mismatches r)) (sort (remdups (map mm_signal (cr_mismatches r))))) @
           [''Matched signals: '' @ decimal (length (cr_common r) - cr_signals_with r) @ '' / '' @
              decimal (length (cr_common r)), []]) @
        [rule_line, ''Summary'', rule_line, []] @
        (if cr_passed r
         then [check_mark @ '' SUCCESS: All signal values match!'', [], ''The two waveform files are equivalent.'']
         else [cross_mark @ '' FAILURES FOUND'', [], ''Total mismatches: '' @ decimal (cr_total r),
           ''Signals with mismatches: '' @ decimal (cr_signals_with r) @ '' / '' @ decimal (length (cr_common r))]) @
        [[]])"

definition handle_compare ::
    "displays \<Rightarrow> (json_comparison_result \<Rightarrow> string + string) \<Rightarrow> comparison_result \<Rightarrow> string option \<Rightarrow> cli_result" where
  "handle_compare D to_json r output =
     (let format = (case output of Some f \<Rightarrow> f | None \<Rightarrow> ''default'') in
      if format = ''json''
      then (case to_json (json_of_comparison r) of
          Inl e \<Rightarrow> ([], Inl (CliMessage (''JSON serialization error: '' @ e)))
        | Inr text \<Rightarrow> ([text], Inr ()))
      else if format = ''compact'' then ([compact_line r], Inr ())
      else (default_report D r, Inr ()))"

subsection \<open>The commands\<close>

datatype cli_command =
    CmdList string "string option"
  | CmdMeta string
  | CmdExtract string "string list" "string option" time_window
  | CmdToggle string "string list" "string option" time_window
  | CmdFind string string string nat time_window
  | CmdCompare string string "nat option" "string option" bool time_window "string option"
  | CmdServe string string runtime_config service_config

text \<open>The values the arguments of \<^verbatim>\<open>serve\<close> and \<^verbatim>\<open>find\<close> have when they are not given.\<close>

definition serve_default_runtime :: runtime_config where
  "serve_default_runtime = \<lparr>rc_max_connections = 32, rc_max_active = 8, rc_workers = 4, rc_queue_depth = 64,
     rc_output_chunks = 8, rc_request_line_bytes = 1048576, rc_max_frame_bytes = 262144, rc_max_timeout_ms = 120000\<rparr>"

definition serve_default_service :: service_config where
  "serve_default_service = \<lparr>sc_max_signals = 4096, sc_max_rows = 1000000, sc_max_response_bytes = 268435456,
     sc_max_commands = 1000000000\<rparr>"

definition find_default_occurrence :: nat where "find_default_occurrence = 1"

lemma serve_defaults:
  "serve_default_runtime = default_runtime" "serve_default_service = default_service"
  "service_validate serve_default_service = Inr ()"
  "representable 120000 \<Longrightarrow> runtime_validate representable serve_default_runtime = Inr ()"
  by (simp_all add: serve_default_runtime_def default_runtime_def serve_default_service_def default_service_def
      service_validate_def runtime_validate_def max_request_line_bytes_def chunk_bytes_def terminal_frame_reserve_bytes_def)

text \<open>
  What the commands use of the outside: opening a waveform under the format hint, reading a file,
  the format probe, whether the clock can show a deadline, and running the server.
\<close>

record cli_system =
  cs_env :: environment
  cs_displays :: displays
  cs_open :: "string \<Rightarrow> detection_error + waveform"
  cs_read :: "string \<Rightarrow> io_error + string"
  cs_detect :: "string \<Rightarrow> detection_error + waveform_format"
  cs_representable :: "u64 \<Rightarrow> bool"
  cs_unit_text :: "timescale_unit \<Rightarrow> string"
  cs_to_json :: "json_comparison_result \<Rightarrow> string + string"
  cs_serve :: "string \<Rightarrow> string \<Rightarrow> runtime_config \<Rightarrow> service_config \<Rightarrow> io_error + unit"

fun run_command :: "cli_system \<Rightarrow> bool \<Rightarrow> cli_command \<Rightarrow> cli_result option" where
  "run_command sys pretty (CmdList vcd flt) = Some (handle_list (cs_env sys) (cs_open sys vcd) flt pretty)"
| "run_command sys pretty (CmdMeta vcd) = Some (handle_meta (cs_env sys) (cs_unit_text sys) (cs_open sys vcd) pretty)"
| "run_command sys pretty (CmdExtract vcd signals signals_file win) =
     handle_extract (cs_env sys) (cs_displays sys) signals (map_option (cs_read sys) signals_file) win pretty
       (cs_open sys vcd)"
| "run_command sys pretty (CmdToggle vcd signals signals_file win) =
     handle_toggle (cs_env sys) (cs_displays sys) signals (map_option (cs_read sys) signals_file) win pretty
       (cs_open sys vcd)"
| "run_command sys pretty (CmdFind vcd sig val occurrence win) =
     handle_find (cs_env sys) (cs_displays sys) sig val occurrence win pretty (cs_open sys vcd)"
| "run_command sys pretty (CmdCompare reference actual max_mismatches signals_only ignore_unknown win output) =
     (let opts = \<lparr>co_max_mismatches = max_mismatches,
            co_signals_only = comma_parts (case signals_only of Some s \<Rightarrow> s | None \<Rightarrow> []),
            co_ignore_unknown = ignore_unknown, co_window = win\<rparr> in
      case cs_open sys reference of
        Inl e \<Rightarrow> Some ([], Inl (CliDetection e))
      | Inr a \<Rightarrow>
          (case cs_open sys actual of
             Inl e \<Rightarrow> Some ([], Inl (CliDetection e))
           | Inr b \<Rightarrow>
               map_option (\<lambda>r. case r of
                   Inl e \<Rightarrow> ([], Inl (CliQuery e))
                 | Inr result \<Rightarrow> handle_compare (cs_displays sys) (cs_to_json sys) result output)
                 (wave_compare (cs_env sys) (cs_displays sys) unlimited 0 a b opts)))"
| "run_command sys pretty (CmdServe vcd socket runtime service) =
     Some ([],
       and_then (map_err CliIo (runtime_validate (cs_representable sys) runtime)) (\<lambda>_.
       and_then (map_err CliIo (service_validate service)) (\<lambda>_.
       and_then (map_err CliDetection (cs_detect sys vcd)) (\<lambda>_.
       if \<not> starts_with socket ''/'' then Inl (CliMessage ''--socket must be an absolute path'')
       else map_err CliIo (cs_serve sys vcd socket runtime service)))))"

subsection \<open>What an extraction prints\<close>

text \<open>The values shown at a group: the last of each name so far, nothing before the first.\<close>

definition shown_row :: "displays \<Rightarrow> (string \<rightharpoonup> u32) \<Rightarrow> string list \<Rightarrow> time_value list list \<Rightarrow> nat \<Rightarrow> string list" where
  "shown_row D sizes names gs k =
     decimal (unat (tv_time (hd (gs ! k)))) #
     map (\<lambda>n. case values_after (concat (take (k + 1) gs)) n of
         None \<Rightarrow> [] | Some v \<Rightarrow> format_value_for_signal D v (the (sizes n))) names"

definition shown_rows :: "displays \<Rightarrow> (string \<rightharpoonup> u32) \<Rightarrow> string list \<Rightarrow> time_value list list \<Rightarrow> string list list" where
  "shown_rows D sizes names gs = map (shown_row D sizes names gs) [0..<length gs]"

lemma shown_row_append: "k < length gs \<Longrightarrow> shown_row D sizes names (gs @ hs) k = shown_row D sizes names gs k"
  by (simp add: shown_row_def nth_append)

lemma shown_rows_snoc:
  "shown_rows D sizes names (gs @ [g]) = shown_rows D sizes names gs @ [shown_row D sizes names (gs @ [g]) (length gs)]"
  by (auto simp: shown_rows_def shown_row_append)

definition text_values :: "displays \<Rightarrow> (string \<rightharpoonup> u32) \<Rightarrow> string list \<Rightarrow> time_value list \<Rightarrow> string \<rightharpoonup> string" where
  "text_values D sizes names evts = (\<lambda>n. case values_after evts n of
     None \<Rightarrow> if n \<in> set names then Some [] else None
   | Some v \<Rightarrow> Some (format_value_for_signal D v (the (sizes n))))"

lemma text_values_snoc:
  "sizes (tv_signal e) = Some width \<Longrightarrow>
     text_values D sizes names (es @ [e]) =
     (text_values D sizes names es)(tv_signal e \<mapsto> format_value_for_signal D (tv_value e) width)"
  by (auto simp: text_values_def values_after_append values_after_def fun_eq_iff)

text \<open>The table after the rows \<open>es\<close>.\<close>

definition table_after :: "displays \<Rightarrow> (string \<rightharpoonup> u32) \<Rightarrow> string list \<Rightarrow> time_value list \<Rightarrow> table_state" where
  "table_after D sizes names es =
     \<lparr>tb_time = (if es = [] then None else Some (tv_time (last es))),
      tb_values = text_values D sizes names es,
      tb_rows = shown_rows D sizes names (butlast (time_groups es))\<rparr>"

lemma emit_last_group:
  assumes "es \<noteq> []"
  shows "tb_rows (emit_row names (tv_time (last es)) (table_after D sizes names es)) =
    shown_rows D sizes names (time_groups es)"
proof -
  obtain gs g where gs: "time_groups es = gs @ [g]" by (metis append_butlast_last_id time_groups_empty assms)
  have all: "concat (gs @ [g]) = es" using concat_time_groups [of es] gs by simp
  have "\<forall>e \<in> set g. tv_time e = tv_time (last es)"
    using last_group_time [OF assms] gs by simp
  moreover have "g \<noteq> []" using last_in_group [OF assms] gs by simp
  ultimately have "tv_time (hd g) = tv_time (last es)" by simp
  then show ?thesis
    using all by (auto simp: emit_row_def table_after_def gs shown_rows_snoc shown_row_def text_values_def
        nth_append split: option.splits)
qed

lemma table_loop_result:
  assumes "\<forall>e \<in> set fs. sizes (tv_signal e) \<noteq> None"
  shows "table_loop D names sizes fs (table_after D sizes names es) = (True, table_after D sizes names (es @ fs))"
  using assms
proof (induction fs arbitrary: es)
  case (Cons e fs)
  obtain width where w: "sizes (tv_signal e) = Some width" using Cons.prems by auto
  let ?st = "table_after D sizes names es"
  let ?st1 = "case tb_time ?st of
      Some time \<Rightarrow> if time \<noteq> tv_time e then emit_row names time ?st else ?st | None \<Rightarrow> ?st"
  have rows: "tb_rows ?st1 = shown_rows D sizes names (butlast (time_groups (es @ [e])))"
  proof (cases "es = []")
    case True
    then show ?thesis by (simp add: table_after_def shown_rows_def time_groups_snoc)
  next
    case False
    then obtain gs g where gs: "time_groups es = gs @ [g]" by (metis append_butlast_last_id time_groups_empty)
    show ?thesis
    proof (cases "tv_time (last es) = tv_time e")
      case True
      then show ?thesis using False gs by (simp add: table_after_def time_groups_snoc)
    next
      case other: False
      have "tb_time ?st = Some (tv_time (last es))" using False by (simp add: table_after_def)
      then have "tb_rows ?st1 = shown_rows D sizes names (time_groups es)"
        using other emit_last_group [OF False] by simp
      then show ?thesis using False other by (simp add: time_groups_snoc)
    qed
  qed
  have vals: "tb_values ?st1 = text_values D sizes names es"
    by (auto simp: table_after_def emit_row_def)
  have "?st1\<lparr>tb_time := Some (tv_time e), tb_values := (text_values D sizes names es)
      (tv_signal e \<mapsto> format_value_for_signal D (tv_value e) width)\<rparr> = table_after D sizes names (es @ [e])"
    using rows text_values_snoc [where e = e and sizes = sizes and width = width and D = D and names = names and es = es] w by (simp add: table_after_def)
  then have "table_loop D names sizes (e # fs) ?st = table_loop D names sizes fs (table_after D sizes names (es @ [e]))"
    using w vals by (simp add: Let_def)
  also have "\<dots> = (True, table_after D sizes names ((es @ [e]) @ fs))" using Cons by (intro Cons.IH) simp
  finally show ?case by simp
qed simp

lemma requested_rows_names:
  "e \<in> set (requested_rows D names win t rs) \<Longrightarrow> \<exists>i. tv_signal e \<in> set (names i)"
  by (induction D names win t rs rule: requested_rows.induct)
    (auto split: command.splits option.splits if_splits)

lemma wave_requested_names:
  assumes "wave_valid w" and "e \<in> set (wave_requested D w targets win)"
  shows "tv_signal e \<in> set targets"
proof (cases w)
  case (WVcd v)
  then obtain i where "tv_signal e \<in> set (map tb_name (target_bindings (vw_opened v) 0 i targets))"
    using assms(2) by (auto simp: rows_of_def dest!: requested_rows_names)
  moreover obtain ds paths where "represents (ov_catalog (vw_opened v)) ds paths"
    using assms(1) WVcd by (auto simp: vcd_valid_def built_def)
  ultimately show ?thesis by (simp add: target_binding_names)
next
  case (WFst ofs src)
  with assms(2) obtain start stop change where "e \<in> set (change_rows ofs targets start stop change)"
    by (auto simp: fst_rows_def Let_def split: if_splits)
  then show ?thesis
    using change_rows_names [of e ofs targets start stop "fst change" "fst (snd change)" "snd (snd change)"]
    by (simp add: handle_names_def)
qed

lemma handle_extract_rows:
  assumes "wave_valid w" and names: "collect_signal_names signals signals_file = Inr names" "distinct names"
    and found: "\<forall>n \<in> set names. wave_width w n \<noteq> None"
    and run: "wave_rows env D unlimited w 0 names win = Some (rows, ended)"
  shows "handle_extract env D signals signals_file win pretty (Inr w) = Some
     (case ended of
        Inl e \<Rightarrow> (table_lines names pretty False (shown_rows D (wave_width w) names (butlast (time_groups rows))),
                  Inl (CliQuery e))
      | Inr _ \<Rightarrow> (table_lines names pretty True (shown_rows D (wave_width w) names (time_groups rows)), Inr ()))"
proof -
  let ?sizes = "\<lambda>n. if n \<in> set names then wave_width w n else None"
  have count: "length (remdups (filter (\<lambda>n. ?sizes n \<noteq> None) names)) = length names"
  proof -
    have "filter (\<lambda>n. ?sizes n \<noteq> None) names = names" using found by (intro filter_True) simp
    then show ?thesis using names(2) by (simp add: distinct_remdups_id)
  qed
  obtain zs where "wave_requested D w names win = rows @ zs"
    using wave_rows_result [of env D unlimited w 0 names win] run by (auto simp: prefix_def)
  then have inside: "\<forall>e \<in> set rows. tv_signal e \<in> set names"
    using wave_requested_names [OF assms(1), of _ D names win] by auto
  have start: "new_table names = table_after D ?sizes names []"
    by (simp add: new_table_def table_after_def text_values_def shown_rows_def fun_eq_iff)
  have "\<forall>e \<in> set rows. ?sizes (tv_signal e) \<noteq> None" using inside found by auto
  from table_loop_result [OF this, of D names "[]", folded start]
  have loop: "table_loop D names ?sizes rows (new_table names) = (True, table_after D ?sizes names rows)" by simp
  have same: "shown_rows D ?sizes names gs = shown_rows D (wave_width w) names gs" for gs
    by (simp add: shown_rows_def shown_row_def cong: option.case_cong)
  have final: "tb_rows (case tb_time (table_after D ?sizes names rows) of
      Some time \<Rightarrow> emit_row names time (table_after D ?sizes names rows)
    | None \<Rightarrow> table_after D ?sizes names rows) = shown_rows D (wave_width w) names (time_groups rows)"
  proof (cases "rows = []")
    case True
    then show ?thesis by (simp add: table_after_def shown_rows_def)
  next
    case False
    then show ?thesis using emit_last_group [OF False, of names D ?sizes] same by (simp add: table_after_def)
  qed
  have partial: "tb_rows (table_after D ?sizes names rows) = shown_rows D (wave_width w) names (butlast (time_groups rows))"
    by (simp add: table_after_def same)
  show ?thesis
    using names(1) count run loop final partial
    by (simp add: handle_extract_def Let_def split: sum.splits)
qed

text \<open>
  C39. The extraction table shows, for each time at which a requested signal changes, the values all
  requested signals have at that time. For any waveform of either format, distinct names that it
  has and any window, the command ends; its rows are exactly one for each group of consecutive
  changes of one time, with the last value of every name so far and nothing before its first
  change; when it succeeds they cover all the requested changes, and when the query fails the
  changes are a prefix of them, the last group is not shown and the error is reported. The column
  titles always come first, except that a table that is aligned is only shown on success.
\<close>

theorem extraction_table:
  assumes "wave_valid w" and "collect_signal_names signals signals_file = Inr names" and "distinct names"
    and "\<forall>n \<in> set names. wave_width w n \<noteq> None"
  shows "\<exists>rows ended. prefix rows (wave_requested D w names win) \<and>
     (ended = Inr () \<longrightarrow> rows = wave_requested D w names win) \<and>
     handle_extract env D signals signals_file win pretty (Inr w) = Some
       (case ended of
          Inl e \<Rightarrow> (table_lines names pretty False (shown_rows D (wave_width w) names (butlast (time_groups rows))),
                    Inl (CliQuery e))
        | Inr _ \<Rightarrow> (table_lines names pretty True (shown_rows D (wave_width w) names (time_groups rows)), Inr ()))"
proof -
  obtain rows ended where run: "wave_rows env D unlimited w 0 names win = Some (rows, ended)"
      and "prefix rows (wave_requested D w names win)" "ended = Inr () \<longrightarrow> rows = wave_requested D w names win"
    using wave_rows_result [of env D unlimited w 0 names win] by auto
  with handle_extract_rows [OF assms run] show ?thesis by blast
qed

text \<open>
  A name given twice makes the command fail with a message that names no signal, although every
  signal is there.
\<close>

lemma repeated_name_is_refused:
  assumes "collect_signal_names signals signals_file = Inr names" and "\<not> distinct names"
    and "\<forall>n \<in> set names. wave_width w n \<noteq> None"
  shows "handle_extract env D signals signals_file win pretty (Inr w) =
    Some ([], Inl (CliMessage (''Signals not found in '' @ (if wave_format w = FormatVcd then ''VCD'' else ''FST'') @ '': '')))"
proof -
  let ?sizes = "\<lambda>n. if n \<in> set names then wave_width w n else None"
  have all: "filter (\<lambda>n. ?sizes n \<noteq> None) names = names" "filter (\<lambda>n. ?sizes n = None) names = []"
    using assms(3) by (auto intro: filter_True simp: filter_empty_conv)
  moreover have "length (remdups names) \<noteq> length names"
    using assms(2) by (metis length_remdups_eq remdups_id_iff_distinct)
  ultimately show ?thesis using assms(1) by (simp add: handle_extract_def Let_def)
qed

theorem extraction_table_witness:
  "\<exists>rows lines ended. prefix rows (wave_requested plain_displays sample_vcd_wave [''top.cpu.clk''] all_time) \<and>
     handle_extract calm plain_displays [''top.cpu.clk''] None all_time False (Inr sample_vcd_wave) = Some (lines, ended) \<and>
     lines = table_lines [''top.cpu.clk''] False (ended = Inr ()) (shown_rows plain_displays (wave_width sample_vcd_wave)
       [''top.cpu.clk''] (if ended = Inr () then time_groups rows else butlast (time_groups rows)))"
proof -
  have names: "collect_signal_names [''top.cpu.clk''] None = Inr [''top.cpu.clk'']" by code_simp
  have "wave_width sample_vcd_wave ''top.cpu.clk'' \<noteq> None"
    using sample_signal by (auto simp: sample_vcd_wave_def)
  then have found: "\<forall>n \<in> set [''top.cpu.clk'']. wave_width sample_vcd_wave n \<noteq> None" by simp
  have "distinct [''top.cpu.clk'']" by simp
  from extraction_table [OF sample_waves_valid(1) names this found, of plain_displays all_time calm False]
  obtain rows and ended :: "query_error + unit" where r: "prefix rows (wave_requested plain_displays sample_vcd_wave [''top.cpu.clk''] all_time)"
      "handle_extract calm plain_displays [''top.cpu.clk''] None all_time False (Inr sample_vcd_wave) = Some
        (case ended of
          Inl e \<Rightarrow> (table_lines [''top.cpu.clk''] False False (shown_rows plain_displays (wave_width sample_vcd_wave)
              [''top.cpu.clk''] (butlast (time_groups rows))), Inl (CliQuery e))
        | Inr _ \<Rightarrow> (table_lines [''top.cpu.clk''] False True (shown_rows plain_displays (wave_width sample_vcd_wave)
              [''top.cpu.clk''] (time_groups rows)), Inr ()))"
    by (elim exE conjE) (rule that)
  show ?thesis by (intro exI [of _ rows]) (use r in \<open>cases ended; simp\<close>)
qed

end
