(* ===== verification/Python_Api.thy ===== *)
theory Python_Api
  imports Cli
begin

text \<open>
  The functions of the Python module, src/python.rs, over the facade (Waveform): opening under
  automatic detection, a query without limits, and the conversion of its answer. A Python exception is
  its text. PyO3's own conversions of arguments and results are external, the results are the objects
  they build; running the server without the interpreter's lock is the function \<open>ps_serve\<close>.
\<close>

datatype py_value =
    PyNone
  | PyBool bool
  | PyInt nat
  | PyStr string
  | PyList "py_value list"
  | PyDict "(string \<times> py_value) list"

type_synonym 'a py_result = "string + 'a"

record python_system =
  py_env :: environment
  py_displays :: displays
  py_open :: "string \<Rightarrow> detection_error + waveform"
  py_detect :: "string \<Rightarrow> format_hint \<Rightarrow> detection_error + waveform_format"
  py_unit_text :: "timescale_unit \<Rightarrow> string"
  py_serve :: "string \<Rightarrow> string \<Rightarrow> runtime_config \<Rightarrow> service_config \<Rightarrow> io_error + unit"

subsection \<open>The functions\<close>

definition open_waveform :: "python_system \<Rightarrow> string \<Rightarrow> waveform py_result" where
  "open_waveform sys path = map_err detection_error_text (py_open sys path)"

definition assert_format :: "python_system \<Rightarrow> string \<Rightarrow> string \<Rightarrow> string py_result" where
  "assert_format sys path format =
     and_then
       (if format = ''auto'' then Inr HintAuto
        else if format = ''vcd'' then Inr HintVcd
        else if format = ''fst'' then Inr HintFst
        else Inl ''format must be auto, vcd, or fst'') (\<lambda>hint.
     and_then (map_err detection_error_text (py_detect sys path hint)) (\<lambda>f. Inr (format_text f)))"

definition py_list_signals :: "python_system \<Rightarrow> string \<Rightarrow> string option \<Rightarrow> string list py_result" where
  "py_list_signals sys path flt = and_then (open_waveform sys path) (\<lambda>w. Inr (wave_list_signals w flt))"

definition py_metadata :: "python_system \<Rightarrow> string \<Rightarrow> py_value py_result" where
  "py_metadata sys path =
     and_then (open_waveform sys path) (\<lambda>w.
     and_then (map_err query_error_text (wave_metadata (py_env sys) unlimited w 0))
       (\<lambda>(signal_count, ts, start_time, end_time).
       Inr (PyDict [(''signal_count'', PyInt signal_count), (''start_time'', PyInt (unat start_time)),
         (''end_time'', PyInt (unat end_time)),
         (''timescale'', case ts of
            None \<Rightarrow> PyNone
          | Some t \<Rightarrow> PyStr (decimal (unat (ts_magnitude t)) @ '' '' @ py_unit_text sys (ts_unit t)))])))"

text \<open>A query over an opened file; \<open>None\<close>: it does not end.\<close>

definition py_query ::
    "python_system \<Rightarrow> string \<Rightarrow> (waveform \<Rightarrow> (query_error + 'a) option) \<Rightarrow> 'a py_result option" where
  "py_query sys path query =
     (case open_waveform sys path of
        Inl e \<Rightarrow> Some (Inl e)
      | Inr w \<Rightarrow> map_option (map_err query_error_text) (query w))"

definition row_dict :: "displays \<Rightarrow> time_value \<Rightarrow> py_value" where
  "row_dict D tv = PyDict [(''signal'', PyStr (tv_signal tv)), (''time'', PyInt (unat (tv_time tv))),
     (''value'', PyStr (value_text D (tv_value tv)))]"

definition py_extract ::
    "python_system \<Rightarrow> string \<Rightarrow> string list \<Rightarrow> u64 option \<Rightarrow> u64 option \<Rightarrow> py_value list py_result option" where
  "py_extract sys path signals start stop =
     map_option (\<lambda>r. and_then r (\<lambda>rows. Inr (map (row_dict (py_displays sys)) rows)))
       (py_query sys path (\<lambda>w. wave_extract (py_env sys) (py_displays sys) unlimited w 0 signals
         \<lparr>win_start = start, win_end = stop\<rparr>))"

definition py_toggles ::
    "python_system \<Rightarrow> string \<Rightarrow> string list \<Rightarrow> u64 option \<Rightarrow> u64 option \<Rightarrow> (string \<rightharpoonup> nat) py_result option" where
  "py_toggles sys path signals start stop =
     py_query sys path (\<lambda>w. wave_toggles (py_env sys) (py_displays sys) unlimited w 0 signals
       \<lparr>win_start = start, win_end = stop\<rparr>)"

definition found_dict :: "displays \<Rightarrow> string \<Rightarrow> time_value option \<Rightarrow> py_value" where
  "found_dict D sig found =
     (case found of
        Some tv \<Rightarrow> PyDict [(''found'', PyBool True), (''signal'', PyStr (tv_signal tv)),
          (''time'', PyInt (unat (tv_time tv))), (''value'', PyStr (value_text D (tv_value tv)))]
      | None \<Rightarrow> PyDict [(''found'', PyBool False), (''signal'', PyStr sig), (''time'', PyNone), (''value'', PyNone)])"

definition py_find ::
    "python_system \<Rightarrow> string \<Rightarrow> string \<Rightarrow> string \<Rightarrow> nat \<Rightarrow> u64 option \<Rightarrow> u64 option \<Rightarrow> py_value py_result option" where
  "py_find sys path sig val occurrence start stop =
     map_option (\<lambda>r. and_then r (\<lambda>(found, _). Inr (found_dict (py_displays sys) sig found)))
       (py_query sys path (\<lambda>w. wave_find (py_env sys) (py_displays sys) unlimited w 0 sig (parse_target_value val)
         occurrence \<lparr>win_start = start, win_end = stop\<rparr>))"

definition mismatch_dict :: "displays \<Rightarrow> signal_mismatch \<Rightarrow> py_value" where
  "mismatch_dict D mm = PyDict [(''signal'', PyStr (mm_signal mm)), (''time'', PyInt (unat (mm_time mm))),
     (''value1'', PyStr (value_text D (mm_value1 mm))), (''value2'', PyStr (value_text D (mm_value2 mm))),
     (''is_unknown'', PyBool (mm_unknown mm))]"

definition comparison_dict :: "displays \<Rightarrow> comparison_result \<Rightarrow> py_value" where
  "comparison_dict D r = PyDict [(''passed'', PyBool (cr_passed r)), (''file1'', PyStr (cr_file1 r)),
     (''file2'', PyStr (cr_file2 r)), (''common_signals'', PyList (map PyStr (cr_common r))),
     (''signals_only_in_file1'', PyList (map PyStr (cr_only1 r))),
     (''signals_only_in_file2'', PyList (map PyStr (cr_only2 r))),
     (''total_mismatches'', PyInt (cr_total r)), (''signals_with_mismatches'', PyInt (cr_signals_with r)),
     (''mismatches'', PyList (map (mismatch_dict D) (cr_mismatches r)))]"

definition py_compare ::
    "python_system \<Rightarrow> string \<Rightarrow> string \<Rightarrow> nat option \<Rightarrow> string list option \<Rightarrow> bool \<Rightarrow> u64 option \<Rightarrow> u64 option
      \<Rightarrow> py_value py_result option" where
  "py_compare sys file1 file2 max_mismatches signals ignore_unknown start stop =
     (let opts = \<lparr>co_max_mismatches = max_mismatches,
            co_signals_only = (case signals of Some ss \<Rightarrow> ss | None \<Rightarrow> []),
            co_ignore_unknown = ignore_unknown, co_window = \<lparr>win_start = start, win_end = stop\<rparr>\<rparr> in
      case and_then (open_waveform sys file1) (\<lambda>a. and_then (open_waveform sys file2) (\<lambda>b. Inr (a, b))) of
        Inl e \<Rightarrow> Some (Inl e)
      | Inr (a, b) \<Rightarrow>
          map_option (\<lambda>r. and_then (map_err query_error_text r) (\<lambda>result.
              Inr (comparison_dict (py_displays sys) result)))
            (wave_compare (py_env sys) (py_displays sys) unlimited 0 a b opts))"

definition py_run_server ::
    "python_system \<Rightarrow> string \<Rightarrow> string \<Rightarrow> runtime_config \<Rightarrow> service_config \<Rightarrow> unit py_result" where
  "py_run_server sys path socket runtime service =
     (if \<not> starts_with socket ''/'' then Inl ''socket path must be absolute''
      else map_err io_message (py_serve sys path socket runtime service))"

subsection \<open>Agreement with the commands\<close>

text \<open>
  On the same waveform the toggle counts of the module are those the command prints, and a failure has
  the text of the command's query error.
\<close>

lemma toggles_agree:
  assumes "py_open sys path = Inr w" and "concat (map comma_parts signals) = signals" and "signals \<noteq> []"
  shows "handle_toggle (py_env sys) (py_displays sys) signals None \<lparr>win_start = start, win_end = stop\<rparr> False (Inr w) =
      None \<longleftrightarrow> py_toggles sys path signals start stop = None"
    and "py_toggles sys path signals start stop = Some (Inr counts) \<Longrightarrow>
      handle_toggle (py_env sys) (py_displays sys) signals None \<lparr>win_start = start, win_end = stop\<rparr> False (Inr w) =
      Some ((''signal'' @ tab @ ''toggles'') #
        map (\<lambda>n. n @ tab @ decimal (case counts n of Some c \<Rightarrow> c | None \<Rightarrow> 0)) signals, Inr ())"
    and "py_toggles sys path signals start stop = Some (Inl message) \<Longrightarrow>
      \<exists>e. query_error_text e = message \<and>
        handle_toggle (py_env sys) (py_displays sys) signals None \<lparr>win_start = start, win_end = stop\<rparr> False (Inr w) =
        Some ([], Inl (CliQuery e))"
proof -
  let ?query = "wave_toggles (py_env sys) (py_displays sys) unlimited w 0 signals \<lparr>win_start = start, win_end = stop\<rparr>"
  let ?command = "handle_toggle (py_env sys) (py_displays sys) signals None \<lparr>win_start = start, win_end = stop\<rparr> False (Inr w)"
  have py: "py_toggles sys path signals start stop = map_option (map_err query_error_text) ?query"
    by (simp add: py_toggles_def py_query_def open_waveform_def assms(1))
  have cli: "?command = map_option (\<lambda>r. case r of
      Inl e \<Rightarrow> ([], Inl (CliQuery e))
    | Inr counts \<Rightarrow> ((''signal'' @ tab @ ''toggles'') #
        map (\<lambda>n. n @ tab @ decimal (case counts n of Some c \<Rightarrow> c | None \<Rightarrow> 0)) signals, Inr ())) ?query"
    using assms(2,3)
    by (cases ?query; cases "the ?query") (simp_all add: handle_toggle_def collect_signal_names_def comp_def Let_def)
  show "?command = None \<longleftrightarrow> py_toggles sys path signals start stop = None" unfolding py cli by simp
  show "?command = Some ((''signal'' @ tab @ ''toggles'') #
      map (\<lambda>n. n @ tab @ decimal (case counts n of Some c \<Rightarrow> c | None \<Rightarrow> 0)) signals, Inr ())"
    if gives: "py_toggles sys path signals start stop = Some (Inr counts)"
  proof -
    obtain x where "?query = Some x" "map_err query_error_text x = Inr counts"
      using gives [unfolded py] by (cases ?query) simp_all
    then show ?thesis unfolding cli by (cases x) simp_all
  qed
  show "\<exists>e. query_error_text e = message \<and> ?command = Some ([], Inl (CliQuery e))"
    if gives: "py_toggles sys path signals start stop = Some (Inl message)"
  proof -
    obtain x where "?query = Some x" "map_err query_error_text x = Inl message"
      using gives [unfolded py] by (cases ?query) simp_all
    then show ?thesis unfolding cli by (cases x) simp_all
  qed
qed

text \<open>The event the module finds is the one the command prints; finding nothing is an error there only.\<close>

lemma find_agrees:
  assumes "py_open sys path = Inr w" and "length (filter (\<lambda>part. trim part \<noteq> []) (split_on CHR '','' sig)) = 1"
    and "py_find sys path sig val occurrence start stop = Some (Inr answer)"
  shows "\<exists>found width. answer = found_dict (py_displays sys) sig found \<and>
    handle_find (py_env sys) (py_displays sys) sig val occurrence \<lparr>win_start = start, win_end = stop\<rparr> False (Inr w) =
      Some (case found of
        None \<Rightarrow> ([], Inl (CliMessage ''No matching occurrence found in the specified window.''))
      | Some event \<Rightarrow> ([join tab [''time'', sig], join tab [decimal (unat (tv_time event)),
          format_value_for_signal (py_displays sys) (tv_value event) width]], Inr ()))"
proof -
  let ?query = "wave_find (py_env sys) (py_displays sys) unlimited w 0 sig (parse_target_value val) occurrence
    \<lparr>win_start = start, win_end = stop\<rparr>"
  have "py_find sys path sig val occurrence start stop = map_option (\<lambda>r. and_then (map_err query_error_text r)
      (\<lambda>(found, _). Inr (found_dict (py_displays sys) sig found))) ?query"
    by (simp add: py_find_def py_query_def open_waveform_def assms(1) option.map_comp comp_def)
  then obtain x where x: "?query = Some x"
      "and_then (map_err query_error_text x) (\<lambda>(found, _). Inr (found_dict (py_displays sys) sig found)) = Inr answer"
    using assms(3) by (cases ?query) auto
  then obtain found width where "x = Inr (found, width)" "answer = found_dict (py_displays sys) sig found"
    by (cases x) auto
  then show ?thesis
    using x(1) assms(2) by (intro exI [of _ found] exI [of _ width]) (cases found; simp add: handle_find_def)
qed

text \<open>Every function answers: a query over any waveform that the facade opens ends.\<close>

lemma extract_answers:
  assumes "py_open sys path = Inr w"
  shows "\<exists>r. py_extract sys path signals start stop = Some r \<and>
    (\<forall>rows. r = Inr rows \<longrightarrow> rows = map (row_dict (py_displays sys))
       (wave_requested (py_displays sys) w signals \<lparr>win_start = start, win_end = stop\<rparr>))"
proof -
  obtain rows r where run: "wave_rows (py_env sys) (py_displays sys) unlimited w 0 signals \<lparr>win_start = start, win_end = stop\<rparr> = Some (rows, r)"
      "r = Inr () \<longrightarrow> rows = wave_requested (py_displays sys) w signals \<lparr>win_start = start, win_end = stop\<rparr>"
    using wave_rows_result by blast
  then show ?thesis
    by (cases r) (simp_all add: py_extract_def py_query_def open_waveform_def assms wave_extract_def map_err_def)
qed

end
