(* ===== verification/Library_Api.thy ===== *)
theory Library_Api
  imports Opened Ops Metadata_Cache
begin

text \<open>
  The functions of the library on paths, src/lib.rs: a file is opened (Opened) and then queried
  without limits (Ops, Metadata_Cache). This is where the two halves meet, the bytes of a file and the
  list of commands its body parses to.

  The file system is looked at anew at every moment: \<open>lb_files 0\<close> when the file is opened,
  \<open>lb_files (Suc n)\<close> at the n-th observation of the query. \<open>lb_commands\<close> is what the body parser of
  the vcd crate delivers for the text it could read and the error that ended it, if one did.
\<close>

subsection \<open>Opening and querying\<close>

record vcd_library =
  lb_hash :: "string \<Rightarrow> string"
  lb_header :: header_parser
  lb_commands :: "string \<Rightarrow> vcd_error option \<Rightarrow> (io_error + command) list"
  lb_files :: "nat \<Rightarrow> path_system"
  lb_counter :: u64
  lb_validated :: "opened_source \<Rightarrow> nat \<Rightarrow> vcd_error + unit"

text \<open>\<^verbatim>\<open>OpenedVcd::open\<close>\<close>

definition open_default :: "vcd_library \<Rightarrow> string \<Rightarrow> (vcd_error + opened_source) option" where
  "open_default lib path = map_option fst
     (open_with_options (lb_hash lib) (lb_header lib) (lb_files lib 0) (lb_counter lib) path MetadataAndSamples)"

text \<open>The context \<^verbatim>\<open>QueryContext::legacy_unlimited\<close>: never cancelled, no deadline.\<close>

definition source_env :: "vcd_library \<Rightarrow> opened_source \<Rightarrow> environment" where
  "source_env lib src = \<lparr>env_cancelled = (\<lambda>_. False), env_now = (\<lambda>n. n), env_source = lb_validated lib src\<rparr>"

text \<open>The answers are those of \<^verbatim>\<open>validate_source\<close> at each moment, as far as it returns.\<close>

definition validations :: "vcd_library \<Rightarrow> bool" where
  "validations lib \<longleftrightarrow> (\<forall>src n r. validate_source (lb_hash lib) (lb_files lib (Suc n)) src = Some r \<longrightarrow> lb_validated lib src n = r)"

text \<open>Reading through the buffer to the end; \<open>None\<close>: the reads do not end.\<close>

partial_function (option) read_rest :: "string \<Rightarrow> body_reader \<Rightarrow> (string \<times> vcd_error option) option" where
  "read_rest text br =
     (case fill_buf br of
        (Inl e, br') \<Rightarrow> Some (text, Some e)
      | (Inr bytes, br') \<Rightarrow>
          if bytes = [] then Some (text, None)
          else read_rest (text @ bytes) (consume (length bytes) br'))"

text \<open>The catalog, and the commands of a new body reader; a reader that is refused parses nothing.\<close>

definition opened_file :: "vcd_library \<Rightarrow> opened_source \<Rightarrow> opened_vcd" where
  "opened_file lib src =
     \<lparr>ov_catalog = ch_catalog (os_header src),
      ov_body = (case open_body_reader (lb_hash lib) (lb_files lib 1) src of
         Some (Inr br) \<Rightarrow> (case read_rest [] br of Some (text, e) \<Rightarrow> lb_commands lib text e | None \<Rightarrow> [])
       | _ \<Rightarrow> [])\<rparr>"

definition with_opened ::
    "vcd_library \<Rightarrow> string \<Rightarrow> (opened_source \<Rightarrow> (vcd_error + 'a) option) \<Rightarrow> (vcd_error + 'a) option" where
  "with_opened lib path query =
     (case open_default lib path of
        None \<Rightarrow> None
      | Some (Inl e) \<Rightarrow> Some (Inl e)
      | Some (Inr src) \<Rightarrow> query src)"

subsection \<open>The functions\<close>

definition extract_from_file ::
    "vcd_library \<Rightarrow> displays \<Rightarrow> string \<Rightarrow> string list \<Rightarrow> time_window \<Rightarrow> (vcd_error + time_value list) option" where
  "extract_from_file lib D path targets win =
     with_opened lib path (\<lambda>src. extract_time_values (source_env lib src) D (opened_file lib src) targets win)"

definition find_in_file ::
    "vcd_library \<Rightarrow> displays \<Rightarrow> string \<Rightarrow> string \<Rightarrow> target_value \<Rightarrow> nat \<Rightarrow> time_window
      \<Rightarrow> (vcd_error + time_value option \<times> u32) option" where
  "find_in_file lib D path sig target occurrence win =
     with_opened lib path (\<lambda>src. map_option (map_err into_vcd_error)
       (find_nth_occurrence (source_env lib src) D unlimited (opened_file lib src) 0 sig target occurrence win))"

definition toggles_in_file ::
    "vcd_library \<Rightarrow> displays \<Rightarrow> string \<Rightarrow> string list \<Rightarrow> time_window \<Rightarrow> (vcd_error + (string \<rightharpoonup> nat)) option" where
  "toggles_in_file lib D path targets win =
     with_opened lib path (\<lambda>src. map_option (map_err into_vcd_error)
       (count_toggles (source_env lib src) D unlimited (opened_file lib src) 0 targets win))"

definition list_signals_from_file :: "vcd_library \<Rightarrow> string \<Rightarrow> string option \<Rightarrow> (vcd_error + string list) option" where
  "list_signals_from_file lib path flt =
     with_opened lib path (\<lambda>src. Some (Inr (list_names (catalog_names (ch_catalog (os_header src))) flt)))"

text \<open>A new cache scans once, and the caller gets what the scan gives.\<close>

definition read_vcd_metadata :: "vcd_library \<Rightarrow> string \<Rightarrow> (vcd_error + vcd_meta) option" where
  "read_vcd_metadata lib path =
     with_opened lib path (\<lambda>src. Some
       (compute_metadata (source_env lib src) (ch_timescale (os_header src)) (opened_file lib src) 0))"

text \<open>The legacy view of a header, without an identity.\<close>

definition read_signals_with_offset ::
    "vcd_library \<Rightarrow> string \<Rightarrow> (vcd_error + signal list \<times> signal_index \<times> timescale option \<times> nat) option" where
  "read_signals_with_offset lib path =
     (case read_compact_header (lb_header lib) (ps_open (lb_files lib 0) path) new_handle of
        None \<Rightarrow> None
      | Some (Inl e, _) \<Rightarrow> Some (Inl e)
      | Some (Inr h, _) \<Rightarrow>
          map_option (\<lambda>parts. and_then parts (\<lambda>(signals, index). Inr (signals, index, ch_timescale h, ch_body_offset h)))
            (to_compatibility_parts (ch_catalog h)))"

definition read_signals_from_header ::
    "vcd_library \<Rightarrow> string \<Rightarrow> (vcd_error + signal list \<times> signal_index \<times> timescale option) option" where
  "read_signals_from_header lib path =
     map_option (\<lambda>r. and_then r (\<lambda>(signals, index, scale, _). Inr (signals, index, scale)))
       (read_signals_with_offset lib path)"

text \<open>The parser of a file from its start, and the legacy iterator over the body from a given offset.\<close>

definition commands_of :: "vcd_library \<Rightarrow> file_env \<Rightarrow> file_handle \<Rightarrow> (io_error + command) list option" where
  "commands_of lib env fh = map_option (\<lambda>(text, e). lb_commands lib text e)
     (read_rest [] \<lparr>br_env = env, br_handle = fh, br_buffer = []\<rparr>)"

definition tokenize_file :: "vcd_library \<Rightarrow> string \<Rightarrow> (vcd_error + (io_error + command) list) option" where
  "tokenize_file lib path =
     (case ps_open (lb_files lib 0) path of
        Inl e \<Rightarrow> Some (Inl (Io e))
      | Inr env \<Rightarrow> map_option Inr (commands_of lib env new_handle))"

definition time_value_iter_from_body ::
    "vcd_library \<Rightarrow> string \<Rightarrow> (id_code \<rightharpoonup> string list) \<Rightarrow> time_window \<Rightarrow> nat \<Rightarrow> (vcd_error + legacy_iter) option" where
  "time_value_iter_from_body lib path targets win offset =
     (case ps_open (lb_files lib 0) path of
        Inl e \<Rightarrow> Some (Inl (Io e))
      | Inr env \<Rightarrow>
          (case seek_start env offset new_handle of
             None \<Rightarrow> None
           | Some (Inl e, _) \<Rightarrow> Some (Inl e)
           | Some (Inr _, fh) \<Rightarrow> map_option (\<lambda>commands. Inr (legacy_new commands targets win)) (commands_of lib env fh)))"

subsection \<open>Undisturbed queries without limits\<close>

lemma no_limits: "max_commands unlimited = None" "max_rows unlimited = None" "max_result_bytes unlimited = None"
    "max_signals unlimited = None"
  by (simp_all add: unlimited_def)

lemma find_unlimited:
  assumes "quiet env unlimited" and "opened_signal ov sig = Some meta" and "1 \<le> occ"
    and "scan_error win (ov_body ov) = None"
  shows "find_nth_occurrence env D unlimited ov n sig target occ win = Some (Inr
    (let found = hits D target (rows_of D ov [sig] win) in
     if occ \<le> length found then Some (found ! (occ - 1)) else None, sm_size meta))"
  using find_result [of env D unlimited ov n sig target occ win] assms
  by (cases "the (find_nth_occurrence env D unlimited ov n sig target occ win)")
    (auto simp: no_limits Let_def)

lemma toggles_unlimited:
  assumes "quiet env unlimited" and "missing_targets ov targets = []" and "scan_error win (ov_body ov) = None"
  shows "count_toggles env D unlimited ov n targets win = Some (Inr (\<lambda>s. if s \<in> set targets
    then Some (toggles_from [] (printed D (signal_width (target_sizes ov targets) s) s (rows_of D ov targets win)))
    else None))"
  using toggles_result [of env D unlimited ov n targets win] assms
  by (cases "the (count_toggles env D unlimited ov n targets win)") (auto simp: no_limits)

subsection \<open>A file that keeps its content\<close>

text \<open>
  The path leads to a file with the content \<open>content\<close> at every moment.
\<close>

definition keeps :: "vcd_library \<Rightarrow> string \<Rightarrow> file_metadata \<Rightarrow> string \<Rightarrow> bool" where
  "keeps lib path m content \<longleftrightarrow>
     (\<exists>configured. configured_path (lb_files lib 0) path = Inr configured \<and>
        (\<forall>n. \<exists>env. ps_open (lb_files lib n) configured = Inr env \<and> steady env m content) \<and>
        (\<exists>canonical. ps_canonical (lb_files lib 0) configured = Inr canonical))"

text \<open>What the content stands for: an error, or a catalog, a time scale and the commands of the body.\<close>

definition file_meaning :: "vcd_library \<Rightarrow> string \<Rightarrow> vcd_error + timescale option \<times> opened_vcd" where
  "file_meaning lib content =
     (case header_region content of
        None \<Rightarrow> Inl MissingEndDefinitions
      | Some r \<Rightarrow> and_then (parse_compact_header (lb_header lib) r (length r)) (\<lambda>h.
          Inr (ch_timescale h, \<lparr>ov_catalog = ch_catalog h, ov_body = lb_commands lib (drop (length r) content) None\<rparr>)))"

lemma read_rest_fill:
  "fill_buf br = (Inr bytes, br1) \<Longrightarrow> read_rest acc br =
     (if bytes = [] then Some (acc, None) else read_rest (acc @ bytes) (consume (length bytes) br1))"
  by (subst read_rest.simps) simp

text \<open>One turn of reading to the end: the bytes are the next ones of the content.\<close>

lemma fill_next:
  assumes sync: "reader_synced m content br"
  obtains bytes br1 where "fill_buf br = (Inr bytes, br1)"
    and "drop (reader_position br) content = bytes @ drop (reader_position br + length bytes) content"
    and "bytes = [] \<Longrightarrow> drop (reader_position br) content = []"
    and "reader_synced m content (consume (length bytes) br1)"
    and "reader_position (consume (length bytes) br1) = reader_position br + length bytes"
proof -
  obtain r br1 where fill: "fill_buf br = (r, br1)" by (cases "fill_buf br")
  obtain bytes where r: "r = Inr bytes" "br_buffer br1 = bytes" "bytes = [] \<longrightarrow> length content \<le> reader_position br"
    using fill_steady [OF sync fill] by (elim exE conjE)
  have do1: "reader_do Fill br = br1" using fill by simp
  have s1: "reader_synced m content br1" using reader_do_synced(1) [OF sync, of Fill] do1 by simp
  have p1: "reader_position br1 = reader_position br" using reader_do_synced(3) [OF sync, of Fill] do1 by simp
  have do2: "reader_do (Consume (length bytes)) br1 = consume (length bytes) br1" using r(2) by simp
  have s2: "reader_synced m content (consume (length bytes) br1)"
    using reader_do_synced(1) [OF s1, of "Consume (length bytes)"] unfolding do2 .
  have p2: "reader_position (consume (length bytes) br1) = reader_position br + length bytes"
    using reader_do_synced(3) [OF s1, of "Consume (length bytes)"] p1 r(2) unfolding do2 by simp
  define rest where "rest = drop (fh_pos (br_handle br1)) content"
  have split: "drop (reader_position br) content = bytes @ rest"
    using reader_unread [OF s1] r(2) p1 by (simp add: unread_def rest_def)
  have "rest = drop (length bytes) (drop (reader_position br) content)" unfolding split by simp
  also have "\<dots> = drop (reader_position br + length bytes) content" by (simp only: drop_drop add.commute)
  finally have later: "rest = drop (reader_position br + length bytes) content" .
  show thesis
  proof (rule that)
    show "fill_buf br = (Inr bytes, br1)" using fill r(1) by simp
    show "drop (reader_position br) content = bytes @ drop (reader_position br + length bytes) content"
      using split unfolding later .
    show "drop (reader_position br) content = []" if "bytes = []" using r(3) that by simp
  qed (rule s2 p2)+
qed

lemma read_rest_steady:
  "reader_synced m content br \<Longrightarrow> read_rest acc br = Some (acc @ drop (reader_position br) content, None)"
proof (induction "length content - reader_position br" arbitrary: br acc rule: less_induct)
  case less
  obtain bytes br1 where fill: "fill_buf br = (Inr bytes, br1)"
    and rest: "drop (reader_position br) content = bytes @ drop (reader_position br + length bytes) content"
    and end_of: "bytes = [] \<Longrightarrow> drop (reader_position br) content = []"
    and sync: "reader_synced m content (consume (length bytes) br1)"
    and pos: "reader_position (consume (length bytes) br1) = reader_position br + length bytes"
    by (rule fill_next [OF less.prems]) (rule that)
  show ?case
  proof (cases "bytes = []")
    case True
    then show ?thesis by (simp add: read_rest_fill [OF fill] end_of)
  next
    case False
    have "length bytes \<le> length content - reader_position br"
      using arg_cong [OF rest, of length] by simp
    then have "length content - reader_position (consume (length bytes) br1) < length content - reader_position br"
      using False pos by (cases bytes) simp_all
    from less.hyps [OF this sync, of "acc @ bytes"] have "read_rest acc br =
        Some ((acc @ bytes) @ drop (reader_position br + length bytes) content, None)"
      using False by (simp only: read_rest_fill [OF fill] pos if_False)
    then show ?thesis by (simp only: rest append_assoc)
  qed
qed

text \<open>The legacy iterator over a file that keeps its content starts from what follows the offset.\<close>

lemma iter_from_body_steady:
  assumes "ps_open (lb_files lib 0) path = Inr env" and env: "steady env m content" and "offset \<le> length content"
  shows "time_value_iter_from_body lib path targets win offset =
    Some (Inr (legacy_new (lb_commands lib (drop offset content) None) targets win))"
proof -
  obtain fh where seek: "seek_start env offset new_handle = Some (Inr (), fh)" "fh_pos fh = offset"
    using steady_seek [OF env, of offset new_handle] by auto
  have "reader_synced m content \<lparr>br_env = env, br_handle = fh, br_buffer = []\<rparr>"
    using env seek(2) assms(3) by (simp add: reader_synced_def synced_def unread_def)
  from read_rest_steady [OF this, of "[]"] show ?thesis
    using assms(1) seek by (simp add: time_value_iter_from_body_def commands_of_def reader_position_def)
qed

lemma open_meaning:
  assumes keeps: "keeps lib path m content" and valid: "validations lib"
    and fresh: "generation_fresh (lb_counter lib) = (Some g, counter')"
  shows "case file_meaning lib content of
      Inl e \<Rightarrow> open_default lib path = Some (Inl e)
    | Inr (scale, ov) \<Rightarrow> \<exists>src. open_default lib path = Some (Inr src) \<and> ch_timescale (os_header src) = scale \<and>
        opened_file lib src = ov \<and> quiet (source_env lib src) unlimited"
proof -
  obtain configured canonical where path: "configured_path (lb_files lib 0) path = Inr configured"
      and files: "\<And>n. \<exists>env. ps_open (lb_files lib n) configured = Inr env \<and> steady env m content"
      and canonical: "ps_canonical (lb_files lib 0) configured = Inr canonical"
    using keeps by (auto simp: keeps_def)
  obtain env where env: "ps_open (lb_files lib 0) configured = Inr env" "steady env m content" using files by blast
  show ?thesis
  proof (cases "header_region content")
    case None
    obtain fh1 where "read_header_bytes_from_file env (new_handle\<lparr>fh_tick := fh_tick new_handle + 1\<rparr>) =
        Some (Inl MissingEndDefinitions, fh1)"
      using steady_header_bytes [OF env(2), of "new_handle\<lparr>fh_tick := fh_tick new_handle + 1\<rparr>"] None by auto
    then have "read_identified_compact_header (lb_hash lib) (lb_header lib) (Inr env) MetadataAndSamples new_handle =
        Some (Inl MissingEndDefinitions, fh1)"
      by (simp add: read_identified_compact_header_def fop_bind_def steady_metadata [OF env(2)])
    then show ?thesis using None path env by (simp add: file_meaning_def open_default_def open_with_options_def)
  next
    case (Some r)
    obtain i fh' where run: "read_identified_compact_header (lb_hash lib) (lb_header lib) (Inr env) MetadataAndSamples new_handle =
        Some (and_then (parse_compact_header (lb_header lib) r (length r)) (\<lambda>h. Inr \<lparr>ih_header = h, ih_identity = i\<rparr>), fh')"
      using identified_header_run [OF env(2) Some] by blast
    show ?thesis
    proof (cases "parse_compact_header (lb_header lib) r (length r)")
      case (Inl e)
      then show ?thesis using Some path env run by (simp add: file_meaning_def open_default_def open_with_options_def)
    next
      case (Inr h)
      then obtain src where opened: "open_with_options (lb_hash lib) (lb_header lib) (lb_files lib 0) (lb_counter lib) path MetadataAndSamples =
          Some (Inr src, counter')"
        using path env run canonical fresh by (simp add: open_with_options_def)
      note o = open_identifies [OF env(2) Some path env(1) opened]
      have header: "os_header src = h" using o(5) Inr by simp
      have reader: "\<exists>br. open_validated (lb_hash lib) (lb_files lib n) src = Some (Inr br) \<and>
          reader_synced m content br \<and> reader_position br = length r" for n
        using files [of n] identified_reader [OF o(1)] o(2,3) by auto
      then have "validate_source (lb_hash lib) (lb_files lib n) src = Some (Inr ())" for n
        by (fastforce simp: validate_source_def)
      then have "lb_validated lib src n = Inr ()" for n using valid by (simp add: validations_def)
      then have "quiet (source_env lib src) unlimited"
        by (simp add: quiet_def source_env_def check_def unlimited_def)
      moreover have "opened_file lib src = \<lparr>ov_catalog = ch_catalog h, ov_body = lb_commands lib (drop (length r) content) None\<rparr>"
        using reader [of 1] header by (auto simp: opened_file_def open_body_reader_def read_rest_steady)
      ultimately show ?thesis using Some Inr opened header by (simp add: file_meaning_def open_default_def)
    qed
  qed
qed

text \<open>
  C40. The functions on paths say what the content of the file means. Over a file that keeps its
  content, each of them returns: with the error of the header, when it has no end, does not parse or
  makes no catalog; otherwise extraction gives the missing names, the parser's error or all the rows
  of the body in the window, the search the n-th hit among them, the toggle counts those of the
  printed rows, the listing the names of the catalog, and the metadata the times of the body.
\<close>

theorem library_reads_the_file:
  assumes "keeps lib path m content" and "validations lib"
    and "generation_fresh (lb_counter lib) = (Some g, counter')"
  shows "case file_meaning lib content of
      Inl e \<Rightarrow>
        extract_from_file lib D path targets win = Some (Inl e) \<and>
        find_in_file lib D path sig target occ win = Some (Inl e) \<and>
        toggles_in_file lib D path targets win = Some (Inl e) \<and>
        list_signals_from_file lib path flt = Some (Inl e) \<and>
        read_vcd_metadata lib path = Some (Inl e)
    | Inr (scale, ov) \<Rightarrow>
        extract_from_file lib D path targets win = Some
          (if missing_targets ov targets \<noteq> [] then Inl (MissingSignals (join '', '' (missing_targets ov targets)))
           else case scan_error win (ov_body ov) of
               Some io \<Rightarrow> Inl (Io io)
             | None \<Rightarrow> Inr (rows_of D ov targets win)) \<and>
        (case opened_signal ov sig of
           Some meta \<Rightarrow> if 1 \<le> occ \<and> scan_error win (ov_body ov) = None then
             find_in_file lib D path sig target occ win = Some (Inr
               (let found = hits D target (rows_of D ov [sig] win) in
                if occ \<le> length found then Some (found ! (occ - 1)) else None, sm_size meta)) else True
         | None \<Rightarrow> True) \<and>
        (if missing_targets ov targets = [] \<and> scan_error win (ov_body ov) = None then
           toggles_in_file lib D path targets win = Some (Inr (\<lambda>s. if s \<in> set targets
             then Some (toggles_from [] (printed D (signal_width (target_sizes ov targets) s) s (rows_of D ov targets win)))
             else None)) else True) \<and>
        list_signals_from_file lib path flt = Some (Inr (list_names (catalog_names (ov_catalog ov)) flt)) \<and>
        read_vcd_metadata lib path = Some (case first_error (ov_body ov) of
           Some e \<Rightarrow> Inl (Io e)
         | None \<Rightarrow> (let ts = noted_times 0 (body_commands (ov_body ov)) in
             Inr \<lparr>vm_timescale = scale, vm_signal_count = catalog_len (ov_catalog ov),
               vm_start = (if ts = [] then 0 else hd ts), vm_end = (if ts = [] then 0 else last ts)\<rparr>))"
proof (cases "file_meaning lib content")
  case (Inl e)
  with open_meaning [OF assms] have "open_default lib path = Some (Inl e)" by simp
  then show ?thesis using Inl
    by (simp add: extract_from_file_def find_in_file_def toggles_in_file_def list_signals_from_file_def
        read_vcd_metadata_def with_opened_def)
next
  case (Inr meaning)
  obtain scale ov where ov: "meaning = (scale, ov)" by (cases meaning)
  obtain src where src: "open_default lib path = Some (Inr src)" "ch_timescale (os_header src) = scale"
      "opened_file lib src = ov" and q: "quiet (source_env lib src) unlimited"
    using open_meaning [OF assms] Inr ov by auto
  have cat: "ch_catalog (os_header src) = ov_catalog ov" using src(3) by (auto simp: opened_file_def)
  have "extract_from_file lib D path targets win = extract_time_values (source_env lib src) D ov targets win"
    by (simp add: extract_from_file_def with_opened_def src)
  moreover have "find_in_file lib D path sig target occ win = map_option (map_err into_vcd_error)
      (find_nth_occurrence (source_env lib src) D unlimited ov 0 sig target occ win)"
    by (simp add: find_in_file_def with_opened_def src)
  moreover have "toggles_in_file lib D path targets win = map_option (map_err into_vcd_error)
      (count_toggles (source_env lib src) D unlimited ov 0 targets win)"
    by (simp add: toggles_in_file_def with_opened_def src)
  moreover have "list_signals_from_file lib path flt = Some (Inr (list_names (catalog_names (ov_catalog ov)) flt))"
    by (simp add: list_signals_from_file_def with_opened_def src cat)
  moreover have "read_vcd_metadata lib path = Some (compute_metadata (source_env lib src) scale ov 0)"
    by (simp add: read_vcd_metadata_def with_opened_def src)
  ultimately show ?thesis
    using find_unlimited [OF q] toggles_unlimited [OF q]
    by (auto simp: Inr ov extract_time_values_exact [OF q] compute_metadata_quiet [OF q] Let_def split: option.splits)
qed

text \<open>The file of the witnesses of Opened, with the header and the body of the sample dump.\<close>

definition sample_library :: vcd_library where
  "sample_library = \<lparr>lb_hash = id, lb_header = (\<lambda>text. Inr (None, sample_header)),
     lb_commands = (\<lambda>text e. if text = [CHR ''#'', CHR ''0'', CHR 0x0A] then ov_body sample_opened else []),
     lb_files = (\<lambda>_. sample_files), lb_counter = 1,
     lb_validated = (\<lambda>src _. case validate_source id sample_files src of Some r \<Rightarrow> r | None \<Rightarrow> Inr ())\<rparr>"

lemma sample_keeps:
  "keeps sample_library ''a.vcd'' \<lparr>md_len = 45, md_modified = None, md_device = 1, md_inode = 2\<rparr> sample_text"
proof -
  have "steady (constant_file \<lparr>md_len = 45, md_modified = None, md_device = 1, md_inode = 2\<rparr> sample_text)
      \<lparr>md_len = 45, md_modified = None, md_device = 1, md_inode = 2\<rparr> sample_text"
    by (rule steady_constant) (simp add: sample_text_def)
  then show ?thesis
    by (simp add: keeps_def sample_library_def configured_path_def sample_files_def is_absolute_def starts_with_def
        join_path_def)
qed

lemma sample_meaning: "file_meaning sample_library sample_text = Inr (None, sample_opened)"
proof -
  let ?r = "''$var wire 1 ! a $end'' @ [CHR 0x0A] @ ''$enddefinitions $end'' @ [CHR 0x0A]"
  have "lb_header sample_library = (\<lambda>text. Inr (None, sample_header))" by (simp add: sample_library_def)
  then have "parse_compact_header (lb_header sample_library) ?r (length ?r) =
      Inr \<lparr>ch_catalog = ov_catalog sample_opened, ch_timescale = None, ch_body_offset = length ?r\<rparr>"
    by (simp add: parse_compact_header_def sample_opened_catalog)
  moreover have "lb_commands sample_library (drop (length ?r) sample_text) None = ov_body sample_opened"
    by (simp add: sample_library_def sample_text_def)
  ultimately show ?thesis by (simp only: file_meaning_def sample_region option.case) simp
qed

lemma library_reads_the_file_witness:
  "extract_from_file sample_library plain_displays ''a.vcd'' [''top.cpu.clk''] all_time =
     Some (Inr (rows_of plain_displays sample_opened [''top.cpu.clk''] all_time)) \<and>
   list_signals_from_file sample_library ''a.vcd'' None = Some (Inr (catalog_names (ov_catalog sample_opened))) \<and>
   read_vcd_metadata sample_library ''a.vcd'' =
     Some (Inr \<lparr>vm_timescale = None, vm_signal_count = catalog_len (ov_catalog sample_opened), vm_start = 0, vm_end = 9\<rparr>)"
proof -
  have v: "validations sample_library" by (auto simp: validations_def sample_library_def split: option.splits)
  have g: "generation_fresh (lb_counter sample_library) = (Some 1, 2)"
    by (simp add: sample_library_def generation_fresh_def)
  have free: "scan_error all_time (ov_body sample_opened) = None"
    by (simp add: sample_opened_def all_time_def)
  note facts = library_reads_the_file [OF sample_keeps v g, of plain_displays "[''top.cpu.clk'']" all_time
      "''top.cpu.clk''" "TargetText []" 1 None, unfolded sample_meaning sum.case prod.case]
  show ?thesis
    using facts free sample_bindings(2) by (simp add: sample_opened_def first_error_def list_names_def)
qed

end
