(* ===== verification/Library_Compare.thy ===== *)
theory Library_Compare
  imports Library_Api Compare
begin

text \<open>
  \<^verbatim>\<open>compare_vcd_files\<close> of src/lib.rs: two paths are opened, one after the other, and compared. An opened
  opd is a source of timelines in the sense of Compare, whatever happens to the other file.
\<close>

subsection \<open>An opened opd as a provider\<close>

text \<open>The context of the comparison, and the validation of the provider's own file.\<close>

definition own_env :: "vcd_library \<times> opened_source \<Rightarrow> environment \<Rightarrow> environment" where
  "own_env opd env = env\<lparr>env_source := lb_validated (fst opd) (snd opd)\<rparr>"

definition display_opened :: "vcd_library \<times> opened_source \<Rightarrow> string \<times> opened_vcd" where
  "display_opened opd = (os_display (snd opd), opened_file (fst opd) (snd opd))"

definition file_provider :: "displays \<Rightarrow> vcd_library \<times> opened_source \<Rightarrow> provider" where
  "file_provider D opd =
     (let p = vcd_provider D (display_opened opd) in
      p\<lparr>pv_collect := (\<lambda>env. pv_collect p (own_env opd env)),
        pv_validate := (\<lambda>env. pv_validate p (own_env opd env))\<rparr>)"

definition free_context :: environment where
  "free_context = \<lparr>env_cancelled = (\<lambda>_. False), env_now = (\<lambda>n. n), env_source = (\<lambda>_. Inr ())\<rparr>"

text \<open>
  \<open>lib1\<close> and \<open>lib2\<close> are what the first and the second opd meet; the second takes the counter as
  the first leaves it.
\<close>

definition compare_vcd_files ::
    "vcd_library \<Rightarrow> vcd_library \<Rightarrow> displays \<Rightarrow> string \<Rightarrow> string \<Rightarrow> comparison_options
      \<Rightarrow> (vcd_error + comparison_result) option" where
  "compare_vcd_files lib1 lib2 D path1 path2 opts =
     (case open_with_options (lb_hash lib1) (lb_header lib1) (lb_files lib1 0) (lb_counter lib1) path1 MetadataAndSamples of
        None \<Rightarrow> None
      | Some (Inl e, _) \<Rightarrow> Some (Inl e)
      | Some (Inr first, counter) \<Rightarrow>
          with_opened (lib2\<lparr>lb_counter := counter\<rparr>) path2 (\<lambda>second. map_option (map_err into_vcd_error)
            (compare_providers free_context D unlimited 0
               (file_provider D (lib1, first)) (file_provider D (lib2, second)) opts)))"

subsection \<open>The contract of a provider\<close>

definition file_valid :: "vcd_library \<times> opened_source \<Rightarrow> bool" where
  "file_valid opd \<longleftrightarrow> vcd_valid (display_opened opd) \<and> (\<forall>n. lb_validated (fst opd) (snd opd) n = Inr ())"

lemma own_env_check [simp]: "check (own_env opd env) q n = check env q n"
  by (cases "deadline q") (simp_all add: own_env_def check_def)

lemma own_env_source: "env_source (own_env opd env) = lb_validated (fst opd) (snd opd)"
  by (simp add: own_env_def)

lemma own_env_quiet: "file_valid opd \<Longrightarrow> quiet env q \<Longrightarrow> quiet (own_env opd env) q"
  unfolding quiet_def own_env_check own_env_source file_valid_def by blast

lemma file_provider_simps [simp]:
  "pv_names (file_provider D opd) = pv_names (vcd_provider D (display_opened opd))"
  "pv_display (file_provider D opd) = pv_display (vcd_provider D (display_opened opd))"
  "pv_collect (file_provider D opd) env = pv_collect (vcd_provider D (display_opened opd)) (own_env opd env)"
  "pv_validate (file_provider D opd) env = pv_validate (vcd_provider D (display_opened opd)) (own_env opd env)"
  by (simp_all add: file_provider_def Let_def)

interpretation on_file: timeline_source "file_provider D" file_valid "\<lambda>opd. vcd_truth D (display_opened opd)"
    "\<lambda>opd. vcd_readable (display_opened opd)" for D
proof
  fix opd :: "vcd_library \<times> opened_source" and env q n signals opts tls n'
  assume v: "file_valid opd"
  then have w: "vcd_valid (display_opened opd)" by (simp add: file_valid_def)
  show "distinct (pv_names (file_provider D opd))" using vcd.names_distinct [OF w] by simp
  show "\<exists>r n'. pv_collect (file_provider D opd) env q n signals opts = Some (r, n')"
    using vcd.collect_returns [OF w] by simp
  show "tls = (\<lambda>x. if x \<in> set signals then Some (vcd_truth D (display_opened opd) x (co_window opts)) else None)"
    if "distinct signals" "set signals \<subseteq> set (pv_names (file_provider D opd))"
      "pv_collect (file_provider D opd) env q n signals opts = Some (Inr tls, n')"
    using that by (intro vcd.collect_right [OF w]) simp_all
  show "\<exists>tls n'. pv_collect (file_provider D opd) env q n signals opts = Some (Inr tls, n')"
    if "quiet env q" "free_limits q" "vcd_readable (display_opened opd) (co_window opts)"
      "set signals \<subseteq> set (pv_names (file_provider D opd))"
    using vcd.collect_quiet [OF w own_env_quiet [OF v that(1)] that(2,3)] that(4) by simp
  show "pv_validate (file_provider D opd) env q n = Inr ()" if "quiet env q"
    using vcd.validate_quiet [OF w own_env_quiet [OF v that]] by simp
qed

interpretation on_files: timeline_pair "file_provider D" file_valid "\<lambda>opd. vcd_truth D (display_opened opd)"
    "\<lambda>opd. vcd_readable (display_opened opd)"
    "file_provider D" file_valid "\<lambda>opd. vcd_truth D (display_opened opd)"
    "\<lambda>opd. vcd_readable (display_opened opd)" for D
  by unfold_locales

subsection \<open>Comparing the contents of two files\<close>

lemma meaning_built: "file_meaning lib content = Inr (scale, ov) \<Longrightarrow> built (ov_catalog ov)"
  using from_scope_items_represents
  by (fastforce simp: file_meaning_def parse_compact_header_def built_def and_then_eq_Inr split: option.splits)

lemma open_default_counter:
  "open_default lib path = Some (Inr src) \<Longrightarrow> os_display src = path \<and>
     open_with_options (lb_hash lib) (lb_header lib) (lb_files lib 0) (lb_counter lib) path MetadataAndSamples =
       Some (Inr src, snd (generation_fresh (lb_counter lib)))"
  by (auto simp: open_default_def open_with_options_def split: option.splits sum.splits prod.splits)

text \<open>What a file that keeps its content is, once opened.\<close>

lemma kept_file:
  assumes "keeps lib path m content" and "validations lib"
    and "generation_fresh (lb_counter lib) = (Some g, counter')"
    and meaning: "file_meaning lib content = Inr (scale, ov)"
  obtains src where "open_default lib path = Some (Inr src)" and "display_opened (lib, src) = (path, ov)"
    and "file_valid (lib, src)"
proof -
  obtain src where src: "open_default lib path = Some (Inr src)" "opened_file lib src = ov"
      and q: "quiet (source_env lib src) unlimited"
    using open_meaning [OF assms(1-3)] meaning by auto
  then have "display_opened (lib, src) = (path, ov)"
    using open_default_counter [OF src(1)] by (simp add: display_opened_def)
  moreover have "lb_validated lib src n = Inr ()" for n using q by (simp add: quiet_def source_env_def)
  ultimately show thesis using that src(1) meaning_built [OF meaning] by (simp add: file_valid_def vcd_valid_def)
qed
lemma open_default_error:
  "open_default lib path = Some (Inl e) \<Longrightarrow> \<exists>c.
     open_with_options (lb_hash lib) (lb_header lib) (lb_files lib 0) (lb_counter lib) path MetadataAndSamples =
       Some (Inl e, c)"
  by (auto simp: open_default_def)

lemma counter_opened_file [simp]: "opened_file (lib\<lparr>lb_counter := c\<rparr>) src = opened_file lib src"
  by (simp add: opened_file_def split: option.split sum.split)

lemma counter_unread [simp]:
  "keeps (lib\<lparr>lb_counter := c\<rparr>) path m content = keeps lib path m content"
  "validations (lib\<lparr>lb_counter := c\<rparr>) = validations lib"
  "file_valid (lib\<lparr>lb_counter := c\<rparr>, src) = file_valid (lib, src)"
  "display_opened (lib\<lparr>lb_counter := c\<rparr>, src) = display_opened (lib, src)"
  by (simp_all add: keeps_def validations_def file_valid_def display_opened_def)

lemma counter_meaning [simp]: "file_meaning (lib\<lparr>lb_counter := c\<rparr>) content = file_meaning lib content"
  by (simp add: file_meaning_def and_then_def split: option.split sum.split)

lemma faithful_result_names:
  "pv_names p1 = pv_names p1' \<Longrightarrow> pv_names p2 = pv_names p2' \<Longrightarrow>
     pv_display p1 = pv_display p1' \<Longrightarrow> pv_display p2 = pv_display p2' \<Longrightarrow>
     faithful_result D opts p1 p2 t1 t2 r = faithful_result D opts p1' p2' t1 t2 r"
  by (simp add: faithful_result_def names_to_compare_def common_names_def)

text \<open>
  The comparison of two paths that keep their contents: the error of the first header, else that of
  the second, else the comparison of the two dumps as Compare has it, when both bodies parse in the
  window and their timestamps do not decrease.
\<close>

lemma compare_vcd_files_right:
  assumes first: "keeps lib1 path1 m1 content1" "validations lib1" "generation_fresh (lb_counter lib1) = (Some g1, c1)"
    and second: "keeps lib2 path2 m2 content2" "validations lib2" "generation_fresh c1 = (Some g2, c2)"
  shows "case file_meaning lib1 content1 of
      Inl e \<Rightarrow> compare_vcd_files lib1 lib2 D path1 path2 opts = Some (Inl e)
    | Inr (_, ov1) \<Rightarrow> (case file_meaning lib2 content2 of
        Inl e \<Rightarrow> compare_vcd_files lib1 lib2 D path1 path2 opts = Some (Inl e)
      | Inr (_, ov2) \<Rightarrow>
          scan_error (co_window opts) (ov_body ov1) = None \<and> scan_error (co_window opts) (ov_body ov2) = None \<and>
          sorted (timestamps (ov_body ov1)) \<and> sorted (timestamps (ov_body ov2)) \<longrightarrow>
          (\<exists>r. compare_vcd_files lib1 lib2 D path1 path2 opts = Some (Inr r) \<and>
            faithful_result D (at_least_one opts) (vcd_provider D (path1, ov1)) (vcd_provider D (path2, ov2))
              (\<lambda>s. before_last (vcd_truth D (path1, ov1) s (co_window opts)))
              (\<lambda>s. before_last (vcd_truth D (path2, ov2) s (co_window opts))) r))"
proof (cases "file_meaning lib1 content1")
  case (Inl e)
  then have "open_default lib1 path1 = Some (Inl e)" using open_meaning [OF first] by simp
  then show ?thesis using Inl by (auto simp: compare_vcd_files_def dest: open_default_error)
next
  case (Inr meaning1)
  obtain scale1 ov1 where m1: "file_meaning lib1 content1 = Inr (scale1, ov1)" using Inr by (cases meaning1) simp
  obtain src1 where src1: "open_default lib1 path1 = Some (Inr src1)" "display_opened (lib1, src1) = (path1, ov1)"
      "file_valid (lib1, src1)"
    by (rule kept_file [OF first m1]) (rule that)
  let ?lib2 = "lib2\<lparr>lb_counter := c1\<rparr>"
  have later: "keeps ?lib2 path2 m2 content2" "validations ?lib2" "generation_fresh (lb_counter ?lib2) = (Some g2, c2)"
    using second by simp_all
  have run: "compare_vcd_files lib1 lib2 D path1 path2 opts =
      with_opened ?lib2 path2 (\<lambda>src2. map_option (map_err into_vcd_error)
        (compare_providers free_context D unlimited 0 (file_provider D (lib1, src1)) (file_provider D (lib2, src2)) opts))"
    using open_default_counter [OF src1(1)] first(3) by (simp add: compare_vcd_files_def)
  show ?thesis
  proof (cases "file_meaning lib2 content2")
    case (Inl e)
    then have "open_default ?lib2 path2 = Some (Inl e)" using open_meaning [OF later] by simp
    then show ?thesis using Inl m1 run by (simp add: with_opened_def)
  next
    case (Inr meaning2)
    obtain scale2 ov2 where m2: "file_meaning ?lib2 content2 = Inr (scale2, ov2)" using Inr by (cases meaning2) simp
    obtain src2 where src2: "open_default ?lib2 path2 = Some (Inr src2)" "display_opened (lib2, src2) = (path2, ov2)"
        "file_valid (lib2, src2)"
      by (rule kept_file [OF later m2]) (simp add: that)
    have q: "quiet free_context unlimited" "free_limits unlimited"
      by (simp_all add: quiet_def free_context_def check_def unlimited_def free_limits_def)
    have "\<exists>r. compare_vcd_files lib1 lib2 D path1 path2 opts = Some (Inr r) \<and>
        faithful_result D (at_least_one opts) (vcd_provider D (path1, ov1)) (vcd_provider D (path2, ov2))
          (\<lambda>s. before_last (vcd_truth D (path1, ov1) s (co_window opts)))
          (\<lambda>s. before_last (vcd_truth D (path2, ov2) s (co_window opts))) r"
      if readable: "scan_error (co_window opts) (ov_body ov1) = None" "scan_error (co_window opts) (ov_body ov2) = None"
        and ordered: "sorted (timestamps (ov_body ov1))" "sorted (timestamps (ov_body ov2))"
    proof -
      obtain r where r: "compare_providers free_context D unlimited 0
          (file_provider D (lib1, src1)) (file_provider D (lib2, src2)) opts = Some (Inr r)"
        using on_files.compare_quiet [OF src1(3) src2(3) q] readable
        by (fastforce simp: src1(2) src2(2) vcd_readable_def)
      have "faithful_result D (at_least_one opts) (file_provider D (lib1, src1)) (file_provider D (lib2, src2))
          (\<lambda>s. before_last (vcd_truth D (path1, ov1) s (co_window opts)))
          (\<lambda>s. before_last (vcd_truth D (path2, ov2) s (co_window opts))) r"
        using on_files.compare_right [OF src1(3) src2(3) r] ordered vcd_truth_ordered by (simp add: src1(2) src2(2))
      then show ?thesis using run r src2(1)
        by (subst faithful_result_names [of _ "file_provider D (lib1, src1)" _ "file_provider D (lib2, src2)"])
          (simp_all add: with_opened_def src1(2) src2(2))
    qed
    then show ?thesis using m1 m2 by simp
  qed
qed

end
