(* ===== verification/Spec2Isabelle.thy ===== *)
theory Spec2Isabelle
  imports Stream_Failure Listener_Race Server_App Scheduler_Stop Trace Python_Api Library_Compare
begin

text \<open>
  Verification of the VCD tools: a library that reads value change dumps (VCD, and FST through the
  crate fst-reader), the queries over them, a command line, a trace writer, and a server that answers
  the queries over a Unix socket in a line protocol of JSON objects.

  \<^bold>\<open>The program and the theories.\<close> Opening a file (src/opened/mod.rs, src/header.rs,
  src/opened/identity.rs) reads the header through a buffered reader, repairs its scope names, builds
  the catalog of signals (src/catalog.rs) and records the identity of the file. A query
  (src/query) resolves names against the catalog, walks the changes of the body as a bounded stream,
  and validates the file again when it ends; its limits, its deadline and its cancellation come from
  a context. The server (src/server) decodes requests (protocol.rs), registers and schedules them
  (runtime.rs), answers them in frames through a sink (runtime.rs, service.rs), and is assembled in
  app.rs behind the socket of listener.rs.

  \<^item> Prelude: sums as results (\<open>and_then\<close>, \<open>map_err\<close>, \<open>ensure\<close>), options and lists; the
    collections of facts the components share.
  \<^item> Strings: strings as lists of bytes, decimal and hexadecimal texts, trimming and searching.
  \<^item> Errors, Values (src/lib.rs): the error values with their texts; times, values of changes, target
    values and their formats.
  \<^item> Query (src/query/mod.rs): codes and texts of query errors, their conversions, limits and the
    check of a context.
  \<^item> Iteration: Rust's \<^verbatim>\<open>Iterator\<close> as a function to an item and a state; \<open>iterate\<close> is a
    \<^verbatim>\<open>for\<close> loop over it, \<open>drain\<close> what a consumer sees that stops at an error, \<open>deliveries\<close> all
    it delivers, errors included. The locale \<open>rust_iterator\<close> is the contract of an
    iterator that ends; Stream and Extract interpret it.
  \<^item> Catalog (src/catalog.rs): the builder with its scope tree, keys, aliases, the legacy index. The
    locale \<open>signal_names\<close> is the lookup contract that Catalog and Fst_Visit interpret.
  \<^item> Stream, Extract, Ops (src/query/stream.rs, extract.rs, ops.rs): the change stream, the rows, and
    the queries over them. Time_Groups: rows grouped by time, for the two writers.
  \<^item> Compare (src/query/compare.rs): the comparison of two files. The locales \<open>timeline_source\<close> and
    \<open>timeline_pair\<close> are the contract of a provider of timelines; VCD, FST and the facade interpret them.
  \<^item> Metadata_Cache (src/opened/mod.rs): the shared cache of the time bounds, and the scans.
  \<^item> Identity, Header, Opened (src/opened/identity.rs, header.rs, mod.rs): fingerprints and validation,
    the header region and its repair, opening and the validated body reader.
  \<^item> Fst, Fst_Visit (src/opened/fst.rs): the preflight of the hierarchy, opening, the bounded visit.
  \<^item> Waveform (src/waveform.rs, src/opened/waveform.rs): the format-independent facade.
  \<^item> Json, Protocol, Requests, Frames (src/server/protocol.rs): JSON values, bounded errors, lines,
    requests, response frames.
  \<^item> Output, Response_Stream, Service, Service_Streams (src/server/runtime.rs, service.rs): the frame
    encoder, the sink with its lifecycle, the jobs, the methods and the frames they send;
    Stream_Failure: with which error the response of a cut stream ends. The locale
    \<open>dispatcher\<close> is what a job needs of the service, which interprets it.
  \<^item> Connection, Connection_Invariant (src/server/runtime.rs): the runtime as a machine whose events
    are the steps of readers, workers and guards, with its reachable states. Scheduler_Stop: dropping
    the scheduler, through the locale \<open>ending_machine\<close> of machines that come to rest.
  \<^item> Listener (src/server/listener.rs): the socket and its guard over a file system that others change,
    with a log of the system calls. Listener_Race: what the checks achieve whatever others do.
  \<^item> Server_App (src/server/app.rs): the accept loop beside the runtime with its teardown.
  \<^item> Library_Api, Library_Compare (src/lib.rs): the functions on paths, from the bytes of a file to the
    answers; an opened file is a provider of timelines of its own.
  \<^item> Python_Api (src/python.rs): the functions of the Python module, and their agreement with the commands.
  \<^item> Trace (src/bin/vcd2trace.rs), Cli (src/main.rs): the two programs.

  \<^bold>\<open>How the code is modelled.\<close> A struct is a record, an enum a datatype, a machine integer of
  the data a word; a \<^verbatim>\<open>usize\<close> that counts items of memory is a natural number. Strings are lists of
  bytes. \<^verbatim>\<open>Result\<close> is a sum with the error on the left, and every early return is a branch. The
  functions compute, and the witnesses evaluate them.

  What the program meets outside is an argument. An environment answers at numbered moments (ticks,
  polls, turns): whether the request is cancelled, what the clock shows, what the file's metadata is,
  what a read, a send or an accept gives; a theorem over all environments covers all timings. The
  body of a file is the list of results its parser delivers. A file is a \<open>file_env\<close>: metadata and reads
  that may be short, may fail and may change from one moment to the next. Shared state under a lock is
  a state machine of its critical sections (the metadata cache, the runtime), so that the theorems hold
  for every interleaving. Not in src/, and parameters: BLAKE3, the parsers of the vcd and serde_json
  crates, fst-reader, the text of floating-point values, and the operating system.

  \<^bold>\<open>Loops.\<close> A loop over a list is structural recursion. A loop whose end depends on the environment
  (sending, the scan permit, reading a file, the accept loop, joining a thread, the writer) is a
  \<open>partial_function\<close>, where \<open>None\<close> means that it does not end; that it ends is a theorem of its own
  (\<open>job_ends\<close>, \<open>identified_header_correct\<close>, \<open>body_reader_reads_body\<close>, \<open>accept_loop_ends\<close>,
  \<open>join_thread_ends\<close>, \<open>dropping_ends_the_workers\<close>), under conditions on the environment that are
  written out. No fuel is used, but the loop that fixes the byte count of an end frame has the 32
  rounds of the code, and \<open>end_frame_counts_itself\<close> shows that they are enough.
  Chains of scopes are followed by a partial function, total for the catalogs the builder makes.

  \<^bold>\<open>What the lemmas show.\<close> Data: a catalog built from a header has exactly its signals, and its
  lookups are right; the repair of a header changes nothing but scope names and what follows them on
  their line; decoding a request inverts writing it. Queries: in every environment a stream delivers a
  prefix of the right changes and says why it stopped, and an undisturbed one delivers all; budgets
  are exact to the item; the find, toggle, metadata and comparison queries are what a plain definition
  over the lists says, for both formats. Two corners of the
  code are part of the statements: the comparison takes the last time for the end of a timeline and a
  maximum of 0 for 1, and the legacy iterator goes on after an error, where the stream ends. Files: an accepted handle has the content that was opened, as
  far as it is hashed; a body reader of an unchanged file reads its body. Server: every job ends with
  a terminal frame or a disconnection; a stream that could not be sent to its end is reported as
  INTERNAL, whatever stopped it; errors and frames are within their bounds; the runtime keeps
  its limits and its counters in every reachable state and refines a registry of request ids; the
  listener unlinks and links only what its checks found there just before, whatever other processes
  do, and when none uses its paths it takes the place of a dead socket of the same user only; then a
  server that returns has nothing left behind. Programs: the table of extract and the lines of the trace are those of the
  grouped changes.

  \<^bold>\<open>Limits.\<close> Case conversion and white space are those of ASCII where the code's are Unicode's.
  Sorting of names is by bytes, as in Rust. Hash maps are functions or association lists, and where the
  code iterates over one, the order is a parameter or is shown not to matter. Memory estimates
  (capacities of the allocator) are not modelled. System calls of Listener are atomic: binding and
  listening are one call, and the listening socket is the live flag of its directory entry. Between a
  check and the call it guards, others may act; no theorem says they do not. The end of a job, which
  drops its sender and then its guard, is one step of the runtime (\<open>finish_job\<close>).

  \<^bold>\<open>Not modelled.\<close> The conversions of PyO3 and the registration of the Python module, the parsing of
  the command line's arguments (clap), logging, JSON printing, and the signal handler's body (one
  store to the shutdown flag) belong to crates outside. The result structs of ping, describe and
  metadata are sent as the documents they become. The gauges of blocked output and of the largest
  frame, the time limits of sockets, and the hooks and modules of the tests are left out.
\<close>

end
